(* ===== verification/Prelude.thy ===== *)
theory Prelude
  imports Main "HOL-Library.Word" "HOL-Library.Multiset" "HOL-Library.Signed_Division"
begin

text \<open>
  Shared vocabulary of the development: the machine types of the C++ sources (x86-64, LP64),
  the convention for undefined behaviour, and the generic lemmas on digit lists, bit fields,
  bytes and lists on which the component theories rest.

  Conventions used in every component theory:
  \<^item> a C++ function that reports success or failure by an \<open>int\<close> keeps that code as an
    \<open>int\<close> component of its result (\<open>0\<close> is success, as in the sources);
  \<^item> \<open>None\<close> of a result of type \<open>'a cxx\<close> is undefined behaviour of the C++ program
    (an access outside an array, a null or end-iterator dereference, a failed \<open>assert\<close>)
    or its end by an exception that nobody catches;
  \<^item> \<open>int\<close> arithmetic on counters, lengths and positions is exact: the model applies to
    runs in which such a value stays within 32 bits; conversions that narrow a value, unsigned
    wrap-around and bit operations are written out;
  \<^item> \<open>sdiv\<close> is the integer division of C++, which truncates towards zero;
  \<^item> logging, timing and release of memory have no counterpart in the model.
\<close>

unbundle bit_operations_syntax

type_synonym u8 = "8 word"
type_synonym u16 = "16 word"
type_synonym u32 = "32 word"
type_synonym u64 = "64 word"

type_synonym 'a cxx = "'a option"

text \<open>\<open>char\<close> is a signed byte.\<close>

definition schar :: "char \<Rightarrow> int" where
  "schar c = (if of_char c < (128::nat) then int (of_char c) else int (of_char c) - 256)"

text \<open>Collections: unfolding rules for byte images, and preservation rules of invariants.\<close>

named_theorems byte_simps \<open>rewrite rules for byte images and their lengths\<close>
named_theorems keeps \<open>operations preserve the invariant of their component\<close>

subsection \<open>Digit lists\<close>

text \<open>\<open>digits B ds\<close> is the number with base-\<open>B\<close> digits \<open>ds\<close>, least significant first.\<close>

primrec digits :: "nat \<Rightarrow> nat list \<Rightarrow> nat" where
  "digits B [] = 0"
| "digits B (d # ds) = d + B * digits B ds"

lemma digits_div: "d < B \<Longrightarrow> digits B (d # ds) div B = digits B ds"
  by simp

lemma digits_mod: "d < B \<Longrightarrow> digits B (d # ds) mod B = d"
  by simp

lemma digits_add:
  "length ds = length es \<Longrightarrow> digits B ds + digits B es = digits B (map2 (+) ds es)"
  by (induction ds es rule: list_induct2) (simp_all add: algebra_simps flip: distrib_left)

lemma digits_bound:
  assumes "0 < B" and "\<forall>d \<in> set ds. d < B"
  shows "digits B ds < B ^ length ds"
  using assms(2)
proof (induction ds)
  case Nil
  then show ?case by simp
next
  case (Cons d ds)
  then have d: "d < B" and IH: "digits B ds < B ^ length ds"
    by auto
  from IH have "digits B ds + 1 \<le> B ^ length ds" by simp
  then have "B * (digits B ds + 1) \<le> B * B ^ length ds"
    by (rule mult_le_mono2)
  with d show ?case by (simp add: algebra_simps)
qed

lemma digits_snoc0: "digits B (ds @ [0]) = digits B ds"
  by (induction ds) simp_all

lemma digits_drop: "\<forall>d \<in> set ds. d < B \<Longrightarrow> digits B ds div B ^ k = digits B (drop k ds)"
proof (induction k arbitrary: ds)
  case (Suc k)
  then show ?case
    by (cases ds) (simp_all add: div_mult2_eq)
qed simp

lemma digits_pad: "digits B (ds @ replicate k 0) = digits B ds"
proof -
  have "digits B (replicate k 0) = 0" by (induction k) simp_all
  then show ?thesis by (induction ds) simp_all
qed

lemma digits_replicate: "digits (Suc q) (replicate n m) * q + m = Suc q ^ n * m"
proof (induction n)
  case (Suc n)
  then have "Suc q * (digits (Suc q) (replicate n m) * q + m) = Suc q * (Suc q ^ n * m)"
    by simp
  then show ?case by (simp add: algebra_simps)
qed simp

subsection \<open>Bit fields\<close>

lemma add_field_or:
  assumes "(c::nat) < 2 ^ k"
  shows "c + 2 ^ k * t = c OR push_bit k t"
proof -
  have "c = take_bit k c" using assms by (simp add: take_bit_nat_eq_self)
  then show ?thesis
    by (metis disjunctive_add mult.commute push_bit_eq_mult bit_push_bit_iff
        bit_take_bit_iff linorder_not_le)
qed

lemma no_high_bit: "(c::nat) < 2 ^ k \<Longrightarrow> k \<le> n \<Longrightarrow> \<not> bit c n"
  by (metis bit_take_bit_iff linorder_not_le take_bit_nat_eq_self)

lemma bit_add_field:
  "(c::nat) < 2 ^ k \<Longrightarrow> bit (c + 2 ^ k * t) n = (if n < k then bit c n else bit t (n - k))"
  by (auto simp: add_field_or bit_or_iff bit_push_bit_iff no_high_bit)

lemma bit_digits:
  assumes "\<forall>d \<in> set ds. d < 2 ^ w" and "0 < w" and "n < w * length ds"
  shows "bit (digits (2 ^ w) ds) n = bit (ds ! (n div w)) (n mod w)"
  using assms(1,3)
proof (induction ds arbitrary: n)
  case (Cons d ds)
  show ?case
  proof (cases "n < w")
    case True
    with Cons show ?thesis by (simp add: bit_add_field)
  next
    case False
    then have "n div w = Suc ((n - w) div w)" "n mod w = (n - w) mod w"
      using assms(2) by (simp_all add: le_div_geq le_mod_geq not_less)
    with False Cons show ?thesis by (simp add: bit_add_field)
  qed
qed simp

lemma and_concat_fields:
  fixes a m r s :: nat
  assumes "a < 2 ^ k" and "m < 2 ^ k"
  shows "(a + 2 ^ k * r) AND (m + 2 ^ k * s) = (a AND m) + 2 ^ k * (r AND s)"
proof -
  have am: "a AND m < 2 ^ k"
    by (metis assms(1) take_bit_and take_bit_nat_eq_self take_bit_nat_less_exp assms(2))
  have "(a OR push_bit k r) AND (m OR push_bit k s) = (a AND m) OR push_bit k (r AND s)"
    using assms by (intro bit_eqI) (auto simp: bit_and_iff bit_or_iff bit_push_bit_iff no_high_bit)
  then show ?thesis by (simp add: add_field_or assms am)
qed

lemma int_of_int32: "- (2 ^ 31) \<le> k \<Longrightarrow> k < 2 ^ 31 \<Longrightarrow> sint (word_of_int k :: u32) = k"
  by (simp add: signed_of_int signed_take_bit_int_eq_self_iff)

lemma unat_shiftr: "unat (drop_bit n x) = unat x div 2 ^ n"
  unfolding unat_drop_bit_eq by (rule drop_bit_eq_div)

lemma unat_of_nat_small: "k < 2 ^ LENGTH('a) \<Longrightarrow> unat (of_nat k :: 'a::len word) = k"
  by (simp add: unat_of_nat take_bit_nat_eq_self)

subsection \<open>Lists\<close>

lemma length_concat_same: "\<forall>xs \<in> set xss. length xs = n \<Longrightarrow> length (concat xss) = length xss * n"
  by (induction xss) auto

lemma concat_split_nth:
  assumes "j < length xss" and "\<forall>xs \<in> set xss. length xs = n"
  shows "\<exists>u v. concat xss = u @ xss ! j @ v \<and> length u = j * n"
proof -
  have "concat xss = concat (take j xss) @ xss ! j @ concat (drop (Suc j) xss)"
    using assms(1) by (metis concat.simps(2) concat_append id_take_nth_drop)
  moreover have "length (concat (take j xss)) = j * n"
    using length_concat_same [of "take j xss" n] assms by (auto dest: in_set_takeD)
  ultimately show ?thesis by blast
qed

text \<open>\<open>memcpy\<close> of \<open>bs\<close> into a block of memory at position \<open>i\<close>.\<close>

definition overwrite :: "'a list \<Rightarrow> nat \<Rightarrow> 'a list \<Rightarrow> 'a list" where
  "overwrite buf i bs = take i buf @ bs @ drop (i + length bs) buf"

lemma length_overwrite [simp]: "i + length bs \<le> length buf \<Longrightarrow> length (overwrite buf i bs) = length buf"
  by (simp add: overwrite_def)

lemma take_overwrite [simp]:
  "i + length bs \<le> length buf \<Longrightarrow> take (i + length bs) (overwrite buf i bs) = take i buf @ bs"
  by (simp add: overwrite_def)

lemma take_overwrite_before [simp]: "j \<le> i \<Longrightarrow> i \<le> length buf \<Longrightarrow> take j (overwrite buf i bs) = take j buf"
  by (simp add: overwrite_def min_def)

subsection \<open>Little-endian integers\<close>

primrec bytes_of :: "nat \<Rightarrow> nat \<Rightarrow> u8 list" where
  "bytes_of 0 v = []"
| "bytes_of (Suc n) v = word_of_nat (v mod 256) # bytes_of n (v div 256)"

definition nat_of_bytes :: "u8 list \<Rightarrow> nat" where
  "nat_of_bytes bs = digits 256 (map unat bs)"

lemma length_bytes_of [byte_simps, simp]: "length (bytes_of n v) = n"
  by (induction n arbitrary: v) simp_all

lemma nat_of_bytes_of [byte_simps]: "v < 256 ^ n \<Longrightarrow> nat_of_bytes (bytes_of n v) = v"
proof (induction n arbitrary: v)
  case (Suc n)
  then have "v div 256 < 256 ^ n" by (simp add: div_less_iff_less_mult mult.commute)
  from Suc.IH [OF this] show ?case
    by (simp add: nat_of_bytes_def unat_of_nat)
qed (simp add: nat_of_bytes_def)

lemma word_bytes_bound:
  "unat (a :: u64) < 256 ^ 8" "unat (b :: u32) < 256 ^ 4" "unat (c :: u16) < 256 ^ 2"
  using unsigned_less [of a, where ?'a = nat] unsigned_less [of b, where ?'a = nat]
    unsigned_less [of c, where ?'a = nat] by simp_all

lemma nat_of_word_bytes [byte_simps]:
  "nat_of_bytes (bytes_of 8 (unat (a :: u64))) = unat a"
  "nat_of_bytes (bytes_of 4 (unat (b :: u32))) = unat b"
  "nat_of_bytes (bytes_of 2 (unat (c :: u16))) = unat c"
  by (rule nat_of_bytes_of [OF word_bytes_bound(1)] nat_of_bytes_of [OF word_bytes_bound(2)]
      nat_of_bytes_of [OF word_bytes_bound(3)])+

subsection \<open>Paths through arrays of links\<close>

text \<open>\<open>path f s ps e\<close>: following \<open>f\<close> from \<open>s\<close> visits the positions \<open>ps\<close> and arrives at \<open>e\<close>.\<close>

primrec path :: "(nat \<Rightarrow> int) \<Rightarrow> int \<Rightarrow> nat list \<Rightarrow> int \<Rightarrow> bool" where
  "path f s [] e = (s = e)"
| "path f s (p # ps) e = (s = int p \<and> path f (f p) ps e)"

lemma path_append: "path f s (ps @ qs) e \<longleftrightarrow> (\<exists>m. path f s ps m \<and> path f m qs e)"
  by (induction ps arbitrary: s) auto

lemma path_upd [simp]: "p \<notin> set ps \<Longrightarrow> path (f(p := v)) s ps e = path f s ps e"
  by (induction ps arbitrary: s) auto

lemma path_det: "path f s ps m \<Longrightarrow> path f s ps e \<Longrightarrow> m = e"
  by (induction ps arbitrary: s) auto

lemma path_start: "path f s (p # ps) e \<Longrightarrow> s = int p"
  by simp

text \<open>Exchanging the end of a path: only the last cell changes.\<close>

lemma path_retarget: "path f s (ps @ [p]) e \<Longrightarrow> p \<notin> set ps \<Longrightarrow> path (f(p := e')) s (ps @ [p]) e'"
  by (auto simp: path_append)

lemma path_consecutive: "(\<And>i. s \<le> i \<Longrightarrow> i < t \<Longrightarrow> f i = int i + 1) \<Longrightarrow> s \<le> t \<Longrightarrow> path f (int s) [s..<t] (int t)"
proof (induction "t - s" arbitrary: s)
  case (Suc n)
  then have "s < t" by simp
  then have "[s..<t] = s # [Suc s..<t]" by (simp add: upt_conv_Cons)
  moreover have "path f (int (Suc s)) [Suc s..<t] (int t)" using Suc by (intro Suc.hyps(1)) auto
  ultimately show ?case using Suc.prems(1) [of s] \<open>s < t\<close> by (simp add: add.commute)
qed simp

text \<open>The first positions of the walk along the links.\<close>

primrec walk :: "nat \<Rightarrow> (nat \<Rightarrow> int) \<Rightarrow> int \<Rightarrow> int list" where
  "walk 0 f s = []"
| "walk (Suc n) f s = s # walk n f (f (nat s))"

lemma walk_path: "path f s xs e \<Longrightarrow> walk (length xs) f s = map int xs"
  by (induction xs arbitrary: s) auto

subsection \<open>Sources of bytes\<close>

text \<open>
  What the users of a reader rely on: as long as enough bytes are left, the next \<open>n\<close> are returned
  and the others stay.
\<close>

locale byte_source =
  fixes inv :: "'s \<Rightarrow> bool" and unread :: "'s \<Rightarrow> 'b list" and fetch :: "nat \<Rightarrow> 's \<Rightarrow> ('b list \<times> 's) option"
  assumes fetch_ok: "inv s \<Longrightarrow> n \<le> length (unread s) \<Longrightarrow>
    \<exists>s'. fetch n s = Some (take n (unread s), s') \<and> unread s' = drop n (unread s) \<and> inv s'"
begin

lemma fetch_front: "inv s \<Longrightarrow> unread s = xs @ ys \<Longrightarrow> \<exists>s'. fetch (length xs) s = Some (xs, s') \<and> unread s' = ys \<and> inv s'"
  using fetch_ok [of s "length xs"] by auto

primrec fetch_all :: "nat list \<Rightarrow> 's \<Rightarrow> ('b list list \<times> 's) option" where
  "fetch_all [] s = Some ([], s)"
| "fetch_all (n # ns) s = (case fetch n s of None \<Rightarrow> None
     | Some (bs, s') \<Rightarrow> map_option (\<lambda>(bss, s''). (bs # bss, s'')) (fetch_all ns s'))"

lemma fetch_all_pieces:
  "inv s \<Longrightarrow> unread s = concat bss @ ys \<Longrightarrow> \<exists>s'. fetch_all (map length bss) s = Some (bss, s') \<and> unread s' = ys \<and> inv s'"
proof (induction bss arbitrary: s)
  case (Cons bs bss)
  then obtain s1 where "fetch (length bs) s = Some (bs, s1)" "unread s1 = concat bss @ ys" "inv s1"
    using fetch_front [of s bs "concat bss @ ys"] by auto
  with Cons.IH [of s1] show ?case by auto
qed simp

end

end
