(* ===== verification/Bit_Count.thy ===== *)
theory Bit_Count
  imports Prelude
begin

text \<open>
  The population count of \<open>bof_core/src/hamming_embedding_descriptor.cc\<close>
  (\<open>count_one\<close>) and its equivalence with the number of set bits. The code adds
  neighbouring bit fields in parallel (fields of 2, 4, 8 bits, then whole bytes); the proof
  follows it with the digit lists of \<open>Prelude\<close>.
\<close>

subsection \<open>The code and its reference\<close>

definition count_one :: "u64 \<Rightarrow> int" where
  "count_one x0 =
    (let x = x0 - (drop_bit 1 x0 AND 0x5555555555555555);
         x = (x AND 0x3333333333333333) + (drop_bit 2 x AND 0x3333333333333333);
         x = (x + drop_bit 4 x) AND 0x0f0f0f0f0f0f0f0f;
         x = x + drop_bit 8 x;
         x = x + drop_bit 16 x;
         x = x + drop_bit 32 x
     in uint (x AND 0x7f))"

definition popcount :: "'a::len word \<Rightarrow> nat" where
  "popcount x = card {n. bit x n}"

subsection \<open>Even and odd fields\<close>

fun evens :: "nat list \<Rightarrow> nat list" where
  "evens (x # y # r) = x # evens r"
| "evens [x] = [x]"
| "evens [] = []"

fun odds :: "nat list \<Rightarrow> nat list" where
  "odds (x # y # r) = y # odds r"
| "odds [x] = []"
| "odds [] = []"

definition field_mask :: "nat \<Rightarrow> nat \<Rightarrow> nat" where
  "field_mask w n = digits (2 ^ (w + w)) (replicate n (mask w))"

lemma field_mask_Suc: "field_mask w (Suc n) = mask w + 2 ^ (w + w) * field_mask w n"
  by (simp add: field_mask_def)

lemma mask_below: "mask w < (2::nat) ^ (w + w)"
proof -
  have "mask w < (2::nat) ^ w" by (simp add: mask_eq_exp_minus_1)
  also have "\<dots> \<le> 2 ^ (w + w)" by (rule power_increasing) simp_all
  finally show ?thesis .
qed

lemma low_field:
  "(x::nat) < 2 ^ w \<Longrightarrow> (x + 2 ^ w * y) AND mask w = x"
  by (simp add: take_bit_eq_mod flip: take_bit_eq_mask)

lemma two_fields_bound:
  "(x::nat) < 2 ^ w \<Longrightarrow> y < 2 ^ w \<Longrightarrow> x + 2 ^ w * y < 2 ^ (w + w)"
  using digits_bound [of "2 ^ w" "[x, y]"] by (simp add: power_add)

lemma even_fields:
  assumes "\<forall>d \<in> set ds. d < 2 ^ w" and "even (length ds)"
  shows "digits (2 ^ w) ds AND field_mask w (length ds div 2) = digits (2 ^ (w + w)) (evens ds)"
  using assms
proof (induction ds rule: evens.induct)
  case (1 x y r)
  have "digits (2 ^ w) (x # y # r) = (x + 2 ^ w * y) + 2 ^ (w + w) * digits (2 ^ w) r"
    by (simp add: power_add algebra_simps)
  moreover have "x + 2 ^ w * y < 2 ^ (w + w)"
    using 1 by (intro two_fields_bound) auto
  ultimately show ?case
    using 1 by (simp add: and_concat_fields mask_below field_mask_Suc low_field
        del: digits.simps(2)) simp
qed (simp_all add: field_mask_def)

lemma odd_fields:
  assumes "\<forall>d \<in> set ds. d < 2 ^ w" and "even (length ds)"
  shows "(digits (2 ^ w) ds div 2 ^ w) AND field_mask w (length ds div 2) = digits (2 ^ (w + w)) (odds ds)"
  using assms
proof (induction ds rule: odds.induct)
  case (1 x y r)
  let ?R = "digits (2 ^ w) r"
  have "digits (2 ^ w) (x # y # r) div 2 ^ w = y + 2 ^ w * (?R mod 2 ^ w + 2 ^ w * (?R div 2 ^ w))"
    using 1 by simp
  also have "\<dots> = (y + 2 ^ w * (?R mod 2 ^ w)) + 2 ^ (w + w) * (?R div 2 ^ w)"
    by (simp only: distrib_left power_add mult.assoc add.assoc)
  finally have "digits (2 ^ w) (x # y # r) div 2 ^ w
      = (y + 2 ^ w * (?R mod 2 ^ w)) + 2 ^ (w + w) * (?R div 2 ^ w)" .
  moreover have "y + 2 ^ w * (?R mod 2 ^ w) < 2 ^ (w + w)"
    using 1 by (intro two_fields_bound) auto
  ultimately show ?case
    using 1 by (simp add: and_concat_fields mask_below field_mask_Suc low_field
        del: digits.simps(2)) simp
qed (simp_all add: field_mask_def)
subsection \<open>Sums of neighbouring fields\<close>


definition pairs :: "nat list \<Rightarrow> nat list" where
  "pairs ds = map2 (+) (evens ds) (odds ds)"

lemma pairs_simps [simp]: "pairs [] = []" "pairs [x] = []" "pairs (x # y # r) = (x + y) # pairs r"
  by (simp_all add: pairs_def)

lemma length_evens_odds:
  "even (length ds) \<Longrightarrow> length (evens ds) = length ds div 2 \<and> length (odds ds) = length ds div 2"
  by (induction ds rule: evens.induct) auto

lemma length_pairs: "even (length ds) \<Longrightarrow> length (pairs ds) = length ds div 2"
  by (simp add: pairs_def length_evens_odds)

lemma sum_pairs: "even (length ds) \<Longrightarrow> sum_list (pairs ds) = sum_list ds"
  by (induction ds rule: evens.induct) auto

lemma pairs_le: "\<forall>d \<in> set ds. d \<le> b \<Longrightarrow> \<forall>d \<in> set (pairs ds). d \<le> b + b"
  by (induction ds rule: evens.induct) auto

lemma digits_evens_odds:
  "even (length ds) \<Longrightarrow> digits B ds = digits (B * B) (evens ds) + B * digits (B * B) (odds ds)"
  by (induction ds rule: evens.induct) (auto simp: algebra_simps)

lemma digits_pairs:
  "even (length ds) \<Longrightarrow> digits B (evens ds) + digits B (odds ds) = digits B (pairs ds)"
  by (simp add: digits_add length_evens_odds pairs_def)

lemma evens_shift_sum:
  "even (length ds) \<Longrightarrow> evens (map2 (+) ds (tl ds @ [0])) = pairs ds"
proof (induction ds rule: evens.induct)
  case (1 x y r)
  then show ?case by (cases r) auto
qed auto

lemma map2_add_le:
  fixes a b :: nat
  shows "\<forall>d \<in> set xs. d \<le> a \<Longrightarrow> \<forall>d \<in> set ys. d \<le> b \<Longrightarrow> \<forall>d \<in> set (map2 (+) xs ys). d \<le> a + b"
  by (auto elim!: in_set_zipE intro: add_mono)

lemma digits_shift: "ds \<noteq> [] \<Longrightarrow> \<forall>d \<in> set ds. d < B \<Longrightarrow> digits B ds div B = digits B (tl ds @ [0])"
  by (cases ds) (auto simp: digits_snoc0)

lemma unat_word_bits: "unat (x :: 'a::len word) = digits 2 (map (\<lambda>i. of_bool (bit x i)) [0..<LENGTH('a)])"
proof -
  have h: "horner_sum of_bool 2 bs = digits 2 (map of_bool bs)" for bs :: "bool list"
    by (induction bs) auto
  have "unat x = take_bit LENGTH('a) (unat x)"
    by (simp add: take_bit_nat_eq_self)
  also have "\<dots> = horner_sum of_bool 2 (map (bit (unat x)) [0..<LENGTH('a)])"
    by (simp add: horner_sum_bit_eq_take_bit)
  also have "\<dots> = digits 2 (map (\<lambda>i. of_bool (bit x i)) [0..<LENGTH('a)])"
    by (simp add: h comp_def bit_unsigned_iff)
  finally show ?thesis .
qed

lemma popcount_sum: "popcount (x :: 'a::len word) = sum_list (map (\<lambda>i. of_bool (bit x i)) [0..<LENGTH('a)])"
proof -
  have "{n. bit x n} = {0..<LENGTH('a)} \<inter> {n. bit x n}"
    by (auto simp: bit_imp_le_length)
  then have "popcount x = card ({0..<LENGTH('a)} \<inter> {n. bit x n})"
    unfolding popcount_def by simp
  then show ?thesis
    by (simp add: interv_sum_list_conv_sum_set_nat)
qed

lemma field_mask_consts:
  "field_mask (Suc 0) 32 = 0x5555555555555555" "field_mask 2 16 = 0x3333333333333333"
  "field_mask 4 8 = 0x0f0f0f0f0f0f0f0f"
  using digits_replicate [of 3 32 1] digits_replicate [of 15 16 3] digits_replicate [of 255 8 15]
  by (simp_all add: field_mask_def mask_eq_exp_minus_1)

lemma shift_add_bytes:
  assumes "unat (x :: u64) = digits 256 ds" "length ds = 8" "\<forall>d \<in> set ds. d < 256" "k \<le> 8"
    and "es = map2 (+) ds (drop k ds @ replicate k 0)" "\<forall>d \<in> set es. d < 256"
  shows "unat (x + drop_bit (8 * k) x) = digits 256 es"
proof -
  have p: "(256::nat) ^ k = 2 ^ (8 * k)" by (simp add: power_mult)
  have "length (drop k ds @ replicate k 0) = length ds"
    using assms(2,4) by simp
  then have "digits 256 ds + digits 256 ds div 2 ^ (8 * k) = digits 256 es"
    using assms(5) digits_drop [OF assms(3), of k]
    by (simp add: digits_add [symmetric] digits_pad p)
  moreover have "digits 256 es < 2 ^ 64"
    using digits_bound [of 256 es] assms(2,4-6) by simp
  ultimately show ?thesis
    by (simp add: unat_word_ariths unat_shiftr assms(1))
qed

lemma count_one_step1:
  assumes "unat (x :: u64) = digits 2 ds" "length ds = 64" "\<forall>d \<in> set ds. d \<le> 1"
  shows "unat (x - (drop_bit 1 x AND 0x5555555555555555)) = digits 4 (pairs ds)"
proof -
  have m: "field_mask 1 (length ds div 2) = 0x5555555555555555"
    by (simp add: assms(2) field_mask_consts)
  have lt: "\<forall>d \<in> set ds. d < 2 ^ 1" using assms(3) by auto
  have o: "unat (drop_bit 1 x AND 0x5555555555555555) = digits 4 (odds ds)"
    using odd_fields [OF lt] assms(1,2) m
    by (simp add: unsigned_and_eq unat_shiftr)
  have x: "unat x = digits 4 (evens ds) + 2 * digits 4 (odds ds)"
    using digits_evens_odds [of ds 2] assms(1,2) by simp
  then have "drop_bit 1 x AND 0x5555555555555555 \<le> x"
    using o by (simp add: word_le_nat_alt)
  then have "unat (x - (drop_bit 1 x AND 0x5555555555555555)) = unat x - digits 4 (odds ds)"
    using o by (simp add: unat_sub)
  then show ?thesis
    using x digits_pairs [of ds 4] assms(2) by simp
qed

lemma count_one_step2:
  assumes "unat (x :: u64) = digits 4 ds" "length ds = 32" "\<forall>d \<in> set ds. d \<le> 2"
  shows "unat ((x AND 0x3333333333333333) + (drop_bit 2 x AND 0x3333333333333333)) = digits 16 (pairs ds)"
proof -
  have m: "field_mask 2 (length ds div 2) = 0x3333333333333333"
    by (simp add: assms(2) field_mask_consts)
  have lt: "\<forall>d \<in> set ds. d < 2 ^ 2" using assms(3) by auto
  have o: "unat (drop_bit 2 x AND 0x3333333333333333) = digits 16 (odds ds)"
    using odd_fields [OF lt] assms(1,2) m
    by (simp add: unsigned_and_eq unat_shiftr)
  have e: "unat (x AND 0x3333333333333333) = digits 16 (evens ds)"
    using even_fields [OF lt] assms(1,2) m
    by (simp add: unsigned_and_eq)
  have "\<forall>d \<in> set (pairs ds). d < 16"
    using pairs_le [OF assms(3)] by auto
  then have "digits 16 (pairs ds) < 2 ^ 64"
    using digits_bound [of 16 "pairs ds"] assms(2) by (simp add: length_pairs)
  then show ?thesis
    using e o digits_pairs [of ds 16] assms(2) by (simp add: unat_word_ariths)
qed

lemma count_one_step3:
  assumes "unat (x :: u64) = digits 16 ds" "length ds = 16" "\<forall>d \<in> set ds. d \<le> 4"
  shows "unat ((x + drop_bit 4 x) AND 0x0f0f0f0f0f0f0f0f) = digits 256 (pairs ds)"
proof -
  let ?s = "map2 (+) ds (tl ds @ [0])"
  have len: "length (tl ds @ [0]) = length ds" using assms(2) by simp
  have m: "field_mask 4 (length ?s div 2) = 0x0f0f0f0f0f0f0f0f"
    by (simp add: assms(2) field_mask_consts)
  have "\<forall>d \<in> set (tl ds @ [0]). d \<le> 4"
    using assms(2,3) by (cases ds) auto
  then have le: "\<forall>d \<in> set ?s. d < 16"
    using map2_add_le [OF assms(3)] by fastforce
  have "digits 16 ds div 16 = digits 16 (tl ds @ [0])"
    using assms(2,3) by (intro digits_shift) fastforce+
  then have sum: "digits 16 ds + digits 16 ds div 16 = digits 16 ?s"
    using len by (simp add: digits_add)
  have "digits 16 ?s < 2 ^ 64"
    using digits_bound [of 16 ?s] le assms(2) by simp
  then have "unat (x + drop_bit 4 x) = digits 16 ?s"
    using sum assms(1) by (simp add: unat_word_ariths unat_shiftr)
  then show ?thesis
    using even_fields [of ?s 4] le m assms(2) evens_shift_sum [of ds]
    by (simp add: unsigned_and_eq)
qed

lemma count_one_step4:
  assumes "unat (x :: u64) = digits 256 ds" "length ds = 8" "\<forall>d \<in> set ds. d \<le> 8"
  shows "unat ((let x = x + drop_bit 8 x; x = x + drop_bit 16 x; x = x + drop_bit 32 x in x) AND 0x7f)
    = sum_list ds"
proof -
  obtain a b c d e f g h where ds: "ds = [a, b, c, d, e, f, g, h]"
    using assms(2) by (auto simp: numeral_eq_Suc length_Suc_conv)
  have le: "a \<le> 8" "b \<le> 8" "c \<le> 8" "d \<le> 8" "e \<le> 8" "f \<le> 8" "g \<le> 8" "h \<le> 8"
    using assms(3) ds by auto
  have 1: "unat (x + drop_bit 8 x) = digits 256 [a + b, b + c, c + d, d + e, e + f, f + g, g + h, h]"
    using shift_add_bytes [OF assms(1,2), of 1] ds le by simp
  define y where "y = x + drop_bit 8 x"
  have 2: "unat (y + drop_bit 16 y) = digits 256 [a + b + (c + d), b + c + (d + e), c + d + (e + f),
      d + e + (f + g), e + f + (g + h), f + g + h, g + h, h]"
    using shift_add_bytes [OF 1 [folded y_def], of "Suc (Suc 0)"] le by simp
  define z where "z = y + drop_bit 16 y"
  have "unat (z + drop_bit 32 z) = digits 256 [a + b + (c + d) + (e + f + (g + h)),
      b + c + (d + e) + (f + g + h), c + d + (e + f) + (g + h), d + e + (f + g) + h,
      e + f + (g + h), f + g + h, g + h, h]"
    using shift_add_bytes [OF 2 [folded z_def], of "Suc (Suc (Suc (Suc 0)))"] le by simp
  moreover have "digits 256 (p # ps) mod 128 = p mod 128" for p ps
  proof -
    have "digits 256 (p # ps) = p + (2 * digits 256 ps) * 128" by simp
    then show ?thesis by (metis mod_mult_self1)
  qed
  ultimately have 3: "unat (z + drop_bit 32 z) mod 128 = a + b + c + d + e + f + g + h"
    using le by (simp del: digits.simps)
  have "unat ((z + drop_bit 32 z) AND 0x7f) = take_bit 7 (unat (z + drop_bit 32 z))"
    by (simp add: unsigned_and_eq take_bit_eq_mask mask_eq_exp_minus_1)
  then show ?thesis
    using 3 by (simp add: ds Let_def y_def z_def take_bit_eq_mod)
qed

lemma count_one_popcount: "count_one x = int (popcount x)"
proof -
  define bs where "bs = map (\<lambda>i. of_bool (bit x i) :: nat) [0..<64]"
  have 0: "unat x = digits 2 bs" "length bs = 64" "\<forall>d \<in> set bs. d \<le> 1"
    using unat_word_bits [of x] by (auto simp: bs_def)
  note 1 = count_one_step1 [OF 0]
  have l1: "length (pairs bs) = 32" "\<forall>d \<in> set (pairs bs). d \<le> 2"
    using pairs_le [OF 0(3)] 0(2) by (auto simp: length_pairs)
  note 2 = count_one_step2 [OF 1 l1]
  have l2: "length (pairs (pairs bs)) = 16" "\<forall>d \<in> set (pairs (pairs bs)). d \<le> 4"
    using pairs_le [OF l1(2)] l1(1) by (simp_all add: length_pairs)
  note 3 = count_one_step3 [OF 2 l2]
  have l3: "length (pairs (pairs (pairs bs))) = 8" "\<forall>d \<in> set (pairs (pairs (pairs bs))). d \<le> 8"
    using pairs_le [OF l2(2)] l2(1) by (simp_all add: length_pairs)
  have "sum_list (pairs (pairs (pairs bs))) = popcount x"
    using 0(2) l1(1) l2(1) popcount_sum [of x] by (simp add: sum_pairs bs_def)
  define x1 where "x1 = x - (drop_bit 1 x AND 0x5555555555555555)"
  define x2 where "x2 = (x1 AND 0x3333333333333333) + (drop_bit 2 x1 AND 0x3333333333333333)"
  define x3 where "x3 = (x2 + drop_bit 4 x2) AND 0x0f0f0f0f0f0f0f0f"
  have "count_one x =
      uint ((let x = x3 + drop_bit 8 x3; x = x + drop_bit 16 x; x = x + drop_bit 32 x in x) AND 0x7f)"
    by (simp only: count_one_def Let_def x1_def x2_def x3_def)
  then show ?thesis
    using count_one_step4 [OF 3 [folded x1_def, folded x2_def, folded x3_def] l3]
      \<open>sum_list (pairs (pairs (pairs bs))) = popcount x\<close>
    by (simp only: uint_nat)
qed
end
