(* ===== verification/Float32.thy ===== *)
theory Float32
  imports Prelude
begin

text \<open>
  The C++ type \<open>float\<close>. A value is its IEEE-754 binary32 bit pattern; comparisons and the
  classification of NaN are defined on the pattern. The rounded arithmetic is left to the
  machine: the sources combine floats with a fixed set of expressions, and a record
  \<open>f32_ops\<close> of functions on patterns, one field per expression, is an argument of every
  definition that evaluates one of them. Every theorem therefore holds for the rounding (and the
  intermediate precision) of whatever floating-point unit runs the code.

  The theory also states the contract of \<open>std::sort\<close>, which leaves the order of equivalent
  elements open.
\<close>

type_synonym f32 = u32

definition f32_mag :: "f32 \<Rightarrow> int" where
  "f32_mag x = uint (x AND 0x7FFFFFFF)"

definition f32_nan :: "f32 \<Rightarrow> bool" where
  "f32_nan x = (0x7F800000 < f32_mag x)"

text \<open>Sign and magnitude as one integer: monotone in the value, both zeros are 0.\<close>

definition f32_key :: "f32 \<Rightarrow> int" where
  "f32_key x = (if bit x 31 then - f32_mag x else f32_mag x)"

definition f32_less :: "f32 \<Rightarrow> f32 \<Rightarrow> bool" where
  "f32_less x y = (\<not> f32_nan x \<and> \<not> f32_nan y \<and> f32_key x < f32_key y)"

definition f32_le :: "f32 \<Rightarrow> f32 \<Rightarrow> bool" where
  "f32_le x y = (\<not> f32_nan x \<and> \<not> f32_nan y \<and> f32_key x \<le> f32_key y)"

definition f32_eq :: "f32 \<Rightarrow> f32 \<Rightarrow> bool" where
  "f32_eq x y = (\<not> f32_nan x \<and> \<not> f32_nan y \<and> f32_key x = f32_key y)"

text \<open>
  The float expressions of the modelled sources: \<open>a + b\<close>, \<open>a * b\<close>, \<open>a / b\<close>,
  \<open>a += pow(w, 2)\<close> (whose right-hand side is a \<open>double\<close>), \<open>s / sqrt(p * q)\<close>,
  \<open>sqrt(a / b)\<close> and the conversion of an integer.
\<close>

record f32_ops =
  f_add :: "f32 \<Rightarrow> f32 \<Rightarrow> f32"
  f_mul :: "f32 \<Rightarrow> f32 \<Rightarrow> f32"
  f_div :: "f32 \<Rightarrow> f32 \<Rightarrow> f32"
  f_acc_sq :: "f32 \<Rightarrow> f32 \<Rightarrow> f32"
  f_cos :: "f32 \<Rightarrow> f32 \<Rightarrow> f32 \<Rightarrow> f32"
  f_sqrt_div :: "f32 \<Rightarrow> f32 \<Rightarrow> f32"
  f_of_int :: "int \<Rightarrow> f32"

text \<open>Literals that occur in the sources.\<close>

abbreviation f32_zero :: f32 where "f32_zero \<equiv> 0"
abbreviation f32_one :: f32 where "f32_one \<equiv> 0x3F800000"
abbreviation f32_minus_one :: f32 where "f32_minus_one \<equiv> 0xBF800000"

text \<open>
  \<open>x > 0.1\<close> with a \<open>double\<close> literal: 0.1 lies strictly between the neighbouring floats
  with the patterns \<open>0x3DCCCCCC\<close> and \<open>0x3DCCCCCD\<close>. \<open>x >= 0.98f\<close> compares with the
  float pattern \<open>0x3F7AE148\<close>.
\<close>

definition f32_gt_0_1 :: "f32 \<Rightarrow> bool" where
  "f32_gt_0_1 x = f32_less 0x3DCCCCCC x"

definition f32_ge_0_98 :: "f32 \<Rightarrow> bool" where
  "f32_ge_0_98 x = f32_le 0x3F7AE148 x"

lemma f32_less_irrefl: "\<not> f32_less x x"
  by (simp add: f32_less_def)

lemma f32_less_trans: "f32_less x y \<Longrightarrow> f32_less y z \<Longrightarrow> f32_less x z"
  by (simp add: f32_less_def)

lemma f32_not_less_trans:
  "\<not> f32_nan y \<Longrightarrow> \<not> f32_less x y \<Longrightarrow> \<not> f32_less y z \<Longrightarrow> \<not> f32_less x z"
  by (auto simp: f32_less_def)

lemma f32_gt_0_1_nonzero: "f32_gt_0_1 x \<Longrightarrow> \<not> f32_nan x \<and> \<not> f32_eq f32_zero x"
  by (auto simp: f32_gt_0_1_def f32_less_def f32_eq_def f32_key_def f32_mag_def split: if_splits)

subsection \<open>The contract of std::sort\<close>

text \<open>
  \<open>std::sort(first, last, cmp)\<close> with a strict weak ordering permutes the range so that no
  element is \<open>cmp\<close>-before one that precedes it.
\<close>

definition strict_weak_on :: "'a set \<Rightarrow> ('a \<Rightarrow> 'a \<Rightarrow> bool) \<Rightarrow> bool" where
  "strict_weak_on A cmp \<longleftrightarrow>
     (\<forall>x \<in> A. \<not> cmp x x) \<and>
     (\<forall>x \<in> A. \<forall>y \<in> A. \<forall>z \<in> A. cmp x y \<longrightarrow> cmp y z \<longrightarrow> cmp x z) \<and>
     (\<forall>x \<in> A. \<forall>y \<in> A. \<forall>z \<in> A. \<not> cmp x y \<longrightarrow> \<not> cmp y z \<longrightarrow> \<not> cmp x z)"

definition std_sorts :: "(('a \<Rightarrow> 'a \<Rightarrow> bool) \<Rightarrow> 'a list \<Rightarrow> 'a list) \<Rightarrow> bool" where
  "std_sorts srt \<longleftrightarrow>
     (\<forall>cmp xs. strict_weak_on (set xs) cmp \<longrightarrow>
        mset (srt cmp xs) = mset xs \<and> sorted_wrt (\<lambda>a b. \<not> cmp b a) (srt cmp xs))"

locale std_sort =
  fixes srt :: "('a \<Rightarrow> 'a \<Rightarrow> bool) \<Rightarrow> 'a list \<Rightarrow> 'a list"
  assumes sort_perm: "strict_weak_on (set xs) cmp \<Longrightarrow> mset (srt cmp xs) = mset xs"
    and sort_sorted: "strict_weak_on (set xs) cmp \<Longrightarrow> sorted_wrt (\<lambda>a b. \<not> cmp b a) (srt cmp xs)"
begin

lemma sort_set: "strict_weak_on (set xs) cmp \<Longrightarrow> set (srt cmp xs) = set xs"
  using sort_perm by (metis set_mset_mset)

lemma sort_length: "strict_weak_on (set xs) cmp \<Longrightarrow> length (srt cmp xs) = length xs"
  using sort_perm by (metis size_mset)

end

lemma std_sorts_locale: "std_sorts srt \<longleftrightarrow> std_sort srt"
  by (auto simp: std_sorts_def std_sort_def)

text \<open>One admissible implementation, used where a concrete run is evaluated.\<close>

fun insert_by :: "('a \<Rightarrow> 'a \<Rightarrow> bool) \<Rightarrow> 'a \<Rightarrow> 'a list \<Rightarrow> 'a list" where
  "insert_by cmp x [] = [x]"
| "insert_by cmp x (y # ys) = (if cmp y x then y # insert_by cmp x ys else x # y # ys)"

fun insertion_sort :: "('a \<Rightarrow> 'a \<Rightarrow> bool) \<Rightarrow> 'a list \<Rightarrow> 'a list" where
  "insertion_sort cmp [] = []"
| "insertion_sort cmp (x # xs) = insert_by cmp x (insertion_sort cmp xs)"

lemma mset_insert_by: "mset (insert_by cmp x ys) = add_mset x (mset ys)"
  by (induction ys) auto

lemma mset_insertion_sort: "mset (insertion_sort cmp xs) = mset xs"
  by (induction xs) (auto simp: mset_insert_by)

lemma set_insert_by: "set (insert_by cmp x ys) = insert x (set ys)"
  by (metis mset_insert_by set_mset_add_mset_insert set_mset_mset)

lemma strict_weak_on_subset: "strict_weak_on A cmp \<Longrightarrow> B \<subseteq> A \<Longrightarrow> strict_weak_on B cmp"
  unfolding strict_weak_on_def by (meson subsetD)

lemma strict_weak_asym:
  "strict_weak_on A cmp \<Longrightarrow> x \<in> A \<Longrightarrow> y \<in> A \<Longrightarrow> cmp x y \<Longrightarrow> \<not> cmp y x"
  unfolding strict_weak_on_def by blast

lemma strict_weak_not_trans:
  "strict_weak_on A cmp \<Longrightarrow> x \<in> A \<Longrightarrow> y \<in> A \<Longrightarrow> z \<in> A \<Longrightarrow>
     \<not> cmp x y \<Longrightarrow> \<not> cmp y z \<Longrightarrow> \<not> cmp x z"
  unfolding strict_weak_on_def by blast

lemma insert_by_sorted:
  assumes "strict_weak_on (insert x (set ys)) cmp" "sorted_wrt (\<lambda>a b. \<not> cmp b a) ys"
  shows "sorted_wrt (\<lambda>a b. \<not> cmp b a) (insert_by cmp x ys)"
  using assms
proof (induction ys)
  case (Cons y ys)
  have sub: "strict_weak_on (insert x (set ys)) cmp"
    by (rule strict_weak_on_subset [OF Cons.prems(1)]) auto
  show ?case
  proof (cases "cmp y x")
    case True
    then have "\<not> cmp x y"
      using strict_weak_asym [OF Cons.prems(1)] by simp
    with True Cons sub show ?thesis by (auto simp: set_insert_by)
  next
    case False
    then have "\<forall>z \<in> set ys. \<not> cmp z x"
      using strict_weak_not_trans [OF Cons.prems(1), of _ y x] Cons.prems(2) by simp
    with False Cons.prems(2) show ?thesis by simp
  qed
qed simp

lemma insertion_sort_sorted:
  "strict_weak_on (set xs) cmp \<Longrightarrow> sorted_wrt (\<lambda>a b. \<not> cmp b a) (insertion_sort cmp xs)"
proof (induction xs)
  case (Cons x xs)
  have "set (insertion_sort cmp xs) = set xs"
    by (metis mset_insertion_sort set_mset_mset)
  moreover have "strict_weak_on (set xs) cmp"
    by (rule strict_weak_on_subset [OF Cons.prems]) auto
  ultimately show ?case
    using Cons by (simp add: insert_by_sorted)
qed simp

interpretation isort: std_sort insertion_sort
  by unfold_locales (rule mset_insertion_sort, rule insertion_sort_sorted)

lemma insertion_sort_std: "std_sorts insertion_sort"
  unfolding std_sorts_locale by (rule isort.std_sort_axioms)

end
