(* ===== verification/Hamming.thy ===== *)
theory Hamming
  imports Bit_Count Float32
begin

text \<open>
  The Hamming embedding of \<open>bof_core/src/hamming_embedding_descriptor.cc\<close>: class
  \<open>HammingEmbedding\<close> with its parameters, the coder that turns a projected descriptor into
  a string of hexadecimal digits, the decoder of such strings into 64-bit signatures and the
  pairwise comparison of signatures. A \<open>NULL\<close> pointer is \<open>None\<close>; string lengths stay
  below \<open>2^31\<close>, so that their conversion to \<open>int\<close> is the identity.
\<close>

record hamming_embedding =
  he_length :: u64
  he_threshold :: u64

definition HammingEmbedding :: hamming_embedding where
  "HammingEmbedding = \<lparr>he_length = 64, he_threshold = 64\<rparr>"

definition SetHammingParam :: "hamming_embedding \<Rightarrow> int \<Rightarrow> int \<Rightarrow> hamming_embedding" where
  "SetHammingParam h len thr = h\<lparr>he_length := word_of_int len, he_threshold := word_of_int thr\<rparr>"

subsection \<open>The coder\<close>

text \<open>One row of the projection: \<open>sum += p[j] * one_descriptor_p[j]\<close> from 0.\<close>

definition he_dot :: "f32_ops \<Rightarrow> f32 list \<Rightarrow> f32 list \<Rightarrow> f32" where
  "he_dot ops p d = foldl (\<lambda>s (a, b). f_add ops s (f_mul ops a b)) f32_zero (zip p d)"

definition he_project :: "f32_ops \<Rightarrow> nat \<Rightarrow> f32 list \<Rightarrow> f32 list list \<Rightarrow> f32 list cxx" where
  "he_project ops n d out_p =
     (if n \<le> length out_p \<and> (\<forall>p \<in> set (take n out_p). length p \<le> length d)
      then Some (map (\<lambda>p. he_dot ops p d) (take n out_p)) else None)"

definition hex_digit :: "nat \<Rightarrow> char" where
  "hex_digit h = (if 10 \<le> h then char_of (65 + h - 10) else char_of (48 + h))"

fun coder_loop :: "bool list \<Rightarrow> nat \<Rightarrow> nat \<Rightarrow> string \<Rightarrow> string" where
  "coder_loop [] h_16 cnt hamming_str = hamming_str"
| "coder_loop (b # bs) h_16 cnt hamming_str =
     (let h = (if b then h_16 + [8, 4, 2, 1] ! cnt else h_16)
      in if Suc cnt = 4 then coder_loop bs 0 0 (hamming_str @ [hex_digit h])
         else coder_loop bs h (Suc cnt) hamming_str)"

definition HammingCoder ::
    "f32_ops \<Rightarrow> hamming_embedding \<Rightarrow> f32 list \<Rightarrow> f32 list list \<Rightarrow> f32 list \<Rightarrow> (int \<times> string) cxx" where
  "HammingCoder ops h one_descriptor_p out_p median_mat_p =
     (let n = unat (he_length h) in
      case he_project ops n one_descriptor_p out_p of
        None \<Rightarrow> None
      | Some he_v \<Rightarrow>
          if length median_mat_p < n then None
          else Some (0, coder_loop (map2 (\<lambda>v m. f32_less v m) he_v median_mat_p) 0 0 []))"

subsection \<open>The decoder\<close>

primrec off_value :: "nat \<Rightarrow> u64" where
  "off_value 0 = 1"
| "off_value (Suc i) = push_bit 4 (off_value i)"

definition he_digit :: "char \<Rightarrow> int" where
  "he_digit c = (if schar c \<le> schar (CHR ''9'') then schar c - schar (CHR ''0'')
                 else schar c - schar (CHR ''A'') + 10)"

text \<open>The 16 characters from position \<open>start\<close> accumulated into one signature.\<close>

definition he_word :: "string \<Rightarrow> nat \<Rightarrow> u64" where
  "he_word he start =
     foldl (\<lambda>w l. w + word_of_int (he_digit (he ! (l + start))) * off_value l) 0 [0..<16]"

definition HeString2Int :: "string \<Rightarrow> u64 list option \<Rightarrow> int \<Rightarrow> int \<times> u64 list option \<times> int" where
  "HeString2Int he he64_int len =
     (case he64_int of
        Some _ \<Rightarrow> (-1, he64_int, len)
      | None \<Rightarrow>
          (let n = length he div 16
           in (0, Some (map (\<lambda>j. he_word he (j * 16)) [0..<n]), int n)))"

subsection \<open>The comparison\<close>

definition he_similar :: "hamming_embedding \<Rightarrow> u64 \<Rightarrow> u64 \<Rightarrow> bool" where
  "he_similar h a b \<longleftrightarrow> word_of_int (count_one (a XOR b)) \<le> he_threshold h"

definition HeDistance ::
    "hamming_embedding \<Rightarrow> int \<Rightarrow> u64 list option \<Rightarrow> int \<Rightarrow> u64 list option \<Rightarrow> int \<Rightarrow> (int \<times> int) cxx" where
  "HeDistance h similar_num he1 he_length1 he2 he_length2 =
     (case (he1, he2) of
        (Some a1, Some a2) \<Rightarrow>
          if he_length1 \<le> 0 \<or> he_length2 \<le> 0 then Some (-1, similar_num)
          else if length a1 < nat he_length1 \<or> length a2 < nat he_length2 then None
          else Some (0,
            foldl (\<lambda>n x. foldl (\<lambda>n y. if he_similar h x y then n + 1 else n) n
                    (take (nat he_length2) a2))
              0 (take (nat he_length1) a1))
      | _ \<Rightarrow> Some (-1, similar_num))"

definition HeWeight :: "hamming_embedding \<Rightarrow> string \<Rightarrow> f32 \<Rightarrow> int \<times> f32" where
  "HeWeight h he weight =
     (if word_of_nat (length he) \<noteq> he_length h then (-1, weight) else (0, f32_minus_one))"

subsection \<open>Four bits per character\<close>

fun nibbles :: "bool list \<Rightarrow> nat list" where
  "nibbles (a # b # c # d # r) =
     (of_bool a * 8 + of_bool b * 4 + of_bool c * 2 + of_bool d) # nibbles r"
| "nibbles _ = []"

lemma coder_loop_nibbles: "coder_loop bs 0 0 s = s @ map hex_digit (nibbles bs)"
  by (induction bs arbitrary: s rule: nibbles.induct) (simp_all add: Let_def)

lemma nibbles_bound: "\<forall>n \<in> set (nibbles bs). n < 16"
  by (induction bs rule: nibbles.induct) auto

lemma length_nibbles: "length (nibbles bs) = length bs div 4"
  by (induction bs rule: nibbles.induct) auto

lemma he_digit_hex: "n < 16 \<Longrightarrow> he_digit (hex_digit n) = int n"
  by (auto simp: he_digit_def hex_digit_def schar_def)

lemma nibble_bit:
  "j < 4 \<Longrightarrow> bit ((of_bool a * 8 + of_bool b * 4 + of_bool c * 2 + of_bool d) :: nat) (3 - j)
     = [a, b, c, d] ! j"
proof -
  assume "j < 4"
  then consider "j = 0" | "j = 1" | "j = 2" | "j = 3" by linarith
  then show ?thesis
    by cases (cases a; cases b; cases c; cases d; simp add: bit_iff_odd)+
qed

lemma nibbles_bit:
  "i < 4 * (length bs div 4) \<Longrightarrow> bit (nibbles bs ! (i div 4)) (3 - i mod 4) = bs ! i"
proof (induction bs arbitrary: i rule: nibbles.induct)
  case (1 a b c d r)
  show ?case
  proof (cases "i < 4")
    case True
    have "(a # b # c # d # r) ! i = [a, b, c, d] ! i"
      using nth_append [of "[a, b, c, d]" r i] True by simp
    then show ?thesis using nibble_bit [OF True, of a b c d] True by simp
  next
    case False
    then have "i div 4 = Suc ((i - 4) div 4)" "i mod 4 = (i - 4) mod 4"
      by (simp_all add: le_div_geq le_mod_geq)
    moreover have "(a # b # c # d # r) ! i = r ! (i - 4)"
      using nth_append [of "[a, b, c, d]" r i] False by (simp add: eval_nat_numeral)
    moreover have "i - 4 < 4 * (length r div 4)"
      using "1.prems" False by (simp add: div_add_self1)
    ultimately show ?thesis using 1 False by simp
  qed
qed auto

subsection \<open>Sixteen characters per signature\<close>

lemma off_value_power: "off_value l = 2 ^ (4 * l)"
  by (induction l) (simp_all add: push_bit_eq_mult power_add)

lemma foldl_plus_upt:
  fixes f :: "nat \<Rightarrow> 'a::comm_monoid_add"
  shows "foldl (\<lambda>w l. w + f l) a [0..<n] = a + (\<Sum>l<n. f l)"
  by (induction n) (simp_all add: add.assoc)

lemma digits_sum: "digits B ds = (\<Sum>l<length ds. ds ! l * B ^ l)"
proof (induction ds)
  case (Cons d ds)
  then show ?case
    by (simp add: sum.lessThan_Suc_shift sum_distrib_left algebra_simps del: sum.lessThan_Suc)
qed simp

lemma he_word_digits:
  assumes "length ns = 16" and "\<forall>n \<in> set ns. n < 16"
    and "\<And>l. l < 16 \<Longrightarrow> he_digit (he ! (l + start)) = int (ns ! l)"
  shows "unat (he_word he start) = digits 16 ns"
proof -
  have "he_word he start = (\<Sum>l<16. word_of_int (he_digit (he ! (l + start))) * off_value l)"
    by (simp add: he_word_def foldl_plus_upt)
  also have "\<dots> = (\<Sum>l<16. word_of_nat (ns ! l * 16 ^ l))"
    using assms(3) by (intro sum.cong) (simp_all add: off_value_power power_mult)
  also have "\<dots> = word_of_nat (digits 16 ns)"
    by (simp add: digits_sum assms(1))
  finally have "he_word he start = word_of_nat (digits 16 ns)" .
  moreover have "digits 16 ns < 2 ^ 64"
    using digits_bound [of 16 ns] assms(1,2) by simp
  ultimately show ?thesis by (simp add: unat_of_nat)
qed

text \<open>
  Bit \<open>i\<close> of a descriptor's code is stored at bit \<open>code_pos i\<close> of its signature: the first
  bit of every four is the most significant of its digit, the first digit the least significant.
\<close>

definition code_pos :: "nat \<Rightarrow> nat" where
  "code_pos i = 4 * (i div 4) + (3 - i mod 4)"

lemma code_pos_div_mod: "code_pos i div 4 = i div 4" "code_pos i mod 4 = 3 - i mod 4"
proof -
  have *: "(4 * q + k) div 4 = q" "(4 * q + k) mod 4 = k" if "k < 4" for q k :: nat
    using that by simp_all
  show "code_pos i div 4 = i div 4" unfolding code_pos_def by (rule *) simp
  show "code_pos i mod 4 = 3 - i mod 4" unfolding code_pos_def by (rule *) simp
qed

lemma code_pos_less: "i < 64 \<Longrightarrow> code_pos i < 64"
proof -
  assume "i < 64"
  then have "i div 4 < 16" "3 - i mod 4 < 4" by auto
  then show ?thesis unfolding code_pos_def by linarith
qed

lemma code_pos_inverse: "code_pos (code_pos i) = i"
proof -
  have "i mod 4 \<le> 3" using mod_less_divisor [of 4 i] by linarith
  then show ?thesis
    unfolding code_pos_def [of "code_pos i"] code_pos_div_mod
    using mult_div_mod_eq [of 4 i] by linarith
qed

text \<open>The coder's text for 64 bits, wherever it stands in a longer text, decodes to these bits.\<close>

lemma he_word_coded_bit:
  assumes "length bs = 64" and "i < 64"
  shows "bit (he_word (u @ coder_loop bs 0 0 [] @ v) (length u)) (code_pos i) = bs ! i"
proof -
  let ?he = "u @ coder_loop bs 0 0 [] @ v"
  have len: "length (nibbles bs) = 16" by (simp add: length_nibbles assms(1))
  have "he_digit (?he ! (l + length u)) = int (nibbles bs ! l)" if "l < 16" for l
  proof -
    have "?he ! (l + length u) = hex_digit (nibbles bs ! l)"
      using that len by (simp add: coder_loop_nibbles nth_append)
    then show ?thesis using that len nibbles_bound [of bs] by (simp add: he_digit_hex)
  qed
  then have w: "unat (he_word ?he (length u)) = digits (2 ^ 4) (nibbles bs)"
    using he_word_digits [OF len nibbles_bound] by simp
  have "bit (unat (he_word ?he (length u))) (code_pos i) = bs ! i"
    unfolding w using bit_digits [of "nibbles bs" 4] nibbles_bound [of bs] len assms
      code_pos_less [OF assms(2)] nibbles_bit [of i bs]
    by (simp add: code_pos_div_mod)
  then show ?thesis by (simp add: bit_unsigned_iff)
qed

subsection \<open>Counting similar pairs\<close>

lemma inj_code_pos: "inj_on code_pos A"
  by (rule inj_on_inverseI [of _ code_pos]) (rule code_pos_inverse)

lemma code_pos_collect: "{n. n < 64 \<and> P n} = code_pos ` {i. i < 64 \<and> P (code_pos i)}"
proof (intro set_eqI iffI)
  fix n assume "n \<in> {n. n < 64 \<and> P n}"
  then show "n \<in> code_pos ` {i. i < 64 \<and> P (code_pos i)}"
    by (intro image_eqI [of _ _ "code_pos n"]) (simp_all add: code_pos_inverse code_pos_less)
qed (auto simp: code_pos_less)

definition hamming_distance :: "bool list \<Rightarrow> bool list \<Rightarrow> nat" where
  "hamming_distance bs cs = card {i. i < length bs \<and> bs ! i \<noteq> cs ! i}"

lemma popcount_coded:
  assumes "length bs = 64"
    and "\<And>i. i < 64 \<Longrightarrow> bit (a :: u64) (code_pos i) = bs ! i"
    and "\<And>i. i < 64 \<Longrightarrow> bit (b :: u64) (code_pos i) = cs ! i"
  shows "popcount (a XOR b) = hamming_distance bs cs"
proof -
  have "{n. bit (a XOR b) n} = {n. n < 64 \<and> bit a n \<noteq> bit b n}"
    by (auto simp: bit_xor_iff dest: bit_imp_le_length)
  also have "\<dots> = code_pos ` {i. i < 64 \<and> bit a (code_pos i) \<noteq> bit b (code_pos i)}"
    by (rule code_pos_collect)
  finally have "popcount (a XOR b) = card {i. i < 64 \<and> bit a (code_pos i) \<noteq> bit b (code_pos i)}"
    unfolding popcount_def by (simp only: card_image [OF inj_code_pos])
  also have "{i. i < 64 \<and> bit a (code_pos i) \<noteq> bit b (code_pos i)} = {i. i < length bs \<and> bs ! i \<noteq> cs ! i}"
    using assms by auto
  finally show ?thesis by (simp add: hamming_distance_def)
qed

lemma he_similar_popcount: "he_similar h a b \<longleftrightarrow> popcount (a XOR b) \<le> unat (he_threshold h)"
proof -
  have "popcount (a XOR b) \<le> card {..<LENGTH(64)}"
    unfolding popcount_def by (intro card_mono) (auto dest: bit_imp_le_length)
  then have "unat (word_of_nat (popcount (a XOR b)) :: u64) = popcount (a XOR b)"
    by (simp add: unat_of_nat)
  then show ?thesis
    by (simp add: he_similar_def count_one_popcount word_le_nat_alt)
qed

lemma foldl_count: "foldl (\<lambda>n y. if P y then n + 1 else n) (k::int) ys = k + int (length (filter P ys))"
  by (induction ys arbitrary: k) auto

lemma foldl_count_pairs:
  "foldl (\<lambda>n x. foldl (\<lambda>n y. if P x y then n + 1 else n) n ys) (k::int) xs
     = k + int (card {(i, j). i < length xs \<and> j < length ys \<and> P (xs ! i) (ys ! j)})"
proof (induction xs arbitrary: k rule: rev_induct)
  case (snoc x xs)
  let ?A = "{(i, j). i < length xs \<and> j < length ys \<and> P (xs ! i) (ys ! j)}"
  let ?B = "Pair (length xs) ` {j. j < length ys \<and> P x (ys ! j)}"
  have "{(i, j). i < length (xs @ [x]) \<and> j < length ys \<and> P ((xs @ [x]) ! i) (ys ! j)} = ?A \<union> ?B"
    by (auto simp: nth_append less_Suc_eq)
  moreover have "finite ?A"
    by (rule finite_subset [of _ "{..<length xs} \<times> {..<length ys}"]) auto
  moreover have "card ?B = length (filter (P x) ys)"
    by (simp add: card_image inj_on_def length_filter_conv_card)
  moreover have "?A \<inter> ?B = {}" by auto
  ultimately show ?case
    using snoc [of k] by (simp add: foldl_count card_Un_disjoint)
qed simp

subsection \<open>Properties\<close>

lemma HeString2Int_codes:
  assumes "\<forall>bs \<in> set bss. length bs = 64"
  shows "\<exists>ws. HeString2Int (concat (map (\<lambda>bs. coder_loop bs 0 0 []) bss)) None k
             = (0, Some ws, int (length bss)) \<and> length ws = length bss \<and>
           (\<forall>j < length bss. \<forall>i < 64. bit (ws ! j) (code_pos i) = bss ! j ! i)"
proof -
  let ?c = "\<lambda>bs. coder_loop bs 0 0 []" and ?n = "length bss"
  let ?s = "concat (map ?c bss)"
  have len: "\<forall>xs \<in> set (map ?c bss). length xs = 16"
    using assms by (auto simp: coder_loop_nibbles length_nibbles)
  then have "length ?s = ?n * 16"
    by (simp only: length_concat_same length_map)
  then have eq: "HeString2Int ?s None k = (0, Some (map (\<lambda>j. he_word ?s (j * 16)) [0..<?n]), int ?n)"
    by (simp add: HeString2Int_def Let_def)
  have "bit (he_word ?s (j * 16)) (code_pos i) = bss ! j ! i" if j: "j < ?n" and i: "i < 64" for j i
  proof -
    obtain u v where uv: "?s = u @ ?c (bss ! j) @ v" "length u = j * 16"
      using concat_split_nth [of j "map ?c bss" 16] len j by auto
    have "length (bss ! j) = 64" using assms j by simp
    from he_word_coded_bit [OF this i, of u v] show ?thesis
      by (simp add: uv)
  qed
  with eq show ?thesis by (intro exI [of _ "map (\<lambda>j. he_word ?s (j * 16)) [0..<?n]"]) simp
qed

text \<open>
  The parallel bit count \<open>count_one\<close> returns the number of set bits of every 64-bit value.
\<close>

theorem count_one_correct: "count_one x = int (popcount x)"
  by (rule count_one_popcount)

text \<open>
  The text that \<open>HammingCoder\<close> writes for a descriptor, decoded by \<open>HeString2Int\<close>,
  is one signature that stores at bit \<open>code_pos i\<close> whether the \<open>i\<close>-th projected
  coordinate lies below the \<open>i\<close>-th median, for each of the 64 coordinates.
\<close>

theorem HammingCoder_HeString2Int:
  assumes "HammingCoder ops h d out_p med = Some (ret, s)" and "he_length h = 64"
  shows "\<exists>v w. he_project ops 64 d out_p = Some v \<and> HeString2Int s None k = (0, Some [w], 1) \<and>
           (\<forall>i < 64. bit w (code_pos i) = f32_less (v ! i) (med ! i))"
proof -
  from assms obtain v where v: "he_project ops 64 d out_p = Some v" and med: "64 \<le> length med"
    and s: "s = coder_loop (map2 (\<lambda>v m. f32_less v m) v med) 0 0 []"
    by (auto simp: HammingCoder_def Let_def split: option.splits if_splits)
  let ?bs = "map2 (\<lambda>v m. f32_less v m) v med"
  have "length v = 64" using v by (auto simp: he_project_def split: if_splits)
  with med have bs: "length ?bs = 64" "\<And>i. i < 64 \<Longrightarrow> ?bs ! i = f32_less (v ! i) (med ! i)"
    by simp_all
  obtain ws where "HeString2Int s None k = (0, Some ws, 1)" "length ws = 1"
    "\<forall>i < 64. bit (ws ! 0) (code_pos i) = ?bs ! i"
    using HeString2Int_codes [of "[?bs]" k] bs(1) s by auto
  with bs(2) v show ?thesis by (intro exI [of _ v] exI [of _ "ws ! 0"]) (cases ws; simp)
qed

definition demo_ops :: f32_ops where
  "demo_ops = \<lparr>f_add = (+), f_mul = (*), f_div = (div), f_acc_sq = (\<lambda>a w. a + w * w),
     f_cos = (\<lambda>s p q. s), f_sqrt_div = (\<lambda>a b. a), f_of_int = word_of_int\<rparr>"

theorem HammingCoder_HeString2Int_witness:
  "\<exists>v w. he_project demo_ops 64 [] (replicate 64 []) = Some v \<and>
     HeString2Int (replicate 16 CHR ''F'') None 0 = (0, Some [w], 1) \<and>
     (\<forall>i < 64. bit w (code_pos i) = f32_less (v ! i) (replicate 64 f32_one ! i))"
proof (rule HammingCoder_HeString2Int [of demo_ops HammingEmbedding "[]" "replicate 64 []" "replicate 64 f32_one" 0])
  have less: "f32_less f32_zero f32_one" by code_simp
  have "coder_loop (replicate 64 True) 0 0 [] = replicate 16 CHR ''F''" by code_simp
  then show "HammingCoder demo_ops HammingEmbedding [] (replicate 64 []) (replicate 64 f32_one)
      = Some (0, replicate 16 CHR ''F'')"
    by (simp add: HammingCoder_def HammingEmbedding_def he_project_def he_dot_def map_replicate_const
        zip_replicate less)
  show "he_length HammingEmbedding = 64" by (simp add: HammingEmbedding_def)
qed

text \<open>
  On non-empty signature arrays \<open>HeDistance\<close> succeeds and counts exactly the pairs of
  signatures that differ in at most \<open>he_threshold\<close> bits.
\<close>

theorem HeDistance_counts_similar:
  assumes "a \<noteq> []" and "b \<noteq> []"
  shows "HeDistance h n (Some a) (int (length a)) (Some b) (int (length b)) = Some (0,
     int (card {(i, j). i < length a \<and> j < length b \<and> popcount (a ! i XOR b ! j) \<le> unat (he_threshold h)}))"
  using assms by (simp add: HeDistance_def foldl_count_pairs he_similar_popcount)

theorem HeDistance_counts_similar_witness:
  "HeDistance (SetHammingParam HammingEmbedding 64 1) 0 (Some [0, 7]) 2 (Some [1]) 1 = Some (0,
     int (card {(i, j). i < length [0, 7 :: u64] \<and> j < length [1 :: u64] \<and>
       popcount ([0, 7 :: u64] ! i XOR [1] ! j) \<le> unat (he_threshold (SetHammingParam HammingEmbedding 64 1))}))"
  using HeDistance_counts_similar [of "[0, 7]" "[1]" "SetHammingParam HammingEmbedding 64 1" 0]
  by simp

text \<open>
  C11. Coding, decoding and comparing together: for two non-empty collections of 64-bit codes
  written as texts by the coder, decoding both texts and comparing them counts exactly the pairs
  of codes whose Hamming distance is at most the threshold.
\<close>

theorem he_pipeline_counts_pairs:
  assumes "bss \<noteq> []" and "css \<noteq> []"
    and "\<forall>bs \<in> set bss. length bs = 64" and "\<forall>cs \<in> set css. length cs = 64"
    and "HeString2Int (concat (map (\<lambda>bs. coder_loop bs 0 0 []) bss)) None k = (r, a, la)"
    and "HeString2Int (concat (map (\<lambda>bs. coder_loop bs 0 0 []) css)) None l = (q, b, lb)"
  shows "HeDistance h n a la b lb = Some (0,
     int (card {(i, j). i < length bss \<and> j < length css \<and>
       hamming_distance (bss ! i) (css ! j) \<le> unat (he_threshold h)}))"
proof -
  obtain ws where ws: "a = Some ws" "la = int (length bss)" "length ws = length bss"
    "\<forall>j < length bss. \<forall>i < 64. bit (ws ! j) (code_pos i) = bss ! j ! i"
    using HeString2Int_codes [OF assms(3), of k] assms(5) by auto
  obtain zs where zs: "b = Some zs" "lb = int (length css)" "length zs = length css"
    "\<forall>j < length css. \<forall>i < 64. bit (zs ! j) (code_pos i) = css ! j ! i"
    using HeString2Int_codes [OF assms(4), of l] assms(6) by auto
  have "popcount (ws ! i XOR zs ! j) = hamming_distance (bss ! i) (css ! j)"
    if "i < length bss" "j < length css" for i j
    using that ws(4) zs(4) assms(3) by (intro popcount_coded) auto
  then have "{(i, j). i < length ws \<and> j < length zs \<and> popcount (ws ! i XOR zs ! j) \<le> unat (he_threshold h)}
      = {(i, j). i < length bss \<and> j < length css \<and>
           hamming_distance (bss ! i) (css ! j) \<le> unat (he_threshold h)}"
    using ws(3) zs(3) by auto
  then show ?thesis
    using assms(1,2) ws(1-3) zs(1-3) by (simp add: HeDistance_def foldl_count_pairs he_similar_popcount)
qed

theorem he_pipeline_counts_pairs_witness:
  "HeDistance HammingEmbedding 0 (Some [0]) 1 (Some [0]) 1 = Some (0,
     int (card {(i, j). i < length [replicate 64 False] \<and> j < length [replicate 64 False] \<and>
       hamming_distance ([replicate 64 False] ! i) ([replicate 64 False] ! j)
         \<le> unat (he_threshold HammingEmbedding)}))"
proof -
  have "coder_loop (replicate 64 False) 0 0 [] = replicate 16 CHR ''0''" by code_simp
  moreover have "he_word (replicate 16 CHR ''0'') 0 = 0"
    by (simp add: he_word_def foldl_plus_upt he_digit_def schar_def cong: sum.cong_simp)
  ultimately have dec: "HeString2Int (concat (map (\<lambda>bs. coder_loop bs 0 0 []) [replicate 64 False])) None 0
      = (0, Some [0], 1)"
    by (simp add: HeString2Int_def)
  show ?thesis
    by (rule he_pipeline_counts_pairs [OF _ _ _ _ dec dec]) simp_all
qed

end
