(* ===== verification/Serializer.thy ===== *)
theory Serializer
  imports Float32
begin

text \<open>
  The binary image of one visual word, \<open>bof_core/src/indexer_serializer.cc\<close>. Memory is a
  list of bytes, a pointer into a buffer is a position; integers are little-endian. A fresh buffer
  has unspecified contents, given by the argument \<open>junk\<close>. \<open>he_\<close> and \<open>angle_\<close> are
  the arrays they point to; copying more than they hold is undefined, as is moving a pointer out of
  its buffer. The list \<open>items_\<close> never holds \<open>NULL\<close>.
\<close>

subsection \<open>Loading integers\<close>

definition load :: "nat \<Rightarrow> u8 list \<Rightarrow> int \<Rightarrow> nat cxx" where
  "load n d p = (if 0 \<le> p \<and> nat p + n \<le> length d
     then Some (nat_of_bytes (take n (drop (nat p) d))) else None)"

text \<open>\<open>cnt\<close> consecutive values of \<open>n\<close> bytes each.\<close>

definition load_array :: "nat \<Rightarrow> nat \<Rightarrow> u8 list \<Rightarrow> int \<Rightarrow> nat list cxx" where
  "load_array n cnt d p = (if 0 \<le> p \<and> nat p + n * cnt \<le> length d
     then Some (map (\<lambda>j. nat_of_bytes (take n (drop (nat p + n * j) d))) [0..<cnt]) else None)"

lemma load_at [byte_simps]:
  "length bs = n \<Longrightarrow> p = int (length u) \<Longrightarrow> load n (u @ bs @ v) p = Some (nat_of_bytes bs)"
  by (simp add: load_def)

lemma length_concat_bytes [byte_simps]:
  "length (concat (map (\<lambda>x. bytes_of n (f x)) xs)) = n * length xs"
  by (induction xs) (simp_all)

lemma concat_bytes_nth:
  "j < length xs \<Longrightarrow> take n (drop (n * j) (concat (map (\<lambda>x. bytes_of n (f x)) xs) @ v)) = bytes_of n (f (xs ! j))"
proof (induction xs arbitrary: j)
  case (Cons x xs)
  then show ?case by (cases j) simp_all
qed simp

lemma map_nth_image: "map (\<lambda>j. f (xs ! j)) [0..<length xs] = map f xs"
  by (rule nth_equalityI) simp_all

lemma load_array_at [byte_simps]:
  assumes "\<And>x. x \<in> set xs \<Longrightarrow> f x < 256 ^ n" and "p = int (length u)" and "k = length xs"
  shows "load_array n k (u @ concat (map (\<lambda>x. bytes_of n (f x)) xs) @ v) p = Some (map f xs)"
proof -
  let ?c = "concat (map (\<lambda>x. bytes_of n (f x)) xs)"
  have "take n (drop (length u + n * j) (u @ ?c @ v)) = bytes_of n (f (xs ! j))" if "j < k" for j
    using concat_bytes_nth [of j xs n f v] that assms(3) by simp
  moreover have "nat_of_bytes (bytes_of n (f (xs ! j))) = f (xs ! j)" if "j < k" for j
    using assms that by (simp add: nat_of_bytes_of)
  ultimately have "map (\<lambda>j. nat_of_bytes (take n (drop (length u + n * j) (u @ ?c @ v)))) [0..<k]
      = map (\<lambda>j. f (xs ! j)) [0..<k]"
    by (intro map_cong) (simp_all only: set_upt atLeastLessThan_iff)
  also have "\<dots> = map f xs" unfolding assms(3) by (rule map_nth_image)
  finally show ?thesis
    using assms(2,3) by (simp only: load_array_def) (simp add: length_concat_bytes)
qed

subsection \<open>Items\<close>

record IndexItem =
  ii_pic_id :: u64
  ii_weight :: f32
  ii_length :: u16
  ii_he :: "u64 list"
  ii_angle :: "u32 list"

definition IndexItem_new :: IndexItem where
  "IndexItem_new = \<lparr>ii_pic_id = 0, ii_weight = f32_zero, ii_length = 0, ii_he = [], ii_angle = []\<rparr>"

definition GetSize :: "IndexItem \<Rightarrow> int" where
  "GetSize it = 8 + 4 + 2 + 8 * sint (ii_length it) + 4 * sint (ii_length it)"

text \<open>
  The bytes \<open>DumpData\<close> stores: the byte counts \<open>he_len\<close> and \<open>angle_len\<close> are
  \<open>short\<close>, so the products wrap at 16 bits, and a negative count is an enormous
  \<open>size_t\<close> for \<open>memcpy\<close>.
\<close>

definition DumpData :: "IndexItem \<Rightarrow> u8 list cxx" where
  "DumpData it =
     (let he_len = sint (8 * ii_length it); angle_len = sint (4 * ii_length it);
          he_mem = concat (map (\<lambda>x. bytes_of 8 (unat x)) (ii_he it));
          angle_mem = concat (map (\<lambda>x. bytes_of 4 (unat x)) (ii_angle it))
      in if he_len < 0 \<or> length he_mem < nat he_len \<or> angle_len < 0 \<or> length angle_mem < nat angle_len
         then None
         else Some (bytes_of 8 (unat (ii_pic_id it)) @ bytes_of 4 (unat (ii_weight it)) @
           bytes_of 2 (unat (ii_length it)) @ take (nat he_len) he_mem @ take (nat angle_len) angle_mem))"

text \<open>\<open>ReinterpretData\<close> at position \<open>p\<close>: the item read and the position after it.\<close>

definition ReinterpretData :: "u8 list \<Rightarrow> int \<Rightarrow> (IndexItem \<times> int) cxx" where
  "ReinterpretData d p =
     (case (load 8 d p, load 4 d (p + 8), load 2 d (p + 12)) of
        (Some pic, Some w, Some l) \<Rightarrow>
          let len = sint (word_of_nat l :: u16); p_he = p + 14; p_angle = p_he + 8 * len;
              p_end = p_angle + 4 * len
          in case (load_array 8 (nat len) d p_he, load_array 4 (nat len) d p_angle) of
               (Some hes, Some angles) \<Rightarrow>
                 if p_end < 0 then None
                 else Some (\<lparr>ii_pic_id = word_of_nat pic, ii_weight = word_of_nat w,
                   ii_length = word_of_nat l, ii_he = map word_of_nat hes,
                   ii_angle = map word_of_nat angles\<rparr>, p_end)
             | _ \<Rightarrow> None
      | _ \<Rightarrow> None)"

definition IndexItem_Clear :: "IndexItem \<Rightarrow> IndexItem" where
  "IndexItem_Clear it = it\<lparr>ii_he := [], ii_angle := []\<rparr>"

subsection \<open>Words\<close>

record WordIndex =
  wi_word_id :: u32
  wi_items :: "IndexItem list"

definition WordIndex_new :: WordIndex where
  "WordIndex_new = \<lparr>wi_word_id = 0, wi_items = []\<rparr>"

definition WordIndex_AddItem :: "WordIndex \<Rightarrow> IndexItem \<Rightarrow> WordIndex" where
  "WordIndex_AddItem w it = w\<lparr>wi_items := wi_items w @ [it]\<rparr>"

definition ClearItems :: "WordIndex \<Rightarrow> WordIndex" where
  "ClearItems w = w\<lparr>wi_items := []\<rparr>"

definition CalcWordIndexSize :: "WordIndex \<Rightarrow> int" where
  "CalcWordIndexSize index = foldl (\<lambda>size it. size + GetSize it) (4 + 4) (wi_items index)"

primrec dump_items :: "IndexItem list \<Rightarrow> u8 list cxx" where
  "dump_items [] = Some []"
| "dump_items (it # its) =
     (case (DumpData it, dump_items its) of (Some b, Some bs) \<Rightarrow> Some (b @ bs) | _ \<Rightarrow> None)"

text \<open>
  The result is the size returned and the buffer \<open>data\<close>. Allocating a negative size throws,
  writing past the buffer is undefined; bytes never written keep their initial contents.
\<close>

definition Serialize :: "(nat \<Rightarrow> u8) \<Rightarrow> WordIndex \<Rightarrow> (int \<times> u8 list) cxx" where
  "Serialize junk index =
     (let word_index_size = CalcWordIndexSize index; size = nat word_index_size in
      if word_index_size < 0 then None
      else case dump_items (wi_items index) of
             None \<Rightarrow> None
           | Some bs \<Rightarrow>
               let written = bytes_of 4 (unat (wi_word_id index)) @
                     bytes_of 4 (unat (word_of_nat (length (wi_items index)) :: u32)) @ bs
               in if size < length written then None
                  else Some (word_index_size, written @ map junk [length written..<size]))"

primrec read_items :: "nat \<Rightarrow> u8 list \<Rightarrow> int \<Rightarrow> (IndexItem list \<times> int) cxx" where
  "read_items 0 d p = Some ([], p)"
| "read_items (Suc n) d p =
     (case ReinterpretData d p of
        None \<Rightarrow> None
      | Some (it, q) \<Rightarrow>
          (case read_items n d q of None \<Rightarrow> None | Some (its, r) \<Rightarrow> Some (it # its, r)))"

definition Unserialize :: "u8 list option \<Rightarrow> int \<Rightarrow> WordIndex \<Rightarrow> (int \<times> WordIndex) cxx" where
  "Unserialize data data_size index =
     (case data of
        None \<Rightarrow> Some (-1, index)
      | Some d \<Rightarrow>
          (case (load 4 d 0, load 4 d 4) of
             (Some wid, Some n) \<Rightarrow>
               (let items_size = sint (word_of_nat n :: u32)
                in map_option (\<lambda>(its, _). (0, index\<lparr>wi_word_id := word_of_nat wid, wi_items := its\<rparr>))
                     (read_items (nat items_size) d 8))
           | _ \<Rightarrow> None))"

subsection \<open>Sequences of self-delimiting records\<close>

text \<open>
  The contract between a writer of records and a reader at a position: a well-formed record is
  written, and wherever its bytes stand in a buffer the reader returns it and the position
  after it. Sequences of records then read back in order.
\<close>

locale record_codec =
  fixes dump :: "'a \<Rightarrow> u8 list option"
    and parse :: "u8 list \<Rightarrow> int \<Rightarrow> ('a \<times> int) option"
    and ok :: "'a \<Rightarrow> bool"
  assumes dump_ok: "ok x \<Longrightarrow> \<exists>b. dump x = Some b"
    and parse_dump: "ok x \<Longrightarrow> dump x = Some b \<Longrightarrow>
      parse (u @ b @ v) (int (length u)) = Some (x, int (length u + length b))"
begin

primrec dumps :: "'a list \<Rightarrow> u8 list option" where
  "dumps [] = Some []"
| "dumps (x # xs) = (case (dump x, dumps xs) of (Some b, Some bs) \<Rightarrow> Some (b @ bs) | _ \<Rightarrow> None)"

primrec parses :: "nat \<Rightarrow> u8 list \<Rightarrow> int \<Rightarrow> ('a list \<times> int) option" where
  "parses 0 d p = Some ([], p)"
| "parses (Suc n) d p = (case parse d p of None \<Rightarrow> None | Some (x, q) \<Rightarrow>
     (case parses n d q of None \<Rightarrow> None | Some (xs, r) \<Rightarrow> Some (x # xs, r)))"

lemma dumps_ok: "\<forall>x \<in> set xs. ok x \<Longrightarrow> \<exists>b. dumps xs = Some b"
proof (induction xs)
  case (Cons x xs)
  then show ?case using dump_ok [of x] by auto
qed simp

lemma parses_dumps:
  "\<forall>x \<in> set xs. ok x \<Longrightarrow> dumps xs = Some b \<Longrightarrow>
     parses (length xs) (u @ b @ v) (int (length u)) = Some (xs, int (length u + length b))"
proof (induction xs arbitrary: u b)
  case (Cons x xs)
  from Cons.prems obtain b1 b2 where b: "dump x = Some b1" "dumps xs = Some b2" "b = b1 @ b2"
    by (auto split: option.splits)
  have "parse (u @ b @ v) (int (length u)) = Some (x, int (length (u @ b1)))"
    using parse_dump [of x b1 u "b2 @ v"] Cons.prems(1) b by simp
  moreover have "parses (length xs) (u @ b @ v) (int (length (u @ b1))) = Some (xs, int (length u + length b))"
    using Cons.IH [of b2 "u @ b1"] Cons.prems(1) b by (simp add: algebra_simps)
  ultimately show ?case by simp
qed simp

end

text \<open>An item is well formed when its arrays have \<open>length_\<close> entries and fewer than 4096.\<close>

definition item_ok :: "IndexItem \<Rightarrow> bool" where
  "item_ok it \<longleftrightarrow> unat (ii_length it) < 4096 \<and> length (ii_he it) = unat (ii_length it) \<and>
     length (ii_angle it) = unat (ii_length it)"

definition item_bytes :: "IndexItem \<Rightarrow> u8 list" where
  "item_bytes it = bytes_of 8 (unat (ii_pic_id it)) @ bytes_of 4 (unat (ii_weight it)) @
     bytes_of 2 (unat (ii_length it)) @ concat (map (\<lambda>x. bytes_of 8 (unat x)) (ii_he it)) @
     concat (map (\<lambda>x. bytes_of 4 (unat x)) (ii_angle it))"

lemma sint_short: "unat (w :: u16) = n \<Longrightarrow> n < 32768 \<Longrightarrow> sint w = int n"
proof -
  assume "unat w = n" "n < 32768"
  then have "uint w = int n" "int n < 32768" by auto
  then show "sint w = int n" by (simp add: sint_uint signed_take_bit_int_eq_self_iff)
qed

lemma short_nonneg:
  assumes "unat (l :: u16) = n" and "n < 4096"
  shows "sint l = int n" "sint (8 * l) = int (8 * n)" "sint (4 * l) = int (4 * n)"
proof -
  have "unat (8 * l) = 8 * n" "unat (4 * l) = 4 * n"
    using assms by (simp_all add: unat_word_ariths)
  then show "sint l = int n" "sint (8 * l) = int (8 * n)" "sint (4 * l) = int (4 * n)"
    using assms by (intro sint_short; simp)+
qed

lemma item_okE:
  assumes "item_ok it"
  obtains n where "unat (ii_length it) = n" and "n < 4096" and "length (ii_he it) = n"
    and "length (ii_angle it) = n"
  using assms by (simp add: item_ok_def)

lemma DumpData_ok: "item_ok it \<Longrightarrow> DumpData it = Some (item_bytes it)"
proof -
  assume "item_ok it"
  then obtain n where l: "unat (ii_length it) = n" "n < 4096" "length (ii_he it) = n"
    "length (ii_angle it) = n" by (rule item_okE)
  have "nat (8 * int n) = 8 * n" "nat (4 * int n) = 4 * n" by (simp_all flip: of_nat_mult)
  then show ?thesis
    by (simp add: DumpData_def item_bytes_def short_nonneg [OF l(1,2)] length_concat_bytes l Let_def)
qed

lemma length_item_bytes: "item_ok it \<Longrightarrow> int (length (item_bytes it)) = GetSize it"
  by (erule item_okE) (simp add: item_bytes_def GetSize_def short_nonneg length_concat_bytes)

lemma ReinterpretData_item_bytes:
  assumes "item_ok it"
  shows "ReinterpretData (u @ item_bytes it @ v) (int (length u))
    = Some (it, int (length u + length (item_bytes it)))"
proof -
  from assms obtain n where l: "unat (ii_length it) = n" "n < 4096" "length (ii_he it) = n"
    "length (ii_angle it) = n" by (rule item_okE)
  let ?p = "int (length u)"
  let ?b1 = "bytes_of 8 (unat (ii_pic_id it))" and ?b2 = "bytes_of 4 (unat (ii_weight it))"
  let ?b3 = "bytes_of 2 (unat (ii_length it))" and ?h = "concat (map (\<lambda>x. bytes_of 8 (unat x)) (ii_he it))"
  let ?a = "concat (map (\<lambda>x. bytes_of 4 (unat x)) (ii_angle it))"
  have "load 8 (u @ ?b1 @ (?b2 @ ?b3 @ ?h @ ?a @ v)) ?p = Some (unat (ii_pic_id it))"
    by (subst load_at) (simp_all add: nat_of_word_bytes)
  moreover have "load 4 ((u @ ?b1) @ ?b2 @ (?b3 @ ?h @ ?a @ v)) (?p + 8) = Some (unat (ii_weight it))"
    by (subst load_at) (simp_all add: nat_of_word_bytes)
  moreover have "load 2 ((u @ ?b1 @ ?b2) @ ?b3 @ (?h @ ?a @ v)) (?p + 12) = Some n"
    by (subst load_at) (simp_all add: nat_of_word_bytes(3) [of "ii_length it", unfolded l(1)] l(1))
  moreover have "load_array 8 n ((u @ ?b1 @ ?b2 @ ?b3) @ ?h @ (?a @ v)) (?p + 14) = Some (map unat (ii_he it))"
    by (rule load_array_at) (rule word_bytes_bound, simp_all add: l)
  moreover have "load_array 4 n ((u @ ?b1 @ ?b2 @ ?b3 @ ?h) @ ?a @ v) (?p + 14 + 8 * int n)
      = Some (map unat (ii_angle it))"
    by (rule load_array_at) (rule word_bytes_bound, simp_all add: l length_concat_bytes)
  moreover have "word_of_nat n = ii_length it" using l(1) by auto
  ultimately show ?thesis
    using short_nonneg [OF l(1,2)]
    by (simp add: ReinterpretData_def item_bytes_def Let_def length_concat_bytes l comp_def)
qed

interpretation item_codec: record_codec DumpData ReinterpretData item_ok
proof (rule record_codec.intro)
  show "item_ok x \<Longrightarrow> \<exists>b. DumpData x = Some b" for x by (simp add: DumpData_ok)
  show "item_ok x \<Longrightarrow> DumpData x = Some b \<Longrightarrow>
      ReinterpretData (u @ b @ v) (int (length u)) = Some (x, int (length u + length b))" for x b u v
    using ReinterpretData_item_bytes [of x u v] by (simp add: DumpData_ok)
qed

lemma dump_items_codec: "dump_items = item_codec.dumps"
proof
  show "dump_items its = item_codec.dumps its" for its by (induction its) simp_all
qed

lemma read_items_codec: "read_items = item_codec.parses"
proof
  show "read_items n = item_codec.parses n" for n
    by (induction n) (auto simp: fun_eq_iff split: option.splits)
qed

lemma length_dump_items:
  "\<forall>it \<in> set its. item_ok it \<Longrightarrow> dump_items its = Some b \<Longrightarrow> int (length b) = (\<Sum>it\<leftarrow>its. GetSize it)"
  by (induction its arbitrary: b) (auto simp: DumpData_ok length_item_bytes split: option.splits)

lemma CalcWordIndexSize_sum: "CalcWordIndexSize w = 8 + (\<Sum>it\<leftarrow>wi_items w. GetSize it)"
proof -
  have "foldl (\<lambda>size it. size + GetSize it) k its = k + (\<Sum>it\<leftarrow>its. GetSize it)" for k its
    by (induction its arbitrary: k) simp_all
  then show ?thesis by (simp add: CalcWordIndexSize_def)
qed

definition word_ok :: "WordIndex \<Rightarrow> bool" where
  "word_ok w \<longleftrightarrow> length (wi_items w) < 2 ^ 31 \<and> (\<forall>it \<in> set (wi_items w). item_ok it)"

text \<open>
  A well-formed word is written without a byte left over, and its bytes, followed by anything,
  read back to it.
\<close>

lemma Serialize_ok:
  assumes "word_ok w"
  shows "\<exists>d. Serialize junk w = Some (int (length d), d) \<and> length d = nat (CalcWordIndexSize w) \<and>
    8 \<le> length d \<and>
    (\<forall>v size index. Unserialize (Some (d @ v)) size index = Some (0, index\<lparr>wi_word_id := wi_word_id w, wi_items := wi_items w\<rparr>))"
proof -
  let ?n = "length (wi_items w)"
  from assms have its: "\<forall>it \<in> set (wi_items w). item_ok it" and n: "?n < 2 ^ 31" by (auto simp: word_ok_def)
  obtain b where b: "dump_items (wi_items w) = Some b"
    using item_codec.dumps_ok [OF its] by (auto simp: dump_items_codec)
  let ?b1 = "bytes_of 4 (unat (wi_word_id w))" and ?b2 = "bytes_of 4 (unat (word_of_nat ?n :: u32))"
  let ?d = "?b1 @ ?b2 @ b"
  have size: "CalcWordIndexSize w = int (length ?d)"
    using length_dump_items [OF its b] by (simp add: CalcWordIndexSize_sum)
  have cnt: "sint (word_of_nat (unat (word_of_nat ?n :: u32)) :: u32) = int ?n"
    using n by (simp add: sint_uint signed_take_bit_int_eq_self unsigned_of_nat take_bit_nat_eq_self
        uint_word_of_int_eq take_bit_int_eq_self)
  have ser: "Serialize junk w = Some (int (length ?d), ?d)"
    using size b by (simp add: Serialize_def Let_def)
  have "Unserialize (Some (?d @ v)) data_size index
      = Some (0, index\<lparr>wi_word_id := wi_word_id w, wi_items := wi_items w\<rparr>)" for v data_size index
  proof -
    have "load 4 ([] @ ?b1 @ (?b2 @ b @ v)) 0 = Some (unat (wi_word_id w))"
      by (subst load_at) (simp_all add: nat_of_word_bytes)
    moreover have "load 4 (?b1 @ ?b2 @ (b @ v)) 4 = Some (unat (word_of_nat ?n :: u32))"
      by (subst load_at) (simp_all add: nat_of_word_bytes)
    moreover have "read_items ?n ((?b1 @ ?b2) @ b @ v) (int (length (?b1 @ ?b2)))
        = Some (wi_items w, int (length (?b1 @ ?b2) + length b))"
      using item_codec.parses_dumps [OF its, of b "?b1 @ ?b2" v] b
      by (simp add: dump_items_codec read_items_codec)
    ultimately show ?thesis using cnt by (simp add: Unserialize_def Let_def)
  qed
  with ser size show ?thesis by (intro exI [of _ ?d]) simp
qed

subsection \<open>Properties\<close>

text \<open>
  C3. A word whose items are well formed (both arrays as long as \<open>length_\<close>, fewer than 4096
  signatures each) is serialised into exactly \<open>CalcWordIndexSize\<close> bytes, and unserialising
  these bytes, whatever follows them, returns the same word.
\<close>

theorem Serialize_Unserialize:
  assumes "word_ok w"
  shows "\<exists>d. Serialize junk w = Some (CalcWordIndexSize w, d) \<and> int (length d) = CalcWordIndexSize w \<and>
    Unserialize (Some (d @ v)) n WordIndex_new = Some (0, w)"
  using Serialize_ok [OF assms, of junk] by (auto simp: WordIndex_new_def)

theorem Serialize_Unserialize_witness:
  "\<exists>d. Serialize (\<lambda>_. 0) \<lparr>wi_word_id = 7, wi_items = [\<lparr>ii_pic_id = 300, ii_weight = f32_one, ii_length = 1,
         ii_he = [0xFFFF], ii_angle = [90]\<rparr>]\<rparr> =
       Some (CalcWordIndexSize \<lparr>wi_word_id = 7, wi_items = [\<lparr>ii_pic_id = 300, ii_weight = f32_one, ii_length = 1,
         ii_he = [0xFFFF], ii_angle = [90]\<rparr>]\<rparr>, d) \<and>
     int (length d) = CalcWordIndexSize \<lparr>wi_word_id = 7, wi_items = [\<lparr>ii_pic_id = 300, ii_weight = f32_one, ii_length = 1,
         ii_he = [0xFFFF], ii_angle = [90]\<rparr>]\<rparr> \<and>
     Unserialize (Some (d @ [0])) 35 WordIndex_new = Some (0, \<lparr>wi_word_id = 7, wi_items = [\<lparr>ii_pic_id = 300,
         ii_weight = f32_one, ii_length = 1, ii_he = [0xFFFF], ii_angle = [90]\<rparr>]\<rparr>)"
  by (rule Serialize_Unserialize) (simp add: word_ok_def item_ok_def)

text \<open>
  C24. The byte counts of \<open>DumpData\<close> overflow \<open>short\<close>: an item with 4096 to 8191
  signatures, whose arrays are complete, asks \<open>memcpy\<close> for a negative number of bytes.
\<close>

theorem DumpData_short_overflow:
  assumes "4096 \<le> unat (ii_length it)" and "unat (ii_length it) < 8192"
    and "length (ii_he it) = unat (ii_length it)" and "length (ii_angle it) = unat (ii_length it)"
  shows "DumpData it = None"
proof -
  let ?n = "unat (ii_length it)"
  have "unat (8 * ii_length it) = 8 * ?n" using assms by (simp add: unat_word_ariths)
  then have u: "uint (8 * ii_length it) = 8 * int ?n" by (simp only: uint_nat of_nat_mult of_nat_numeral)
  have "8 * int ?n div 32768 = 1" using assms by linarith
  then have "bit (uint (8 * ii_length it)) 15"
    unfolding u by (simp add: bit_iff_odd)
  then have "sint (8 * ii_length it) < 0" by (simp add: sint_uint)
  then show ?thesis by (simp add: DumpData_def Let_def)
qed

theorem DumpData_short_overflow_witness:
  "DumpData \<lparr>ii_pic_id = 1, ii_weight = 0, ii_length = 4096, ii_he = replicate 4096 0,
     ii_angle = replicate 4096 0\<rparr> = None"
  by (rule DumpData_short_overflow) simp_all

end
