(* ===== verification/Hinter.thy ===== *)
theory Hinter
  imports Prelude
begin

text \<open>
  The directory of the index file, \<open>bof_core/src/index_hinter.cc\<close>: for every word id the
  byte range of its image. Class \<open>IndexHinter\<close> is a vector of \<open>HinterItem\<close> indexed by
  the id; the bounds test compares signed integers, so a negative id passes it and the access is
  undefined.
\<close>

record HinterItem =
  hi_start_pos :: int
  hi_end_pos :: int
  hi_bucket_size :: int

record IndexHinter =
  ih_max_bucket_num :: int
  ih_items :: "HinterItem list"

definition HinterItem_new :: HinterItem where
  "HinterItem_new = \<lparr>hi_start_pos = 0, hi_end_pos = 0, hi_bucket_size = 0\<rparr>"

definition IndexHinter_new :: "int \<Rightarrow> IndexHinter cxx" where
  "IndexHinter_new max_bucket_num =
     (if max_bucket_num < 0 then None
      else Some \<lparr>ih_max_bucket_num = max_bucket_num,
             ih_items = replicate (nat max_bucket_num) HinterItem_new\<rparr>)"

definition SetHint :: "IndexHinter \<Rightarrow> int \<Rightarrow> HinterItem \<Rightarrow> (int \<times> IndexHinter) cxx" where
  "SetHint h bucket_id item =
     (if bucket_id \<ge> int (length (ih_items h)) then Some (-1, h)
      else if bucket_id < 0 then None
      else Some (0, h\<lparr>ih_items := (ih_items h)[nat bucket_id := item]\<rparr>))"

definition GetHint :: "IndexHinter \<Rightarrow> int \<Rightarrow> HinterItem \<Rightarrow> (int \<times> HinterItem) cxx" where
  "GetHint h bucket_id item =
     (if bucket_id \<ge> int (length (ih_items h)) then Some (-1, item)
      else if bucket_id < 0 then None
      else Some (0, ih_items h ! nat bucket_id))"

subsection \<open>The contract of a directory\<close>

text \<open>
  What the writers and the readers of the index rely on: within the capacity a stored entry is
  returned until the same id is stored again, and no other entry changes.
\<close>

locale directory =
  fixes cap :: "'s \<Rightarrow> int"
    and put :: "'s \<Rightarrow> int \<Rightarrow> 'v \<Rightarrow> (int \<times> 's) option"
    and get :: "'s \<Rightarrow> int \<Rightarrow> 'v \<Rightarrow> (int \<times> 'v) option"
  assumes put_ok: "0 \<le> k \<Longrightarrow> k < cap s \<Longrightarrow> \<exists>s'. put s k v = Some (0, s')"
    and put_cap: "put s k v = Some (r, s') \<Longrightarrow> cap s' = cap s"
    and get_put: "put s k v = Some (0, s') \<Longrightarrow> get s' k d = Some (0, v)"
    and get_put_other: "put s k v = Some (r, s') \<Longrightarrow> j \<noteq> k \<Longrightarrow> get s' j d = get s j d"
begin

primrec puts :: "'s \<Rightarrow> (int \<times> 'v) list \<Rightarrow> 's option" where
  "puts s [] = Some s"
| "puts s (kv # kvs) = (case put s (fst kv) (snd kv) of None \<Rightarrow> None | Some (_, s') \<Rightarrow> puts s' kvs)"

lemma puts_other: "puts s kvs = Some s' \<Longrightarrow> j \<notin> fst ` set kvs \<Longrightarrow> get s' j d = get s j d"
  by (induction kvs arbitrary: s) (auto split: option.splits dest: get_put_other)

lemma puts_ok:
  "\<forall>k \<in> fst ` set kvs. 0 \<le> k \<and> k < cap s \<Longrightarrow> \<exists>s'. puts s kvs = Some s' \<and> cap s' = cap s"
proof (induction kvs arbitrary: s)
  case (Cons kv kvs)
  then obtain s1 where s1: "put s (fst kv) (snd kv) = Some (0, s1)"
    using put_ok [of "fst kv" s "snd kv"] by auto
  then have "cap s1 = cap s" by (rule put_cap)
  with Cons.IH [of s1] Cons.prems s1 show ?case by auto
qed simp

lemma puts_get:
  assumes "distinct (map fst kvs)" and "\<forall>k \<in> fst ` set kvs. 0 \<le> k \<and> k < cap s"
    and "puts s kvs = Some s'" and "(k, v) \<in> set kvs"
  shows "get s' k d = Some (0, v)"
  using assms
proof (induction kvs arbitrary: s)
  case (Cons kv kvs)
  then obtain s1 where s1: "put s (fst kv) (snd kv) = Some (0, s1)"
    using put_ok [of "fst kv" s "snd kv"] by auto
  then have cap: "cap s1 = cap s" by (rule put_cap)
  have rest: "puts s1 kvs = Some s'" using Cons.prems(3) s1 by simp
  show ?case
  proof (cases "(k, v) = kv")
    case True
    then have "get s' k d = get s1 k d"
      using puts_other [OF rest, of k d] Cons.prems(1) by auto
    also have "\<dots> = Some (0, v)" using get_put [OF s1] True by auto
    finally show ?thesis .
  next
    case False
    then show ?thesis using Cons.IH [OF _ _ rest] Cons.prems cap by auto
  qed
qed simp

end

definition hint_cap :: "IndexHinter \<Rightarrow> int" where
  "hint_cap h = int (length (ih_items h))"

interpretation hints: directory hint_cap SetHint GetHint
proof (rule directory.intro)
  show "0 \<le> k \<Longrightarrow> k < hint_cap s \<Longrightarrow> \<exists>s'. SetHint s k v = Some (0, s')" for k s v
    by (simp add: SetHint_def hint_cap_def)
  show "SetHint s k v = Some (r, s') \<Longrightarrow> hint_cap s' = hint_cap s" for s k v r s'
    by (auto simp: SetHint_def hint_cap_def split: if_splits)
  show "SetHint s k v = Some (0, s') \<Longrightarrow> GetHint s' k d = Some (0, v)" for s k v s' d
    by (auto simp: SetHint_def GetHint_def split: if_splits)
  show "SetHint s k v = Some (r, s') \<Longrightarrow> j \<noteq> k \<Longrightarrow> GetHint s' j d = GetHint s j d" for s k v r s' j d
    by (auto simp: SetHint_def GetHint_def split: if_splits)
qed

end
