(* ===== verification/Index.thy ===== *)
theory Index
  imports Hamming Serializer Hinter
begin

text \<open>
  The inverted index of \<open>bof_core/src/indexer.cc\<close>: buckets of quantised pictures
  (\<open>BOFIndexItem\<close>, \<open>BOFIndexBucket\<close>), their conversion to words, and class
  \<open>BOFIndex\<close>, which reads words from the index file through the directory of
  \<open>Hinter\<close>, or from memory. Files are byte lists with the stream's good bit; reads that hit
  the end clear it.
\<close>

subsection \<open>Buckets\<close>

record BOFQuantizeResult =
  q_weight :: f32
  word_info :: "string list"

definition BOFQuantizeResult_new :: BOFQuantizeResult where
  "BOFQuantizeResult_new = \<lparr>q_weight = f32_zero, word_info = ['''', '''']\<rparr>"

record BOFIndexItem =
  bi_pic_id :: u32
  bi_bof_info :: BOFQuantizeResult

record BOFIndexBucket =
  bucket_id :: u32
  bucket_items :: "BOFIndexItem list"

definition BOFIndexBucket_new :: "u32 \<Rightarrow> BOFIndexBucket" where
  "BOFIndexBucket_new i = \<lparr>bucket_id = i, bucket_items = []\<rparr>"

definition SetPicID :: "BOFIndexItem \<Rightarrow> u32 \<Rightarrow> BOFIndexItem" where
  "SetPicID it pic_id = it\<lparr>bi_pic_id := pic_id\<rparr>"

definition SetBofResult :: "BOFIndexItem \<Rightarrow> BOFQuantizeResult \<Rightarrow> BOFIndexItem" where
  "SetBofResult it info = it\<lparr>bi_bof_info := info\<rparr>"

definition BOFIndexItem_Set :: "BOFIndexItem \<Rightarrow> u32 \<Rightarrow> BOFQuantizeResult \<Rightarrow> BOFIndexItem" where
  "BOFIndexItem_Set it pic_id info = SetBofResult (SetPicID it pic_id) info"

definition BOFIndexItem_new :: BOFIndexItem where
  "BOFIndexItem_new = \<lparr>bi_pic_id = 0, bi_bof_info = BOFQuantizeResult_new\<rparr>"

definition AddItem :: "BOFIndexBucket \<Rightarrow> BOFIndexItem \<Rightarrow> int \<times> BOFIndexBucket" where
  "AddItem b it = (0, b\<lparr>bucket_items := bucket_items b @ [it]\<rparr>)"

definition AddItem_info :: "BOFIndexBucket \<Rightarrow> u32 \<Rightarrow> BOFQuantizeResult \<Rightarrow> int \<times> BOFIndexBucket" where
  "AddItem_info b pic_id info = AddItem b (BOFIndexItem_Set BOFIndexItem_new pic_id info)"

definition GetItemsCount :: "BOFIndexBucket \<Rightarrow> nat" where
  "GetItemsCount b = length (bucket_items b)"

text \<open>
  Three decimal digits at \<open>3*j\<close> of the angle text; \<open>operator[]\<close> may read the terminating
  null character at the end, not beyond it.
\<close>

definition angle_char :: "string \<Rightarrow> nat \<Rightarrow> int cxx" where
  "angle_char s i = (if i < length s then Some (schar (s ! i)) else if i = length s then Some 0 else None)"

definition angle_digits :: "string \<Rightarrow> nat \<Rightarrow> u32 cxx" where
  "angle_digits s j =
     (case (angle_char s (3 * j), angle_char s (3 * j + 1), angle_char s (3 * j + 2)) of
        (Some a, Some b, Some c) \<Rightarrow>
          Some (word_of_int ((a - 48) * 100) + word_of_int ((b - 48) * 10) + word_of_int (c - 48))
      | _ \<Rightarrow> None)"

primrec all_some :: "'a option list \<Rightarrow> 'a list option" where
  "all_some [] = Some []"
| "all_some (x # xs) = (case (x, all_some xs) of (Some y, Some ys) \<Rightarrow> Some (y # ys) | _ \<Rightarrow> None)"

text \<open>One item of the bucket; \<open>length_\<close> is a \<open>short\<close>, and \<open>new[]\<close> throws on a negative one.\<close>

definition convert_item :: "BOFIndexItem \<Rightarrow> IndexItem cxx" where
  "convert_item bitem =
     (case word_info (bi_bof_info bitem) of
        [] \<Rightarrow> None
      | he # rest \<Rightarrow>
          let len = (word_of_nat (length he div 16) :: u16); n = nat (sint len) in
          if sint len < 0 then None
          else case (if n = 0 then Some [] else case rest of [] \<Rightarrow> None
                 | angles # _ \<Rightarrow> all_some (map (angle_digits angles) [0..<n])) of
            None \<Rightarrow> None
          | Some as \<Rightarrow> Some \<lparr>ii_pic_id = ucast (bi_pic_id bitem), ii_weight = q_weight (bi_bof_info bitem),
              ii_length = len, ii_he = map (\<lambda>j. he_word he (j * 16)) [0..<n], ii_angle = as\<rparr>)"

definition ConvertB2W :: "BOFIndexBucket \<Rightarrow> WordIndex \<Rightarrow> (int \<times> WordIndex) cxx" where
  "ConvertB2W b word =
     map_option (\<lambda>its. (0, word\<lparr>wi_word_id := bucket_id b, wi_items := wi_items word @ its\<rparr>))
       (all_some (map convert_item (bucket_items b)))"

subsection \<open>Files\<close>

record istream =
  is_bytes :: "u8 list"
  is_good :: bool

text \<open>
  \<open>seekg(pos)\<close> and \<open>read(buf, n)\<close>: the buffer afterwards, with its initial contents
  \<open>junk\<close> where nothing was stored.
\<close>

definition seek_read :: "(nat \<Rightarrow> u8) \<Rightarrow> istream \<Rightarrow> int \<Rightarrow> nat \<Rightarrow> u8 list \<times> istream" where
  "seek_read junk f pos n =
     (let got = (if is_good f \<and> 0 \<le> pos then take n (drop (nat pos) (is_bytes f)) else [])
      in (got @ map junk [length got..<n], f\<lparr>is_good := is_good f \<and> 0 \<le> pos \<and> length got = n\<rparr>))"

subsection \<open>The index\<close>

text \<open>
  A word kept in memory: its data pointer is \<open>None\<close> while indeterminate (the default constructor
  of \<open>MemWord\<close> does not set it), \<open>Some None\<close> is \<open>NULL\<close>.
\<close>

record MemWord =
  mw_word_index :: WordIndex
  mw_word_data :: "u8 list option option"

definition MemWord_new :: MemWord where
  "MemWord_new = \<lparr>mw_word_index = WordIndex_new, mw_word_data = None\<rparr>"

definition ReleaseWord :: "MemWord \<Rightarrow> MemWord cxx" where
  "ReleaseWord mw = (case mw_word_data mw of None \<Rightarrow> None
     | Some _ \<Rightarrow> Some (mw\<lparr>mw_word_data := Some None, mw_word_index := ClearItems (mw_word_index mw)\<rparr>))"

record BOFIndex =
  hinter :: "IndexHinter option"
  fs_data :: istream
  mem_words_manager :: "MemWord list"
  begin_word_id :: int

definition BOFIndex_new :: BOFIndex where
  "BOFIndex_new = \<lparr>hinter = None, fs_data = \<lparr>is_bytes = [], is_good = False\<rparr>, mem_words_manager = [],
     begin_word_id = 0\<rparr>"

text \<open>
  The two files of an index: the directory that the archive library reads from the hint file and the
  bytes of the data file, \<open>None\<close> when a file cannot be opened.
\<close>

definition Index_Init ::
    "BOFIndex \<Rightarrow> int \<Rightarrow> IndexHinter option \<Rightarrow> u8 list option \<Rightarrow> (int \<times> BOFIndex) cxx" where
  "Index_Init ix max_bucket_num hint_file data_file =
     (case IndexHinter_new max_bucket_num of
        None \<Rightarrow> None
      | Some h \<Rightarrow>
          (case hint_file of
             None \<Rightarrow> Some (-2, ix\<lparr>hinter := Some h\<rparr>)
           | Some h' \<Rightarrow>
               (case data_file of
                  None \<Rightarrow> Some (-3, ix\<lparr>hinter := Some h'\<rparr>)
                | Some bs \<Rightarrow> Some (0, ix\<lparr>hinter := Some h', fs_data := \<lparr>is_bytes = bs, is_good = True\<rparr>\<rparr>))))"

text \<open>
  \<open>LoadWord\<close> returns its code, the word, the data buffer and the index. \<open>data_len\<close> is an
  \<open>int\<close>; a buffer of size zero or less cannot hold the terminator.
\<close>

definition LoadWord ::
    "(nat \<Rightarrow> u8) \<Rightarrow> BOFIndex \<Rightarrow> int \<Rightarrow> WordIndex \<Rightarrow> (int \<times> WordIndex \<times> u8 list option \<times> BOFIndex) cxx" where
  "LoadWord junk ix word_id word_index =
     (case hinter ix of
        None \<Rightarrow> None
      | Some h \<Rightarrow>
          (case GetHint h word_id HinterItem_new of
             None \<Rightarrow> None
           | Some (r, hint_item) \<Rightarrow>
               if r \<noteq> 0 then Some (-1, word_index, None, ix)
               else if hi_start_pos hint_item = hi_end_pos hint_item then Some (-2, word_index, None, ix)
               else
                 let data_len = sint (word_of_int (hi_end_pos hint_item - hi_start_pos hint_item + 1) :: u32) in
                 if data_len \<le> 0 then None
                 else
                   let (buf, fs) = seek_read junk (fs_data ix) (hi_start_pos hint_item) (nat (data_len - 1));
                       data = buf @ [0]; ix' = ix\<lparr>fs_data := fs\<rparr>
                   in case Unserialize (Some data) data_len word_index of
                        None \<Rightarrow> None
                      | Some (r', w) \<Rightarrow>
                          if r' \<noteq> 0 then Some (-3, w, Some data, ix') else Some (0, w, Some data, ix')))"

definition SetBeginWordId :: "BOFIndex \<Rightarrow> int \<Rightarrow> int \<times> BOFIndex" where
  "SetBeginWordId ix b = (0, ix\<lparr>begin_word_id := b\<rparr>)"

text \<open>
  Destruction of a word that was read from a buffer: its items' \<open>he_\<close> and \<open>angle_\<close> point
  into that buffer, and \<open>~IndexItem\<close> passes them to \<open>delete[]\<close>.
\<close>

definition destroy_read_word :: "WordIndex \<Rightarrow> unit cxx" where
  "destroy_read_word w = (if wi_items w = [] then Some () else None)"

text \<open>
  The loop of \<open>LoadFileData\<close> over the positions \<open>i\<close> of the manager. \<open>MemWord\<close> takes
  the word by value, and the copy is destroyed as soon as the object is built.
\<close>

primrec load_file_loop ::
    "(nat \<Rightarrow> u8) \<Rightarrow> nat \<Rightarrow> BOFIndex \<Rightarrow> int \<Rightarrow> int \<Rightarrow> (int \<times> BOFIndex) cxx" where
  "load_file_loop junk 0 ix i current_id = Some (0, ix)"
| "load_file_loop junk (Suc n) ix i current_id =
     (case LoadWord junk ix current_id WordIndex_new of
        None \<Rightarrow> None
      | Some (r, w, d, ix') \<Rightarrow>
          if r \<noteq> 0 then Some (-1, ix')
          else case destroy_read_word w of
            None \<Rightarrow> None
          | Some _ \<Rightarrow>
              if i < 0 \<or> int (length (mem_words_manager ix')) \<le> i then None
              else load_file_loop junk n
                     (ix'\<lparr>mem_words_manager := (mem_words_manager ix')[nat i := \<lparr>mw_word_index = w, mw_word_data = Some d\<rparr>]\<rparr>)
                     (i + 1) (current_id + 1))"

definition LoadFileData :: "(nat \<Rightarrow> u8) \<Rightarrow> BOFIndex \<Rightarrow> int \<Rightarrow> int \<Rightarrow> (int \<times> BOFIndex) cxx" where
  "LoadFileData junk ix begin_id end_id =
     (let size_n = end_id - begin_id in
      if size_n \<le> 0 then Some (-1, ix)
      else load_file_loop junk (nat size_n)
             (ix\<lparr>mem_words_manager := take (nat size_n) (mem_words_manager ix) @
                  replicate (nat size_n - length (mem_words_manager ix)) MemWord_new\<rparr>)
             (begin_id - begin_word_id ix) begin_id)"

definition ReleaseFileData :: "BOFIndex \<Rightarrow> (int \<times> BOFIndex) cxx" where
  "ReleaseFileData ix =
     map_option (\<lambda>ms. (0, ix\<lparr>mem_words_manager := ms\<rparr>)) (all_some (map ReleaseWord (mem_words_manager ix)))"

definition GetWord :: "BOFIndex \<Rightarrow> int \<Rightarrow> WordIndex \<Rightarrow> (int \<times> WordIndex) cxx" where
  "GetWord ix word_id word_index =
     (let manager_word_id = word_id - begin_word_id ix in
      if mem_words_manager ix = [] then Some (-1, word_index)
      else if manager_word_id < 0 \<or> int (length (mem_words_manager ix)) \<le> manager_word_id then None
      else let w = mw_word_index (mem_words_manager ix ! nat manager_word_id)
           in if sint (wi_word_id w) = word_id then Some (0, w) else Some (-1, w))"

subsection \<open>Lists of results\<close>

lemma all_some_map_Some [simp]: "all_some (map Some ys) = Some ys"
  by (induction ys) simp_all

lemma all_some_iff: "all_some xs = Some ys \<longleftrightarrow> xs = map Some ys"
proof
  show "all_some xs = Some ys \<Longrightarrow> xs = map Some ys"
    by (induction xs arbitrary: ys) (auto split: option.splits)
qed simp

lemma all_some_none: "all_some xs = None \<longleftrightarrow> None \<in> set xs"
  by (induction xs) (auto split: option.splits)

lemma all_some_map_ok:
  assumes "\<And>x. x \<in> set xs \<Longrightarrow> \<exists>y. f x = Some y \<and> P y"
  shows "\<exists>ys. all_some (map f xs) = Some ys \<and> length ys = length xs \<and> (\<forall>y \<in> set ys. P y)"
  using assms
proof (induction xs)
  case (Cons x xs)
  then obtain y where "f x = Some y" "P y" by auto
  moreover obtain ys where "all_some (map f xs) = Some ys" "length ys = length xs" "\<forall>y \<in> set ys. P y"
    using Cons.IH Cons.prems by auto
  ultimately show ?case by auto
qed simp

subsection \<open>Items by picture\<close>

text \<open>Inverted lists are ordered by picture id, compared as a signed integer.\<close>

definition pic_key :: "IndexItem \<Rightarrow> int" where
  "pic_key it = sint (ii_pic_id it)"

definition by_pic :: "IndexItem list \<Rightarrow> int \<rightharpoonup> IndexItem" where
  "by_pic its = map_of (map (\<lambda>it. (pic_key it, it)) its)"

definition pic_sorted :: "IndexItem list \<Rightarrow> bool" where
  "pic_sorted its \<longleftrightarrow> sorted_wrt (\<lambda>a b. pic_key a < pic_key b) its"

lemma pic_id_eq_key: "ii_pic_id a = ii_pic_id b \<longleftrightarrow> pic_key a = pic_key b"
  by (auto simp: pic_key_def intro: signed_word_eqI)

lemma by_pic_above: "\<forall>it \<in> set its. k < pic_key it \<Longrightarrow> by_pic its k = None"
  by (auto simp: by_pic_def map_of_eq_None_iff)

lemma by_pic_Cons [simp]: "by_pic (it # its) = (by_pic its)(pic_key it \<mapsto> it)"
  by (simp add: by_pic_def)

lemma by_pic_Nil [simp]: "by_pic [] = Map.empty"
  by (simp add: by_pic_def)

subsection \<open>Conversion\<close>

text \<open>A bucket item whose texts have the lengths the quantiser writes: 16 and 3 characters per feature.\<close>

definition texts_ok :: "BOFIndexItem \<Rightarrow> bool" where
  "texts_ok it \<longleftrightarrow> (\<exists>he angles. word_info (bi_bof_info it) = [he, angles] \<and>
     3 * (length he div 16) \<le> length angles \<and> length he div 16 < 4096)"

lemma convert_item_ok:
  assumes "texts_ok bitem"
  shows "\<exists>it. convert_item bitem = Some it \<and> item_ok it"
proof -
  from assms obtain he angles where wi: "word_info (bi_bof_info bitem) = [he, angles]"
    "3 * (length he div 16) \<le> length angles" "length he div 16 < 4096" by (auto simp: texts_ok_def)
  define n where "n = length he div 16"
  have u: "unat (word_of_nat n :: u16) = n" using wi(3) by (simp add: unat_of_nat n_def)
  then have s: "sint (word_of_nat n :: u16) = int n" using wi(3) by (intro sint_short) (simp_all add: n_def)
  have "angle_digits angles j \<noteq> None" if "j < n" for j
    using that wi(2) by (simp add: angle_digits_def angle_char_def n_def)
  then obtain as where as: "all_some (map (angle_digits angles) [0..<n]) = Some as" "length as = n"
    using all_some_map_ok [of "[0..<n]" "angle_digits angles" "\<lambda>_. True"] by auto
  with as u s wi(1,3) show ?thesis
    by (cases "n = 0") (simp_all add: convert_item_def item_ok_def n_def Let_def)
qed

lemma ConvertB2W_ok:
  assumes "\<forall>it \<in> set (bucket_items b). texts_ok it" and "length (bucket_items b) < 2 ^ 31"
  shows "\<exists>w. ConvertB2W b WordIndex_new = Some (0, w) \<and> word_ok w \<and> wi_word_id w = bucket_id b \<and>
    map Some (wi_items w) = map convert_item (bucket_items b)"
proof -
  obtain its where its: "all_some (map convert_item (bucket_items b)) = Some its"
    "length its = length (bucket_items b)" "\<forall>it \<in> set its. item_ok it"
    using all_some_map_ok [of "bucket_items b" convert_item item_ok] convert_item_ok assms(1) by blast
  then have "map convert_item (bucket_items b) = map Some its" by (simp add: all_some_iff)
  with its assms(2) show ?thesis
    by (simp add: ConvertB2W_def WordIndex_new_def word_ok_def)
qed

subsection \<open>Reading the file\<close>

text \<open>The directory entry of \<open>k\<close> delimits the image of \<open>w\<close> in the data file.\<close>

definition stored_at :: "u8 list \<Rightarrow> HinterItem \<Rightarrow> WordIndex \<Rightarrow> bool" where
  "stored_at file e w \<longleftrightarrow> (\<exists>junk u d v. file = u @ d @ v \<and> Serialize junk w = Some (int (length d), d) \<and>
     hi_start_pos e = int (length u) \<and> hi_end_pos e = int (length u + length d))"

lemma stored_at_append: "stored_at file e w \<Longrightarrow> stored_at (file @ rest) e w"
  unfolding stored_at_def by (metis append.assoc)

lemma stored_at_here:
  "Serialize junk w = Some (int (length d), d) \<Longrightarrow>
     stored_at (u @ d @ v) \<lparr>hi_start_pos = int (length u), hi_end_pos = int (length u + length d),
       hi_bucket_size = n\<rparr> w"
  unfolding stored_at_def by (intro exI conjI) (rule refl, assumption, simp_all)

text \<open>Word \<open>k\<close> of the index reads as \<open>w\<close>, and reading it leaves the index as it is.\<close>

definition holds_word :: "(nat \<Rightarrow> u8) \<Rightarrow> BOFIndex \<Rightarrow> int \<Rightarrow> WordIndex \<Rightarrow> bool" where
  "holds_word junk ix k w \<longleftrightarrow> (\<exists>d. LoadWord junk ix k WordIndex_new = Some (0, w, Some d, ix))"

lemma LoadWord_stored:
  assumes h: "hinter ix = Some h" and good: "is_good (fs_data ix)"
    and e: "GetHint h k HinterItem_new = Some (0, e)" and st: "stored_at (is_bytes (fs_data ix)) e w"
    and ok: "word_ok w" and size: "CalcWordIndexSize w + 1 < 2 ^ 31"
  shows "\<exists>d. LoadWord junk ix k WordIndex_new = Some (0, w, Some d, ix)"
proof -
  from st obtain j u d v where d: "is_bytes (fs_data ix) = u @ d @ v" "Serialize j w = Some (int (length d), d)"
    "hi_start_pos e = int (length u)" "hi_end_pos e = int (length u + length d)"
    by (auto simp: stored_at_def)
  have pos: "8 \<le> length d" and rd: "\<And>v size index. Unserialize (Some (d @ v)) size index
      = Some (0, index\<lparr>wi_word_id := wi_word_id w, wi_items := wi_items w\<rparr>)"
    and len: "length d = nat (CalcWordIndexSize w)"
    using Serialize_ok [OF ok, of j] d(2) by auto
  have small: "int (length d) + 1 < 2 ^ 31" using len size pos by simp
  have dl: "sint (word_of_int (hi_end_pos e - hi_start_pos e + 1) :: u32) = int (length d) + 1"
    using small by (subst int_of_int32) (simp_all add: d)
  have "seek_read junk (fs_data ix) (int (length u)) (length d) = (d, fs_data ix)"
    using good d(1) by (simp add: seek_read_def)
  moreover have "d \<noteq> []" using pos by auto
  ultimately show ?thesis
    using h e d(3,4) dl rd [of "[0]"]
    by (simp add: LoadWord_def Let_def WordIndex_new_def)
qed

subsection \<open>Properties\<close>

text \<open>
  The image of a well-formed word, wherever it stands in the data file, is what
  \<open>LoadWord\<close> returns through the directory entry that delimits it; the stream stays usable.
\<close>

theorem LoadWord_returns_stored_word:
  assumes "hinter ix = Some h" and "is_good (fs_data ix)"
    and "GetHint h k HinterItem_new = Some (0, e)" and "stored_at (is_bytes (fs_data ix)) e w"
    and "word_ok w" and "CalcWordIndexSize w + 1 < 2 ^ 31"
  shows "\<exists>d. LoadWord junk ix k WordIndex_new = Some (0, w, Some d, ix)"
  using assms by (rule LoadWord_stored)

theorem LoadWord_returns_stored_word_witness:
  "\<exists>d. LoadWord (\<lambda>_. 0) \<lparr>hinter = Some \<lparr>ih_max_bucket_num = 1,
      ih_items = [\<lparr>hi_start_pos = 0, hi_end_pos = 8, hi_bucket_size = 0\<rparr>]\<rparr>,
      fs_data = \<lparr>is_bytes = [5, 0, 0, 0, 0, 0, 0, 0], is_good = True\<rparr>, mem_words_manager = [], begin_word_id = 0\<rparr>
      0 WordIndex_new =
     Some (0, \<lparr>wi_word_id = 5, wi_items = []\<rparr>, Some d, \<lparr>hinter = Some \<lparr>ih_max_bucket_num = 1,
      ih_items = [\<lparr>hi_start_pos = 0, hi_end_pos = 8, hi_bucket_size = 0\<rparr>]\<rparr>,
      fs_data = \<lparr>is_bytes = [5, 0, 0, 0, 0, 0, 0, 0], is_good = True\<rparr>, mem_words_manager = [], begin_word_id = 0\<rparr>)"
proof (rule LoadWord_returns_stored_word [where h = "\<lparr>ih_max_bucket_num = 1,
      ih_items = [\<lparr>hi_start_pos = 0, hi_end_pos = 8, hi_bucket_size = 0\<rparr>]\<rparr>"])
  have "Serialize (\<lambda>_. 0) \<lparr>wi_word_id = 5, wi_items = []\<rparr> = Some (int (length [5, 0, 0, 0, 0, 0, 0, 0 :: u8]), [5, 0, 0, 0, 0, 0, 0, 0])"
    by code_simp
  from stored_at_here [OF this, of "[]" "[]" 0] show "stored_at (is_bytes (fs_data \<lparr>hinter = Some \<lparr>ih_max_bucket_num = 1,
      ih_items = [\<lparr>hi_start_pos = 0, hi_end_pos = 8, hi_bucket_size = 0\<rparr>]\<rparr>,
      fs_data = \<lparr>is_bytes = [5, 0, 0, 0, 0, 0, 0, 0], is_good = True\<rparr>, mem_words_manager = [], begin_word_id = 0\<rparr>))
      \<lparr>hi_start_pos = 0, hi_end_pos = 8, hi_bucket_size = 0\<rparr> \<lparr>wi_word_id = 5, wi_items = []\<rparr>"
    by simp
qed (simp_all add: GetHint_def word_ok_def CalcWordIndexSize_def)

text \<open>
  Keeping words in memory cannot work: once \<open>LoadFileData\<close> has read a first word that has
  items, the destruction of the word passed to \<open>MemWord\<close> by value frees memory inside the
  data buffer.
\<close>

theorem LoadFileData_destroys_items:
  assumes "begin_id < end_id" and "wi_items w \<noteq> []"
    and "LoadWord junk (ix\<lparr>mem_words_manager := take (nat (end_id - begin_id)) (mem_words_manager ix) @
           replicate (nat (end_id - begin_id) - length (mem_words_manager ix)) MemWord_new\<rparr>)
         begin_id WordIndex_new = Some (0, w, d, ix')"
  shows "LoadFileData junk ix begin_id end_id = None"
proof -
  obtain m where "nat (end_id - begin_id) = Suc m" using assms(1) by (cases "nat (end_id - begin_id)") auto
  with assms show ?thesis
    by (simp add: LoadFileData_def destroy_read_word_def)
qed

theorem LoadFileData_destroys_items_witness:
  "LoadFileData (\<lambda>_. 0) \<lparr>hinter = Some \<lparr>ih_max_bucket_num = 1,
      ih_items = [\<lparr>hi_start_pos = 0, hi_end_pos = 22, hi_bucket_size = 0\<rparr>]\<rparr>,
      fs_data = \<lparr>is_bytes = [5, 0, 0, 0, 1, 0, 0, 0] @ replicate 14 0, is_good = True\<rparr>,
      mem_words_manager = [], begin_word_id = 0\<rparr> 0 1 = None"
proof (rule LoadFileData_destroys_items)
  show "LoadWord (\<lambda>_. 0) (\<lparr>hinter = Some \<lparr>ih_max_bucket_num = 1,
      ih_items = [\<lparr>hi_start_pos = 0, hi_end_pos = 22, hi_bucket_size = 0\<rparr>]\<rparr>,
      fs_data = \<lparr>is_bytes = [5, 0, 0, 0, 1, 0, 0, 0] @ replicate 14 0, is_good = True\<rparr>,
      mem_words_manager = [], begin_word_id = 0\<rparr>\<lparr>mem_words_manager := take (nat (1 - 0))
        (mem_words_manager \<lparr>hinter = Some \<lparr>ih_max_bucket_num = 1,
          ih_items = [\<lparr>hi_start_pos = 0, hi_end_pos = 22, hi_bucket_size = 0\<rparr>]\<rparr>,
          fs_data = \<lparr>is_bytes = [5, 0, 0, 0, 1, 0, 0, 0] @ replicate 14 0, is_good = True\<rparr>,
          mem_words_manager = [], begin_word_id = 0\<rparr>) @
        replicate (nat (1 - 0) - length (mem_words_manager \<lparr>hinter = Some \<lparr>ih_max_bucket_num = 1,
          ih_items = [\<lparr>hi_start_pos = 0, hi_end_pos = 22, hi_bucket_size = 0\<rparr>]\<rparr>,
          fs_data = \<lparr>is_bytes = [5, 0, 0, 0, 1, 0, 0, 0] @ replicate 14 0, is_good = True\<rparr>,
          mem_words_manager = [], begin_word_id = 0\<rparr>)) MemWord_new\<rparr>) 0 WordIndex_new
    = Some (0, \<lparr>wi_word_id = 5, wi_items = [\<lparr>ii_pic_id = 0, ii_weight = 0, ii_length = 0, ii_he = [], ii_angle = []\<rparr>]\<rparr>,
        Some ([5, 0, 0, 0, 1, 0, 0, 0] @ replicate 15 0), \<lparr>hinter = Some \<lparr>ih_max_bucket_num = 1,
          ih_items = [\<lparr>hi_start_pos = 0, hi_end_pos = 22, hi_bucket_size = 0\<rparr>]\<rparr>,
          fs_data = \<lparr>is_bytes = [5, 0, 0, 0, 1, 0, 0, 0] @ replicate 14 0, is_good = True\<rparr>,
          mem_words_manager = [MemWord_new], begin_word_id = 0\<rparr>)"
    by code_simp
qed simp_all

end
