(* ===== verification/Index_Writer.thy ===== *)
theory Index_Writer
  imports Index
begin

text \<open>
  The last stage of the index build, \<open>indexer/src/reducer_result.cc\<close>: a reducer prints each
  bucket as a line \<open>id TAB length\<close> followed by an archive of that length, and
  \<open>ReducerResultResolver::ParseFile\<close> reads such a file back and appends every bucket to the
  data file and to the directory. The archive, \<open>split\<close>, \<open>trim\<close> and \<open>lexical_cast\<close> belong to Boost
  and are arguments (record \<open>boost\<close>); an exception they throw is \<open>None\<close>.
\<close>

record boost =
  b_split :: "char \<Rightarrow> string \<Rightarrow> string list"
  b_trim :: "string \<Rightarrow> string"
  b_lexical_cast :: "string \<Rightarrow> int option"
  b_save :: "BOFIndexBucket \<Rightarrow> string"
  b_load :: "string \<Rightarrow> BOFIndexBucket option"

subsection \<open>Printing a bucket\<close>

fun dec :: "nat \<Rightarrow> string" where
  "dec n = (if n < 10 then [char_of (48 + n)] else dec (n div 10) @ [char_of (48 + n mod 10)])"

declare dec.simps [simp del]

definition show_int :: "int \<Rightarrow> string" where
  "show_int i = (if i < 0 then CHR ''-'' # dec (nat (- i)) else dec (nat i))"

record ReducerBucketResult =
  rb_bucket_id :: u32
  rb_bucket :: "BOFIndexBucket option"

definition ReducerBucketResult_new :: "u32 \<Rightarrow> ReducerBucketResult" where
  "ReducerBucketResult_new i = \<lparr>rb_bucket_id = i, rb_bucket = None\<rparr>"

definition ReducerBucket_Init :: "ReducerBucketResult \<Rightarrow> int \<times> ReducerBucketResult" where
  "ReducerBucket_Init rb = (0, rb\<lparr>rb_bucket := Some (BOFIndexBucket_new (rb_bucket_id rb))\<rparr>)"

text \<open>\<open>AddLine\<close> passes the 64-bit picture id as a \<open>uint32_t\<close>.\<close>

definition AddLine ::
    "ReducerBucketResult \<Rightarrow> u64 \<Rightarrow> f32 \<Rightarrow> string \<Rightarrow> string \<Rightarrow> (int \<times> ReducerBucketResult) cxx" where
  "AddLine rb pic_id q words1 words2 =
     (case rb_bucket rb of
        None \<Rightarrow> None
      | Some b \<Rightarrow>
          let (r, b') = AddItem_info b (ucast pic_id) \<lparr>q_weight = q, word_info = [words1, words2]\<rparr>
          in Some (r, rb\<lparr>rb_bucket := Some b'\<rparr>))"

definition PrintResult :: "boost \<Rightarrow> ReducerBucketResult \<Rightarrow> string cxx" where
  "PrintResult B rb =
     (case rb_bucket rb of
        None \<Rightarrow> None
      | Some b \<Rightarrow>
          let ss = b_save B b in
          Some (show_int (sint (rb_bucket_id rb)) @ [CHR 0x09] @ show_int (int (length ss)) @ [CHR 0x0A] @ ss))"

subsection \<open>Reading the file\<close>

record tstream =
  ts_rest :: string
  ts_eof :: bool
  ts_fail :: bool

text \<open>\<open>fs.getline(line, 128)\<close> and the C string it leaves in the zeroed buffer.\<close>

definition getline128 :: "tstream \<Rightarrow> string \<times> tstream" where
  "getline128 st =
     (let body = takeWhile (\<lambda>c. c \<noteq> CHR 0x0A) (ts_rest st);
          c_str = takeWhile (\<lambda>c. c \<noteq> CHR 0x00) (take 127 body)
      in if 127 < length body then (c_str, st\<lparr>ts_rest := drop 127 (ts_rest st), ts_fail := True\<rparr>)
         else if length body < length (ts_rest st)
         then (c_str, st\<lparr>ts_rest := drop (length body + 1) (ts_rest st)\<rparr>)
         else (c_str, st\<lparr>ts_rest := [], ts_eof := True, ts_fail := (body = [])\<rparr>))"

definition stream_read :: "(nat \<Rightarrow> char) \<Rightarrow> tstream \<Rightarrow> nat \<Rightarrow> string \<times> tstream" where
  "stream_read junk st n =
     (if ts_eof st \<or> ts_fail st then (map junk [0..<n], st\<lparr>ts_fail := True\<rparr>)
      else let got = take n (ts_rest st)
           in (got @ map junk [length got..<n],
               st\<lparr>ts_rest := drop n (ts_rest st), ts_eof := (length got < n), ts_fail := (length got < n)\<rparr>))"

record ReducerResultResolver =
  rr_data :: "u8 list"
  rr_hinter :: IndexHinter

definition ReducerResultResolver_new :: "int \<Rightarrow> ReducerResultResolver cxx" where
  "ReducerResultResolver_new bucket_count =
     map_option (\<lambda>h. \<lparr>rr_data = [], rr_hinter = h\<rparr>) (IndexHinter_new bucket_count)"

text \<open>The end of the loop body: convert, serialise, append, note the byte range.\<close>

definition append_word ::
    "(nat \<Rightarrow> u8) \<Rightarrow> u8 list \<times> IndexHinter \<Rightarrow> int \<Rightarrow> WordIndex \<Rightarrow> (u8 list \<times> IndexHinter) cxx" where
  "append_word junk dh k w =
     (case Serialize junk w of
        None \<Rightarrow> None
      | Some (index_data_size, index_data) \<Rightarrow>
          let cur_pos = int (length (fst dh)); data' = fst dh @ take (nat index_data_size) index_data;
              end_pos = int (length data')
          in map_option (\<lambda>(_, h). (data', h))
               (SetHint (snd dh) k \<lparr>hi_start_pos = cur_pos, hi_end_pos = end_pos, hi_bucket_size = 0\<rparr>))"

definition write_bucket ::
    "(nat \<Rightarrow> u8) \<Rightarrow> ReducerResultResolver \<Rightarrow> int \<Rightarrow> BOFIndexBucket \<Rightarrow> ReducerResultResolver cxx" where
  "write_bucket junk r k b =
     (case ConvertB2W b WordIndex_new of
        None \<Rightarrow> None
      | Some (_, windex) \<Rightarrow>
          map_option (\<lambda>(d, h). r\<lparr>rr_data := d, rr_hinter := h\<rparr>)
            (append_word junk (rr_data r, rr_hinter r) (sint (word_of_int k :: u32)) windex))"

function parse_loop ::
    "boost \<Rightarrow> (nat \<Rightarrow> char) \<Rightarrow> (nat \<Rightarrow> u8) \<Rightarrow> tstream \<Rightarrow> ReducerResultResolver \<Rightarrow> ReducerResultResolver cxx" where
  "parse_loop B jc junk st r =
     (if ts_eof st \<or> ts_fail st then Some r
      else
        let (line, st1) = getline128 st; fields = b_split B (CHR 0x09) line in
        if line = [] then Some r
        else if length fields < 2 \<or> fields ! 0 = [] then parse_loop B jc junk st1 r
        else
          case (b_lexical_cast B (b_trim B (fields ! 0)), b_lexical_cast B (b_trim B (fields ! 1))) of
            (Some k, Some data_len) \<Rightarrow>
              if data_len < 0 then None
              else
                let (data, st2) = stream_read jc st1 (nat data_len) in
                (case b_load B data of
                   None \<Rightarrow> None
                 | Some bucket \<Rightarrow>
                     (case write_bucket junk r k bucket of
                        None \<Rightarrow> None
                      | Some r' \<Rightarrow> parse_loop B jc junk st2 r'))
          | _ \<Rightarrow> None)"
  by pat_completeness auto

definition stream_measure :: "tstream \<Rightarrow> nat" where
  "stream_measure st = length (ts_rest st) + (if ts_eof st \<or> ts_fail st then 0 else 1)"

lemma getline128_measure:
  "\<not> ts_eof st \<Longrightarrow> \<not> ts_fail st \<Longrightarrow> getline128 st = (l, st1) \<Longrightarrow> stream_measure st1 < stream_measure st"
proof -
  assume *: "\<not> ts_eof st" "\<not> ts_fail st" "getline128 st = (l, st1)"
  have "length (takeWhile (\<lambda>c. c \<noteq> CHR 0x0A) (ts_rest st)) \<le> length (ts_rest st)"
    by (rule length_takeWhile_le)
  with * show ?thesis
    by (auto simp: getline128_def stream_measure_def Let_def split: if_splits)
qed

lemma stream_read_measure: "stream_read jc st n = (d, st2) \<Longrightarrow> stream_measure st2 \<le> stream_measure st"
  by (auto simp: stream_read_def stream_measure_def Let_def split: if_splits)

termination parse_loop
proof (relation "measure (\<lambda>(_, _, _, st, _). stream_measure st)", goal_cases)
  case 2
  then show ?case using getline128_measure by (simp add: prod_eq_iff)
next
  case 3
  then show ?case using getline128_measure stream_read_measure
    by simp (metis le_less_trans)
qed simp

declare parse_loop.simps [simp del]

definition ParseFile ::
    "boost \<Rightarrow> (nat \<Rightarrow> char) \<Rightarrow> (nat \<Rightarrow> u8) \<Rightarrow> string option \<Rightarrow> ReducerResultResolver
       \<Rightarrow> (int \<times> ReducerResultResolver) cxx" where
  "ParseFile B jc junk file r =
     (case file of
        None \<Rightarrow> Some (-1, r)
      | Some content \<Rightarrow>
          map_option (Pair 0) (parse_loop B jc junk \<lparr>ts_rest = content, ts_eof = False, ts_fail = False\<rparr> r))"

subsection \<open>Appending words\<close>

primrec append_all ::
    "(nat \<Rightarrow> u8) \<Rightarrow> u8 list \<times> IndexHinter \<Rightarrow> (int \<times> WordIndex) list \<Rightarrow> (u8 list \<times> IndexHinter) cxx" where
  "append_all junk dh [] = Some dh"
| "append_all junk dh (kw # kws) =
     (case append_word junk dh (fst kw) (snd kw) of None \<Rightarrow> None | Some dh' \<Rightarrow> append_all junk dh' kws)"

lemma append_word_ok:
  assumes "word_ok w" and "0 \<le> k" and "k < hint_cap h"
  shows "\<exists>d h' e. append_word junk (data, h) k w = Some (data @ d, h') \<and> SetHint h k e = Some (0, h') \<and>
    stored_at (data @ d) e w"
proof -
  obtain d where d: "Serialize junk w = Some (int (length d), d)"
    using Serialize_ok [OF assms(1), of junk] by auto
  let ?e = "\<lparr>hi_start_pos = int (length data), hi_end_pos = int (length data + length d), hi_bucket_size = 0\<rparr>"
  obtain h' where h': "SetHint h k ?e = Some (0, h')" using hints.put_ok [OF assms(2,3)] by blast
  have "append_word junk (data, h) k w = Some (data @ d, h')"
    using d h' by (simp add: append_word_def Let_def)
  with h' stored_at_here [OF d, of data "[]" 0] show ?thesis by auto
qed

text \<open>Every appended word is found through the directory; entries of other ids are untouched.\<close>

lemma append_all_ok:
  assumes "\<forall>(k, w) \<in> set kws. 0 \<le> k \<and> k < hint_cap h \<and> word_ok w" and "distinct (map fst kws)"
  shows "\<exists>d h'. append_all junk (data, h) kws = Some (data @ d, h') \<and> hint_cap h' = hint_cap h \<and>
    (\<forall>j i. j \<notin> fst ` set kws \<longrightarrow> GetHint h' j i = GetHint h j i) \<and>
    (\<forall>(k, w) \<in> set kws. \<exists>e. GetHint h' k HinterItem_new = Some (0, e) \<and> stored_at (data @ d) e w)"
  using assms
proof (induction kws arbitrary: data h)
  case (Cons kw kws)
  obtain k w where kw: "kw = (k, w)" by force
  obtain d1 h1 e where 1: "append_word junk (data, h) k w = Some (data @ d1, h1)"
    "SetHint h k e = Some (0, h1)" "stored_at (data @ d1) e w"
    using append_word_ok [of w k h junk data] Cons.prems(1) kw by auto
  have cap: "hint_cap h1 = hint_cap h" by (rule hints.put_cap [OF 1(2)])
  obtain d h' where IH: "append_all junk (data @ d1, h1) kws = Some ((data @ d1) @ d, h')"
    "hint_cap h' = hint_cap h1" "\<forall>j i. j \<notin> fst ` set kws \<longrightarrow> GetHint h' j i = GetHint h1 j i"
    "\<forall>(k, w) \<in> set kws. \<exists>e. GetHint h' k HinterItem_new = Some (0, e) \<and> stored_at ((data @ d1) @ d) e w"
    using Cons.IH [of h1 "data @ d1"] Cons.prems cap by auto
  have "k \<notin> fst ` set kws" using Cons.prems(2) kw by auto
  then have "GetHint h' k HinterItem_new = Some (0, e)"
    using IH(3) hints.get_put [OF 1(2)] by simp
  moreover have "stored_at ((data @ d1) @ d) e w" by (rule stored_at_append [OF 1(3)])
  moreover have "GetHint h' j i = GetHint h j i" if "j \<notin> fst ` set (kw # kws)" for j i
    using IH(3) hints.get_put_other [OF 1(2)] that kw by auto
  ultimately show ?case
    using IH cap 1(1) kw by (intro exI [of _ "d1 @ d"] exI [of _ h']) auto
qed simp

subsection \<open>Reading back what the reducer printed\<close>

definition reducer_output :: "boost \<Rightarrow> BOFIndexBucket list \<Rightarrow> string" where
  "reducer_output B bs = concat (map (\<lambda>b. the (PrintResult B \<lparr>rb_bucket_id = bucket_id b, rb_bucket = Some b\<rparr>)) bs)"

text \<open>
  What the code relies on in Boost: \<open>split\<close> cuts at a separator, \<open>lexical_cast\<close> reads back a printed non-negative number
  and an archive yields the object that was saved.
\<close>

definition boost_reads :: "boost \<Rightarrow> BOFIndexBucket list \<Rightarrow> bool" where
  "boost_reads B bs \<longleftrightarrow>
     (\<forall>c xs ys. c \<notin> set xs \<longrightarrow> c \<notin> set ys \<longrightarrow> b_split B c (xs @ c # ys) = [xs, ys]) \<and>
     (\<forall>n < 2 ^ 63. b_lexical_cast B (b_trim B (show_int (int n))) = Some (int n)) \<and>
     (\<forall>b \<in> set bs. b_load B (b_save B b) = Some b \<and> length (b_save B b) < 2 ^ 63)"

primrec write_all ::
    "(nat \<Rightarrow> u8) \<Rightarrow> ReducerResultResolver \<Rightarrow> BOFIndexBucket list \<Rightarrow> ReducerResultResolver cxx" where
  "write_all junk r [] = Some r"
| "write_all junk r (b # bs) =
     (case write_bucket junk r (sint (bucket_id b)) b of None \<Rightarrow> None | Some r' \<Rightarrow> write_all junk r' bs)"

lemma set_dec: "set (dec n) \<subseteq> {c. 48 \<le> (of_char c :: nat) \<and> of_char c < (58 :: nat)}"
proof (induction n rule: dec.induct)
  case (1 n)
  then show ?case by (subst dec.simps) auto
qed

lemma dec_nonempty: "dec n \<noteq> []"
  by (subst dec.simps) simp

lemma length_dec: "0 < k \<Longrightarrow> n < 10 ^ k \<Longrightarrow> length (dec n) \<le> k"
proof (induction n arbitrary: k rule: dec.induct)
  case (1 n)
  show ?case
  proof (cases "n < 10")
    case False
    obtain m where k: "k = Suc m" using "1.prems"(1) by (cases k) auto
    with False "1.prems"(2) have "0 < m" by (cases m) auto
    have "n div 10 < 10 ^ m" using k "1.prems" by (simp add: div_less_iff_less_mult mult.commute)
    with "1.IH" [OF False \<open>0 < m\<close>] k False show ?thesis by (subst dec.simps) simp
  qed (use "1.prems" in \<open>subst dec.simps, simp\<close>)
qed

lemma takeWhile_stop: "\<forall>c \<in> set xs. P c \<Longrightarrow> \<not> P y \<Longrightarrow> takeWhile P (xs @ y # ys) = xs"
  by (simp add: takeWhile_append)

lemma getline128_line:
  assumes "CHR 0x0A \<notin> set line" and "CHR 0x00 \<notin> set line" and "length line \<le> 127"
  shows "getline128 \<lparr>ts_rest = line @ CHR 0x0A # rest, ts_eof = e, ts_fail = f\<rparr>
    = (line, \<lparr>ts_rest = rest, ts_eof = e, ts_fail = f\<rparr>)"
proof -
  have "takeWhile (\<lambda>c. c \<noteq> CHR 0x0A) (line @ CHR 0x0A # rest) = line"
    using assms(1) by (intro takeWhile_stop) auto
  moreover have "takeWhile (\<lambda>c. c \<noteq> CHR 0x00) line = line"
    using assms(2) by (auto simp: takeWhile_eq_all_conv)
  ultimately show ?thesis using assms(3) by (simp add: getline128_def Let_def)
qed

lemma header_line:
  assumes "m < 2 ^ 63" and "n < 2 ^ 63"
  defines "line \<equiv> dec m @ CHR 0x09 # dec n"
  shows "CHR 0x0A \<notin> set line" and "CHR 0x00 \<notin> set line" and "length line \<le> 127"
    and "CHR 0x09 \<notin> set (dec m)" and "CHR 0x09 \<notin> set (dec n)"
proof -
  have d: "c \<notin> set (dec n)" "c \<notin> set (dec m)" if "(of_char c :: nat) < 48" for c
    using set_dec [of n] set_dec [of m] that by fastforce+
  then show "CHR 0x0A \<notin> set line" "CHR 0x00 \<notin> set line" by (simp_all add: line_def)
  have "length (dec m) \<le> 19" "length (dec n) \<le> 19" using assms(1,2) by (auto intro!: length_dec)
  then show "length line \<le> 127" by (simp add: line_def)
  show "CHR 0x09 \<notin> set (dec m)" "CHR 0x09 \<notin> set (dec n)" using d by simp_all
qed

lemma parse_loop_record:
  assumes B: "boost_reads B (b # bs)" and pos: "0 \<le> sint (bucket_id b)"
  shows "parse_loop B jc junk \<lparr>ts_rest = the (PrintResult B \<lparr>rb_bucket_id = bucket_id b, rb_bucket = Some b\<rparr>) @ rest,
      ts_eof = False, ts_fail = False\<rparr> r =
    (case write_bucket junk r (sint (bucket_id b)) b of None \<Rightarrow> None
     | Some r' \<Rightarrow> parse_loop B jc junk \<lparr>ts_rest = rest, ts_eof = False, ts_fail = False\<rparr> r')"
proof -
  let ?ss = "b_save B b" and ?m = "nat (sint (bucket_id b))"
  have m: "?m < 2 ^ 63" using sint_less [of "bucket_id b"] pos by simp
  from B have n: "length ?ss < 2 ^ 63" and load: "b_load B ?ss = Some b"
    and split: "b_split B (CHR 0x09) (dec ?m @ CHR 0x09 # dec (length ?ss)) = [dec ?m, dec (length ?ss)]"
    and lex: "\<And>n. n < 2 ^ 63 \<Longrightarrow> b_lexical_cast B (b_trim B (dec n)) = Some (int n)"
    using header_line(4,5) [OF m, of "length ?ss"] by (auto simp: boost_reads_def show_int_def)
  note hl = header_line [OF m n]
  have printed: "the (PrintResult B \<lparr>rb_bucket_id = bucket_id b, rb_bucket = Some b\<rparr>) @ rest
      = (dec ?m @ CHR 0x09 # dec (length ?ss)) @ CHR 0x0A # ?ss @ rest"
    using pos by (simp add: PrintResult_def show_int_def Let_def)
  show ?thesis
    unfolding printed using getline128_line [OF hl(1-3)] split lex [OF m] lex [OF n] load pos
    by (subst parse_loop.simps) (simp add: dec_nonempty stream_read_def split: option.splits)
qed

text \<open>Reading stops at the end of the file or at an empty line.\<close>

lemma parse_loop_output:
  assumes "boost_reads B bs" and "\<forall>b \<in> set bs. 0 \<le> sint (bucket_id b)" and "tl_out = [] \<or> hd tl_out = CHR 0x0A"
  shows "parse_loop B jc junk \<lparr>ts_rest = reducer_output B bs @ tl_out, ts_eof = False, ts_fail = False\<rparr> r = write_all junk r bs"
  using assms
proof (induction bs arbitrary: r)
  case Nil
  then show ?case by (subst parse_loop.simps) (cases tl_out; simp add: reducer_output_def getline128_def)
next
  case (Cons b bs)
  have "boost_reads B bs" using Cons.prems(1) by (simp add: boost_reads_def)
  then show ?case
    using parse_loop_record [OF Cons.prems(1), of jc junk "reducer_output B bs @ tl_out" r] Cons.IH Cons.prems(2,3)
    by (simp add: reducer_output_def cong: option.case_cong)
qed

lemma write_all_append:
  assumes "\<forall>b \<in> set bs. ConvertB2W b WordIndex_new = Some (0, f b)"
  shows "write_all junk r bs = map_option (\<lambda>(d, h). r\<lparr>rr_data := d, rr_hinter := h\<rparr>)
     (append_all junk (rr_data r, rr_hinter r) (map (\<lambda>b. (sint (bucket_id b), f b)) bs))"
  using assms
proof (induction bs arbitrary: r)
  case (Cons b bs)
  have conv: "ConvertB2W b WordIndex_new = Some (0, f b)" using Cons.prems by simp
  have "sint (word_of_int (sint (bucket_id b)) :: u32) = sint (bucket_id b)" by simp
  then show ?case
    using Cons conv
    by (cases "append_word junk (rr_data r, rr_hinter r) (sint (bucket_id b)) (f b)")
      (auto simp: write_bucket_def)
qed simp

subsection \<open>Properties\<close>

definition bucket_word :: "BOFIndexBucket \<Rightarrow> WordIndex" where
  "bucket_word b = snd (the (ConvertB2W b WordIndex_new))"

definition bucket_ok :: "BOFIndexBucket \<Rightarrow> bool" where
  "bucket_ok b \<longleftrightarrow> (\<forall>it \<in> set (bucket_items b). texts_ok it) \<and> length (bucket_items b) < 2 ^ 31 \<and>
     CalcWordIndexSize (bucket_word b) + 1 < 2 ^ 31"

lemma bucket_ok_word:
  "bucket_ok b \<Longrightarrow> ConvertB2W b WordIndex_new = Some (0, bucket_word b) \<and> word_ok (bucket_word b)"
  using ConvertB2W_ok [of b] by (auto simp: bucket_ok_def bucket_word_def)

definition opened :: "ReducerResultResolver \<Rightarrow> BOFIndex" where
  "opened r = BOFIndex_new\<lparr>hinter := Some (rr_hinter r), fs_data := \<lparr>is_bytes = rr_data r, is_good = True\<rparr>\<rparr>"

lemma opened_Init: "0 \<le> n \<Longrightarrow> Index_Init BOFIndex_new n (Some (rr_hinter r)) (Some (rr_data r)) = Some (0, opened r)"
  by (simp add: Index_Init_def IndexHinter_new_def opened_def)

lemma new_resolver_cap: "ReducerResultResolver_new n = Some r \<Longrightarrow> hint_cap (rr_hinter r) = n"
  by (auto simp: ReducerResultResolver_new_def IndexHinter_new_def hint_cap_def split: if_splits)

text \<open>Every bucket of a printed file, up to the first empty line, is readable in the index.\<close>

lemma ParseFile_words:
  assumes new: "ReducerResultResolver_new n = Some r" and B: "boost_reads B bs"
    and dist: "distinct (map bucket_id bs)"
    and ids: "\<forall>b \<in> set bs. 0 \<le> sint (bucket_id b) \<and> sint (bucket_id b) < n"
    and ok: "\<forall>b \<in> set bs. bucket_ok b" and tl_out: "tl_out = [] \<or> hd tl_out = CHR 0x0A"
  shows "\<exists>r'. ParseFile B jc junk (Some (reducer_output B bs @ tl_out)) r = Some (0, r') \<and>
    (\<forall>b \<in> set bs. \<exists>w d. ConvertB2W b WordIndex_new = Some (0, w) \<and>
       LoadWord j (opened r') (sint (bucket_id b)) WordIndex_new = Some (0, w, Some d, opened r'))"
proof -
  let ?kws = "map (\<lambda>b. (sint (bucket_id b), bucket_word b)) bs"
  have word: "ConvertB2W b WordIndex_new = Some (0, bucket_word b)" "word_ok (bucket_word b)"
    "CalcWordIndexSize (bucket_word b) + 1 < 2 ^ 31" if "b \<in> set bs" for b
    using ok that bucket_ok_word [of b] by (auto simp: bucket_ok_def)
  have d: "distinct (map fst ?kws)"
    using dist by (auto simp: distinct_map inj_on_def comp_def dest: signed_word_eqI)
  have k: "\<forall>(k, w) \<in> set ?kws. 0 \<le> k \<and> k < hint_cap (rr_hinter r) \<and> word_ok w"
    using ids word(2) by (auto simp: new_resolver_cap [OF new])
  from append_all_ok [OF k d, of junk "rr_data r"] obtain d h' where app: "append_all junk (rr_data r, rr_hinter r) ?kws = Some (rr_data r @ d, h')"
    and get: "\<forall>(k, w) \<in> set ?kws. \<exists>e. GetHint h' k HinterItem_new = Some (0, e) \<and> stored_at (rr_data r @ d) e w"
    by (elim exE conjE)
  define r' where "r' = r\<lparr>rr_data := rr_data r @ d, rr_hinter := h'\<rparr>"
  have "ParseFile B jc junk (Some (reducer_output B bs @ tl_out)) r = Some (0, r')"
    using parse_loop_output [OF B _ tl_out] ids write_all_append [of bs bucket_word junk r] word(1) app
    by (simp add: ParseFile_def r'_def)
  moreover have "\<exists>d. LoadWord j (opened r') (sint (bucket_id b)) WordIndex_new
      = Some (0, bucket_word b, Some d, opened r')" if b: "b \<in> set bs" for b
  proof -
    obtain e where "GetHint h' (sint (bucket_id b)) HinterItem_new = Some (0, e)"
      "stored_at (rr_data r @ d) e (bucket_word b)" using get b by auto
    then show ?thesis using word(2,3) [OF b] by (intro LoadWord_stored) (simp_all add: opened_def r'_def)
  qed
  ultimately show ?thesis using word(1) by blast
qed

text \<open>
  The whole index build: the output that the reducers print for buckets with distinct ids
  within the directory, parsed by \<open>ParseFile\<close> into a fresh index, makes every bucket
  readable: \<open>LoadWord\<close> on the files written returns exactly the conversion of the bucket.
\<close>

theorem index_build_roundtrip:
  assumes new: "ReducerResultResolver_new n = Some r" and B: "boost_reads B bs"
    and dist: "distinct (map bucket_id bs)"
    and ids: "\<forall>b \<in> set bs. 0 \<le> sint (bucket_id b) \<and> sint (bucket_id b) < n"
    and ok: "\<forall>b \<in> set bs. bucket_ok b"
  shows "\<exists>r'. ParseFile B jc junk (Some (reducer_output B bs)) r = Some (0, r') \<and>
    (\<forall>b \<in> set bs. \<exists>w d. ConvertB2W b WordIndex_new = Some (0, w) \<and>
       LoadWord j (opened r') (sint (bucket_id b)) WordIndex_new = Some (0, w, Some d, opened r'))"
  using ParseFile_words [OF assms, of "[]" jc junk j] by simp

text \<open>A splitter, a number reader and a one-bucket archive for the concrete run below.\<close>

fun split_on :: "char \<Rightarrow> string \<Rightarrow> string list" where
  "split_on c [] = [[]]"
| "split_on c (x # xs) =
     (if x = c then [] # split_on c xs
      else case split_on c xs of [] \<Rightarrow> [[x]] | f # fs \<Rightarrow> (x # f) # fs)"

lemma split_on_clean: "c \<notin> set xs \<Longrightarrow> split_on c xs = [xs]"
  by (induction xs) auto

lemma split_on_pair: "c \<notin> set xs \<Longrightarrow> c \<notin> set ys \<Longrightarrow> split_on c (xs @ c # ys) = [xs, ys]"
  by (induction xs) (auto simp: split_on_clean)

definition read_dec :: "string \<Rightarrow> int option" where
  "read_dec s = Some (int (foldl (\<lambda>n c. 10 * n + (of_char c - 48)) 0 s))"

lemma read_dec_dec: "read_dec (dec n) = Some (int n)"
proof -
  have "foldl (\<lambda>n c. 10 * n + (of_char c - 48)) 0 (dec n) = (n :: nat)"
  proof (induction n rule: dec.induct)
    case (1 n)
    then show ?case by (subst dec.simps) simp
  qed
  then show ?thesis by (simp add: read_dec_def)
qed

definition demo_bucket :: BOFIndexBucket where
  "demo_bucket = \<lparr>bucket_id = 1, bucket_items = [\<lparr>bi_pic_id = 77,
     bi_bof_info = \<lparr>q_weight = f32_one, word_info = [''0123456789ABCDEF'', ''045'']\<rparr>\<rparr>]\<rparr>"

definition demo_boost :: boost where
  "demo_boost = \<lparr>b_split = split_on, b_trim = id, b_lexical_cast = read_dec, b_save = (\<lambda>b. ''x''), b_load = (\<lambda>s. Some demo_bucket)\<rparr>"

lemma demo_bucket_ok: "bucket_ok demo_bucket"
proof -
  have "bucket_word demo_bucket = \<lparr>wi_word_id = 1, wi_items = [\<lparr>ii_pic_id = 77, ii_weight = f32_one,
      ii_length = 1, ii_he = [he_word ''0123456789ABCDEF'' 0], ii_angle = [45]\<rparr>]\<rparr>"
    by (simp add: bucket_word_def ConvertB2W_def convert_item_def demo_bucket_def angle_digits_def
        angle_char_def schar_def WordIndex_new_def)
  then have "CalcWordIndexSize (bucket_word demo_bucket) = 34"
    by (simp add: CalcWordIndexSize_def GetSize_def)
  then show ?thesis by (simp add: bucket_ok_def demo_bucket_def texts_ok_def)
qed

theorem index_build_roundtrip_witness:
  "\<exists>r'. ParseFile demo_boost (\<lambda>_. CHR ''a'') (\<lambda>_. 0) (Some (reducer_output demo_boost [demo_bucket]))
        \<lparr>rr_data = [], rr_hinter = \<lparr>ih_max_bucket_num = 3, ih_items = replicate 3 HinterItem_new\<rparr>\<rparr> = Some (0, r') \<and>
    (\<forall>b \<in> set [demo_bucket]. \<exists>w d. ConvertB2W b WordIndex_new = Some (0, w) \<and>
       LoadWord (\<lambda>_. 0) (opened r') (sint (bucket_id b)) WordIndex_new = Some (0, w, Some d, opened r'))"
proof (rule index_build_roundtrip [where n = 3])
  show "ReducerResultResolver_new 3 = Some \<lparr>rr_data = [],
      rr_hinter = \<lparr>ih_max_bucket_num = 3, ih_items = replicate 3 HinterItem_new\<rparr>\<rparr>"
    by (simp add: ReducerResultResolver_new_def IndexHinter_new_def)
  show "boost_reads demo_boost [demo_bucket]"
    by (simp add: boost_reads_def demo_boost_def show_int_def read_dec_dec split_on_pair)
qed (simp_all add: demo_bucket_ok, simp_all add: demo_bucket_def)

end
