(* ===== verification/Index_Merger.thy ===== *)
theory Index_Merger
  imports Index_Writer
begin

text \<open>
  The program \<open>indexer/src/merger.cc\<close>, which merges an old and a new index word by word.
  Picture ids are compared as signed 64-bit integers; where both sides have a picture the new item
  is kept. \<open>main\<close> returns at the first word that cannot be loaded.
\<close>

fun merger_loop :: "IndexItem list \<Rightarrow> IndexItem list \<Rightarrow> IndexItem list \<Rightarrow> IndexItem list" where
  "merger_loop (a # old) (n # new) result =
     (if ii_pic_id a = ii_pic_id n then merger_loop old new (result @ [n])
      else if sint (ii_pic_id a) < sint (ii_pic_id n) then merger_loop old (n # new) (result @ [a])
      else merger_loop (a # old) new (result @ [n]))"
| "merger_loop old new result = result @ old @ new"

definition merger_words :: "WordIndex \<Rightarrow> WordIndex \<Rightarrow> WordIndex \<Rightarrow> int \<times> WordIndex" where
  "merger_words index_old index_new result =
     (0, result\<lparr>wi_items := merger_loop (wi_items index_old) (wi_items index_new) (wi_items result)\<rparr>)"

text \<open>The loop of \<open>main\<close> from word \<open>i\<close> on, for \<open>n\<close> more words.\<close>

primrec merge_from ::
    "(nat \<Rightarrow> u8) \<Rightarrow> nat \<Rightarrow> int \<Rightarrow> BOFIndex \<Rightarrow> BOFIndex \<Rightarrow> u8 list \<times> IndexHinter
       \<Rightarrow> (int \<times> u8 list \<times> IndexHinter) cxx" where
  "merge_from junk 0 i old_indexer new_indexer dh = Some (0, dh)"
| "merge_from junk (Suc n) i old_indexer new_indexer dh =
     (case LoadWord junk old_indexer i WordIndex_new of
        None \<Rightarrow> None
      | Some (r, old_words, _, old_indexer') \<Rightarrow>
          if r \<noteq> 0 then Some (-6, dh)
          else case LoadWord junk new_indexer i WordIndex_new of
            None \<Rightarrow> None
          | Some (r', new_words, _, new_indexer') \<Rightarrow>
              if r' \<noteq> 0 then Some (-7, dh)
              else case append_word junk dh i (snd (merger_words old_words new_words WordIndex_new)) of
                None \<Rightarrow> None
              | Some dh' \<Rightarrow> merge_from junk n (i + 1) old_indexer' new_indexer' dh')"

text \<open>
  \<open>main\<close> with its parsed arguments: the two files of either index (\<open>None\<close> if one cannot be
  opened) and whether the two output files can be opened. On success the result is the pair of files
  written; on a failure the directory is not saved.
\<close>

definition merger_main ::
    "(nat \<Rightarrow> u8) \<Rightarrow> int \<Rightarrow> IndexHinter option \<times> u8 list option \<Rightarrow> IndexHinter option \<times> u8 list option
       \<Rightarrow> bool \<Rightarrow> bool \<Rightarrow> (int \<times> u8 list \<times> IndexHinter option) cxx" where
  "merger_main junk K old_files new_files save_hint_ok save_data_ok =
     (case Index_Init BOFIndex_new K (fst old_files) (snd old_files) of
        None \<Rightarrow> None
      | Some (r1, old_indexer) \<Rightarrow>
          if r1 \<noteq> 0 then Some (-2, [], None)
          else case Index_Init BOFIndex_new K (fst new_files) (snd new_files) of
            None \<Rightarrow> None
          | Some (r2, new_indexer) \<Rightarrow>
              if r2 \<noteq> 0 then Some (-3, [], None)
              else case IndexHinter_new K of
                None \<Rightarrow> None
              | Some hint \<Rightarrow>
                  if \<not> save_hint_ok then Some (-4, [], None)
                  else if \<not> save_data_ok then Some (-5, [], None)
                  else case merge_from junk (nat K) 0 old_indexer new_indexer ([], hint) of
                    None \<Rightarrow> None
                  | Some (r, d, h) \<Rightarrow> Some (r, d, if r = 0 then Some h else None))"

subsection \<open>The merge as an override of maps\<close>

fun merge_items :: "IndexItem list \<Rightarrow> IndexItem list \<Rightarrow> IndexItem list" where
  "merge_items (a # old) (n # new) =
     (if pic_key a = pic_key n then n # merge_items old new
      else if pic_key a < pic_key n then a # merge_items old (n # new)
      else n # merge_items (a # old) new)"
| "merge_items old new = old @ new"

lemma merger_loop_items: "merger_loop old new result = result @ merge_items old new"
  by (induction old new result rule: merger_loop.induct)
    (auto simp: pic_id_eq_key, auto simp: pic_key_def)

lemma set_merge_items: "set (merge_items old new) \<subseteq> set old \<union> set new"
  by (induction old new rule: merge_items.induct) auto

lemma merge_items_sorted:
  "pic_sorted old \<Longrightarrow> pic_sorted new \<Longrightarrow> pic_sorted (merge_items old new)"
  unfolding pic_sorted_def
proof (induction old new rule: merge_items.induct)
  case (1 a old n new)
  consider "pic_key a = pic_key n" | "pic_key a < pic_key n" | "pic_key n < pic_key a" by linarith
  then show ?case
  proof cases
    case 1
    then show ?thesis using "1.prems" "1.IH"(1) set_merge_items [of old new] by fastforce
  next
    case 2
    then show ?thesis using "1.prems" "1.IH"(2) set_merge_items [of old "n # new"] by fastforce
  next
    case 3
    then show ?thesis using "1.prems" "1.IH"(3) set_merge_items [of "a # old" new] by fastforce
  qed
qed auto

lemma by_pic_merge:
  "pic_sorted old \<Longrightarrow> pic_sorted new \<Longrightarrow> by_pic (merge_items old new) = by_pic old ++ by_pic new"
  unfolding pic_sorted_def
proof (induction old new rule: merge_items.induct)
  case (1 a old n new)
  consider "pic_key a = pic_key n" | "pic_key a < pic_key n" | "pic_key n < pic_key a" by linarith
  then show ?case
  proof cases
    case 1
    then show ?thesis using "1.prems" "1.IH"(1) by (auto simp: fun_eq_iff map_add_def)
  next
    case 2
    then have "by_pic (n # new) (pic_key a) = None"
      using "1.prems" by (intro by_pic_above) auto
    with 2 show ?thesis using "1.prems" "1.IH"(2)
      by (auto simp: fun_eq_iff map_add_def split: option.splits)
  next
    case 3
    then show ?thesis using "1.prems" "1.IH"(3) by (auto simp: fun_eq_iff map_add_def split: option.splits)
  qed
qed simp_all

subsection \<open>The whole program\<close>

definition merged_word :: "WordIndex \<Rightarrow> WordIndex \<Rightarrow> WordIndex" where
  "merged_word old new = \<lparr>wi_word_id = 0, wi_items = merge_items (wi_items old) (wi_items new)\<rparr>"

lemma merger_words_merged: "merger_words old new WordIndex_new = (0, merged_word old new)"
  by (simp add: merger_words_def merged_word_def merger_loop_items WordIndex_new_def)

lemma merge_from_append:
  assumes "\<forall>k. i \<le> k \<and> k < i + int n \<longrightarrow> holds_word junk old k (wo k) \<and> holds_word junk new k (wn k)"
  shows "merge_from junk n i old new dh = map_option (Pair 0)
     (append_all junk dh (map (\<lambda>m. (i + int m, merged_word (wo (i + int m)) (wn (i + int m)))) [0..<n]))"
  using assms
proof (induction n arbitrary: i dh)
  case (Suc n)
  obtain d1 d2 where "LoadWord junk old i WordIndex_new = Some (0, wo i, Some d1, old)"
    "LoadWord junk new i WordIndex_new = Some (0, wn i, Some d2, new)"
    using Suc.prems by (auto simp: holds_word_def)
  moreover have "map (\<lambda>m. (i + int m, merged_word (wo (i + int m)) (wn (i + int m)))) [0..<Suc n]
      = (i, merged_word (wo i) (wn i)) #
        map (\<lambda>m. ((i + 1) + int m, merged_word (wo ((i + 1) + int m)) (wn ((i + 1) + int m)))) [0..<n]"
    by (simp add: upt_conv_Cons del: upt_Suc) (simp add: map_Suc_upt [symmetric] comp_def algebra_simps del: upt_Suc)
  moreover note Suc.IH [of "i + 1"] Suc.prems
  ultimately show ?case
    by (simp add: merger_words_merged del: upt_Suc split: option.split)
qed simp

lemma merger_main_words:
  assumes "0 \<le> K" and old: "Index_Init BOFIndex_new K oh od = Some (0, old)"
    and new: "Index_Init BOFIndex_new K nh nd = Some (0, new)"
    and words: "\<forall>k. 0 \<le> k \<and> k < K \<longrightarrow> holds_word junk old k (wo k) \<and> holds_word junk new k (wn k)"
    and ok: "\<forall>k. 0 \<le> k \<and> k < K \<longrightarrow> word_ok (merged_word (wo k) (wn k)) \<and>
        CalcWordIndexSize (merged_word (wo k) (wn k)) + 1 < 2 ^ 31"
  shows "\<exists>d h ix. merger_main junk K (oh, od) (nh, nd) True True = Some (0, d, Some h) \<and>
     Index_Init BOFIndex_new K (Some h) (Some d) = Some (0, ix) \<and>
     (\<forall>k. 0 \<le> k \<and> k < K \<longrightarrow> holds_word junk ix k (merged_word (wo k) (wn k)))"
proof -
  let ?kws = "map (\<lambda>m. (0 + int m, merged_word (wo (0 + int m)) (wn (0 + int m)))) [0..<nat K]"
  obtain h0 where h0: "IndexHinter_new K = Some h0" "hint_cap h0 = K"
    using assms(1) by (simp add: IndexHinter_new_def hint_cap_def)
  have k: "\<forall>(k, w) \<in> set ?kws. 0 \<le> k \<and> k < hint_cap h0 \<and> word_ok w" using ok h0(2) by auto
  have "distinct (map fst ?kws)" by (auto simp: distinct_map inj_on_def)
  from append_all_ok [OF k this, of junk "[]"] obtain d h where
    app: "append_all junk ([], h0) ?kws = Some ([] @ d, h)"
    and get: "\<forall>(k, w) \<in> set ?kws. \<exists>e. GetHint h k HinterItem_new = Some (0, e) \<and> stored_at ([] @ d) e w"
    by (elim exE conjE)
  have "merge_from junk (nat K) 0 old new ([], h0) = Some (0, d, h)"
    using merge_from_append [of 0 "nat K" junk old wo new wn "([], h0)"] words app by simp
  then have main: "merger_main junk K (oh, od) (nh, nd) True True = Some (0, d, Some h)"
    using old new h0(1) by (simp add: merger_main_def)
  let ?r = "\<lparr>rr_data = d, rr_hinter = h\<rparr>"
  have "holds_word junk (opened ?r) k (merged_word (wo k) (wn k))" if "0 \<le> k \<and> k < K" for k
  proof -
    have "(k, merged_word (wo k) (wn k)) \<in> set ?kws"
      using that by (auto intro!: image_eqI [of _ _ "nat k"])
    then obtain e where "GetHint h k HinterItem_new = Some (0, e)" "stored_at d e (merged_word (wo k) (wn k))"
      using get by auto
    then show ?thesis unfolding holds_word_def
      using ok that by (intro LoadWord_stored) (simp_all add: opened_def)
  qed
  with main opened_Init [OF assms(1), of ?r] show ?thesis by auto
qed

subsection \<open>Properties\<close>

text \<open>
  C6. On items sorted by picture id, \<open>merger_words\<close> yields items sorted by picture id that hold
  exactly the pictures of both sides, with the new item where both sides have one.
\<close>

theorem merger_words_overrides:
  assumes "pic_sorted (wi_items old)" and "pic_sorted (wi_items new)"
  shows "\<exists>w. merger_words old new WordIndex_new = (0, w) \<and> pic_sorted (wi_items w) \<and>
     by_pic (wi_items w) = by_pic (wi_items old) ++ by_pic (wi_items new)"
  using merge_items_sorted [OF assms] by_pic_merge [OF assms]
  by (simp add: merger_words_merged merged_word_def)

theorem merger_words_overrides_witness:
  "\<exists>w. merger_words
     \<lparr>wi_word_id = 3, wi_items = [IndexItem_new\<lparr>ii_pic_id := 1\<rparr>, IndexItem_new\<lparr>ii_pic_id := 5\<rparr>]\<rparr>
     \<lparr>wi_word_id = 3, wi_items = [IndexItem_new\<lparr>ii_pic_id := 5, ii_weight := f32_one\<rparr>]\<rparr> WordIndex_new = (0, w) \<and>
     pic_sorted (wi_items w) \<and> by_pic (wi_items w) =
       by_pic (wi_items \<lparr>wi_word_id = 3, wi_items = [IndexItem_new\<lparr>ii_pic_id := 1\<rparr>, IndexItem_new\<lparr>ii_pic_id := 5\<rparr>]\<rparr>) ++
       by_pic (wi_items \<lparr>wi_word_id = 3, wi_items = [IndexItem_new\<lparr>ii_pic_id := 5, ii_weight := f32_one\<rparr>]\<rparr>)"
  by (rule merger_words_overrides) (simp_all add: pic_sorted_def pic_key_def IndexItem_new_def)

text \<open>
  C25. If every word of both indexes can be read, the merge program succeeds and the index it writes
  holds for every word the merge of the old and the new items; every stored word carries id 0, since
  the program never sets it.
\<close>

theorem merger_main_merges_index:
  assumes "0 \<le> K" and "Index_Init BOFIndex_new K oh od = Some (0, old)"
    and "Index_Init BOFIndex_new K nh nd = Some (0, new)"
    and "\<forall>k. 0 \<le> k \<and> k < K \<longrightarrow> holds_word junk old k (wo k) \<and> holds_word junk new k (wn k)"
    and "\<forall>k. 0 \<le> k \<and> k < K \<longrightarrow> word_ok (merged_word (wo k) (wn k)) \<and>
        CalcWordIndexSize (merged_word (wo k) (wn k)) + 1 < 2 ^ 31"
  shows "\<exists>d h ix. merger_main junk K (oh, od) (nh, nd) True True = Some (0, d, Some h) \<and>
     Index_Init BOFIndex_new K (Some h) (Some d) = Some (0, ix) \<and>
     (\<forall>k. 0 \<le> k \<and> k < K \<longrightarrow> holds_word junk ix k (merged_word (wo k) (wn k)))"
  using assms by (rule merger_main_words)

definition demo_files :: "IndexHinter \<times> u8 list" where
  "demo_files = (\<lparr>ih_max_bucket_num = 1, ih_items = [\<lparr>hi_start_pos = 0, hi_end_pos = 8, hi_bucket_size = 0\<rparr>]\<rparr>,
     [0, 0, 0, 0, 0, 0, 0, 0])"

definition demo_index :: BOFIndex where
  "demo_index = BOFIndex_new\<lparr>hinter := Some (fst demo_files), fs_data := \<lparr>is_bytes = snd demo_files, is_good = True\<rparr>\<rparr>"

lemma demo_index_word: "holds_word (\<lambda>_. 0) demo_index 0 WordIndex_new"
proof -
  have "LoadWord (\<lambda>_. 0) demo_index 0 WordIndex_new = Some (0, WordIndex_new, Some (replicate 9 0), demo_index)"
    by code_simp
  then show ?thesis by (auto simp: holds_word_def)
qed

theorem merger_main_merges_index_witness:
  "\<exists>d h ix. merger_main (\<lambda>_. 0) 1 (Some (fst demo_files), Some (snd demo_files))
       (Some (fst demo_files), Some (snd demo_files)) True True = Some (0, d, Some h) \<and>
     Index_Init BOFIndex_new 1 (Some h) (Some d) = Some (0, ix) \<and>
     (\<forall>k. 0 \<le> k \<and> k < 1 \<longrightarrow> holds_word (\<lambda>_. 0) ix k (merged_word WordIndex_new WordIndex_new))"
proof (rule merger_main_merges_index [where old = demo_index and new = demo_index])
  have "k = 0" if "0 \<le> k \<and> k < 1" for k :: int using that by simp
  then show "\<forall>k. 0 \<le> k \<and> k < 1 \<longrightarrow> holds_word (\<lambda>_. 0) demo_index k WordIndex_new \<and>
      holds_word (\<lambda>_. 0) demo_index k WordIndex_new"
    using demo_index_word by blast
qed (simp_all add: Index_Init_def IndexHinter_new_def demo_index_def merged_word_def WordIndex_new_def
    word_ok_def CalcWordIndexSize_def)

end
