(* ===== verification/Weak_Geometry.thy ===== *)
theory Weak_Geometry
  imports Prelude
begin

text \<open>
  Weak geometry consistency, \<open>bof_core/src/weak_geometry_consistency.cc\<close>: class \<open>BOFWgc\<close>
  collects a histogram of angle differences and keeps the size of its largest bin. A cell of
  \<open>angle_histogram_[18]\<close> is \<open>None\<close> until it has been written: the constructor leaves
  the array uninitialised, and reading such a cell is undefined, as is an index outside the array
  or a division by the initial bin width 0.
\<close>

record bof_wgc =
  angle_bin :: int
  angle_histogram :: "int option list"
  histogram_max_num :: int
  histogram_total :: int

definition BOFWgc :: bof_wgc where
  "BOFWgc = \<lparr>angle_bin = 0, angle_histogram = replicate 18 None, histogram_max_num = 0,
     histogram_total = 0\<rparr>"

definition Wgc_Init :: "bof_wgc \<Rightarrow> int \<Rightarrow> int \<times> bof_wgc" where
  "Wgc_Init w bin =
     (if bin < 20 then (-1, w)
      else let num = nat (360 sdiv bin)
           in (0, w\<lparr>angle_bin := bin,
                angle_histogram := replicate num (Some 0) @ drop num (angle_histogram w)\<rparr>))"

definition hist_read :: "bof_wgc \<Rightarrow> int \<Rightarrow> int cxx" where
  "hist_read w k = (if 0 \<le> k \<and> nat k < length (angle_histogram w)
     then angle_histogram w ! nat k else None)"

definition BuildAngleHistogram :: "bof_wgc \<Rightarrow> int \<Rightarrow> (int \<times> bof_wgc) cxx" where
  "BuildAngleHistogram w angle =
     (if angle_bin w = 0 then None
      else let k = angle sdiv angle_bin w in
        case hist_read w k of
          None \<Rightarrow> None
        | Some v \<Rightarrow> Some (0, w\<lparr>angle_histogram := (angle_histogram w)[nat k := Some (v + 1)],
            histogram_total := histogram_total w + 1,
            histogram_max_num := (if v + 1 > histogram_max_num w then v + 1
                                  else histogram_max_num w)\<rparr>))"

definition angle_of :: "string \<Rightarrow> nat \<Rightarrow> int" where
  "angle_of s i = (schar (s ! (3 * i)) - schar (CHR ''0'')) * 100 +
     (schar (s ! (3 * i + 1)) - schar (CHR ''0'')) * 10 + (schar (s ! (3 * i + 2)) - schar (CHR ''0''))"

primrec build_all :: "bof_wgc \<Rightarrow> int list \<Rightarrow> bof_wgc cxx" where
  "build_all w [] = Some w"
| "build_all w (a # as) = (case BuildAngleHistogram w a of None \<Rightarrow> None | Some (_, w') \<Rightarrow> build_all w' as)"

definition BuildAngleHistogram_str :: "bof_wgc \<Rightarrow> string \<Rightarrow> string \<Rightarrow> (int \<times> bof_wgc) cxx" where
  "BuildAngleHistogram_str w str1 str2 =
     (let n_angle1 = length str1 div 3; n_angle2 = length str2 div 3 in
      if n_angle1 = 0 \<or> n_angle2 = 0 then Some (-1, w)
      else map_option (Pair 0) (build_all w
        (concat (map (\<lambda>i. map (\<lambda>j. let diff_angle = angle_of str1 i - angle_of str2 j
                   in if diff_angle < 0 then - diff_angle else diff_angle) [0..<n_angle2])
           [0..<n_angle1]))))"

text \<open>
  \<open>AverageHistogram\<close> smooths each bin with its neighbours; \<open>tmp\<close> is write-only apart from
  the maximum, so only that is kept.
\<close>

definition AverageHistogram :: "bof_wgc \<Rightarrow> (int \<times> bof_wgc) cxx" where
  "AverageHistogram w =
     (if angle_bin w = 0 then None
      else let num = 360 sdiv angle_bin w in
        if num < 3 then Some (-2, w)
        else if length (angle_histogram w) < nat num \<or> None \<in> set (take (nat num) (angle_histogram w))
        then None
        else
          let h = (\<lambda>i. the (angle_histogram w ! i)); n = nat num;
              average = (2 * histogram_total w) sdiv num;
              raise = (\<lambda>m t. if t > m then t else m)
          in Some (0, w\<lparr>histogram_max_num :=
               foldl (\<lambda>m i. raise m (h i + h (i - 1) + h (i + 1) - average))
                 (raise (raise 0 (h 0 + h 1 - average)) (h (n - 2) + h (n - 1) - average))
                 [1..<n - 1]\<rparr>))"

definition Wgc :: "bof_wgc \<Rightarrow> int \<Rightarrow> int \<times> int" where
  "Wgc w max_num = (0, histogram_max_num w)"

definition TotalDiffAngle :: "bof_wgc \<Rightarrow> int" where
  "TotalDiffAngle w = histogram_total w"

subsection \<open>The histogram of a list of differences\<close>

text \<open>\<open>bin_count b as k\<close> is the number of differences that fall into bin \<open>k\<close> of width \<open>b\<close>.\<close>

definition bin_count :: "int \<Rightarrow> int list \<Rightarrow> nat \<Rightarrow> int" where
  "bin_count b as k = int (length (filter (\<lambda>a. a div b = int k) as))"

text \<open>The state after the differences \<open>as\<close> have been counted in \<open>num = 360 div b\<close> bins.\<close>

definition wgc_state :: "int \<Rightarrow> int list \<Rightarrow> bof_wgc \<Rightarrow> bool" where
  "wgc_state b as w \<longleftrightarrow> angle_bin w = b \<and> length (angle_histogram w) = 18 \<and>
     (\<forall>k < nat (360 div b). angle_histogram w ! k = Some (bin_count b as k)) \<and>
     histogram_total w = int (length as) \<and>
     histogram_max_num w = Max (insert 0 (bin_count b as ` {..<nat (360 div b)}))"

lemma sdiv_pos [simp]: "0 \<le> a \<Longrightarrow> 0 < b \<Longrightarrow> (a::int) sdiv b = a div b"
  by (cases "a = 0") (simp_all add: signed_divide_int_def sgn_if)

lemma bins_le_18: "20 \<le> b \<Longrightarrow> nat (360 div b) \<le> 18"
  using zdiv_mono2 [of 360 20 b] by simp

lemma wgc_state_init:
  assumes "20 \<le> b" shows "wgc_state b [] (snd (Wgc_Init BOFWgc b))"
proof -
  have "bin_count b [] ` {..<nat (360 div b)} \<subseteq> {0}" by (auto simp: bin_count_def)
  then have "insert 0 (bin_count b [] ` {..<nat (360 div b)}) = {0}" by auto
  then have "Max (insert 0 (bin_count b [] ` {..<nat (360 div b)})) = 0" by (simp only: Max_singleton)
  then show ?thesis
    using assms bins_le_18 [of b]
    by (simp add: wgc_state_def Wgc_Init_def BOFWgc_def Let_def bin_count_def nth_append)
qed

lemma bin_count_snoc:
  "bin_count b (as @ [a]) k = bin_count b as k + (if a div b = int k then 1 else 0)"
  by (simp add: bin_count_def)

lemma Max_update:
  assumes "finite A" and "k \<in> A" and "\<And>x. x \<in> A \<Longrightarrow> x \<noteq> k \<Longrightarrow> g x = f x"
    and "g k = f k + (1::int)"
  shows "Max (insert 0 (g ` A)) = max (f k + 1) (Max (insert 0 (f ` A)))"
proof -
  have fA: "f ` A = insert (f k) (f ` (A - {k}))" and gA: "g ` A = insert (g k) (g ` (A - {k}))"
    using assms(2) by auto
  have eq: "g ` (A - {k}) = f ` (A - {k})" using assms(3) by (intro image_cong) auto
  have fin: "finite (insert 0 (f ` (A - {k})))" using assms(1) by simp
  have "Max (insert 0 (g ` A)) = Max (insert (f k + 1) (insert 0 (f ` (A - {k}))))"
    by (simp only: gA eq assms(4) insert_commute)
  also have "\<dots> = max (f k + 1) (Max (insert 0 (f ` (A - {k}))))"
    using fin by (simp add: Max.insert)
  also have "\<dots> = max (f k + 1) (max (f k) (Max (insert 0 (f ` (A - {k})))))"
    by simp
  also have "max (f k) (Max (insert 0 (f ` (A - {k})))) = Max (insert (f k) (insert 0 (f ` (A - {k}))))"
    using fin by (simp add: Max.insert)
  also have "\<dots> = Max (insert 0 (f ` A))"
    by (simp only: fA insert_commute)
  finally show ?thesis .
qed

lemma zdiv_mono_strict_bound: "0 < b \<Longrightarrow> a < b * q \<Longrightarrow> a div b < (q::int)"
proof (rule ccontr)
  assume b: "0 < b" and a: "a < b * q" and "\<not> a div b < q"
  then have "b * q \<le> b * (a div b)" by simp
  also have "\<dots> \<le> a" using b mult_div_mod_eq [of b a] pos_mod_sign [of b a] by linarith
  finally show False using a by simp
qed

lemma zdiv_lower_bound: "0 < b \<Longrightarrow> b * q \<le> a \<Longrightarrow> q \<le> a div (b::int)"
  using zdiv_mono1 [of "b * q" a b] by simp

lemma bin_index:
  assumes "0 < b" and "0 \<le> a" and "a < b * (360 div b)"
  shows "nat (a div b) < nat (360 div b)" and "int (nat (a div b)) = a div b" and "0 \<le> a div b"
proof -
  have "a div b < 360 div b"
    using zdiv_mono_strict_bound [OF assms(1,3)] .
  moreover have "0 \<le> a div b" using assms by (simp add: pos_imp_zdiv_nonneg_iff)
  ultimately show "nat (a div b) < nat (360 div b)" "int (nat (a div b)) = a div b" "0 \<le> a div b"
    by auto
qed

lemma wgc_state_step:
  assumes st: "wgc_state b as w" and b: "20 \<le> b" and a: "0 \<le> a" "a < b * (360 div b)"
  shows "\<exists>w'. BuildAngleHistogram w a = Some (0, w') \<and> wgc_state b (as @ [a]) w'"
proof -
  let ?n = "nat (360 div b)" and ?k = "nat (a div b)" and ?c = "bin_count b as"
  have b0: "0 < b" using b by simp
  note k = bin_index [OF b0 a]
  have idx: "a sdiv angle_bin w = a div b" "angle_bin w \<noteq> 0"
    using st a b0 by (simp_all add: wgc_state_def)
  have "hist_read w (a div b) = Some (?c ?k)"
    using st k less_le_trans [OF k(1) bins_le_18 [OF b]] by (simp add: hist_read_def wgc_state_def)
  then have eq: "BuildAngleHistogram w a = Some (0, w\<lparr>angle_histogram := (angle_histogram w)[?k := Some (?c ?k + 1)],
      histogram_total := histogram_total w + 1, histogram_max_num := max (?c ?k + 1) (histogram_max_num w)\<rparr>)"
    using idx by (simp add: BuildAngleHistogram_def Let_def max_def)
  have ck: "bin_count b (as @ [a]) j = (if j = ?k then ?c j + 1 else ?c j)" for j
    using k(2) by (auto simp: bin_count_snoc)
  have "Max (insert 0 (bin_count b (as @ [a]) ` {..<?n})) = max (?c ?k + 1) (Max (insert 0 (?c ` {..<?n})))"
    by (rule Max_update) (use k(1) in \<open>auto simp: ck\<close>)
  then have "wgc_state b (as @ [a]) (w\<lparr>angle_histogram := (angle_histogram w)[?k := Some (?c ?k + 1)],
      histogram_total := histogram_total w + 1, histogram_max_num := max (?c ?k + 1) (histogram_max_num w)\<rparr>)"
    using st k(1) less_le_trans [OF k(1) bins_le_18 [OF b]]
    by (simp add: wgc_state_def nth_list_update ck cong del: image_cong_simp)
  with eq show ?thesis by blast
qed

lemma wgc_state_all:
  assumes "wgc_state b as w" and "20 \<le> b" and "\<forall>a \<in> set xs. 0 \<le> a \<and> a < b * (360 div b)"
  shows "\<exists>w'. build_all w xs = Some w' \<and> wgc_state b (as @ xs) w'"
  using assms(1,3)
proof (induction xs arbitrary: as w)
  case (Cons x xs)
  obtain w1 where "BuildAngleHistogram w x = Some (0, w1)" "wgc_state b (as @ [x]) w1"
    using wgc_state_step [OF Cons.prems(1) assms(2), of x] Cons.prems(2) by auto
  then show ?case using Cons.IH [of "as @ [x]" w1] Cons.prems(2) by auto
qed simp

subsection \<open>Properties\<close>

text \<open>
  Starting from a fresh object initialised with a bin width of at least 20, counting any list
  of angle differences that lie in the initialised bins never leaves the array, \<open>Wgc\<close>
  reports the size of the fullest bin and \<open>TotalDiffAngle\<close> the number of differences.
\<close>

theorem wgc_reports_largest_bin:
  assumes "20 \<le> b" and "\<forall>a \<in> set xs. 0 \<le> a \<and> a < b * (360 div b)"
  shows "\<exists>w. build_all (snd (Wgc_Init BOFWgc b)) xs = Some w \<and>
     Wgc w m = (0, Max (insert 0 (bin_count b xs ` {..<nat (360 div b)}))) \<and>
     TotalDiffAngle w = int (length xs)"
  using wgc_state_all [OF wgc_state_init [OF assms(1)] assms]
  by (auto simp: wgc_state_def Wgc_def TotalDiffAngle_def)

theorem wgc_reports_largest_bin_witness:
  "\<exists>w. build_all (snd (Wgc_Init BOFWgc 20)) [5, 359, 19] = Some w \<and>
     Wgc w 0 = (0, Max (insert 0 (bin_count 20 [5, 359, 19] ` {..<nat (360 div 20)}))) \<and>
     TotalDiffAngle w = int (length [5, 359, 19 :: int])"
  by (rule wgc_reports_largest_bin) simp_all

text \<open>
  The bin widths that \<open>Init\<close> accepts but that do not divide 360 leave the last bin
  uninitialised: every difference from \<open>b * (360 div b)\<close> up to 359 reads an indeterminate cell.
\<close>

theorem wgc_last_bin_uninitialised:
  assumes "20 \<le> b" and "b * (360 div b) \<le> a" and "a < 360"
  shows "fst (Wgc_Init BOFWgc b) = 0 \<and> BuildAngleHistogram (snd (Wgc_Init BOFWgc b)) a = None"
proof -
  have b: "0 < b" using assms(1) by simp
  have a: "0 \<le> a" using assms(2) b order_trans [of 0 "b * (360 div b)" a] by (simp add: pos_imp_zdiv_nonneg_iff)
  have "360 div b \<le> a div b" by (rule zdiv_lower_bound [OF b assms(2)])
  then have "nat (360 div b) \<le> nat (a div b)" by simp
  then have "hist_read (snd (Wgc_Init BOFWgc b)) (a div b) = None"
    using assms(1) b bins_le_18 [OF assms(1)]
    by (auto simp: hist_read_def Wgc_Init_def BOFWgc_def Let_def nth_append)
  then show ?thesis
    using assms(1) a b by (simp add: BuildAngleHistogram_def) (simp add: Wgc_Init_def Let_def)
qed

theorem wgc_last_bin_uninitialised_witness:
  "fst (Wgc_Init BOFWgc 25) = 0 \<and> BuildAngleHistogram (snd (Wgc_Init BOFWgc 25)) 350 = None"
  by (rule wgc_last_bin_uninitialised) simp_all

end
