(* ===== verification/Searcher.thy ===== *)
theory Searcher
  imports Index Weak_Geometry
begin

text \<open>
  The scoring of candidate pictures, \<open>bof_core/src/searcher.cc\<close>. \<open>Merge\<close> walks the words
  of the query in key order; for each it loads the inverted list and merges it into the sorted list
  \<open>result_similar_\<close>; \<open>Rank\<close> turns the accumulated products into cosines, drops those that
  are not above 0.1 and sorts. The index singleton is passed along explicitly.

  \<open>MergeBucketResult\<close> compares a picture id with the one read through \<open>end()\<close> of the
  list. The value found there is unspecified; it is the argument \<open>g\<close>. When an item happens to
  have that id the code writes through \<open>end()\<close>, which is undefined.
\<close>

record MergeSimilarInfo =
  ms_sim :: f32
  ms_pow :: f32
  ms_pic_id :: u64
  ms_wgc_angle :: bof_wgc

definition MergeSimilarInfo_new :: MergeSimilarInfo where
  "MergeSimilarInfo_new = \<lparr>ms_sim = f32_zero, ms_pow = f32_zero, ms_pic_id = 0, ms_wgc_angle = BOFWgc\<rparr>"

record SearchResultItem =
  sr_pic_id :: u64
  sr_sim :: f32

definition SearchResultItem_new :: SearchResultItem where
  "SearchResultItem_new = \<lparr>sr_pic_id = 0, sr_sim = f32_zero\<rparr>"

definition SearchResult_AddItem :: "SearchResultItem list \<Rightarrow> u32 \<Rightarrow> f32 \<Rightarrow> SearchResultItem list" where
  "SearchResult_AddItem items pic_id sim = items @ [\<lparr>sr_pic_id = scast pic_id, sr_sim = sim\<rparr>]"

text \<open>\<open>std::map<int, BOFQuantizeResult>\<close> as its sequence of entries in key order.\<close>

type_synonym BOFQuantizeResultMap = "(int \<times> BOFQuantizeResult) list"

fun map_insert :: "int \<Rightarrow> 'v \<Rightarrow> (int \<times> 'v) list \<Rightarrow> (int \<times> 'v) list" where
  "map_insert k v [] = [(k, v)]"
| "map_insert k v ((j, u) # m) =
     (if k < j then (k, v) # (j, u) # m else if k = j then (j, v) # m else (j, u) # map_insert k v m)"

text \<open>\<open>operator[]\<close>: an absent key is inserted with a default value.\<close>

definition map_at :: "BOFQuantizeResultMap \<Rightarrow> int \<Rightarrow> BOFQuantizeResult \<times> BOFQuantizeResultMap" where
  "map_at m k = (case map_of m k of Some v \<Rightarrow> (v, m)
     | None \<Rightarrow> (BOFQuantizeResult_new, map_insert k BOFQuantizeResult_new m))"

record Searcher =
  query_data :: "BOFQuantizeResultMap option"
  result_similar :: "MergeSimilarInfo list"
  query_pow :: f32
  he_threshold_param :: int
  sr_result :: "SearchResultItem list"
  begin_bucket_id :: int

text \<open>The constructor leaves \<open>query_pow_\<close> and \<open>he_threshold_\<close> unspecified.\<close>

definition Searcher_new :: "f32 \<Rightarrow> int \<Rightarrow> Searcher" where
  "Searcher_new pow0 thr0 = \<lparr>query_data = None, result_similar = [], query_pow = pow0,
     he_threshold_param = thr0, sr_result = [], begin_bucket_id = 0\<rparr>"

definition SetParam :: "Searcher \<Rightarrow> int \<Rightarrow> int \<times> Searcher" where
  "SetParam s he_t = (0, s\<lparr>he_threshold_param := he_t\<rparr>)"

definition SetBeginBucketId :: "Searcher \<Rightarrow> int \<Rightarrow> int \<times> Searcher" where
  "SetBeginBucketId s b = (0, s\<lparr>begin_bucket_id := b\<rparr>)"

definition SetQueryData :: "Searcher \<Rightarrow> BOFQuantizeResultMap \<Rightarrow> int \<times> Searcher" where
  "SetQueryData s q = (0, s\<lparr>query_data := Some q\<rparr>)"

subsection \<open>Merging one inverted list\<close>

text \<open>
  \<open>score\<close> is \<open>HeDistance\<close> against the query; \<open>hit\<close> adds a product to a known picture,
  \<open>fresh\<close> opens an entry for a new one.
\<close>

definition score :: "int \<Rightarrow> u64 list \<Rightarrow> int \<Rightarrow> IndexItem \<Rightarrow> int cxx" where
  "score thr query_he query_len it =
     map_option snd (HeDistance (SetHammingParam HammingEmbedding 64 thr) 0 (Some (ii_he it)) (sint (ii_length it))
       (Some query_he) query_len)"

definition hit :: "f32_ops \<Rightarrow> f32 \<Rightarrow> IndexItem \<Rightarrow> MergeSimilarInfo \<Rightarrow> MergeSimilarInfo" where
  "hit ops query_weight it r =
     r\<lparr>ms_sim := f_add ops (ms_sim r) (f_mul ops (ii_weight it) query_weight),
       ms_pow := f_acc_sq ops (ms_pow r) (ii_weight it)\<rparr>"

definition fresh :: "f32_ops \<Rightarrow> f32 \<Rightarrow> IndexItem \<Rightarrow> MergeSimilarInfo" where
  "fresh ops query_weight it =
     hit ops query_weight it (MergeSimilarInfo_new\<lparr>ms_pic_id := ii_pic_id it, ms_wgc_angle := snd (Wgc_Init BOFWgc 20)\<rparr>)"

text \<open>The list before the iterator, and from the iterator on.\<close>

fun bucket_loop ::
    "f32_ops \<Rightarrow> u64 \<Rightarrow> (IndexItem \<Rightarrow> int cxx) \<Rightarrow> f32 \<Rightarrow> IndexItem list
       \<Rightarrow> MergeSimilarInfo list \<Rightarrow> MergeSimilarInfo list \<Rightarrow> MergeSimilarInfo list cxx" where
  "bucket_loop ops g sc qw [] before cur = Some (before @ cur)"
| "bucket_loop ops g sc qw (it # its) before [] =
     (if ii_pic_id it = g then None
      else case sc it of
        None \<Rightarrow> None
      | Some n \<Rightarrow>
          if n = 0 then bucket_loop ops g sc qw its before []
          else bucket_loop ops g sc qw its
                 (if f32_less f32_zero (ms_pow (fresh ops qw it)) then before @ [fresh ops qw it] else before) [])"
| "bucket_loop ops g sc qw (it # its) before (r # cur) =
     (if ii_pic_id it = ms_pic_id r then
        (case sc it of
           None \<Rightarrow> None
         | Some n \<Rightarrow> bucket_loop ops g sc qw its (before @ [if n = 0 then r else hit ops qw it r]) cur)
      else if sint (ii_pic_id it) < sint (ms_pic_id r) then
        (case sc it of
           None \<Rightarrow> None
         | Some n \<Rightarrow>
             if n = 0 then bucket_loop ops g sc qw its before (r # cur)
             else bucket_loop ops g sc qw its
                 (if f32_less f32_zero (ms_pow (fresh ops qw it)) then before @ [fresh ops qw it] else before) (r # cur))
      else bucket_loop ops g sc qw (it # its) (before @ [r]) cur)"

definition MergeBucketResult ::
    "f32_ops \<Rightarrow> (nat \<Rightarrow> u8) \<Rightarrow> (int \<Rightarrow> u64) \<Rightarrow> BOFIndex \<Rightarrow> Searcher \<Rightarrow> int \<Rightarrow> (int \<times> BOFIndex \<times> Searcher) cxx" where
  "MergeBucketResult ops junk g ix s bucket0 =
     (let bucket = bucket0 - begin_bucket_id s in
      case LoadWord junk ix bucket WordIndex_new of
        None \<Rightarrow> None
      | Some (r, word_index, word_data, ix') \<Rightarrow>
          if r \<noteq> 0 then Some (-1, ix', s)
          else case query_data s of
            None \<Rightarrow> None
          | Some q \<Rightarrow>
              let (info, q') = map_at q bucket; qw = q_weight info in
              if length (word_info info) < 2 then None
              else
                let (_, he64, he64_len) = HeString2Int (word_info info ! 0) None 0;
                    s' = s\<lparr>query_data := Some q', query_pow := f_acc_sq ops (query_pow s) qw\<rparr>
                in map_option (\<lambda>rs. (0, ix', s'\<lparr>result_similar := rs\<rparr>))
                     (bucket_loop ops (g bucket0) (score (he_threshold_param s) (the he64) he64_len) qw
                       (wi_items word_index) [] (result_similar s)))"

subsection \<open>Merging all words of the query\<close>

text \<open>
  The iterator over the map, as the key it stands on: the next entry is the first one with a larger
  key, so that entries inserted on the way are seen as \<open>std::map\<close> iteration sees them. A walk
  that never ends has no result.
\<close>

definition first_key :: "BOFQuantizeResultMap \<Rightarrow> int option" where
  "first_key m = (case m of [] \<Rightarrow> None | (k, _) # _ \<Rightarrow> Some k)"

definition next_key :: "BOFQuantizeResultMap \<Rightarrow> int \<Rightarrow> int option" where
  "next_key m k = first_key (filter (\<lambda>e. k < fst e) m)"

partial_function (option) merge_walk ::
    "f32_ops \<Rightarrow> (nat \<Rightarrow> u8) \<Rightarrow> (int \<Rightarrow> u64) \<Rightarrow> int option \<Rightarrow> BOFIndex \<Rightarrow> Searcher \<Rightarrow> (BOFIndex \<times> Searcher) option" where
  "merge_walk ops junk g it ix s =
     (case it of
        None \<Rightarrow> Some (ix, s)
      | Some k \<Rightarrow>
          (case MergeBucketResult ops junk g ix s k of
             None \<Rightarrow> None
           | Some (_, ix', s') \<Rightarrow>
               (case query_data s' of
                  None \<Rightarrow> None
                | Some q \<Rightarrow> merge_walk ops junk g (next_key q k) ix' s')))"

definition Merge ::
    "f32_ops \<Rightarrow> (nat \<Rightarrow> u8) \<Rightarrow> (int \<Rightarrow> u64) \<Rightarrow> BOFIndex \<Rightarrow> Searcher \<Rightarrow> (int \<times> BOFIndex \<times> Searcher) cxx" where
  "Merge ops junk g ix s =
     (case query_data s of
        None \<Rightarrow> None
      | Some q \<Rightarrow>
          map_option (\<lambda>(ix', s'). (if result_similar s' \<noteq> [] then 0 else -2, ix', s'))
            (merge_walk ops junk g (first_key q) ix (s\<lparr>result_similar := [], query_pow := f32_zero\<rparr>)))"

text \<open>
  \<open>MergeByThread\<close> walks the keys of the map it is given, while the words are read from the map set
  by \<open>SetQueryData\<close>, and hands \<open>result_similar_\<close> to the promise.
\<close>

primrec thread_walk ::
    "f32_ops \<Rightarrow> (nat \<Rightarrow> u8) \<Rightarrow> (int \<Rightarrow> u64) \<Rightarrow> BOFQuantizeResultMap \<Rightarrow> BOFIndex \<Rightarrow> Searcher
       \<Rightarrow> (BOFIndex \<times> Searcher) cxx" where
  "thread_walk ops junk g [] ix s = Some (ix, s)"
| "thread_walk ops junk g (e # q) ix s =
     (case MergeBucketResult ops junk g ix s (fst e) of
        None \<Rightarrow> None
      | Some (_, ix', s') \<Rightarrow> thread_walk ops junk g q ix' s')"

definition MergeByThread ::
    "f32_ops \<Rightarrow> (nat \<Rightarrow> u8) \<Rightarrow> (int \<Rightarrow> u64) \<Rightarrow> BOFQuantizeResultMap \<Rightarrow> BOFIndex \<Rightarrow> Searcher
       \<Rightarrow> (MergeSimilarInfo list \<times> BOFIndex \<times> Searcher) cxx" where
  "MergeByThread ops junk g q ix s =
     map_option (\<lambda>(ix', s'). (result_similar s', ix', s'))
       (thread_walk ops junk g q ix (s\<lparr>result_similar := [], query_pow := f32_zero\<rparr>))"

subsection \<open>Ranking\<close>

definition cmp_search_result_item :: "SearchResultItem \<Rightarrow> SearchResultItem \<Rightarrow> bool" where
  "cmp_search_result_item item1 item2 = f32_less (sr_sim item2) (sr_sim item1)"

definition rank_item :: "f32_ops \<Rightarrow> f32 \<Rightarrow> MergeSimilarInfo \<Rightarrow> SearchResultItem" where
  "rank_item ops qpow r = \<lparr>sr_pic_id = ms_pic_id r,
     sr_sim = (if f32_less f32_zero (ms_pow r) \<and> f32_less f32_zero qpow
               then f_cos ops (ms_sim r) (ms_pow r) qpow else f32_zero)\<rparr>"

definition Rank ::
    "f32_ops \<Rightarrow> ((SearchResultItem \<Rightarrow> SearchResultItem \<Rightarrow> bool) \<Rightarrow> SearchResultItem list \<Rightarrow> SearchResultItem list)
       \<Rightarrow> Searcher \<Rightarrow> int \<times> Searcher" where
  "Rank ops std_sort_fn s =
     (0, s\<lparr>sr_result := std_sort_fn cmp_search_result_item
            (filter (\<lambda>item. f32_gt_0_1 (sr_sim item)) (map (rank_item ops (query_pow s)) (result_similar s)))\<rparr>)"

definition GetResult :: "Searcher \<Rightarrow> int \<times> SearchResultItem list" where
  "GetResult s = (0, sr_result s)"

definition SetResultSimilar :: "Searcher \<Rightarrow> MergeSimilarInfo list \<Rightarrow> int \<times> Searcher" where
  "SetResultSimilar s rs = (0, s\<lparr>result_similar := rs\<rparr>)"

definition GetResultSimilar :: "Searcher \<Rightarrow> int \<times> MergeSimilarInfo list" where
  "GetResultSimilar s = (0, result_similar s)"

definition SetQueryPow :: "Searcher \<Rightarrow> f32 \<Rightarrow> int \<times> Searcher" where
  "SetQueryPow s p = (0, s\<lparr>query_pow := p\<rparr>)"

definition GetQueryPow :: "Searcher \<Rightarrow> int \<times> f32" where
  "GetQueryPow s = (0, query_pow s)"

subsection \<open>The merge of one list, picture by picture\<close>

definition ms_key :: "MergeSimilarInfo \<Rightarrow> int" where
  "ms_key r = sint (ms_pic_id r)"

definition ms_sorted :: "MergeSimilarInfo list \<Rightarrow> bool" where
  "ms_sorted rs \<longleftrightarrow> sorted_wrt (\<lambda>a b. ms_key a < ms_key b) rs"

definition ms_of :: "MergeSimilarInfo list \<Rightarrow> int \<rightharpoonup> MergeSimilarInfo" where
  "ms_of rs = map_of (map (\<lambda>r. (ms_key r, r)) rs)"

text \<open>What one item does to the entry of its picture.\<close>

definition credit ::
    "f32_ops \<Rightarrow> (IndexItem \<Rightarrow> int cxx) \<Rightarrow> f32 \<Rightarrow> IndexItem \<Rightarrow> MergeSimilarInfo option \<Rightarrow> MergeSimilarInfo option" where
  "credit ops sc qw it old =
     (if sc it = Some 0 then old
      else case old of
        Some r \<Rightarrow> Some (hit ops qw it r)
      | None \<Rightarrow> if f32_less f32_zero (ms_pow (fresh ops qw it)) then Some (fresh ops qw it) else None)"

definition credit_all ::
    "f32_ops \<Rightarrow> (IndexItem \<Rightarrow> int cxx) \<Rightarrow> f32 \<Rightarrow> IndexItem list \<Rightarrow> (int \<rightharpoonup> MergeSimilarInfo) \<Rightarrow> (int \<rightharpoonup> MergeSimilarInfo)" where
  "credit_all ops sc qw its m k = (case by_pic its k of None \<Rightarrow> m k | Some it \<Rightarrow> credit ops sc qw it (m k))"

lemma credit_all_Nil [simp]: "credit_all ops sc qw [] m = m"
  by (simp add: credit_all_def fun_eq_iff)

lemma credit_all_Cons:
  assumes "pic_sorted (it # its)"
  shows "credit_all ops sc qw (it # its) m
    = credit_all ops sc qw its (m(pic_key it := credit ops sc qw it (m (pic_key it))))"
proof -
  have "by_pic its (pic_key it) = None"
    using assms by (intro by_pic_above) (auto simp: pic_sorted_def)
  then show ?thesis by (auto simp: credit_all_def fun_eq_iff split: option.split)
qed

lemma ms_key_hit [simp]: "ms_key (hit ops qw it r) = ms_key r"
  by (simp add: hit_def ms_key_def)

lemma ms_key_fresh [simp]: "ms_key (fresh ops qw it) = pic_key it"
  by (simp add: fresh_def hit_def ms_key_def pic_key_def)

lemma pic_id_eq_ms_key: "ii_pic_id it = ms_pic_id r \<longleftrightarrow> pic_key it = ms_key r"
  by (auto simp: pic_key_def ms_key_def intro: signed_word_eqI)

lemma ms_of_insert:
  "\<forall>b \<in> set before. ms_key b \<noteq> ms_key r \<Longrightarrow> ms_of (before @ r # cur) = (ms_of (before @ cur))(ms_key r \<mapsto> r)"
  by (induction before) (auto simp: ms_of_def fun_eq_iff)

lemma ms_of_none: "\<forall>b \<in> set rs. ms_key b \<noteq> k \<Longrightarrow> ms_of rs k = None"
  by (auto simp: ms_of_def map_of_eq_None_iff)

lemma ms_of_move: "ms_of ((before @ [r]) @ cur) = ms_of (before @ r # cur)"
  by simp

text \<open>The position of the loop: everything before the iterator is below the items to come.\<close>

definition at_item :: "IndexItem list \<Rightarrow> MergeSimilarInfo list \<Rightarrow> MergeSimilarInfo list \<Rightarrow> bool" where
  "at_item its before cur \<longleftrightarrow> pic_sorted its \<and> ms_sorted (before @ cur) \<and>
     (\<forall>b \<in> set before. \<forall>it \<in> set its. ms_key b < pic_key it)"

lemma at_item_step:
  assumes "at_item (it # its) before cur"
  shows "at_item its before cur"
    and "ms_key x = pic_key it \<Longrightarrow> \<forall>c \<in> set cur. pic_key it < ms_key c \<Longrightarrow> at_item its (before @ [x]) cur"
    and "cur = r # rest \<Longrightarrow> ms_key r < pic_key it \<Longrightarrow> at_item (it # its) (before @ [r]) rest"
    and "cur = r # rest \<Longrightarrow> ms_key r = pic_key it \<Longrightarrow> ms_key x = pic_key it \<Longrightarrow> at_item its (before @ [x]) rest"
  using assms by (fastforce simp: at_item_def pic_sorted_def ms_sorted_def sorted_wrt_append)+

lemma bucket_loop_credit:
  assumes "at_item its before cur" and "\<forall>it \<in> set its. ii_pic_id it \<noteq> g \<and> sc it \<noteq> None"
  shows "\<exists>rs. bucket_loop ops g sc qw its before cur = Some rs \<and> ms_sorted rs \<and>
     ms_of rs = credit_all ops sc qw its (ms_of (before @ cur))"
  using assms
proof (induction ops g sc qw its before cur rule: bucket_loop.induct)
  case (1 ops g sc qw before cur)
  then show ?case by (simp add: at_item_def)
next
  case (2 ops g sc qw it its before)
  let ?f = "fresh ops qw it" and ?m = "ms_of before"
  obtain n where n: "sc it = Some n" and g: "ii_pic_id it \<noteq> g" using "2.prems"(2) by auto
  have its: "\<forall>it \<in> set its. ii_pic_id it \<noteq> g \<and> sc it \<noteq> None" using "2.prems"(2) by simp
  have below: "\<forall>b \<in> set before. ms_key b \<noteq> pic_key it" using "2.prems"(1) by (auto simp: at_item_def)
  have none: "?m (pic_key it) = None" by (rule ms_of_none [OF below])
  then have idem: "?m(pic_key it := None) = ?m" by (simp add: fun_upd_idem)
  have ins: "ms_of (before @ [?f]) = ?m(pic_key it \<mapsto> ?f)" using ms_of_insert [of before ?f "[]"] below by simp
  have at: "at_item its (before @ [?f]) []" by (rule at_item_step(2) [OF "2.prems"(1)]) simp_all
  have all: "credit_all ops sc qw (it # its) ?m = credit_all ops sc qw its (?m(pic_key it := credit ops sc qw it None))"
    using credit_all_Cons [of it its ops sc qw ?m] "2.prems"(1) none by (simp add: at_item_def)
  show ?case
  proof (cases "n = 0")
    case True
    then show ?thesis
      using "2.IH"(1) [OF g n True at_item_step(1) [OF "2.prems"(1)] its] n g none idem all by (simp add: credit_def)
  next
    case False
    show ?thesis
      using "2.IH"(2) [OF g n False, OF _ its] at at_item_step(1) [OF "2.prems"(1)] False n g none idem ins all
      by (cases "f32_less f32_zero (ms_pow ?f)") (simp_all add: credit_def fun_upd_def)
  qed
next
  case (3 ops g sc qw it its before r cur)
  let ?f = "fresh ops qw it" and ?m = "ms_of (before @ r # cur)"
  obtain n where n: "sc it = Some n" using "3.prems"(2) by auto
  have its: "\<forall>it \<in> set its. ii_pic_id it \<noteq> g \<and> sc it \<noteq> None" using "3.prems"(2) by simp
  have below: "\<forall>b \<in> set before. ms_key b \<noteq> pic_key it" "\<forall>c \<in> set cur. ms_key r < ms_key c"
    "\<forall>b \<in> set before. ms_key b < ms_key r"
    using "3.prems"(1) by (auto simp: at_item_def ms_sorted_def sorted_wrt_append)
  have all: "credit_all ops sc qw (it # its) ?m
      = credit_all ops sc qw its (?m(pic_key it := credit ops sc qw it (?m (pic_key it))))"
    using credit_all_Cons [of it its ops sc qw ?m] "3.prems"(1) by (simp add: at_item_def)
  have r: "?m = (ms_of (before @ cur))(ms_key r \<mapsto> r)" by (rule ms_of_insert) (use below(3) in force)
  consider "pic_key it = ms_key r" | "pic_key it < ms_key r" | "ms_key r < pic_key it" by linarith
  then show ?case
  proof cases
    case 1
    let ?x = "if n = 0 then r else hit ops qw it r"
    have "at_item its (before @ [?x]) cur" by (rule at_item_step(4) [OF "3.prems"(1) refl]) (simp_all add: 1)
    moreover have "ms_of ((before @ [?x]) @ cur) = ?m(pic_key it := credit ops sc qw it (?m (pic_key it)))"
      using ms_of_insert [of before ?x cur] below(1) 1 n r by (auto simp: credit_def)
    ultimately show ?thesis
      using "3.IH"(1) [OF _ n, OF _ _ its] 1 n all by (cases "n = 0") (simp_all add: pic_id_eq_ms_key fun_upd_def)
  next
    case 2
    have none: "?m (pic_key it) = None" using 2 below by (intro ms_of_none) auto
    then have idem: "?m(pic_key it := None) = ?m" by (simp add: fun_upd_idem)
    have ins: "ms_of (before @ ?f # r # cur) = ?m(pic_key it \<mapsto> ?f)"
      using ms_of_insert [of before ?f "r # cur"] below by simp
    have at: "at_item its (before @ [?f]) (r # cur)"
      by (rule at_item_step(2) [OF "3.prems"(1)]) (use 2 below(2) in auto)
    have c: "ii_pic_id it \<noteq> ms_pic_id r" "sint (ii_pic_id it) < sint (ms_pic_id r)"
      using 2 pic_id_eq_ms_key [of it r] by (auto simp: pic_key_def ms_key_def)
    show ?thesis
    proof (cases "n = 0")
      case True
      then show ?thesis
        using "3.IH"(2) [OF c n True at_item_step(1) [OF "3.prems"(1)] its] n c none idem all by (simp add: credit_def)
    next
      case False
      show ?thesis
        using "3.IH"(3) [OF c n False, OF _ its] at at_item_step(1) [OF "3.prems"(1)] False n c none idem ins all
        by (cases "f32_less f32_zero (ms_pow ?f)") (simp_all add: credit_def fun_upd_def)
    qed
  next
    case 3
    have c: "ii_pic_id it \<noteq> ms_pic_id r" "\<not> sint (ii_pic_id it) < sint (ms_pic_id r)"
      using 3 pic_id_eq_ms_key [of it r] by (auto simp: pic_key_def ms_key_def)
    show ?thesis
      using "3.IH"(4) [OF c at_item_step(3) [OF "3.prems"(1) refl 3] "3.prems"(2)] c by simp
  qed
qed

lemma score_defined: "item_ok it \<Longrightarrow> len \<le> int (length he) \<Longrightarrow> score thr he len it \<noteq> None"
proof -
  assume it: "item_ok it" and len: "len \<le> int (length he)"
  from it obtain n where "sint (ii_length it) = int n" "length (ii_he it) = n"
    by (metis item_okE short_nonneg(1))
  with len show ?thesis by (auto simp: score_def HeDistance_def)
qed

subsection \<open>The whole query\<close>

text \<open>
  What the index answers for a word: its inverted list, or a failure that leaves the index as it is.
\<close>

definition word_read :: "(nat \<Rightarrow> u8) \<Rightarrow> BOFIndex \<Rightarrow> int \<Rightarrow> WordIndex option \<Rightarrow> bool" where
  "word_read junk ix k answer = (case answer of
     Some w \<Rightarrow> holds_word junk ix k w
   | None \<Rightarrow> (\<exists>r w d. LoadWord junk ix k WordIndex_new = Some (r, w, d, ix) \<and> r \<noteq> 0))"

definition query_score :: "int \<Rightarrow> BOFQuantizeResult \<Rightarrow> IndexItem \<Rightarrow> int cxx" where
  "query_score thr v =
     score thr (the (fst (snd (HeString2Int (word_info v ! 0) None 0)))) (snd (snd (HeString2Int (word_info v ! 0) None 0)))"

text \<open>The scores after a sequence of query words, and the square norm of the query.\<close>

fun query_step ::
    "f32_ops \<Rightarrow> int \<Rightarrow> (int \<Rightarrow> WordIndex option) \<Rightarrow> (int \<rightharpoonup> MergeSimilarInfo) \<times> f32 \<Rightarrow> int \<times> BOFQuantizeResult
       \<Rightarrow> (int \<rightharpoonup> MergeSimilarInfo) \<times> f32" where
  "query_step ops thr words (m, pow) (k, v) =
     (case words k of
        None \<Rightarrow> (m, pow)
      | Some w \<Rightarrow> (credit_all ops (query_score thr v) (q_weight v) (wi_items w) m, f_acc_sq ops pow (q_weight v)))"

definition words_ok :: "(nat \<Rightarrow> u8) \<Rightarrow> (int \<Rightarrow> u64) \<Rightarrow> BOFIndex \<Rightarrow> (int \<Rightarrow> WordIndex option) \<Rightarrow> BOFQuantizeResultMap \<Rightarrow> bool" where
  "words_ok junk g ix words q \<longleftrightarrow> (\<forall>(k, v) \<in> set q. word_read junk ix k (words k) \<and> 2 \<le> length (word_info v) \<and>
     (\<forall>w. words k = Some w \<longrightarrow> pic_sorted (wi_items w) \<and>
        (\<forall>it \<in> set (wi_items w). item_ok it \<and> ii_pic_id it \<noteq> g k)))"

lemma MergeBucketResult_step:
  assumes "words_ok junk g ix words q" and "(k, v) \<in> set q" and "distinct (map fst q)"
    and "query_data s = Some q" and "begin_bucket_id s = 0" and "ms_sorted (result_similar s)"
  shows "\<exists>r rs pow. MergeBucketResult ops junk g ix s k = Some (r, ix, s\<lparr>result_similar := rs, query_pow := pow\<rparr>) \<and>
    ms_sorted rs \<and> (ms_of rs, pow)
      = query_step ops (he_threshold_param s) words (ms_of (result_similar s), query_pow s) (k, v)"
proof (cases "words k")
  case None
  then obtain r w d where "LoadWord junk ix k WordIndex_new = Some (r, w, d, ix)" "r \<noteq> 0"
    using assms(1,2) by (fastforce simp: words_ok_def word_read_def)
  then have "MergeBucketResult ops junk g ix s k = Some (-1, ix, s)"
    using assms(5) by (simp add: MergeBucketResult_def)
  then show ?thesis
    using assms(6) None
    by (intro exI [of _ "-1"] exI [of _ "result_similar s"] exI [of _ "query_pow s"]) simp
next
  case (Some w)
  obtain d where load: "LoadWord junk ix k WordIndex_new = Some (0, w, Some d, ix)"
    using assms(1,2) Some by (fastforce simp: words_ok_def word_read_def holds_word_def)
  have at: "map_at q k = (v, q)" using assms(2,3) by (simp add: map_at_def)
  let ?sc = "query_score (he_threshold_param s) v" and ?n = "length (word_info v ! 0) div 16"
  have hs: "HeString2Int (word_info v ! 0) None 0
      = (0, Some (map (\<lambda>j. he_word (word_info v ! 0) (j * 16)) [0..<?n]), int ?n)"
    by (simp add: HeString2Int_def Let_def)
  have w: "pic_sorted (wi_items w)" "\<forall>it \<in> set (wi_items w). item_ok it \<and> ii_pic_id it \<noteq> g k" "2 \<le> length (word_info v)"
    using assms(1,2) Some by (auto simp: words_ok_def)
  then have sc: "\<forall>it \<in> set (wi_items w). ii_pic_id it \<noteq> g k \<and> ?sc it \<noteq> None"
    unfolding query_score_def hs by (intro ballI conjI) (blast, simp only: snd_conv fst_conv option.sel, intro score_defined, simp_all)
  have "at_item (wi_items w) [] (result_similar s)" using w(1) assms(6) by (simp add: at_item_def)
  from bucket_loop_credit [OF this sc, of ops "q_weight v"] obtain rs where
    rs: "bucket_loop ops (g k) ?sc (q_weight v) (wi_items w) [] (result_similar s) = Some rs" "ms_sorted rs"
      "ms_of rs = credit_all ops ?sc (q_weight v) (wi_items w) (ms_of (result_similar s))"
    by auto
  have "MergeBucketResult ops junk g ix s k
      = Some (0, ix, s\<lparr>result_similar := rs, query_pow := f_acc_sq ops (query_pow s) (q_weight v)\<rparr>)"
    using load assms(4,5) at w(3) rs(1) hs by (simp add: MergeBucketResult_def query_score_def Let_def)
  then show ?thesis
    using rs(2,3) Some
    by (intro exI [of _ 0] exI [of _ rs] exI [of _ "f_acc_sq ops (query_pow s) (q_weight v)"]) simp
qed

lemma sorted_wrt_fst_distinct: "sorted_wrt (\<lambda>a b. fst a < (fst b :: int)) q \<Longrightarrow> distinct (map fst q)"
  by (induction q) auto

lemma next_key_split:
  assumes "sorted_wrt (\<lambda>a b. fst a < fst b) (pre @ (k, v) # rest)"
  shows "next_key (pre @ (k, v) # rest) k = first_key rest"
proof -
  have "filter (\<lambda>e. k < fst e) pre = []" "filter (\<lambda>e. k < fst e) rest = rest"
    using assms by (auto simp: sorted_wrt_append filter_empty_conv filter_id_conv)
  then show ?thesis by (simp add: next_key_def)
qed

lemma merge_walk_query:
  assumes "words_ok junk g ix words (pre @ rest)" and "sorted_wrt (\<lambda>a b. fst a < fst b) (pre @ rest)"
    and "query_data s = Some (pre @ rest)" and "begin_bucket_id s = 0" and "ms_sorted (result_similar s)"
  shows "\<exists>rs pow. merge_walk ops junk g (first_key rest) ix s = Some (ix, s\<lparr>result_similar := rs, query_pow := pow\<rparr>) \<and>
    ms_sorted rs \<and> (ms_of rs, pow)
      = foldl (query_step ops (he_threshold_param s) words) (ms_of (result_similar s), query_pow s) rest"
  using assms
proof (induction rest arbitrary: pre s)
  case Nil
  show ?case
    using Nil.prems(5)
    by (intro exI [of _ "result_similar s"] exI [of _ "query_pow s"])
      (subst merge_walk.simps, simp add: first_key_def)
next
  case (Cons e rest)
  obtain k v where e: "e = (k, v)" by force
  have dist: "distinct (map fst (pre @ e # rest))"
    by (rule sorted_wrt_fst_distinct [OF Cons.prems(2)])
  obtain r rs pow where 1: "MergeBucketResult ops junk g ix s k = Some (r, ix, s\<lparr>result_similar := rs, query_pow := pow\<rparr>)"
    "ms_sorted rs" "(ms_of rs, pow) = query_step ops (he_threshold_param s) words (ms_of (result_similar s), query_pow s) (k, v)"
    using MergeBucketResult_step [OF Cons.prems(1) _ dist Cons.prems(3-5), of k v ops] e by auto
  let ?s = "s\<lparr>result_similar := rs, query_pow := pow\<rparr>"
  have nk: "next_key (pre @ e # rest) k = first_key rest"
    using next_key_split [of pre k v rest] Cons.prems(2) e by simp
  obtain rs' pow' where 2: "merge_walk ops junk g (first_key rest) ix ?s = Some (ix, ?s\<lparr>result_similar := rs', query_pow := pow'\<rparr>)"
    "ms_sorted rs'" "(ms_of rs', pow') = foldl (query_step ops (he_threshold_param s) words) (ms_of rs, pow) rest"
    using Cons.IH [of "pre @ [e]" ?s] Cons.prems 1(2) by auto
  have "merge_walk ops junk g (first_key (e # rest)) ix s = Some (ix, s\<lparr>result_similar := rs', query_pow := pow'\<rparr>)"
    using 1(1) 2(1) nk Cons.prems(3) e by (subst merge_walk.simps) (simp add: first_key_def)
  with 2 1(3) e show ?case by (intro exI [of _ rs'] exI [of _ pow']) simp
qed

lemma sort_results:
  assumes "std_sorts srt" and "\<forall>x \<in> set xs. \<not> f32_nan (sr_sim x)"
  shows "mset (srt cmp_search_result_item xs) = mset xs"
    and "sorted_wrt (\<lambda>a b. \<not> f32_less (sr_sim a) (sr_sim b)) (srt cmp_search_result_item xs)"
proof -
  have "strict_weak_on (set xs) cmp_search_result_item"
    unfolding strict_weak_on_def cmp_search_result_item_def
    using assms(2) by (auto simp: f32_less_def)
  then have *: "mset (srt cmp_search_result_item xs) = mset xs \<and>
      sorted_wrt (\<lambda>a b. \<not> cmp_search_result_item b a) (srt cmp_search_result_item xs)"
    using assms(1) by (simp add: std_sorts_def)
  then show "mset (srt cmp_search_result_item xs) = mset xs" by simp
  from * show "sorted_wrt (\<lambda>a b. \<not> f32_less (sr_sim a) (sr_sim b)) (srt cmp_search_result_item xs)"
    by (simp add: cmp_search_result_item_def)
qed

lemma Merge_query:
  assumes "query_data s = Some q" and "begin_bucket_id s = 0"
    and "sorted_wrt (\<lambda>a b. fst a < fst b) q" and "words_ok junk g ix words q"
  shows "\<exists>r s'. Merge ops junk g ix s = Some (r, ix, s') \<and> ms_sorted (result_similar s') \<and>
     (ms_of (result_similar s'), query_pow s')
       = foldl (query_step ops (he_threshold_param s) words) (Map.empty, f32_zero) q \<and>
     (r = 0 \<longleftrightarrow> result_similar s' \<noteq> []) \<and> (r = -2 \<longleftrightarrow> result_similar s' = [])"
proof -
  let ?s = "s\<lparr>result_similar := [], query_pow := f32_zero\<rparr>"
  obtain rs pow where "merge_walk ops junk g (first_key q) ix ?s = Some (ix, ?s\<lparr>result_similar := rs, query_pow := pow\<rparr>)"
    "ms_sorted rs" "(ms_of rs, pow) = foldl (query_step ops (he_threshold_param s) words) (Map.empty, f32_zero) q"
    using merge_walk_query [of junk g ix words "[]" q ?s ops] assms by (auto simp: ms_sorted_def ms_of_def)
  then show ?thesis using assms(1) by (auto simp: Merge_def)
qed

subsection \<open>Properties\<close>

text \<open>
  C1. On a query whose words the index answers (with a list sorted by picture id, or with a failure),
  \<open>Merge\<close> ends, keeps the candidates sorted and without duplicates, and the products and norms
  it has accumulated for every picture are those of adding up the words one after the other,
  skipping the words that could not be loaded. The return code says whether there is a candidate.
\<close>

theorem Merge_accumulates_query:
  assumes "query_data s = Some q" and "begin_bucket_id s = 0"
    and "sorted_wrt (\<lambda>a b. fst a < fst b) q" and "words_ok junk g ix words q"
  shows "\<exists>r s'. Merge ops junk g ix s = Some (r, ix, s') \<and> ms_sorted (result_similar s') \<and>
     (ms_of (result_similar s'), query_pow s')
       = foldl (query_step ops (he_threshold_param s) words) (Map.empty, f32_zero) q \<and>
     (r = 0 \<longleftrightarrow> result_similar s' \<noteq> []) \<and> (r = -2 \<longleftrightarrow> result_similar s' = [])"
  using assms by (rule Merge_query)

definition demo_word :: WordIndex where
  "demo_word = \<lparr>wi_word_id = 0, wi_items = [\<lparr>ii_pic_id = 9, ii_weight = 2, ii_length = 1, ii_he = [0], ii_angle = [5]\<rparr>]\<rparr>"

definition demo_store :: BOFIndex where
  "demo_store = BOFIndex_new\<lparr>
     hinter := Some \<lparr>ih_max_bucket_num = 1, ih_items = [\<lparr>hi_start_pos = 0, hi_end_pos = 34, hi_bucket_size = 0\<rparr>]\<rparr>,
     fs_data := \<lparr>is_bytes = [0, 0, 0, 0, 1, 0, 0, 0] @ [9, 0, 0, 0, 0, 0, 0, 0] @ [2, 0, 0, 0] @ [1, 0] @
       replicate 8 0 @ [5, 0, 0, 0], is_good = True\<rparr>\<rparr>"

definition demo_query :: BOFQuantizeResultMap where
  "demo_query = [(0, \<lparr>q_weight = 3, word_info = [replicate 16 CHR ''0'', ''090'']\<rparr>), (4, BOFQuantizeResult_new)]"

definition demo_searcher :: Searcher where
  "demo_searcher = (Searcher_new 0 0)\<lparr>query_data := Some demo_query\<rparr>"

lemma demo_store_word: "holds_word (\<lambda>_. 0) demo_store 0 demo_word"
proof -
  have "map_option (\<lambda>(r, w, d, ix). (r, w, ix)) (LoadWord (\<lambda>_. 0) demo_store 0 WordIndex_new)
      = Some (0, demo_word, demo_store)" by code_simp
  moreover have "\<exists>d. LoadWord (\<lambda>_. 0) demo_store 0 WordIndex_new = Some (r, w, Some d, ix)"
    if "map_option (\<lambda>(r, w, d, ix). (r, w, ix)) (LoadWord (\<lambda>_. 0) demo_store 0 WordIndex_new) = Some (r, w, ix)"
      "r = 0" for r w ix
    using that by (auto simp: LoadWord_def Let_def split: option.splits if_splits prod.splits)
  ultimately show ?thesis by (simp add: holds_word_def)
qed

theorem Merge_accumulates_query_witness:
  "\<exists>r s'. Merge demo_ops (\<lambda>_. 0) (\<lambda>_. 1) demo_store demo_searcher = Some (r, demo_store, s') \<and>
     ms_sorted (result_similar s') \<and>
     (ms_of (result_similar s'), query_pow s') =
       foldl (query_step demo_ops (he_threshold_param demo_searcher) (\<lambda>k. if k = 0 then Some demo_word else None))
         (Map.empty, f32_zero) demo_query \<and>
     (r = 0 \<longleftrightarrow> result_similar s' \<noteq> []) \<and> (r = -2 \<longleftrightarrow> result_similar s' = [])"
proof (rule Merge_accumulates_query)
  have "LoadWord (\<lambda>_. 0) demo_store 4 WordIndex_new = Some (-1, WordIndex_new, None, demo_store)"
    by (simp add: LoadWord_def demo_store_def GetHint_def)
  then have "word_read (\<lambda>_. 0) demo_store 4 None" by (simp add: word_read_def)
  with demo_store_word show "words_ok (\<lambda>_. 0) (\<lambda>_. 1) demo_store (\<lambda>k. if k = 0 then Some demo_word else None) demo_query"
    by (simp add: words_ok_def demo_query_def word_read_def BOFQuantizeResult_new_def demo_word_def
        pic_sorted_def item_ok_def)
qed (simp_all add: demo_searcher_def Searcher_new_def demo_query_def)

text \<open>
  C26. \<open>Rank\<close> keeps exactly the candidates whose cosine exceeds 0.1, each with its picture and its
  cosine, in an order of non-increasing cosine, for every sorting routine that meets the contract of
  \<open>std::sort\<close>.
\<close>

theorem Rank_orders_candidates:
  assumes "std_sorts srt" and "Rank ops srt s = (r, s')"
  shows "r = 0 \<and> mset (sr_result s') =
      filter_mset (\<lambda>item. f32_gt_0_1 (sr_sim item)) (mset (map (rank_item ops (query_pow s)) (result_similar s))) \<and>
    sorted_wrt (\<lambda>a b. \<not> f32_less (sr_sim a) (sr_sim b)) (sr_result s')"
proof -
  let ?xs = "filter (\<lambda>item. f32_gt_0_1 (sr_sim item)) (map (rank_item ops (query_pow s)) (result_similar s))"
  have "\<forall>x \<in> set ?xs. \<not> f32_nan (sr_sim x)" using f32_gt_0_1_nonzero by auto
  from sort_results [OF assms(1) this] assms(2) show ?thesis
    by (auto simp: Rank_def)
qed

theorem Rank_orders_candidates_witness:
  "(0 :: int) = 0 \<and> mset (sr_result (snd (Rank demo_ops insertion_sort
        (demo_searcher\<lparr>result_similar := [MergeSimilarInfo_new\<lparr>ms_sim := f32_one, ms_pow := f32_one\<rparr>]\<rparr>)))) =
      filter_mset (\<lambda>item. f32_gt_0_1 (sr_sim item)) (mset (map (rank_item demo_ops (query_pow
        (demo_searcher\<lparr>result_similar := [MergeSimilarInfo_new\<lparr>ms_sim := f32_one, ms_pow := f32_one\<rparr>]\<rparr>)))
        (result_similar (demo_searcher\<lparr>result_similar := [MergeSimilarInfo_new\<lparr>ms_sim := f32_one, ms_pow := f32_one\<rparr>]\<rparr>)))) \<and>
    sorted_wrt (\<lambda>a b. \<not> f32_less (sr_sim a) (sr_sim b)) (sr_result (snd (Rank demo_ops insertion_sort
        (demo_searcher\<lparr>result_similar := [MergeSimilarInfo_new\<lparr>ms_sim := f32_one, ms_pow := f32_one\<rparr>]\<rparr>))))"
  by (rule Rank_orders_candidates [OF insertion_sort_std]) (simp add: Rank_def)

end
