(* ===== verification/Ransac.thy ===== *)
theory Ransac
  imports Searcher
begin

text \<open>
  Spatial re-ranking, \<open>bof_core/src/ransac_ranker.cc\<close> and
  \<open>parallel_compute/src/ranker_processor.cc\<close>. Pictures, feature detection, matching and affine
  estimation belong to the image service and to OpenCV; record \<open>vision\<close> holds what the ranker
  asks of them: the features of a candidate (\<open>None\<close> when \<open>GetResultLocalSpatialInfo\<close> fails),
  the number of matches with the query, and the distance of the \<open>k\<close>-th match from the affine map that
  three of them (by their indexes, possibly none) define. The pseudo random sequence
  is an argument \<open>rnd\<close>; a loop that never ends has no result.
\<close>

record RansacRanker =
  estimate_times :: int
  min_inliers_number :: int
  max_rank_pic_number :: int
  rank_ignore_same_result :: bool
  should_rank :: bool
  same_result_before_rerank :: "SearchResultItem list"
  ransac_results :: "int list"

record 'f vision =
  v_features :: "SearchResultItem \<Rightarrow> 'f option"
  v_matches :: "'f \<Rightarrow> int"
  v_dist :: "'f \<Rightarrow> int list \<Rightarrow> nat \<Rightarrow> f32"

text \<open>The constructor leaves \<open>should_rank_\<close> unspecified.\<close>

definition RansacRanker_new :: "bool \<Rightarrow> RansacRanker" where
  "RansacRanker_new junk = \<lparr>estimate_times = 200, min_inliers_number = 8, max_rank_pic_number = 100,
     rank_ignore_same_result = False, should_rank = junk, same_result_before_rerank = [], ransac_results = []\<rparr>"






subsection \<open>Random samples and inliers\<close>

text \<open>\<open>i\<close> is the number of random values drawn so far.\<close>

partial_function (option) random_loop ::
    "(nat \<Rightarrow> int) \<Rightarrow> int \<Rightarrow> int \<Rightarrow> nat \<Rightarrow> int list \<Rightarrow> (nat \<times> int list) option" where
  "random_loop rnd max_value num i numbers =
     (if int (length numbers) < num then
        (let rnum = rnd i mod max_value
         in if rnum \<in> set numbers then random_loop rnd max_value num (Suc i) numbers
            else random_loop rnd max_value num (Suc i) (numbers @ [rnum]))
      else Some (i, numbers))"

definition GetRandomNumbers :: "(nat \<Rightarrow> int) \<Rightarrow> nat \<Rightarrow> int \<Rightarrow> int \<Rightarrow> (int \<times> nat \<times> int list) option" where
  "GetRandomNumbers rnd i max_value num =
     (if max_value \<le> 0 \<or> num \<le> 0 then Some (-1, i, [])
      else map_option (Pair 0) (random_loop rnd max_value num i []))"

text \<open>
  The first \<open>n\<close> matches compared with \<open>inlier_threshold_\<close>, which the constructor sets to 3
  (0x40400000 as a \<open>float\<close>) and nothing changes.
\<close>

primrec inlier_loop :: "(nat \<Rightarrow> f32) \<Rightarrow> nat \<Rightarrow> int" where
  "inlier_loop dist 0 = 0"
| "inlier_loop dist (Suc k) =
     (if f32_le (dist k) 0x40400000 then inlier_loop dist k + 1 else inlier_loop dist k)"

primrec estimate_loop ::
    "(nat \<Rightarrow> int) \<Rightarrow> int \<Rightarrow> (int list \<Rightarrow> int) \<Rightarrow> nat \<Rightarrow> nat \<Rightarrow> int \<Rightarrow> (nat \<times> int) option" where
  "estimate_loop rnd matches inl 0 i inliers_number = Some (i, inliers_number)"
| "estimate_loop rnd matches inl (Suc n) i inliers_number =
     (case GetRandomNumbers rnd i matches 3 of
        None \<Rightarrow> None
      | Some (_, j, random_nums) \<Rightarrow>
          estimate_loop rnd matches inl n j (if inl random_nums > inliers_number then inl random_nums else inliers_number))"

definition ComputeInliers ::
    "'f vision \<Rightarrow> (nat \<Rightarrow> int) \<Rightarrow> nat \<Rightarrow> RansacRanker \<Rightarrow> 'f \<Rightarrow> (nat \<times> RansacRanker) option" where
  "ComputeInliers V rnd i rk f =
     map_option (\<lambda>(j, n). (j, rk\<lparr>ransac_results := ransac_results rk @ [n]\<rparr>))
       (estimate_loop rnd (v_matches V f) (\<lambda>random_nums. inlier_loop (v_dist V f random_nums) (nat (v_matches V f)))
          (nat (estimate_times rk)) i 0)"



subsection \<open>Weighting and ordering\<close>







subsection \<open>Sampling\<close>

lemma random_loop_sound:
  assumes "random_loop rnd m num i ns = Some r"
  shows "0 < m \<longrightarrow> distinct ns \<longrightarrow> set ns \<subseteq> {0..<m} \<longrightarrow> int (length ns) \<le> num \<longrightarrow>
     distinct (snd r) \<and> set (snd r) \<subseteq> {0..<m} \<and> int (length (snd r)) = num"
  using assms
proof (induct rnd m num i ns r rule: random_loop.raw_induct [rotated, consumes 1, case_names step])
  case (step rl rnd m num i ns r)
  show ?case
  proof (cases "int (length ns) < num")
    case True
    with step(2) have "rl rnd m num (Suc i) ns = Some r \<and> rnd i mod m \<in> set ns \<or>
        rl rnd m num (Suc i) (ns @ [rnd i mod m]) = Some r \<and> rnd i mod m \<notin> set ns"
      by (auto simp: Let_def split: if_splits)
    then show ?thesis using step(1) True by fastforce
  next
    case False
    with step(2) show ?thesis by auto
  qed
qed

text \<open>More distinct numbers than there are residues: the loop never ends.\<close>

lemma random_loop_diverges:
  assumes "0 < m" and "m < num"
  shows "random_loop rnd m num i [] = None"
proof (rule ccontr)
  assume "random_loop rnd m num i [] \<noteq> None"
  then obtain r where "random_loop rnd m num i [] = Some r" by auto
  from random_loop_sound [OF this] assms have r: "distinct (snd r)" "set (snd r) \<subseteq> {0..<m}" "int (length (snd r)) = num"
    by simp_all
  then have "length (snd r) \<le> card {0..<m}" by (metis card_mono distinct_card finite_atLeastLessThan_int)
  then show False using r(3) assms by simp
qed

text \<open>Where every choice of residues is left sooner or later, the loop ends.\<close>

definition keeps_drawing :: "(nat \<Rightarrow> int) \<Rightarrow> int \<Rightarrow> int \<Rightarrow> bool" where
  "keeps_drawing rnd m num \<longleftrightarrow> (\<forall>i ns. int (length ns) < num \<longrightarrow> (\<exists>j \<ge> i. rnd j mod m \<notin> set ns))"

lemma random_loop_skip:
  "int (length ns) < num \<Longrightarrow> \<forall>l. i \<le> l \<and> l < i + d \<longrightarrow> rnd l mod m \<in> set ns \<Longrightarrow>
     random_loop rnd m num i ns = random_loop rnd m num (i + d) ns"
proof (induction d arbitrary: i)
  case (Suc d)
  have "random_loop rnd m num i ns = random_loop rnd m num (Suc i) ns"
    using Suc.prems by (subst random_loop.simps) (simp add: Let_def)
  then show ?case using Suc.IH [of "Suc i"] Suc.prems by simp
qed simp

subsection \<open>Which samples are drawn, and which count each candidate gets\<close>

text \<open>The values of a sequence in the order of their first occurrence.\<close>

definition firsts :: "'a list \<Rightarrow> 'a list" where
  "firsts xs = rev (remdups (rev xs))"

lemma firsts_Nil [simp]: "firsts [] = []"
  by (simp add: firsts_def)








text \<open>The loop draws until the next new residue.\<close>

lemma random_loop_next:
  assumes "keeps_drawing rnd m num" and "int (length ns) < num"
  shows "\<exists>d. (\<forall>l. i \<le> l \<and> l < i + d \<longrightarrow> rnd l mod m \<in> set ns) \<and> rnd (i + d) mod m \<notin> set ns \<and>
    random_loop rnd m num i ns = random_loop rnd m num (Suc (i + d)) (ns @ [rnd (i + d) mod m])"
proof -
  have ex: "\<exists>d. rnd (i + d) mod m \<notin> set ns"
    using assms unfolding keeps_drawing_def by (metis le_add_diff_inverse)
  define d where "d = (LEAST d. rnd (i + d) mod m \<notin> set ns)"
  have d: "rnd (i + d) mod m \<notin> set ns" unfolding d_def by (rule LeastI_ex [OF ex])
  have skip: "\<forall>l. i \<le> l \<and> l < i + d \<longrightarrow> rnd l mod m \<in> set ns"
  proof (intro allI impI)
    fix l assume l: "i \<le> l \<and> l < i + d"
    then have "l - i < d" by arith
    then show "rnd l mod m \<in> set ns" unfolding d_def using l by (auto dest: not_less_Least)
  qed
  have "random_loop rnd m num i ns = random_loop rnd m num (i + d) ns" by (rule random_loop_skip [OF assms(2) skip])
  also have "\<dots> = random_loop rnd m num (Suc (i + d)) (ns @ [rnd (i + d) mod m])"
    using assms(2) d by (subst random_loop.simps) (simp add: Let_def)
  finally show ?thesis using d skip by blast
qed

lemma random_loop_returns:
  assumes "keeps_drawing rnd m num"
  shows "\<exists>r. random_loop rnd m num i ns = Some r"
proof (induction "nat (num - int (length ns))" arbitrary: i ns)
  case 0
  then show ?case by (subst random_loop.simps) auto
next
  case (Suc n)
  have less: "int (length ns) < num" using Suc.hyps(2) by simp
  obtain d where "random_loop rnd m num i ns = random_loop rnd m num (Suc (i + d)) (ns @ [rnd (i + d) mod m])"
    using random_loop_next [OF assms less, of i] by blast
  also have "\<exists>r. \<dots> = Some r" using Suc.hyps(2) by (intro Suc.hyps(1)) simp
  finally show ?case .
qed
















text \<open>Counting upwards never gets stuck.\<close>

lemma keeps_drawing_int:
  assumes "0 < num" and "num \<le> m"
  shows "keeps_drawing int m num"
proof -
  have "\<exists>j \<ge> i. int j mod m \<notin> set ns" if "int (length ns) < num" for i and ns :: "int list"
  proof (rule ccontr)
    assume "\<not> ?thesis"
    then have all: "int j mod m \<in> set ns" if "i \<le> j" for j using that by simp
    have "{0..<m} \<subseteq> set ns"
    proof
      fix r assume r: "r \<in> {0..<m}"
      have "i \<le> i * nat m + nat r" using assms by (cases "nat m") auto
      from all [OF this] show "r \<in> set ns" using r by simp
    qed
    then have "card {0..<m} \<le> length ns" by (metis List.finite_set card_length card_mono order_trans)
    then show False using that assms by simp
  qed
  then show ?thesis by (simp add: keeps_drawing_def)
qed

subsection \<open>Properties\<close>

text \<open>
  Sampling: where the random values never get stuck in fewer than \<open>num\<close> residues,
  \<open>GetRandomNumbers\<close> returns \<open>num\<close> distinct numbers between 0 and \<open>max_value - 1\<close>.
\<close>

theorem GetRandomNumbers_distinct:
  assumes "0 < max_value" and "0 < num" and "keeps_drawing rnd max_value num"
  shows "\<exists>j numbers. GetRandomNumbers rnd i max_value num = Some (0, j, numbers) \<and> distinct numbers \<and>
    set numbers \<subseteq> {0..<max_value} \<and> int (length numbers) = num"
proof -
  obtain r where r: "random_loop rnd max_value num i [] = Some r" using random_loop_returns [OF assms(3)] by blast
  from random_loop_sound [OF r] assms(1,2) r show ?thesis
    by (cases r) (simp add: GetRandomNumbers_def)
qed

theorem GetRandomNumbers_distinct_witness:
  "\<exists>j numbers. GetRandomNumbers int 0 5 3 = Some (0, j, numbers) \<and> distinct numbers \<and>
    set numbers \<subseteq> {0..<5} \<and> int (length numbers) = 3"
  by (rule GetRandomNumbers_distinct) (simp_all add: keeps_drawing_int)

text \<open>
  C27. With one or two feature matches the inlier estimation of a candidate never returns, whatever
  the random numbers: three distinct indexes are asked of fewer than three.
\<close>

theorem ComputeInliers_diverges_on_few_matches:
  assumes "v_matches V f = 1 \<or> v_matches V f = 2" and "0 < estimate_times rk"
  shows "ComputeInliers V rnd i rk f = None"
proof -
  obtain n where n: "nat (estimate_times rk) = Suc n" using assms(2) by (cases "nat (estimate_times rk)") auto
  have "random_loop rnd (v_matches V f) 3 i [] = None" using assms(1) by (intro random_loop_diverges) auto
  then have "GetRandomNumbers rnd i (v_matches V f) 3 = None" using assms(1) by (auto simp: GetRandomNumbers_def)
  then show ?thesis by (simp add: ComputeInliers_def n)
qed

theorem ComputeInliers_diverges_on_few_matches_witness:
  "ComputeInliers \<lparr>v_features = (\<lambda>_. Some ()), v_matches = (\<lambda>_. 2), v_dist = (\<lambda>_ _ _. 0)\<rparr> int 0
     (RansacRanker_new True) () = None"
  by (rule ComputeInliers_diverges_on_few_matches) (simp_all add: RansacRanker_new_def)












end
