(* ===== verification/Common_Search.thy ===== *)
theory Common_Search
  imports Searcher Index_Writer
begin

text \<open>
  The coordinator of a search, \<open>searchd/src/common_search.cc\<close>: distribution of the query words
  over the merge servers by their ranges of word ids, the merge of the servers' answers into one
  sorted list, and the text of the result. The remote calls (Thrift) and the archive of their
  answers are arguments.
\<close>

record IPAddress =
  ip :: string
  port :: u32

record MergeConf =
  mc_begin_id :: int
  mc_end_id :: int
  mc_servers :: "IPAddress list"

record ServerToData =
  sd_servers :: "IPAddress list"
  sd_img_qdata :: BOFQuantizeResultMap

definition ServerToData_new :: ServerToData where
  "ServerToData_new = \<lparr>sd_servers = [], sd_img_qdata = []\<rparr>"

text \<open>\<open>std::map::insert\<close> keeps an existing entry.\<close>

definition map_put :: "int \<Rightarrow> 'v \<Rightarrow> (int \<times> 'v) list \<Rightarrow> (int \<times> 'v) list" where
  "map_put k v m = (if k \<in> fst ` set m then m else map_insert k v m)"

fun dispatch_loop ::
    "MergeConf list \<Rightarrow> ServerToData \<Rightarrow> BOFQuantizeResultMap \<Rightarrow> ServerToData list \<Rightarrow> ServerToData list cxx" where
  "dispatch_loop confs sd [] acc = Some acc"
| "dispatch_loop [] sd (e # q) acc = None"
| "dispatch_loop (c # cs) sd ((word_id, v) # q) acc =
     (if mc_begin_id c \<le> word_id \<and> word_id \<le> mc_end_id c then
        (let sd' = sd\<lparr>sd_servers := (if sd_servers sd = [] then mc_servers c else sd_servers sd),
                sd_img_qdata := map_put word_id v (sd_img_qdata sd)\<rparr>
         in if q = [] then dispatch_loop (c # cs) ServerToData_new q (acc @ [sd'])
            else dispatch_loop (c # cs) sd' q acc)
      else
        (let full = sd_img_qdata sd \<noteq> []; acc' = (if full then acc @ [sd] else acc);
             sd' = (if full then ServerToData_new else sd)
         in if cs = [] then Some acc' else dispatch_loop cs sd' ((word_id, v) # q) acc'))"

definition DispatchData ::
    "MergeConf list \<Rightarrow> ServerToData list \<Rightarrow> BOFQuantizeResultMap \<Rightarrow> (int \<times> ServerToData list) cxx" where
  "DispatchData exec_merge_conf servers_to_datas img_qdata =
     (if img_qdata = [] then Some (-1, servers_to_datas)
      else map_option (Pair 0) (dispatch_loop exec_merge_conf ServerToData_new img_qdata []))"

subsection \<open>Merging the servers' answers\<close>

definition add_info :: "f32_ops \<Rightarrow> MergeSimilarInfo \<Rightarrow> MergeSimilarInfo \<Rightarrow> MergeSimilarInfo" where
  "add_info ops r t = r\<lparr>ms_sim := f_add ops (ms_sim r) (ms_sim t), ms_pow := f_add ops (ms_pow r) (ms_pow t)\<rparr>"

text \<open>
  The list before \<open>it_curr\<close> and from it on. At the end the code compares the id read through
  \<open>end()\<close>, the unspecified value \<open>g\<close>; the list of the C++ library is circular, so that
  advancing from \<open>end()\<close> leads to the first element.
\<close>

function threads_loop ::
    "f32_ops \<Rightarrow> u64 \<Rightarrow> MergeSimilarInfo list \<Rightarrow> MergeSimilarInfo list \<Rightarrow> MergeSimilarInfo list
       \<Rightarrow> MergeSimilarInfo list cxx" where
  "threads_loop ops g [] before cur = Some (before @ cur)"
| "threads_loop ops g (t # ts) before [] =
     (if sint g < sint (ms_pic_id t) then
        (if before = [] then threads_loop ops g ts [t] [] else threads_loop ops g (t # ts) [] before)
      else if g = ms_pic_id t then None
      else threads_loop ops g ts (before @ [t]) [])"
| "threads_loop ops g (t # ts) before (r # cur) =
     (if sint (ms_pic_id r) < sint (ms_pic_id t) then
        (if cur = [] then threads_loop ops g ts (before @ [r, t]) []
         else threads_loop ops g (t # ts) (before @ [r]) cur)
      else if ms_pic_id r = ms_pic_id t then threads_loop ops g ts (before @ [add_info ops r t]) cur
      else threads_loop ops g ts (before @ [t]) (r # cur))"
  by pat_completeness auto
termination
  by (relation "measures [\<lambda>(_, _, ts, _, _). length ts,
       \<lambda>(_, _, _, before, cur). if cur = [] then Suc (length before) else length cur]") auto

definition MergeThreadsResult ::
    "f32_ops \<Rightarrow> u64 \<Rightarrow> MergeSimilarInfo list \<Rightarrow> MergeSimilarInfo list \<Rightarrow> (int \<times> MergeSimilarInfo list) cxx" where
  "MergeThreadsResult ops g similar thread_result =
     (if thread_result = [] then Some (-1, similar)
      else if similar = [] then Some (0, thread_result)
      else map_option (Pair 0) (threads_loop ops g thread_result [] similar))"

subsection \<open>The text of the result\<close>

definition item_text :: "(f32 \<Rightarrow> string) \<Rightarrow> SearchResultItem \<Rightarrow> string" where
  "item_text show_sim x = show_int (sint (sr_pic_id x)) @ '':'' @ show_sim (sr_sim x) @ '';''"

text \<open>\<open>result[result.length()-1]\<close> of an empty string is out of range.\<close>

definition ResultFormat :: "(f32 \<Rightarrow> string) \<Rightarrow> SearchResultItem list \<Rightarrow> string cxx" where
  "ResultFormat show_sim items =
     (let result = concat (map (item_text show_sim) (takeWhile (\<lambda>x. \<not> f32_eq f32_zero (sr_sim x)) items))
      in if result = [] then None else if last result = CHR '';'' then Some (butlast result) else Some result)"

subsection \<open>The coordinator\<close>

record CommonSearch =
  cs_he_threshold :: int
  cs_servers_to_datas :: "ServerToData list"
  cs_exec_merge_conf :: "MergeConf list"
  cs_result_similar :: "MergeSimilarInfo list"
  cs_query_pow :: f32
  cs_search_result :: "SearchResultItem list"
  cs_spatial_request_num :: int
  cs_spatial_ranker_servers :: "IPAddress list"

definition ClearMergeData :: "CommonSearch \<Rightarrow> int \<times> CommonSearch" where
  "ClearMergeData cs = (0, cs\<lparr>cs_query_pow := f32_zero, cs_result_similar := []\<rparr>)"

text \<open>
  The answer of a merge server, and what reads \<open>n\<close> entries from its archive; a call that
  throws has no answer.
\<close>

record ExecMergeResponse =
  em_ret_num :: int
  em_result :: string
  em_result_len :: int
  em_query_pow :: f32

record merge_remote =
  r_merge :: "IPAddress \<Rightarrow> BOFQuantizeResultMap \<Rightarrow> ExecMergeResponse option"
  r_decode :: "string \<Rightarrow> nat \<Rightarrow> MergeSimilarInfo list option"

definition CommonSearch_ExecMerge ::
    "f32_ops \<Rightarrow> u64 \<Rightarrow> merge_remote \<Rightarrow> CommonSearch \<Rightarrow> nat \<Rightarrow> (int \<times> CommonSearch) cxx" where
  "CommonSearch_ExecMerge ops g R cs thread_index =
     (if length (cs_servers_to_datas cs) \<le> thread_index then None
      else let sd = cs_servers_to_datas cs ! thread_index in
        case sd_servers sd of
          [] \<Rightarrow> None
        | server # _ \<Rightarrow>
            (case r_merge R server (sd_img_qdata sd) of
               None \<Rightarrow> None
             | Some response \<Rightarrow>
                 if em_ret_num response = 0 then
                   (let cs' = cs\<lparr>cs_query_pow := f_add ops (cs_query_pow cs) (em_query_pow response)\<rparr> in
                    case r_decode R (em_result response) (nat (em_result_len response)) of
                      None \<Rightarrow> None
                    | Some thread_result \<Rightarrow>
                        (case MergeThreadsResult ops g (cs_result_similar cs') thread_result of
                           None \<Rightarrow> None
                         | Some (ret, rs) \<Rightarrow>
                             if ret \<noteq> 0 then Some (-1, cs') else Some (0, cs'\<lparr>cs_result_similar := rs\<rparr>)))
                 else Some (-1, cs)))"

text \<open>
  The spatial ranking of a slice of the results. The answer of the ranker lists, in order, the
  pictures it accepts; \<open>None\<close> is an exception, which the code catches.
\<close>

fun spatial_loop ::
    "f32_ops \<Rightarrow> (u64 \<times> f32) list option \<Rightarrow> nat \<Rightarrow> SearchResultItem list \<Rightarrow> SearchResultItem list cxx" where
  "spatial_loop ops response response_index [] = Some []"
| "spatial_loop ops response response_index (x # xs) =
     (case response of
        None \<Rightarrow> map_option ((#) (x\<lparr>sr_sim := f32_zero\<rparr>)) (spatial_loop ops response response_index xs)
      | Some resp \<Rightarrow>
          if resp = [] then map_option ((#) (x\<lparr>sr_sim := f32_zero\<rparr>)) (spatial_loop ops response response_index xs)
          else if length resp \<le> response_index then None
          else if sr_pic_id x = fst (resp ! response_index) then
            map_option ((#) (x\<lparr>sr_sim := f_mul ops (sr_sim x) (snd (resp ! response_index))\<rparr>))
              (spatial_loop ops response (Suc response_index) xs)
          else map_option ((#) (x\<lparr>sr_sim := f32_zero\<rparr>)) (spatial_loop ops response response_index xs))"

definition SpatialRanker ::
    "f32_ops \<Rightarrow> (IPAddress \<Rightarrow> u64 list \<Rightarrow> (u64 \<times> f32) list option) \<Rightarrow> CommonSearch \<Rightarrow> nat \<Rightarrow> (int \<times> CommonSearch) cxx" where
  "SpatialRanker ops remote cs thread_index =
     (case cs_spatial_ranker_servers cs of
        [] \<Rightarrow> None
      | server # _ \<Rightarrow>
          let n = nat (cs_spatial_request_num cs); items = cs_search_result cs;
              slice = take n (drop (thread_index * n) items)
          in map_option (\<lambda>ys. (0, cs\<lparr>cs_search_result := take (thread_index * n) items @ ys @ drop (Suc thread_index * n) items\<rparr>))
               (spatial_loop ops (remote server (map sr_pic_id slice)) 0 slice))"

text \<open>
  \<open>InitExecMergeConf\<close> over the configured strings. A \<open>MergeConf\<close> starts with unspecified
  bounds; \<open>throw 1\<close> is not caught.
\<close>

primrec conf_servers :: "boost \<Rightarrow> (string \<Rightarrow> u32 option) \<Rightarrow> string list \<Rightarrow> IPAddress list cxx" where
  "conf_servers B lex_u32 [] = Some []"
| "conf_servers B lex_u32 (server # servers) =
     (case b_split B (CHR '':'') server of
        a # p # _ \<Rightarrow>
          (case (lex_u32 p, conf_servers B lex_u32 servers) of
             (Some n, Some as) \<Rightarrow> Some (\<lparr>ip = a, port = n\<rparr> # as) | _ \<Rightarrow> None)
      | _ \<Rightarrow> None)"

primrec conf_parts :: "boost \<Rightarrow> (string \<Rightarrow> u32 option) \<Rightarrow> string list \<Rightarrow> MergeConf \<Rightarrow> MergeConf cxx" where
  "conf_parts B lex_u32 [] mc = Some mc"
| "conf_parts B lex_u32 (part # parts) mc =
     (case b_split B (CHR ''='') part of
        [k, v] \<Rightarrow>
          let key = b_trim B k; value = b_trim B v in
          (if key = ''begin_id'' then
             (case lex_u32 value of None \<Rightarrow> None | Some n \<Rightarrow> conf_parts B lex_u32 parts (mc\<lparr>mc_begin_id := sint n\<rparr>))
           else if key = ''end_id'' then
             (case lex_u32 value of None \<Rightarrow> None | Some n \<Rightarrow> conf_parts B lex_u32 parts (mc\<lparr>mc_end_id := sint n\<rparr>))
           else if key = ''servers'' then
             (case conf_servers B lex_u32 (b_split B (CHR '','') value) of
                None \<Rightarrow> None
              | Some as \<Rightarrow> conf_parts B lex_u32 parts (mc\<lparr>mc_servers := mc_servers mc @ as\<rparr>))
           else conf_parts B lex_u32 parts mc)
      | _ \<Rightarrow> None)"

primrec InitExecMergeConf ::
    "boost \<Rightarrow> (string \<Rightarrow> u32 option) \<Rightarrow> int \<Rightarrow> string list \<Rightarrow> CommonSearch \<Rightarrow> (int \<times> CommonSearch) cxx" where
  "InitExecMergeConf B lex_u32 junk [] cs = Some (0, cs)"
| "InitExecMergeConf B lex_u32 junk (s # ss) cs =
     (case conf_parts B lex_u32 (b_split B (CHR '';'') s) \<lparr>mc_begin_id = junk, mc_end_id = junk, mc_servers = []\<rparr> of
        None \<Rightarrow> None
      | Some mc \<Rightarrow> InitExecMergeConf B lex_u32 junk ss (cs\<lparr>cs_exec_merge_conf := cs_exec_merge_conf cs @ [mc]\<rparr>))"

text \<open>
  \<open>Process\<close> from the weighted query on; \<open>frontend\<close> is the outcome of download, detection,
  extraction, quantisation and weighting (an error code of the source, or the query). The merge
  requests take effect one after the other in the order given.
\<close>

primrec run_merges ::
    "f32_ops \<Rightarrow> u64 \<Rightarrow> merge_remote \<Rightarrow> nat list \<Rightarrow> CommonSearch \<Rightarrow> CommonSearch cxx" where
  "run_merges ops g R [] cs = Some cs"
| "run_merges ops g R (i # is) cs =
     (case CommonSearch_ExecMerge ops g R cs i of None \<Rightarrow> None | Some (_, cs') \<Rightarrow> run_merges ops g R is cs')"

definition Process ::
    "f32_ops \<Rightarrow> ((SearchResultItem \<Rightarrow> SearchResultItem \<Rightarrow> bool) \<Rightarrow> SearchResultItem list \<Rightarrow> SearchResultItem list)
       \<Rightarrow> u64 \<Rightarrow> merge_remote \<Rightarrow> (f32 \<Rightarrow> string) \<Rightarrow> nat list \<Rightarrow> int + BOFQuantizeResultMap \<Rightarrow> string
       \<Rightarrow> CommonSearch \<Rightarrow> (int \<times> string \<times> CommonSearch) cxx" where
  "Process ops srt g R show_sim order frontend result0 cs =
     (case frontend of
        Inl code \<Rightarrow> Some (code, result0, cs)
      | Inr img_qdata \<Rightarrow>
          (case DispatchData (cs_exec_merge_conf cs) (cs_servers_to_datas cs) img_qdata of
             None \<Rightarrow> None
           | Some (ret, sds) \<Rightarrow>
               let cs1 = cs\<lparr>cs_servers_to_datas := sds\<rparr> in
               if ret \<noteq> 0 then Some (-5, result0, cs1)
               else if sds = [] then Some (-5, result0, cs1)
               else case run_merges ops g R order cs1 of
                 None \<Rightarrow> None
               | Some cs2 \<Rightarrow>
                   let s1 = snd (SetParam (Searcher_new 0 0) (cs_he_threshold cs2));
                       s2 = snd (SetResultSimilar s1 (cs_result_similar cs2));
                       s3 = snd (SetQueryPow s2 (cs_query_pow cs2));
                       (_, s4) = Rank ops srt s3;
                       (_, sr) = GetResult s4;
                       cs3 = cs2\<lparr>cs_search_result := sr\<rparr>
                   in map_option (\<lambda>result. (0, result, snd (ClearMergeData cs3))) (ResultFormat show_sim sr)))"

subsection \<open>Dispatching\<close>

definition in_range :: "MergeConf \<Rightarrow> int \<Rightarrow> bool" where
  "in_range c k \<longleftrightarrow> mc_begin_id c \<le> k \<and> k \<le> mc_end_id c"

abbreviation key_sorted :: "(int \<times> 'v) list \<Rightarrow> bool" where
  "key_sorted q \<equiv> sorted_wrt (\<lambda>a b. fst a < fst b) q"

text \<open>Every range lies above the one before it.\<close>

abbreviation confs_ascending :: "MergeConf list \<Rightarrow> bool" where
  "confs_ascending cs \<equiv> sorted_wrt (\<lambda>a b. mc_end_id a < mc_begin_id b) cs"

text \<open>A part of the query that belongs to the servers of one range.\<close>

definition part_ok :: "MergeConf list \<Rightarrow> ServerToData \<Rightarrow> bool" where
  "part_ok confs sd \<longleftrightarrow> sd_img_qdata sd \<noteq> [] \<and>
     (\<exists>c \<in> set confs. sd_servers sd = mc_servers c \<and> (\<forall>k \<in> fst ` set (sd_img_qdata sd). in_range c k))"

lemma map_insert_last: "\<forall>e \<in> set m. fst e < k \<Longrightarrow> map_insert k v m = m @ [(k, v)]"
  by (induction m) auto

lemma map_put_last: "\<forall>e \<in> set m. fst e < k \<Longrightarrow> map_put k v m = m @ [(k, v)]"
  by (auto simp: map_put_def map_insert_last)

text \<open>The state of the loop: the open part, if any, belongs to the current range.\<close>

definition open_part :: "MergeConf \<Rightarrow> ServerToData \<Rightarrow> bool" where
  "open_part c sd \<longleftrightarrow> (sd_img_qdata sd = [] \<longrightarrow> sd_servers sd = []) \<and>
     (sd_img_qdata sd \<noteq> [] \<longrightarrow> sd_servers sd = mc_servers c \<and> (\<forall>k \<in> fst ` set (sd_img_qdata sd). in_range c k))"

lemma part_ok_Cons: "part_ok cs s \<Longrightarrow> part_ok (c # cs) s"
  by (auto simp: part_ok_def)

lemma leave_range:
  assumes "confs_ascending (c # cs)" and "key_sorted ((k, v) # q)" and "\<not> in_range c k"
    and cov: "\<forall>j \<in> fst ` set ((k, v) # q). \<exists>d \<in> set (c # cs). in_range d j"
  shows "cs \<noteq> []" and "\<forall>j \<in> fst ` set ((k, v) # q). \<exists>d \<in> set cs. in_range d j"
proof -
  obtain d where d: "d \<in> set cs" "in_range d k" using assms(3) cov by auto
  then show "cs \<noteq> []" by auto
  have "mc_end_id c < k" using d assms(1) by (auto simp: in_range_def)
  then have "\<not> in_range c j" if "j \<in> fst ` set ((k, v) # q)" for j
    using assms(2) that by (auto simp: in_range_def)
  then show "\<forall>j \<in> fst ` set ((k, v) # q). \<exists>d \<in> set cs. in_range d j" using cov by (metis set_ConsD)
qed

lemma dispatch_loop_parts:
  assumes "key_sorted (sd_img_qdata sd @ q)" and "confs_ascending confs" and "q \<noteq> []"
    and "\<forall>k \<in> fst ` set q. \<exists>c \<in> set confs. in_range c k" and "confs \<noteq> [] \<Longrightarrow> open_part (hd confs) sd"
  shows "\<exists>out. dispatch_loop confs sd q acc = Some (acc @ out) \<and>
     concat (map sd_img_qdata out) = sd_img_qdata sd @ q \<and> (\<forall>s \<in> set out. part_ok confs s)"
  using assms
proof (induction confs sd q acc rule: dispatch_loop.induct)
  case (3 c cs sd k v q acc)
  have op: "open_part c sd" using "3.prems"(5) by simp
  show ?case
  proof (cases "in_range c k")
    case True
    let ?sd = "sd\<lparr>sd_servers := (if sd_servers sd = [] then mc_servers c else sd_servers sd),
      sd_img_qdata := map_put k v (sd_img_qdata sd)\<rparr>"
    have put: "map_put k v (sd_img_qdata sd) = sd_img_qdata sd @ [(k, v)]"
      using "3.prems"(1) by (intro map_put_last) (auto simp: sorted_wrt_append)
    then have sd: "sd_img_qdata ?sd = sd_img_qdata sd @ [(k, v)]" "open_part c ?sd"
      using op True by (auto simp: open_part_def)
    have ok: "part_ok (c # cs) ?sd" using sd by (auto simp: part_ok_def open_part_def)
    show ?thesis
    proof (cases "q = []")
      case q: True
      have "dispatch_loop (c # cs) sd ((k, v) # q) acc = Some (acc @ [?sd])"
        using True q by (simp add: in_range_def Let_def)
      then show ?thesis using sd(1) ok q by (intro exI [of _ "[?sd]"]) simp
    next
      case q: False
      have "\<exists>out. dispatch_loop (c # cs) ?sd q acc = Some (acc @ out) \<and>
          concat (map sd_img_qdata out) = sd_img_qdata ?sd @ q \<and> (\<forall>s \<in> set out. part_ok (c # cs) s)"
        by (rule "3.IH"(2)) (use True q "3.prems" sd in \<open>auto simp: in_range_def\<close>)
      then show ?thesis using True q sd(1) by (auto simp: in_range_def Let_def)
    qed
  next
    case False
    have ks: "key_sorted ((k, v) # q)" using "3.prems"(1) by (auto simp: sorted_wrt_append)
    note lr = leave_range [OF "3.prems"(2) ks False "3.prems"(4)]
    let ?full = "sd_img_qdata sd \<noteq> []"
    let ?sd = "if ?full then ServerToData_new else sd" and ?acc = "if ?full then acc @ [sd] else acc"
    have new: "sd_img_qdata ?sd = []" "open_part (hd cs) ?sd"
      using op by (auto simp: open_part_def ServerToData_new_def)
    have "\<exists>out. dispatch_loop cs ?sd ((k, v) # q) ?acc = Some (?acc @ out) \<and>
        concat (map sd_img_qdata out) = sd_img_qdata ?sd @ (k, v) # q \<and> (\<forall>s \<in> set out. part_ok cs s)"
      by (rule "3.IH"(3)) (use False new lr "3.prems"(2) ks in \<open>auto simp: in_range_def\<close>)
    then obtain out where out: "dispatch_loop cs ?sd ((k, v) # q) ?acc = Some (?acc @ out)"
      "concat (map sd_img_qdata out) = (k, v) # q" "\<forall>s \<in> set out. part_ok cs s" using new(1) by auto
    have "dispatch_loop (c # cs) sd ((k, v) # q) acc = Some (?acc @ out)"
      using False lr(1) out(1) by (auto simp: in_range_def Let_def)
    moreover have "part_ok (c # cs) sd" if ?full using op that by (auto simp: part_ok_def open_part_def)
    ultimately show ?thesis using out(2,3) part_ok_Cons
      by (intro exI [of _ "(if ?full then [sd] else []) @ out"]) auto
  qed
qed auto

subsection \<open>The merge of answers, picture by picture\<close>

definition combine1 ::
    "f32_ops \<Rightarrow> MergeSimilarInfo option \<Rightarrow> MergeSimilarInfo option \<Rightarrow> MergeSimilarInfo option" where
  "combine1 ops x y = (case (x, y) of (Some r, Some t) \<Rightarrow> Some (add_info ops r t) | (None, _) \<Rightarrow> y | (_, None) \<Rightarrow> x)"

definition combine ::
    "f32_ops \<Rightarrow> (int \<rightharpoonup> MergeSimilarInfo) \<Rightarrow> (int \<rightharpoonup> MergeSimilarInfo) \<Rightarrow> (int \<rightharpoonup> MergeSimilarInfo)" where
  "combine ops m n k = combine1 ops (m k) (n k)"

lemma combine1_simps [simp]:
  "combine1 ops x None = x" "combine1 ops None y = y"
  "combine1 ops (Some r) (Some t) = Some (add_info ops r t)"
  by (auto simp: combine1_def split: option.splits)

lemma combine_empty [simp]: "combine ops m Map.empty = m"
  by (simp add: combine_def fun_eq_iff)

lemma ms_of_Nil [simp]: "ms_of [] = Map.empty"
  by (simp add: ms_of_def)

lemma combine_Cons:
  assumes "ms_sorted (t # ts)"
  shows "combine ops m (ms_of (t # ts)) = combine ops (m(ms_key t := combine1 ops (m (ms_key t)) (Some t))) (ms_of ts)"
proof -
  have "ms_of ts (ms_key t) = None" using assms by (intro ms_of_none) (auto simp: ms_sorted_def)
  moreover have "ms_of (t # ts) = (ms_of ts)(ms_key t \<mapsto> t)" by (simp add: ms_of_def)
  ultimately show ?thesis by (auto simp: combine_def fun_eq_iff)
qed

lemma ms_key_add_info [simp]: "ms_key (add_info ops r t) = ms_key r"
  by (simp add: add_info_def ms_key_def)

lemma ms_pic_id_eq: "ms_pic_id r = ms_pic_id t \<longleftrightarrow> ms_key r = ms_key t"
  by (auto simp: ms_key_def intro: signed_word_eqI)

text \<open>Everything before the iterator is below the pictures to come.\<close>

definition at_answer :: "MergeSimilarInfo list \<Rightarrow> MergeSimilarInfo list \<Rightarrow> MergeSimilarInfo list \<Rightarrow> bool" where
  "at_answer ts before cur \<longleftrightarrow> ms_sorted ts \<and> ms_sorted (before @ cur) \<and> (\<forall>b \<in> set before. \<forall>t \<in> set ts. ms_key b < ms_key t)"

lemma at_answer_step:
  assumes "at_answer (t # ts) before cur"
  shows "cur = [] \<Longrightarrow> at_answer (t # ts) [] before"
    and "\<forall>c \<in> set cur. ms_key t < ms_key c \<Longrightarrow> at_answer ts (before @ [t]) cur"
    and "cur = r # rest \<Longrightarrow> ms_key r < ms_key t \<Longrightarrow> at_answer (t # ts) (before @ [r]) rest"
    and "cur = r # rest \<Longrightarrow> ms_key r = ms_key t \<Longrightarrow> at_answer ts (before @ [add_info ops r t]) rest"
  using assms by (fastforce simp: at_answer_def ms_sorted_def sorted_wrt_append)+

lemma threads_loop_adds:
  assumes "at_answer ts before cur" and "\<forall>t \<in> set ts. ms_pic_id t \<noteq> g"
  shows "\<exists>rs. threads_loop ops g ts before cur = Some rs \<and> ms_sorted rs \<and>
     ms_of rs = combine ops (ms_of (before @ cur)) (ms_of ts)"
  using assms
proof (induction ops g ts before cur rule: threads_loop.induct)
  case (1 ops g before cur)
  then show ?case by (simp add: at_answer_def)
next
  case (2 ops g t ts before)
  have below: "\<forall>b \<in> set before. ms_key b \<noteq> ms_key t" using "2.prems"(1) by (auto simp: at_answer_def)
  have ins: "ms_of (before @ [t]) = (ms_of before)(ms_key t \<mapsto> t)" using ms_of_insert [of before t "[]"] below by simp
  have none: "ms_of before (ms_key t) = None" by (rule ms_of_none [OF below])
  have all: "combine ops (ms_of before) (ms_of (t # ts)) = combine ops ((ms_of before)(ms_key t \<mapsto> t)) (ms_of ts)"
    using combine_Cons [of t ts ops "ms_of before"] "2.prems"(1) none by (simp add: at_answer_def)
  have at: "at_answer ts (before @ [t]) []" by (rule at_answer_step(2) [OF "2.prems"(1)]) simp
  have g: "ms_pic_id t \<noteq> g" "\<forall>t \<in> set ts. ms_pic_id t \<noteq> g" using "2.prems"(2) by auto
  consider (wrap) "sint g < sint (ms_pic_id t)" "before \<noteq> []" | (first) "sint g < sint (ms_pic_id t)" "before = []"
    | (ins) "\<not> sint g < sint (ms_pic_id t)" by blast
  then show ?case
  proof cases
    case wrap
    then show ?thesis using "2.IH"(2) [OF wrap at_answer_step(1) [OF "2.prems"(1) refl] "2.prems"(2)] by simp
  next
    case first
    then show ?thesis using "2.IH"(1) [OF first _ g(2)] at ins all by (simp add: fun_upd_def)
  next
    case 3: ins
    then show ?thesis using "2.IH"(3) [OF 3 _ at g(2)] ins all g(1) by (auto simp: fun_upd_def)
  qed
next
  case (3 ops g t ts before r cur)
  let ?m = "ms_of (before @ r # cur)"
  have g: "\<forall>t \<in> set ts. ms_pic_id t \<noteq> g" using "3.prems"(2) by auto
  have below: "\<forall>b \<in> set before. ms_key b \<noteq> ms_key t" "\<forall>c \<in> set cur. ms_key r < ms_key c"
    "\<forall>b \<in> set before. ms_key b < ms_key r"
    using "3.prems"(1) by (auto simp: at_answer_def ms_sorted_def sorted_wrt_append)
  have all: "combine ops ?m (ms_of (t # ts)) = combine ops (?m(ms_key t := combine1 ops (?m (ms_key t)) (Some t))) (ms_of ts)"
    using combine_Cons [of t ts ops ?m] "3.prems"(1) by (simp add: at_answer_def)
  have r: "?m = (ms_of (before @ cur))(ms_key r \<mapsto> r)" by (rule ms_of_insert) (use below(3) in force)
  consider "ms_key r < ms_key t" "cur = []" | "ms_key r < ms_key t" "cur \<noteq> []" | "ms_key r = ms_key t" | "ms_key t < ms_key r"
    by linarith
  then show ?case
  proof cases
    case 1
    then have c: "sint (ms_pic_id r) < sint (ms_pic_id t)" by (simp add: ms_key_def)
    have "at_answer ts ((before @ [r]) @ [t]) []"
      using at_answer_step(2) [OF at_answer_step(3) [OF "3.prems"(1) refl 1(1)]] 1(2) by simp
    moreover have "ms_of ((before @ [r]) @ [t]) = ?m(ms_key t \<mapsto> t)" and "?m (ms_key t) = None"
      using ms_of_insert [of "before @ [r]" t "[]"] ms_of_none [of "before @ r # cur" "ms_key t"] below(1) 1 by auto
    ultimately show ?thesis using "3.IH"(1) [OF c 1(2) _ g] c 1(2) all by (simp add: fun_upd_def)
  next
    case 2
    then have c: "sint (ms_pic_id r) < sint (ms_pic_id t)" by (simp add: ms_key_def)
    show ?thesis
      using "3.IH"(2) [OF c 2(2) at_answer_step(3) [OF "3.prems"(1) refl 2(1)] "3.prems"(2)] c 2(2) by simp
  next
    case 3
    then have c: "\<not> sint (ms_pic_id r) < sint (ms_pic_id t)" "ms_pic_id r = ms_pic_id t"
      using ms_pic_id_eq [of r t] by simp_all
    have "ms_of (before @ add_info ops r t # cur) = ?m(ms_key t := combine1 ops (?m (ms_key t)) (Some t))"
      using ms_of_insert [of before "add_info ops r t" cur] below(1) 3 r by simp
    then show ?thesis
      using "3.IH"(3) [OF c at_answer_step(4) [OF "3.prems"(1) refl 3] g] c all by (simp add: fun_upd_def)
  next
    case 4
    then have c: "\<not> sint (ms_pic_id r) < sint (ms_pic_id t)" "ms_pic_id r \<noteq> ms_pic_id t"
      using ms_pic_id_eq [of r t] by (auto simp: ms_key_def)
    have "at_answer ts (before @ [t]) (r # cur)"
      by (rule at_answer_step(2) [OF "3.prems"(1)]) (use 4 below(2) in auto)
    moreover have "ms_of (before @ t # r # cur) = ?m(ms_key t \<mapsto> t)" and "?m (ms_key t) = None"
      using ms_of_insert [of before t "r # cur"] ms_of_none [of "before @ r # cur" "ms_key t"] below 4 by fastforce+
    ultimately show ?thesis using "3.IH"(4) [OF c _ g] c all by (simp add: fun_upd_def)
  qed
qed

subsection \<open>Concurrent merge requests\<close>

text \<open>
  The requests of one search run in parallel: each adds its norm to the shared \<open>query_pow_\<close>
  without a lock (a load and a store), then merges its list under the lock. A thread is its
  program counter with the answer it holds.
\<close>

datatype merge_thread =
    Answered f32 "MergeSimilarInfo list"
  | Loaded f32 f32 "MergeSimilarInfo list"
  | Stored "MergeSimilarInfo list"
  | Finished int

record merge_state =
  shared_pow :: f32
  shared_similar :: "MergeSimilarInfo list"
  threads :: "merge_thread list"

inductive merge_step :: "f32_ops \<Rightarrow> u64 \<Rightarrow> merge_state \<Rightarrow> merge_state \<Rightarrow> bool" for ops g where
  load_pow: "i < length (threads s) \<Longrightarrow> threads s ! i = Answered p rs \<Longrightarrow>
    merge_step ops g s (s\<lparr>threads := (threads s)[i := Loaded (shared_pow s) p rs]\<rparr>)"
| store_pow: "i < length (threads s) \<Longrightarrow> threads s ! i = Loaded v p rs \<Longrightarrow>
    merge_step ops g s (s\<lparr>shared_pow := f_add ops v p, threads := (threads s)[i := Stored rs]\<rparr>)"
| merge_list: "i < length (threads s) \<Longrightarrow> threads s ! i = Stored rs \<Longrightarrow>
    MergeThreadsResult ops g (shared_similar s) rs = Some (r, rs') \<Longrightarrow>
    merge_step ops g s (s\<lparr>shared_similar := rs', threads := (threads s)[i := Finished r]\<rparr>)"

inductive_cases merge_stepE: "merge_step ops g s t"

definition thread_list :: "merge_thread \<Rightarrow> MergeSimilarInfo list" where
  "thread_list t = (case t of Answered _ rs \<Rightarrow> rs | Loaded _ _ rs \<Rightarrow> rs | Stored rs \<Rightarrow> rs | Finished _ \<Rightarrow> [])"

definition lists_sorted :: "merge_state \<Rightarrow> bool" where
  "lists_sorted s \<longleftrightarrow> ms_sorted (shared_similar s) \<and> (\<forall>t \<in> set (threads s). ms_sorted (thread_list t))"

lemma MergeThreadsResult_ok:
  assumes "ms_sorted similar" and "ms_sorted rs" and "\<forall>t \<in> set rs. ms_pic_id t \<noteq> g"
  shows "\<exists>r out. MergeThreadsResult ops g similar rs = Some (r, out) \<and> ms_sorted out \<and>
    ms_of out = combine ops (ms_of similar) (ms_of rs) \<and> (r = 0 \<longleftrightarrow> rs \<noteq> [])"
proof -
  have empty: "combine ops Map.empty m = m" for m by (simp add: combine_def fun_eq_iff)
  have "at_answer rs [] similar" using assms(1,2) by (simp add: at_answer_def)
  from threads_loop_adds [OF this assms(3), of ops] show ?thesis
    using assms(1,2) by (auto simp: MergeThreadsResult_def empty)
qed

lemma set_list_update_subset: "x \<in> set (xs[i := y]) \<Longrightarrow> x = y \<or> x \<in> set xs"
  by (auto dest: set_update_subset_insert [THEN subsetD])

lemma merge_step_sorted [keeps]:
  assumes "merge_step ops g s t" and "lists_sorted s" and "\<forall>x \<in> set (threads s). \<forall>y \<in> set (thread_list x). ms_pic_id y \<noteq> g"
  shows "lists_sorted t \<and> (\<forall>x \<in> set (threads t). \<forall>y \<in> set (thread_list x). ms_pic_id y \<noteq> g)"
  using assms(1)
proof cases
  case (load_pow i p rs)
  then have "Answered p rs \<in> set (threads s)" by (metis nth_mem)
  then have "ms_sorted rs \<and> (\<forall>y \<in> set rs. ms_pic_id y \<noteq> g)" using assms(2,3) by (force simp: lists_sorted_def thread_list_def)
  with assms(2,3) load_pow(1) show ?thesis
    by (auto simp: lists_sorted_def thread_list_def dest!: set_list_update_subset)
next
  case (store_pow i v p rs)
  then have "Loaded v p rs \<in> set (threads s)" by (metis nth_mem)
  then have "ms_sorted rs \<and> (\<forall>y \<in> set rs. ms_pic_id y \<noteq> g)" using assms(2,3) by (force simp: lists_sorted_def thread_list_def)
  with assms(2,3) store_pow(1) show ?thesis
    by (auto simp: lists_sorted_def thread_list_def dest!: set_list_update_subset)
next
  case (merge_list i rs r rs')
  then have "Stored rs \<in> set (threads s)" by (metis nth_mem)
  then have "ms_sorted rs" "\<forall>y \<in> set rs. ms_pic_id y \<noteq> g" using assms(2,3) by (force simp: lists_sorted_def thread_list_def)+
  then have "ms_sorted rs'"
    using MergeThreadsResult_ok [of "shared_similar s" rs g ops] assms(2) merge_list(4) by (auto simp: lists_sorted_def)
  moreover have "ms_sorted []" by (simp add: ms_sorted_def)
  ultimately show ?thesis
    using assms(2,3) merge_list(1) by (auto simp: lists_sorted_def thread_list_def dest!: set_list_update_subset)
qed

lemma merge_threads_keep_sorted:
  assumes "(merge_step ops g)\<^sup>*\<^sup>* s t" and "lists_sorted s"
    and "\<forall>x \<in> set (threads s). \<forall>y \<in> set (thread_list x). ms_pic_id y \<noteq> g"
  shows "lists_sorted t"
proof -
  have "lists_sorted t \<and> (\<forall>x \<in> set (threads t). \<forall>y \<in> set (thread_list x). ms_pic_id y \<noteq> g)"
    using assms by (induction rule: rtranclp_induct) (blast dest: merge_step_sorted)+
  then show ?thesis by simp
qed

subsection \<open>Properties\<close>

text \<open>
  C2. With ascending ranges that together cover the words of a non-empty query, \<open>DispatchData\<close>
  succeeds and cuts the query into consecutive non-empty parts, none lost, each addressed to the
  servers of a range that contains all its words.
\<close>

theorem DispatchData_partitions:
  assumes "q \<noteq> []" and "key_sorted q" and "confs_ascending confs"
    and "\<forall>k \<in> fst ` set q. \<exists>c \<in> set confs. in_range c k"
  shows "\<exists>parts. DispatchData confs old q = Some (0, parts) \<and> concat (map sd_img_qdata parts) = q \<and>
    (\<forall>p \<in> set parts. part_ok confs p)"
  using dispatch_loop_parts [of ServerToData_new q confs "[]"] assms
  by (auto simp: DispatchData_def ServerToData_new_def open_part_def)

theorem DispatchData_partitions_witness:
  "\<exists>parts. DispatchData [\<lparr>mc_begin_id = 0, mc_end_id = 9, mc_servers = [\<lparr>ip = ''a'', port = 1\<rparr>]\<rparr>,
      \<lparr>mc_begin_id = 10, mc_end_id = 19, mc_servers = [\<lparr>ip = ''b'', port = 2\<rparr>]\<rparr>] []
      [(3, BOFQuantizeResult_new), (12, BOFQuantizeResult_new)] = Some (0, parts) \<and>
    concat (map sd_img_qdata parts) = [(3, BOFQuantizeResult_new), (12, BOFQuantizeResult_new)] \<and>
    (\<forall>p \<in> set parts. part_ok [\<lparr>mc_begin_id = 0, mc_end_id = 9, mc_servers = [\<lparr>ip = ''a'', port = 1\<rparr>]\<rparr>,
      \<lparr>mc_begin_id = 10, mc_end_id = 19, mc_servers = [\<lparr>ip = ''b'', port = 2\<rparr>]\<rparr>] p)"
  by (rule DispatchData_partitions) (simp_all add: in_range_def)

text \<open>
  C7. Merging a server's sorted answer into the sorted list of candidates succeeds, keeps it sorted
  and adds the answer picture by picture: products and norms are added where both have the picture,
  other entries are kept or taken over.
\<close>

theorem MergeThreadsResult_adds_answer:
  assumes "ms_sorted similar" and "ms_sorted answer" and "\<forall>t \<in> set answer. ms_pic_id t \<noteq> g"
  shows "\<exists>r out. MergeThreadsResult ops g similar answer = Some (r, out) \<and> ms_sorted out \<and>
    ms_of out = combine ops (ms_of similar) (ms_of answer) \<and> (r = 0 \<longleftrightarrow> answer \<noteq> [])"
  using assms by (rule MergeThreadsResult_ok)

theorem MergeThreadsResult_adds_answer_witness:
  "\<exists>r out. MergeThreadsResult demo_ops 0 [MergeSimilarInfo_new\<lparr>ms_pic_id := 5\<rparr>]
       [MergeSimilarInfo_new\<lparr>ms_pic_id := 3\<rparr>, MergeSimilarInfo_new\<lparr>ms_pic_id := 7\<rparr>] = Some (r, out) \<and> ms_sorted out \<and>
    ms_of out = combine demo_ops (ms_of [MergeSimilarInfo_new\<lparr>ms_pic_id := 5\<rparr>])
      (ms_of [MergeSimilarInfo_new\<lparr>ms_pic_id := 3\<rparr>, MergeSimilarInfo_new\<lparr>ms_pic_id := 7\<rparr>]) \<and>
    (r = 0 \<longleftrightarrow> [MergeSimilarInfo_new\<lparr>ms_pic_id := 3\<rparr>, MergeSimilarInfo_new\<lparr>ms_pic_id := 7\<rparr>] \<noteq> [])"
  by (rule MergeThreadsResult_adds_answer) (simp_all add: ms_sorted_def ms_key_def MergeSimilarInfo_new_def)

text \<open>
  The unlocked addition to \<open>query_pow_\<close> loses updates: with two servers answering norms
  \<open>p\<close> and \<open>q\<close> there is a run in which both requests finish successfully and the shared norm
  is \<open>v + q\<close> instead of \<open>v + p + q\<close>.
\<close>

theorem query_pow_update_lost:
  "\<exists>t. (merge_step ops g)\<^sup>*\<^sup>*
      \<lparr>shared_pow = v, shared_similar = [], threads = [Answered p [a], Answered q [a]]\<rparr> t \<and>
    threads t = [Finished 0, Finished 0] \<and> shared_pow t = f_add ops v q"
proof -
  let ?s = "\<lambda>pow similar ts. \<lparr>shared_pow = pow, shared_similar = similar, threads = ts\<rparr>"
  let ?init = "?s v [] [Answered p [a], Answered q [a]]"
  have "(merge_step ops g)\<^sup>*\<^sup>* ?init ?init" by simp
  also have "merge_step ops g ?init (?s v [] [Loaded v p [a], Answered q [a]])"
    using merge_step.load_pow [of 0 ?init p "[a]" ops g] by simp
  also (rtranclp.rtrancl_into_rtrancl) have "merge_step ops g (?s v [] [Loaded v p [a], Answered q [a]]) (?s v [] [Loaded v p [a], Loaded v q [a]])"
    using merge_step.load_pow [of 1 "?s v [] [Loaded v p [a], Answered q [a]]" q "[a]" ops g] by simp
  also (rtranclp.rtrancl_into_rtrancl) have "merge_step ops g (?s v [] [Loaded v p [a], Loaded v q [a]]) (?s (f_add ops v p) [] [Stored [a], Loaded v q [a]])"
    using merge_step.store_pow [of 0 "?s v [] [Loaded v p [a], Loaded v q [a]]" v p "[a]" ops g] by simp
  also (rtranclp.rtrancl_into_rtrancl) have "merge_step ops g (?s (f_add ops v p) [] [Stored [a], Loaded v q [a]]) (?s (f_add ops v q) [] [Stored [a], Stored [a]])"
    using merge_step.store_pow [of 1 "?s (f_add ops v p) [] [Stored [a], Loaded v q [a]]" v q "[a]" ops g] by simp
  also (rtranclp.rtrancl_into_rtrancl) have "merge_step ops g (?s (f_add ops v q) [] [Stored [a], Stored [a]]) (?s (f_add ops v q) [a] [Finished 0, Stored [a]])"
    using merge_step.merge_list [of 0 "?s (f_add ops v q) [] [Stored [a], Stored [a]]" "[a]" ops g 0 "[a]"]
    by (simp add: MergeThreadsResult_def)
  also (rtranclp.rtrancl_into_rtrancl) have "merge_step ops g (?s (f_add ops v q) [a] [Finished 0, Stored [a]])
      (?s (f_add ops v q) [add_info ops a a] [Finished 0, Finished 0])"
    using merge_step.merge_list [of 1 "?s (f_add ops v q) [a] [Finished 0, Stored [a]]" "[a]" ops g 0 "[add_info ops a a]"]
    by (simp add: MergeThreadsResult_def)
  finally (rtranclp.rtrancl_into_rtrancl) have "(merge_step ops g)\<^sup>*\<^sup>* ?init (?s (f_add ops v q) [add_info ops a a] [Finished 0, Finished 0])" .
  then show ?thesis by (intro exI conjI) (assumption, simp_all)
qed

text \<open>
  The text of a result: up to the first picture with similarity 0, the entries
  \<open>id:similarity\<close> separated by semicolons without one at the end; with no such entry the code
  reads the string out of range.
\<close>

theorem ResultFormat_text:
  "ResultFormat show_sim items =
     (case takeWhile (\<lambda>x. \<not> f32_eq f32_zero (sr_sim x)) items of
        [] \<Rightarrow> None
      | x # xs \<Rightarrow> Some (butlast (concat (map (item_text show_sim) (x # xs)))))"
proof -
  have ne: "item_text show_sim x \<noteq> []" "last (item_text show_sim x) = CHR '';''" for x
    by (simp_all add: item_text_def)
  then have "last (concat (map (item_text show_sim) (x # xs))) = CHR '';''" for x xs
    by (induction xs rule: rev_induct) (simp_all add: last_append)
  with ne show ?thesis
    by (cases "takeWhile (\<lambda>x. \<not> f32_eq f32_zero (sr_sim x)) items") (simp_all add: ResultFormat_def Let_def)
qed

lemma spatial_loop_overrun:
  "map fst rs = map sr_pic_id ys \<Longrightarrow> pre @ rs \<noteq> [] \<Longrightarrow>
     spatial_loop ops (Some (pre @ rs)) (length pre) (ys @ z # zs) = None"
proof (induction ys arbitrary: rs pre)
  case (Cons y ys)
  then obtain r rs' where r: "rs = r # rs'" "fst r = sr_pic_id y" by (cases rs) auto
  with Cons.IH [of rs' "pre @ [r]"] Cons.prems show ?case by simp
qed simp

text \<open>
  When the spatial ranker accepts exactly the first pictures of a slice and the slice has a
  further one, \<open>SpatialRanker\<close> reads beyond the end of the ranker's answer.
\<close>

theorem SpatialRanker_reads_past_answer:
  assumes "cs_spatial_ranker_servers cs = server # more_servers"
    and "take (nat (cs_spatial_request_num cs)) (drop (i * nat (cs_spatial_request_num cs)) (cs_search_result cs)) = ys @ z # zs"
    and "remote server (map sr_pic_id (ys @ z # zs)) = Some resp" and "resp \<noteq> []" and "map fst resp = map sr_pic_id ys"
  shows "SpatialRanker ops remote cs i = None"
  using spatial_loop_overrun [of resp ys "[]" ops z zs] assms by (simp add: SpatialRanker_def Let_def)

theorem SpatialRanker_reads_past_answer_witness:
  "SpatialRanker demo_ops (\<lambda>_ _. Some [(4, f32_one)])
     \<lparr>cs_he_threshold = 0, cs_servers_to_datas = [], cs_exec_merge_conf = [], cs_result_similar = [], cs_query_pow = 0,
      cs_search_result = [\<lparr>sr_pic_id = 4, sr_sim = f32_one\<rparr>, \<lparr>sr_pic_id = 6, sr_sim = f32_one\<rparr>],
      cs_spatial_request_num = 2, cs_spatial_ranker_servers = [\<lparr>ip = ''a'', port = 1\<rparr>]\<rparr> 0 = None"
  by (rule SpatialRanker_reads_past_answer [where ys = "[\<lparr>sr_pic_id = 4, sr_sim = f32_one\<rparr>]"
        and z = "\<lparr>sr_pic_id = 6, sr_sim = f32_one\<rparr>" and zs = "[]" and resp = "[(4, f32_one)]"]) simp_all

end
