(* ===== verification/Merge_Service.thy ===== *)
theory Merge_Service
  imports Common_Search
begin

text \<open>
  The merge server, \<open>parallel_compute/src/merge_processor.cc\<close> (and its older copy
  \<open>searchd/src/exec_threads.cc\<close>): a request carries a part of a query; the answer is the
  archive of the candidates and the norm. The archive is an argument \<open>encode\<close>; its image is
  never empty, since it starts with a header.
\<close>

record PartMerge =
  pm_searcher :: Searcher
  pm_img_qdata :: BOFQuantizeResultMap

record MergeProcessor =
  mp_partition_num :: int
  mp_he_threshold :: int
  mp_begin_word_id :: int
  mp_result_similar :: "MergeSimilarInfo list"
  mp_query_pow :: f32
  mp_img_qdata :: BOFQuantizeResultMap
  mp_pmv :: "PartMerge list"

definition MergeProcessor_Init :: "int \<Rightarrow> int \<Rightarrow> int \<Rightarrow> MergeProcessor \<Rightarrow> int \<times> MergeProcessor" where
  "MergeProcessor_Init partition_num he_thr begin_id mp =
     (0, mp\<lparr>mp_partition_num := partition_num, mp_he_threshold := he_thr, mp_begin_word_id := begin_id\<rparr>)"

text \<open>
  The cut of a query into \<open>step\<close> parts. The size is divided as an unsigned number, so that a
  negative divisor yields 0. Advancing over the end of the map is undefined.
\<close>

primrec cut_parts :: "nat \<Rightarrow> nat \<Rightarrow> BOFQuantizeResultMap \<Rightarrow> (BOFQuantizeResultMap list \<times> BOFQuantizeResultMap) cxx" where
  "cut_parts 0 len it = Some ([], it)"
| "cut_parts (Suc n) len it =
     (if length it < len then None
      else case cut_parts n len (drop len it) of
        None \<Rightarrow> None
      | Some (parts, rest) \<Rightarrow> Some (take len it # parts, rest))"

definition BeginMerge :: "int \<Rightarrow> BOFQuantizeResultMap \<Rightarrow> BOFQuantizeResultMap list cxx" where
  "BeginMerge step img_qdata =
     (if step = 0 then None
      else let len0 = (if step < 0 then 0 else length img_qdata div nat step); len = (if len0 = 0 then 1 else len0)
           in map_option (\<lambda>(parts, rest). parts @ [rest]) (cut_parts (nat (step - 1)) len img_qdata))"

definition PartitionData :: "f32 \<Rightarrow> int \<Rightarrow> MergeProcessor \<Rightarrow> (int \<times> MergeProcessor) cxx" where
  "PartitionData pow0 thr0 mp =
     map_option (\<lambda>parts. (0, mp\<lparr>mp_pmv := mp_pmv mp @
         map (\<lambda>q. \<lparr>pm_searcher = Searcher_new pow0 thr0, pm_img_qdata = q\<rparr>) parts\<rparr>))
       (BeginMerge (mp_partition_num mp) (mp_img_qdata mp))"

text \<open>
  One thread per part, at most 30; their lists are appended one after the other.
\<close>

primrec exec_parts ::
    "f32_ops \<Rightarrow> (nat \<Rightarrow> u8) \<Rightarrow> (int \<Rightarrow> u64) \<Rightarrow> int \<Rightarrow> int \<Rightarrow> PartMerge list \<Rightarrow> BOFIndex
       \<Rightarrow> (MergeSimilarInfo list \<times> PartMerge list \<times> BOFIndex) cxx" where
  "exec_parts ops junk g he_thr begin_id [] ix = Some ([], [], ix)"
| "exec_parts ops junk g he_thr begin_id (pm # pms) ix =
     (let s1 = snd (SetParam (pm_searcher pm) he_thr); s2 = snd (SetBeginBucketId s1 begin_id);
          s3 = snd (SetQueryData s2 (pm_img_qdata pm))
      in case MergeByThread ops junk g (pm_img_qdata pm) ix s3 of
           None \<Rightarrow> None
         | Some (rs, ix', s4) \<Rightarrow>
             (case exec_parts ops junk g he_thr begin_id pms ix' of
                None \<Rightarrow> None
              | Some (rss, pms', ix'') \<Rightarrow> Some (rs @ rss, pm\<lparr>pm_searcher := s4\<rparr> # pms', ix'')))"

definition MergeProcessor_ExecMerge ::
    "f32_ops \<Rightarrow> (nat \<Rightarrow> u8) \<Rightarrow> (int \<Rightarrow> u64) \<Rightarrow> BOFIndex \<Rightarrow> MergeProcessor
       \<Rightarrow> (int \<times> MergeSimilarInfo list option \<times> BOFIndex \<times> MergeProcessor) cxx" where
  "MergeProcessor_ExecMerge ops junk g ix mp =
     (if mp_pmv mp = [] then Some (-1, None, ix, mp)
      else if 30 < length (mp_pmv mp) then None
      else map_option (\<lambda>(rs, pms, ix').
          (0, Some (mp_result_similar mp @ rs), ix', mp\<lparr>mp_result_similar := mp_result_similar mp @ rs, mp_pmv := pms\<rparr>))
        (exec_parts ops junk g (mp_he_threshold mp) (mp_begin_word_id mp) (mp_pmv mp) ix))"

text \<open>The 64-bit keys of the request become \<open>int\<close>.\<close>

definition ParseRequest :: "(int \<times> BOFQuantizeResult) list \<Rightarrow> MergeProcessor \<Rightarrow> int \<times> MergeProcessor" where
  "ParseRequest request mp =
     (0, mp\<lparr>mp_img_qdata := foldl (\<lambda>m (k, v). map_put (sint (word_of_int k :: u32)) v m) (mp_img_qdata mp) request\<rparr>)"

definition ConstructResult ::
    "(MergeSimilarInfo list \<Rightarrow> string) \<Rightarrow> ExecMergeResponse \<Rightarrow> MergeProcessor \<Rightarrow> int \<times> ExecMergeResponse \<times> MergeProcessor" where
  "ConstructResult encode response mp =
     (let response' = response\<lparr>em_result_len := int (length (mp_result_similar mp)),
            em_result := encode (mp_result_similar mp)\<rparr>;
          mp' = mp\<lparr>mp_result_similar := []\<rparr>
      in if em_result response' \<noteq> []
         then (0, response'\<lparr>em_ret_num := 0, em_query_pow := mp_query_pow mp\<rparr>, mp')
         else (0, response'\<lparr>em_ret_num := -1\<rparr>, mp'))"

definition MergeProcessor_Merge ::
    "f32_ops \<Rightarrow> (nat \<Rightarrow> u8) \<Rightarrow> (int \<Rightarrow> u64) \<Rightarrow> (MergeSimilarInfo list \<Rightarrow> string) \<Rightarrow> f32 \<Rightarrow> int \<Rightarrow> BOFIndex
       \<Rightarrow> ExecMergeResponse \<Rightarrow> (int \<times> BOFQuantizeResult) list \<Rightarrow> MergeProcessor
       \<Rightarrow> (int \<times> ExecMergeResponse \<times> BOFIndex \<times> MergeProcessor) cxx" where
  "MergeProcessor_Merge ops junk g encode pow0 thr0 ix response request mp =
     (if request = [] then Some (-1, response, ix, mp)
      else
        let mp1 = snd (ParseRequest request mp);
            s1 = snd (SetParam (Searcher_new pow0 thr0) (mp_he_threshold mp1));
            s2 = snd (SetQueryData s1 (mp_img_qdata mp1))
        in case Merge ops junk g ix s2 of
             None \<Rightarrow> None
           | Some (ret, ix', s3) \<Rightarrow>
               let mp2 = mp1\<lparr>mp_img_qdata := the (query_data s3)\<rparr> in
               if ret \<noteq> 0 then Some (-8, response, ix', mp2)
               else
                 let mp3 = mp2\<lparr>mp_result_similar := result_similar s3, mp_query_pow := query_pow s3\<rparr>;
                     (_, response', mp4) = ConstructResult encode response mp3
                 in Some (0, response', ix', mp4))"

subsection \<open>The cut\<close>

lemma cut_parts_ok:
  "n * len \<le> length q \<Longrightarrow> \<exists>parts rest. cut_parts n len q = Some (parts, rest) \<and> concat parts @ rest = q \<and>
     length parts = n \<and> (\<forall>p \<in> set parts. length p = len)"
proof (induction n arbitrary: q)
  case (Suc n)
  then have "n * len \<le> length (drop len q)" "len \<le> length q" by auto
  from Suc.IH [OF this(1)] this(2) show ?case by auto
qed simp

lemma cut_parts_overrun: "length q < n * len \<Longrightarrow> cut_parts n len q = None"
proof (induction n arbitrary: q)
  case (Suc n)
  then show ?case by (cases "length q < len") (auto simp: less_diff_conv2 add.commute)
qed simp

lemma foldl_map_put:
  assumes "key_sorted (m @ q)" and "\<forall>k \<in> fst ` set q. - (2 ^ 31) \<le> k \<and> k < 2 ^ 31"
  shows "foldl (\<lambda>m (k, v). map_put (sint (word_of_int k :: u32)) v m) m q = m @ q"
  using assms
proof (induction q arbitrary: m)
  case (Cons e q)
  obtain k v where e: "e = (k, v)" by force
  have "map_put k v m = m @ [(k, v)]" using Cons.prems(1) e by (intro map_put_last) (auto simp: sorted_wrt_append)
  moreover have "sint (word_of_int k :: u32) = k" using Cons.prems(2) e by (intro int_of_int32) auto
  ultimately show ?case using Cons.IH [of "m @ [e]"] Cons.prems e by simp
qed simp

subsection \<open>Properties\<close>

text \<open>
  Cutting a query into \<open>step\<close> parts: with at most one part more than words the cut yields
  exactly \<open>step\<close> parts that together are the query, all of equal size but the last; with more
  parts than that the loop runs over the end of the map.
\<close>

theorem BeginMerge_cuts_query:
  assumes "0 < step"
  shows "if step - 1 \<le> int (length q)
    then \<exists>parts. BeginMerge step q = Some parts \<and> concat parts = q \<and> int (length parts) = step \<and>
      (\<forall>p \<in> set (butlast parts). length p = max 1 (length q div nat step))
    else BeginMerge step q = None"
proof -
  let ?n = "nat (step - 1)" and ?len = "max 1 (length q div nat step)"
  have eq: "BeginMerge step q = map_option (\<lambda>(parts, rest). parts @ [rest]) (cut_parts ?n ?len q)"
    using assms by (auto simp: BeginMerge_def Let_def max_def)
  show ?thesis
  proof (cases "step - 1 \<le> int (length q)")
    case True
    have "?n * (length q div nat step) \<le> nat step * (length q div nat step)" using assms by (intro mult_le_mono1) simp
    also have "\<dots> \<le> length q" by (rule times_div_less_eq_dividend)
    finally have "?n * (length q div nat step) \<le> length q" .
    moreover have "?n \<le> length q" using True by linarith
    ultimately have "?n * ?len \<le> length q" by (simp add: max_def)
    from cut_parts_ok [OF this] obtain parts rest where "cut_parts ?n ?len q = Some (parts, rest)"
      "concat parts @ rest = q" "length parts = ?n" "\<forall>p \<in> set parts. length p = ?len" by blast
    with True eq assms show ?thesis by simp
  next
    case False
    then have "length q < ?n * 1" by simp
    also have "\<dots> \<le> ?n * ?len" by (intro mult_le_mono2) simp
    finally show ?thesis using False eq cut_parts_overrun [of q ?n ?len] by simp
  qed
qed

theorem BeginMerge_cuts_query_witness:
  "if 2 - 1 \<le> int (length [(1 :: int, BOFQuantizeResult_new), (4, BOFQuantizeResult_new), (9, BOFQuantizeResult_new)])
    then \<exists>parts. BeginMerge 2 [(1, BOFQuantizeResult_new), (4, BOFQuantizeResult_new), (9, BOFQuantizeResult_new)] = Some parts \<and>
      concat parts = [(1, BOFQuantizeResult_new), (4, BOFQuantizeResult_new), (9, BOFQuantizeResult_new)] \<and> int (length parts) = 2 \<and>
      (\<forall>p \<in> set (butlast parts). length p = max 1 (length [(1 :: int, BOFQuantizeResult_new), (4, BOFQuantizeResult_new), (9, BOFQuantizeResult_new)] div nat 2))
    else BeginMerge 2 [(1, BOFQuantizeResult_new), (4, BOFQuantizeResult_new), (9, BOFQuantizeResult_new)] = None"
  by (rule BeginMerge_cuts_query) simp

text \<open>
  C28. A fresh merge server that is asked for words of 32 bits in ascending order, all answered by its
  index, either reports -8 and leaves the response untouched, because no picture was found, or
  answers the archive of a sorted list holding exactly the accumulated candidates, their number and
  the norm of the query.
\<close>

theorem MergeProcessor_answers_request:
  assumes "request \<noteq> []" and "key_sorted request" and "mp_img_qdata mp = []"
    and "\<forall>k \<in> fst ` set request. - (2 ^ 31) \<le> k \<and> k < 2 ^ 31"
    and "words_ok junk g ix words request" and "\<forall>rs. encode rs \<noteq> []"
  shows "\<exists>rs pow mp'. ms_sorted rs \<and>
    (ms_of rs, pow) = foldl (query_step ops (mp_he_threshold mp) words) (Map.empty, f32_zero) request \<and>
    MergeProcessor_Merge ops junk g encode pow0 thr0 ix response request mp =
      (if rs = [] then Some (-8, response, ix, mp')
       else Some (0, response\<lparr>em_ret_num := 0, em_result := encode rs, em_result_len := int (length rs), em_query_pow := pow\<rparr>, ix, mp'))"
proof -
  let ?s = "snd (SetQueryData (snd (SetParam (Searcher_new pow0 thr0) (mp_he_threshold mp))) request)"
  have q: "query_data ?s = Some request" "begin_bucket_id ?s = 0" "he_threshold_param ?s = mp_he_threshold mp"
    by (simp_all add: SetQueryData_def SetParam_def Searcher_new_def)
  from Merge_query [OF q(1,2) assms(2,5), of ops] q(3) obtain r s' where
    m: "Merge ops junk g ix ?s = Some (r, ix, s')" "ms_sorted (result_similar s')"
      "(ms_of (result_similar s'), query_pow s') = foldl (query_step ops (mp_he_threshold mp) words) (Map.empty, f32_zero) request"
      "r = 0 \<longleftrightarrow> result_similar s' \<noteq> []" "r = -2 \<longleftrightarrow> result_similar s' = []" by auto
  have p: "snd (ParseRequest request mp) = mp\<lparr>mp_img_qdata := request\<rparr>"
    using foldl_map_put [of "[]" request] assms(2-4) by (simp add: ParseRequest_def)
  show ?thesis
    using m(1,4,5) assms(1,6) p
    by (intro exI [of _ "result_similar s'"] exI [of _ "query_pow s'"])
      (cases "result_similar s' = []"; auto simp: m(2) [unfolded ms_sorted_def] m(3) [symmetric] ms_sorted_def MergeProcessor_Merge_def ConstructResult_def Let_def)
qed

theorem MergeProcessor_answers_request_witness:
  "\<exists>rs pow mp'. ms_sorted rs \<and>
    (ms_of rs, pow) = foldl (query_step demo_ops (mp_he_threshold \<lparr>mp_partition_num = 1, mp_he_threshold = 3, mp_begin_word_id = 0,
        mp_result_similar = [], mp_query_pow = 0, mp_img_qdata = [], mp_pmv = []\<rparr>) (\<lambda>_. Some demo_word))
      (Map.empty, f32_zero) [(0, BOFQuantizeResult_new)] \<and>
    MergeProcessor_Merge demo_ops (\<lambda>_. 0) (\<lambda>_. 1) (\<lambda>_. ''archive'') 0 0 demo_store
        \<lparr>em_ret_num = 0, em_result = [], em_result_len = 0, em_query_pow = 0\<rparr> [(0, BOFQuantizeResult_new)]
        \<lparr>mp_partition_num = 1, mp_he_threshold = 3, mp_begin_word_id = 0,
         mp_result_similar = [], mp_query_pow = 0, mp_img_qdata = [], mp_pmv = []\<rparr> =
      (if rs = [] then Some (-8, \<lparr>em_ret_num = 0, em_result = [], em_result_len = 0, em_query_pow = 0\<rparr>, demo_store, mp')
       else Some (0, \<lparr>em_ret_num = 0, em_result = [], em_result_len = 0, em_query_pow = 0\<rparr>\<lparr>em_ret_num := 0,
         em_result := ''archive'', em_result_len := int (length rs), em_query_pow := pow\<rparr>, demo_store, mp'))"
proof (rule MergeProcessor_answers_request [where encode = "\<lambda>_. ''archive''"])
  show "words_ok (\<lambda>_. 0) (\<lambda>_. 1) demo_store (\<lambda>_. Some demo_word) [(0, BOFQuantizeResult_new)]"
    using demo_store_word
    by (simp add: words_ok_def word_read_def BOFQuantizeResult_new_def demo_word_def pic_sorted_def item_ok_def)
qed simp_all

end
