(* ===== verification/Array_List.thy ===== *)
theory Array_List
  imports Prelude "HOL-Library.Monad_Syntax"
begin

text \<open>
  The doubly linked list in an array of \<open>libsrc/blitz/include/blitz/array_list.h\<close> (class
  \<open>ArrayList\<close>; \<open>libsrc/blitz2\<close> has the same code). Cell 0 heads the list of free cells;
  a free cell has \<open>prev = -1\<close>. The theory models every operation on the cells and proves that
  they implement operations on a list of positions: between the first and the last element the
  \<open>next\<close> and \<open>prev\<close> links traverse the same positions in opposite order, and every cell is
  either in the list or in the free list.
\<close>

record 'a cell =
  c_data :: 'a
  c_prev :: int
  c_next :: int

record 'a array_list =
  al_array :: "'a cell list option"
  head_prev :: int
  head_next :: int
  al_count :: int
  al_max_count :: int

definition ArrayList :: "'a array_list" where
  "ArrayList = \<lparr>al_array = None, head_prev = 0, head_next = 0, al_count = 0, al_max_count = 0\<rparr>"

subsection \<open>Cells\<close>

definition valid :: "'a cell list \<Rightarrow> int \<Rightarrow> bool" where
  "valid a i \<longleftrightarrow> 0 \<le> i \<and> nat i < length a"

definition get_cell :: "'a cell list \<Rightarrow> int \<Rightarrow> 'a cell cxx" where
  "get_cell a i = (if valid a i then Some (a ! nat i) else None)"

definition set_next :: "'a cell list \<Rightarrow> int \<Rightarrow> int \<Rightarrow> 'a cell list cxx" where
  "set_next a i v = (if valid a i then Some (a[nat i := (a ! nat i)\<lparr>c_next := v\<rparr>]) else None)"

definition set_prev :: "'a cell list \<Rightarrow> int \<Rightarrow> int \<Rightarrow> 'a cell list cxx" where
  "set_prev a i v = (if valid a i then Some (a[nat i := (a ! nat i)\<lparr>c_prev := v\<rparr>]) else None)"

definition set_data :: "'a cell list \<Rightarrow> int \<Rightarrow> 'a \<Rightarrow> 'a cell list cxx" where
  "set_data a i d = (if valid a i then Some (a[nat i := (a ! nat i)\<lparr>c_data := d\<rparr>]) else None)"

subsection \<open>Operations\<close>

definition Clear :: "'a array_list \<Rightarrow> 'a array_list cxx" where
  "Clear l = do {
     a \<leftarrow> al_array l;
     a' \<leftarrow> set_next (map (\<lambda>i. (a ! i)\<lparr>c_prev := -1, c_next := int i + 1\<rparr>) [0..<length a]) (al_max_count l) 0;
     Some (l\<lparr>al_count := 0, head_next := 0, head_prev := 0, al_array := Some a'\<rparr>)
   }"

text \<open>\<open>new Item[max_count_ + 1]\<close> leaves the links of the new cells unspecified and throws on a negative size.\<close>

definition AL_Init :: "(nat \<Rightarrow> 'a cell) \<Rightarrow> 'a array_list \<Rightarrow> int \<Rightarrow> (int \<times> 'a array_list) cxx" where
  "AL_Init junk l n =
     (case al_array l of
        Some _ \<Rightarrow> Some (1, l)
      | None \<Rightarrow>
          if n + 1 < 0 then None
          else do {
            l' \<leftarrow> Clear (l\<lparr>al_max_count := n, al_array := Some (map junk [0..<nat (n + 1)])\<rparr>);
            Some (0, l')
          })"

definition AllocFromFreeList :: "'a array_list \<Rightarrow> (int \<times> 'a array_list) cxx" where
  "AllocFromFreeList l = do {
     a \<leftarrow> al_array l;
     c0 \<leftarrow> get_cell a 0;
     if c_next c0 = 0 then Some (0, l)
     else do {
       c \<leftarrow> get_cell a (c_next c0);
       a' \<leftarrow> set_next a 0 (c_next c);
       Some (c_next c0, l\<lparr>al_array := Some a', al_count := al_count l + 1\<rparr>)
     }
   }"

definition ReturnToFreeList :: "'a array_list \<Rightarrow> int \<Rightarrow> 'a array_list cxx" where
  "ReturnToFreeList l pos = do {
     a \<leftarrow> al_array l;
     a1 \<leftarrow> set_prev a pos (-1);
     c0 \<leftarrow> get_cell a1 0;
     a2 \<leftarrow> set_next a1 pos (c_next c0);
     a3 \<leftarrow> set_next a2 0 pos;
     Some (l\<lparr>al_array := Some a3, al_count := al_count l - 1\<rparr>)
   }"

definition IsFree :: "'a array_list \<Rightarrow> int \<Rightarrow> bool cxx" where
  "IsFree l pos =
     (if 0 \<le> pos \<and> pos \<le> al_max_count l then do {
        a \<leftarrow> al_array l;
        c \<leftarrow> get_cell a pos;
        Some (c_prev c = -1)
      } else None)"

definition PushBack :: "'a array_list \<Rightarrow> 'a \<Rightarrow> (int \<times> 'a array_list) cxx" where
  "PushBack l d = do {
     (pos, l1) \<leftarrow> AllocFromFreeList l;
     if pos = 0 then Some (0, l1)
     else do {
       a \<leftarrow> al_array l1;
       a1 \<leftarrow> set_next a pos 0;
       a2 \<leftarrow> set_prev a1 pos (head_prev l1);
       a3 \<leftarrow> set_data a2 pos d;
       if head_prev l1 \<noteq> 0 then do {
         a4 \<leftarrow> set_next a3 (head_prev l1) pos;
         Some (pos, l1\<lparr>al_array := Some a4, head_prev := pos\<rparr>)
       } else Some (pos, l1\<lparr>al_array := Some a3, head_next := pos, head_prev := pos\<rparr>)
     }
   }"

definition PushFront :: "'a array_list \<Rightarrow> 'a \<Rightarrow> (int \<times> 'a array_list) cxx" where
  "PushFront l d = do {
     (pos, l1) \<leftarrow> AllocFromFreeList l;
     if pos = 0 then Some (0, l1)
     else do {
       a \<leftarrow> al_array l1;
       a1 \<leftarrow> set_next a pos (head_next l1);
       a2 \<leftarrow> set_prev a1 pos 0;
       a3 \<leftarrow> set_data a2 pos d;
       if head_next l1 \<noteq> 0 then do {
         a4 \<leftarrow> set_prev a3 (head_next l1) pos;
         Some (pos, l1\<lparr>al_array := Some a4, head_next := pos\<rparr>)
       } else Some (pos, l1\<lparr>al_array := Some a3, head_prev := pos, head_next := pos\<rparr>)
     }
   }"

definition InsertAfter :: "'a array_list \<Rightarrow> int \<Rightarrow> 'a \<Rightarrow> (int \<times> 'a array_list) cxx" where
  "InsertAfter l pos d =
     (if pos = 0 then PushFront l d
      else do {
        free \<leftarrow> IsFree l pos;
        if free then Some (-2, l)
        else do {
          (new_pos, l1) \<leftarrow> AllocFromFreeList l;
          if new_pos \<le> 0 then Some (new_pos, l1)
          else do {
            a \<leftarrow> al_array l1;
            c \<leftarrow> get_cell a pos;
            a1 \<leftarrow> set_next a new_pos (c_next c);
            a2 \<leftarrow> set_prev a1 new_pos pos;
            a3 \<leftarrow> set_data a2 new_pos d;
            c' \<leftarrow> get_cell a3 pos;
            let l2 = (if c_next c' \<noteq> 0 then l1 else l1\<lparr>head_prev := new_pos\<rparr>) in do {
              a4 \<leftarrow> (if c_next c' \<noteq> 0 then set_prev a3 (c_next c') new_pos else Some a3);
              a5 \<leftarrow> set_next a4 pos new_pos;
              Some (new_pos, l2\<lparr>al_array := Some a5\<rparr>)
            }
          }
        }
      })"

definition Remove :: "'a array_list \<Rightarrow> int \<Rightarrow> 'a array_list cxx" where
  "Remove l pos =
     (if pos \<le> 0 then Some l
      else do {
        a \<leftarrow> al_array l;
        c \<leftarrow> get_cell a pos;
        let prev = c_prev c; next = c_next c in do {
          a1 \<leftarrow> (if prev = 0 then Some a else set_next a prev next);
          a2 \<leftarrow> (if next = 0 then Some a1 else set_prev a1 next prev);
          ReturnToFreeList
            (l\<lparr>al_array := Some a2, head_next := (if prev = 0 then next else head_next l),
               head_prev := (if next = 0 then prev else head_prev l)\<rparr>) pos
        }
      })"

definition First :: "'a array_list \<Rightarrow> int" where
  "First l = head_next l"

definition Last :: "'a array_list \<Rightarrow> int" where
  "Last l = head_prev l"

definition Next :: "'a array_list \<Rightarrow> int \<Rightarrow> int cxx" where
  "Next l pos = do {
     free \<leftarrow> IsFree l pos;
     if free then Some 0 else do { a \<leftarrow> al_array l; c \<leftarrow> get_cell a pos; Some (c_next c) }
   }"

definition Prev :: "'a array_list \<Rightarrow> int \<Rightarrow> int cxx" where
  "Prev l pos = do {
     free \<leftarrow> IsFree l pos;
     if free then Some (-1) else do { a \<leftarrow> al_array l; c \<leftarrow> get_cell a pos; Some (c_prev c) }
   }"

text \<open>A \<open>NULL\<close> result is \<open>None\<close> inside the outer result.\<close>

definition Get :: "'a array_list \<Rightarrow> int \<Rightarrow> 'a option cxx" where
  "Get l pos = do {
     free \<leftarrow> IsFree l pos;
     if free then Some None else do { a \<leftarrow> al_array l; c \<leftarrow> get_cell a pos; Some (Some (c_data c)) }
   }"

subsection \<open>Links\<close>

definition nx :: "'a cell list \<Rightarrow> nat \<Rightarrow> int" where
  "nx a i = c_next (a ! i)"

definition pv :: "'a cell list \<Rightarrow> nat \<Rightarrow> int" where
  "pv a i = c_prev (a ! i)"

definition dt :: "'a cell list \<Rightarrow> nat \<Rightarrow> 'a" where
  "dt a i = c_data (a ! i)"

lemma cell_upd [simp]:
  assumes "p < length a"
  shows "nx (a[p := c]) = (nx a)(p := c_next c)" "pv (a[p := c]) = (pv a)(p := c_prev c)"
    "dt (a[p := c]) = (dt a)(p := c_data c)"
  using assms by (auto simp: nx_def pv_def dt_def fun_eq_iff nth_list_update)

lemma cell_fold: "c_next (a ! i) = nx a i" "c_prev (a ! i) = pv a i" "c_data (a ! i) = dt a i"
  by (simp_all add: nx_def pv_def dt_def)

subsection \<open>The representation\<close>

text \<open>
  The array \<open>a\<close> with the list \<open>xs\<close> (first \<open>hn\<close>, last \<open>hp\<close>), the free list
  \<open>fs\<close> and the cells \<open>ds\<close> that are in neither.
\<close>

definition shape :: "'a cell list \<Rightarrow> int \<Rightarrow> int \<Rightarrow> nat list \<Rightarrow> nat list \<Rightarrow> nat list \<Rightarrow> bool" where
  "shape a hn hp xs fs ds \<longleftrightarrow>
     path (nx a) hn xs 0 \<and> path (pv a) hp (rev xs) 0 \<and> path (nx a) (nx a 0) fs 0 \<and>
     (\<forall>f \<in> set fs. pv a f = -1) \<and> pv a 0 = -1 \<and> distinct (xs @ fs @ ds) \<and> set (xs @ fs @ ds) = {1..<length a} \<and>
     0 < length a"

lemma shape_less: "shape a hn hp xs fs ds \<Longrightarrow> p \<in> set (xs @ fs @ ds) \<Longrightarrow> 0 < p \<and> p < length a"
  unfolding shape_def by (metis atLeastLessThan_iff less_le_trans zero_less_one)

lemma shape_alloc:
  assumes "shape a hn hp xs (p # fs) []"
  shows "nx a 0 = int p" and "shape (a[0 := (a ! 0)\<lparr>c_next := nx a p\<rparr>]) hn hp xs fs [p]"
proof -
  show "nx a 0 = int p" using assms by (simp add: shape_def)
  have "0 \<notin> set xs" "0 \<notin> set fs" "0 < length a"
    using shape_less [OF assms, of 0] assms by (auto simp: shape_def)
  then show "shape (a[0 := (a ! 0)\<lparr>c_next := nx a p\<rparr>]) hn hp xs fs [p]"
    using assms by (auto simp: shape_def cell_fold)
qed

text \<open>Linking a detached cell \<open>p\<close> between the positions \<open>ys\<close> and \<open>zs\<close> of the list.\<close>

lemma shape_link:
  assumes sh: "shape a hn hp (ys @ zs) fs [p]"
    and nxt: "n = (if zs = [] then 0 else int (hd zs))" and prv: "q = (if ys = [] then 0 else int (last ys))"
    and b: "nx b = (if ys = [] then nx a else (nx a)(last ys := int p))(p := n)"
      "pv b = (if zs = [] then pv a else (pv a)(hd zs := int p))(p := q)" "length b = length a"
  shows "shape b (if ys = [] then int p else hn) (if zs = [] then int p else hp) (ys @ p # zs) fs []"
proof -
  have d: "distinct (ys @ zs @ fs @ [p])" "set (ys @ zs @ fs @ [p]) = {1..<length a}" "0 < length a"
    using sh by (auto simp: shape_def)
  have p0: "p \<noteq> 0" and ys0: "0 \<notin> set ys" and zs0: "0 \<notin> set zs"
    using shape_less [OF sh, of p] shape_less [OF sh, of 0] by auto
  have nf: "path (nx a) hn (ys @ zs) 0" and nb: "path (pv a) hp (rev zs @ rev ys) 0" using sh by (auto simp: shape_def)
  obtain m where m: "path (nx a) hn ys m" "path (nx a) m zs 0" using nf by (auto simp: path_append)
  obtain k where k: "path (pv a) hp (rev zs) k" "path (pv a) k (rev ys) 0" using nb by (auto simp: path_append)
  have mn: "m = n" using m(2) nxt by (cases zs) auto
  have kq: "k = q" using k(2) prv by (cases ys rule: rev_cases) auto
  have fwd: "path (nx b) (if ys = [] then int p else hn) (ys @ p # zs) 0"
  proof (cases ys rule: rev_cases)
    case Nil
    then show ?thesis using m mn d(1) b(1) by simp
  next
    case (snoc ys' y)
    have "path ((nx a)(y := int p)) hn (ys' @ [y]) (int p)"
      using path_retarget [of "nx a" hn ys' y m] m(1) d(1) snoc by simp
    moreover have "path ((nx a)(y := int p)) n zs 0" using m(2) mn d(1) snoc by simp
    ultimately show ?thesis using b(1) snoc d(1) by (auto simp: path_append)
  qed
  have bwd: "path (pv b) (if zs = [] then int p else hp) (rev (ys @ p # zs)) 0"
  proof (cases zs)
    case Nil
    then show ?thesis using k kq d(1) b(2) by simp
  next
    case (Cons z zs')
    have "path ((pv a)(z := int p)) hp (rev zs' @ [z]) (int p)"
      using path_retarget [of "pv a" hp "rev zs'" z k] k(1) d(1) Cons by simp
    moreover have "path ((pv a)(z := int p)) q (rev ys) 0" using k(2) kq d(1) Cons by simp
    ultimately show ?thesis using b(2) Cons d(1) by (auto simp: path_append)
  qed
  have "nx b 0 = nx a 0" "pv b 0 = pv a 0" "path (nx b) (nx a 0) fs 0 = path (nx a) (nx a 0) fs 0"
    "\<forall>f \<in> set fs. pv b f = pv a f"
    using b(1,2) p0 ys0 zs0 d(1) by (auto dest: last_in_set hd_in_set)
  with fwd bwd sh b(3) d show ?thesis by (auto simp: shape_def)
qed

text \<open>Taking the cell \<open>p\<close> out of the list.\<close>

lemma shape_links:
  assumes "shape a hn hp (ys @ p # zs) fs ds"
  shows "nx a p = (if zs = [] then 0 else int (hd zs))" and "pv a p = (if ys = [] then 0 else int (last ys))"
proof -
  have "path (nx a) hn (ys @ p # zs) 0" using assms by (simp add: shape_def)
  then have "path (nx a) (nx a p) zs 0" by (auto simp: path_append)
  then show "nx a p = (if zs = [] then 0 else int (hd zs))" by (cases zs) auto
  have "path (pv a) hp (rev zs @ p # rev ys) 0" using assms by (simp add: shape_def)
  then have "path (pv a) (pv a p) (rev ys) 0" by (auto simp: path_append)
  then show "pv a p = (if ys = [] then 0 else int (last ys))" by (cases ys rule: rev_cases) auto
qed

lemma shape_unlink:
  assumes sh: "shape a hn hp (ys @ p # zs) fs []" and n: "n = nx a p" and q: "q = pv a p"
    and b: "nx b = (if ys = [] then nx a else (nx a)(last ys := n))"
      "pv b = (if zs = [] then pv a else (pv a)(hd zs := q))" "length b = length a"
  shows "shape b (if ys = [] then n else hn) (if zs = [] then q else hp) (ys @ zs) fs [p]"
proof -
  have d: "distinct (ys @ p # zs @ fs)" using sh by (auto simp: shape_def)
  have ys0: "0 \<notin> set ys" and zs0: "0 \<notin> set zs" using shape_less [OF sh, of 0] by auto
  have "path (nx a) hn (ys @ p # zs) 0" using sh by (simp add: shape_def)
  then have m: "path (nx a) hn ys (int p)" "path (nx a) n zs 0" by (auto simp: path_append n)
  have "path (pv a) hp (rev zs @ p # rev ys) 0" using sh by (simp add: shape_def)
  then have k: "path (pv a) hp (rev zs) (int p)" "path (pv a) q (rev ys) 0" by (auto simp: path_append q)
  have fwd: "path (nx b) (if ys = [] then n else hn) (ys @ zs) 0"
  proof (cases ys rule: rev_cases)
    case Nil
    then show ?thesis using m b(1) by simp
  next
    case (snoc ys' y)
    have "path ((nx a)(y := n)) hn (ys' @ [y]) n" using path_retarget [of "nx a" hn ys' y] m(1) d snoc by simp
    moreover have "path ((nx a)(y := n)) n zs 0" using m(2) d snoc by simp
    ultimately show ?thesis using b(1) snoc by (auto simp: path_append)
  qed
  have bwd: "path (pv b) (if zs = [] then q else hp) (rev (ys @ zs)) 0"
  proof (cases zs)
    case Nil
    then show ?thesis using k b(2) by simp
  next
    case (Cons z zs')
    have "path ((pv a)(z := q)) hp (rev zs' @ [z]) q" using path_retarget [of "pv a" hp "rev zs'" z] k(1) d Cons by simp
    moreover have "path ((pv a)(z := q)) q (rev ys) 0" using k(2) d Cons by simp
    ultimately show ?thesis using b(2) Cons by (auto simp: path_append)
  qed
  have "nx b 0 = nx a 0" "pv b 0 = pv a 0" "path (nx b) (nx a 0) fs 0 = path (nx a) (nx a 0) fs 0"
    "\<forall>f \<in> set fs. pv b f = pv a f"
    using b(1,2) ys0 zs0 d by (auto dest: last_in_set hd_in_set)
  with fwd bwd sh b(3) show ?thesis by (auto simp: shape_def)
qed

lemma shape_free:
  assumes "shape a hn hp xs fs [p]"
    and "nx b = (nx a)(p := nx a 0, 0 := int p)" "pv b = (pv a)(p := -1)" "length b = length a"
  shows "shape b hn hp xs (p # fs) []"
proof -
  have "p \<noteq> 0" "0 \<notin> set xs" "0 \<notin> set fs" using shape_less [OF assms(1), of p] shape_less [OF assms(1), of 0] by auto
  with assms show ?thesis by (auto simp: shape_def)
qed

definition al_rep :: "'a array_list \<Rightarrow> nat list \<Rightarrow> nat list \<Rightarrow> bool" where
  "al_rep l xs fs \<longleftrightarrow> (\<exists>a. al_array l = Some a \<and> int (length a) = al_max_count l + 1 \<and>
     shape a (head_next l) (head_prev l) xs fs [] \<and> al_count l = int (length xs))"

definition al_data :: "'a array_list \<Rightarrow> nat \<Rightarrow> 'a" where
  "al_data l = dt (the (al_array l))"

lemma Alloc_none:
  assumes "al_rep l xs []" shows "AllocFromFreeList l = Some (0, l)"
  using assms by (auto simp: al_rep_def AllocFromFreeList_def shape_def get_cell_def valid_def cell_fold)

lemma Alloc_cell:
  assumes "al_rep l xs (p # fs)"
  shows "\<exists>a. AllocFromFreeList l = Some (int p, l\<lparr>al_array := Some a, al_count := int (length xs) + 1\<rparr>) \<and>
    shape a (head_next l) (head_prev l) xs fs [p] \<and> int (length a) = al_max_count l + 1 \<and> dt a = al_data l"
proof -
  from assms obtain a where a: "al_array l = Some a" "int (length a) = al_max_count l + 1"
    "shape a (head_next l) (head_prev l) xs (p # fs) []" "al_count l = int (length xs)" by (auto simp: al_rep_def)
  note al = shape_alloc [OF a(3)]
  have "0 < p" "p < length a" "0 < length a" using shape_less [OF a(3), of p] a(3) by (auto simp: shape_def)
  then show ?thesis using a al
    by (auto simp: AllocFromFreeList_def get_cell_def set_next_def valid_def cell_fold al_data_def)
qed

lemma PushBack_full: "al_rep l xs [] \<Longrightarrow> PushBack l d = Some (0, l)"
  by (simp add: PushBack_def Alloc_none)

lemma shape_heads:
  assumes "shape a hn hp xs fs ds"
  shows "hn = (if xs = [] then 0 else int (hd xs))" and "hp = (if xs = [] then 0 else int (last xs))"
proof -
  show "hn = (if xs = [] then 0 else int (hd xs))" using assms by (cases xs) (auto simp: shape_def)
  show "hp = (if xs = [] then 0 else int (last xs))" using assms by (cases xs rule: rev_cases) (auto simp: shape_def)
qed

lemma PushBack_rep:
  assumes "al_rep l xs (p # fs)"
  shows "\<exists>l'. PushBack l d = Some (int p, l') \<and> al_rep l' (xs @ [p]) fs \<and> al_data l' = (al_data l)(p := d) \<and>
    al_max_count l' = al_max_count l"
proof -
  obtain a where a: "AllocFromFreeList l = Some (int p, l\<lparr>al_array := Some a, al_count := int (length xs) + 1\<rparr>)"
    "shape a (head_next l) (head_prev l) xs fs [p]" "int (length a) = al_max_count l + 1" "dt a = al_data l"
    using Alloc_cell [OF assms] by auto
  have p: "0 < p" "p < length a" "p \<notin> set xs" using shape_less [OF a(2), of p] a(2) by (auto simp: shape_def)
  note hd = shape_heads [OF a(2)]
  let ?c = "(a ! p)\<lparr>c_next := 0, c_prev := head_prev l, c_data := d\<rparr>"
  define b where "b = (let b0 = a[p := ?c] in if xs = [] then b0 else b0[last xs := (b0 ! last xs)\<lparr>c_next := int p\<rparr>])"
  have last: "xs \<noteq> [] \<Longrightarrow> last xs < length a \<and> last xs \<noteq> p \<and> last xs \<noteq> 0"
    using shape_less [OF a(2), of "last xs"] p(3) by (auto dest: last_in_set)
  have "nx b = (if xs = [] then nx a else (nx a)(last xs := int p))(p := 0)"
    "pv b = (pv a)(p := head_prev l)" "dt b = (dt a)(p := d)" "length b = length a"
    using p(2) last by (auto simp: b_def Let_def cell_fold fun_eq_iff)
  note b = this
  have "shape b (if xs = [] then int p else head_next l) (int p) (xs @ [p]) fs []"
    using shape_link [of a "head_next l" "head_prev l" xs "[]" fs p 0 "head_prev l" b] a(2) b hd(2) by simp
  moreover have "PushBack l d = Some (int p, l\<lparr>al_array := Some b, al_count := int (length xs) + 1,
      head_next := (if xs = [] then int p else head_next l), head_prev := int p\<rparr>)"
    using a(1) p last hd by (auto simp: PushBack_def set_next_def set_prev_def set_data_def valid_def b_def Let_def)
  ultimately show ?thesis using a(3,4) b(3,4) by (auto simp: al_rep_def al_data_def)
qed

lemma PushFront_rep:
  assumes "al_rep l xs (p # fs)"
  shows "\<exists>l'. PushFront l d = Some (int p, l') \<and> al_rep l' (p # xs) fs \<and> al_data l' = (al_data l)(p := d) \<and>
    al_max_count l' = al_max_count l"
proof -
  obtain a where a: "AllocFromFreeList l = Some (int p, l\<lparr>al_array := Some a, al_count := int (length xs) + 1\<rparr>)"
    "shape a (head_next l) (head_prev l) xs fs [p]" "int (length a) = al_max_count l + 1" "dt a = al_data l"
    using Alloc_cell [OF assms] by auto
  have p: "0 < p" "p < length a" "p \<notin> set xs" using shape_less [OF a(2), of p] a(2) by (auto simp: shape_def)
  note heads = shape_heads [OF a(2)]
  let ?c = "(a ! p)\<lparr>c_next := head_next l, c_prev := 0, c_data := d\<rparr>"
  define b where "b = (let b0 = a[p := ?c] in if xs = [] then b0 else b0[hd xs := (b0 ! hd xs)\<lparr>c_prev := int p\<rparr>])"
  have first: "xs \<noteq> [] \<Longrightarrow> hd xs < length a \<and> hd xs \<noteq> p \<and> hd xs \<noteq> 0"
    using shape_less [OF a(2), of "hd xs"] p(3) by (auto dest: hd_in_set)
  have b: "nx b = (nx a)(p := head_next l)" "pv b = (if xs = [] then pv a else (pv a)(hd xs := int p))(p := 0)"
    "dt b = (dt a)(p := d)" "length b = length a"
    using p(2) first by (auto simp: b_def Let_def cell_fold fun_eq_iff)
  have "shape b (int p) (if xs = [] then int p else head_prev l) (p # xs) fs []"
    using shape_link [of a "head_next l" "head_prev l" "[]" xs fs p "head_next l" 0 b] a(2) b heads(1) by simp
  moreover have "PushFront l d = Some (int p, l\<lparr>al_array := Some b, al_count := int (length xs) + 1,
      head_next := int p, head_prev := (if xs = [] then int p else head_prev l)\<rparr>)"
    using a(1) p first heads by (auto simp: PushFront_def set_next_def set_prev_def set_data_def valid_def b_def Let_def)
  ultimately show ?thesis using a(3,4) b(3,4) by (auto simp: al_rep_def al_data_def)
qed

lemma IsFree_rep:
  assumes "al_rep l xs fs" and "0 \<le> i" and "i \<le> al_max_count l"
  shows "IsFree l i = Some (nat i \<notin> set xs)"
proof -
  from assms(1) obtain a where a: "al_array l = Some a" "int (length a) = al_max_count l + 1"
    "shape a (head_next l) (head_prev l) xs fs []" by (auto simp: al_rep_def)
  have less: "nat i < length a" using a(2) assms(2,3) by linarith
  have "pv a (nat i) = -1 \<longleftrightarrow> nat i \<notin> set xs"
  proof (cases "nat i \<in> set xs")
    case True
    then obtain ys zs where "xs = ys @ nat i # zs" by (meson split_list)
    then have "pv a (nat i) = (if ys = [] then 0 else int (last ys))" using a(3) by (intro shape_links(2)) simp
    then show ?thesis using True by auto
  next
    case False
    have "set (xs @ fs) = {1..<length a}" using a(3) by (simp add: shape_def)
    then have "nat i = 0 \<or> nat i \<in> set fs" using False less by (cases "nat i = 0") auto
    then show ?thesis using False a(3) by (auto simp: shape_def)
  qed
  with a(1) less assms(2,3) show ?thesis by (simp add: IsFree_def get_cell_def valid_def cell_fold)
qed

lemma rep_bound:
  assumes "al_rep l xs fs" and "q \<in> set xs \<union> set fs"
  shows "0 < q" and "int q \<le> al_max_count l"
proof -
  from assms(1) obtain a where a: "int (length a) = al_max_count l + 1"
    "shape a (head_next l) (head_prev l) xs fs []" "al_array l = Some a" by (auto simp: al_rep_def)
  from shape_less [OF a(2), of q] assms(2) have "0 < q" "q < length a" by auto
  then show "0 < q" "int q \<le> al_max_count l" using a(1) by auto
qed

lemma InsertAfter_rep:
  assumes "al_rep l (ys @ q # zs) (p # fs)"
  shows "\<exists>l'. InsertAfter l (int q) d = Some (int p, l') \<and> al_rep l' (ys @ q # p # zs) fs \<and>
    al_data l' = (al_data l)(p := d) \<and> al_max_count l' = al_max_count l"
proof -
  let ?xs = "ys @ q # zs"
  obtain a where a: "AllocFromFreeList l = Some (int p, l\<lparr>al_array := Some a, al_count := int (length ?xs) + 1\<rparr>)"
    "shape a (head_next l) (head_prev l) ?xs fs [p]" "int (length a) = al_max_count l + 1" "dt a = al_data l"
    using Alloc_cell [OF assms] by auto
  have p: "0 < p" "p < length a" "p \<notin> set ?xs" using shape_less [OF a(2), of p] a(2) by (auto simp: shape_def)
  have q: "0 < q" "q < length a" "q \<noteq> p" using shape_less [OF a(2), of q] p(3) by auto
  note ln = shape_links(1) [OF a(2)] and heads = shape_heads [OF a(2)]
  let ?n = "nx a q" and ?c = "(a ! p)\<lparr>c_next := nx a q, c_prev := int q, c_data := d\<rparr>"
  define b where "b = (let b0 = a[p := ?c]; b1 = (if zs = [] then b0 else b0[hd zs := (b0 ! hd zs)\<lparr>c_prev := int p\<rparr>])
    in b1[q := (b1 ! q)\<lparr>c_next := int p\<rparr>])"
  have z: "zs \<noteq> [] \<Longrightarrow> hd zs < length a \<and> hd zs \<noteq> p \<and> hd zs \<noteq> 0 \<and> hd zs \<noteq> q"
    using shape_less [OF a(2), of "hd zs"] p(3) a(2) by (auto simp: shape_def dest: hd_in_set)
  have b: "nx b = ((nx a)(q := int p))(p := ?n)" "pv b = (if zs = [] then pv a else (pv a)(hd zs := int p))(p := int q)"
    "dt b = (dt a)(p := d)" "length b = length a"
    using p(2) q z by (auto simp: b_def Let_def cell_fold fun_eq_iff)
  have "shape b (head_next l) (if zs = [] then int p else head_prev l) (ys @ q # p # zs) fs []"
    using shape_link [of a "head_next l" "head_prev l" "ys @ [q]" zs fs p ?n "int q" b] a(2) b ln by simp
  moreover have "InsertAfter l (int q) d = Some (int p, l\<lparr>al_array := Some b, al_count := int (length ?xs) + 1,
      head_prev := (if zs = [] then int p else head_prev l)\<rparr>)"
  proof -
    have "IsFree l (int q) = Some False" using IsFree_rep [OF assms] rep_bound [OF assms, of q] by simp
    then show ?thesis
      using a(1) p q z ln
      by (cases "zs = []") (simp_all add: InsertAfter_def set_next_def set_prev_def set_data_def get_cell_def valid_def b_def
          cell_fold)
  qed
  ultimately show ?thesis using a(3,4) b(3,4) by (auto simp: al_rep_def al_data_def)
qed

lemma Remove_rep:
  assumes "al_rep l (ys @ p # zs) fs"
  shows "\<exists>l'. Remove l (int p) = Some l' \<and> al_rep l' (ys @ zs) (p # fs) \<and> al_data l' = al_data l \<and>
    al_max_count l' = al_max_count l"
proof -
  from assms obtain a where a: "al_array l = Some a" "int (length a) = al_max_count l + 1"
    "shape a (head_next l) (head_prev l) (ys @ p # zs) fs []" "al_count l = int (length (ys @ p # zs))"
    by (auto simp: al_rep_def)
  have p: "0 < p" "p < length a" "0 < length a" using shape_less [OF a(3), of p] by auto
  note ln = shape_links [OF a(3)]
  have y: "ys \<noteq> [] \<Longrightarrow> last ys < length a \<and> last ys \<noteq> 0 \<and> last ys \<noteq> p"
    using shape_less [OF a(3), of "last ys"] a(3) by (auto simp: shape_def dest: last_in_set)
  have z: "zs \<noteq> [] \<Longrightarrow> hd zs < length a \<and> hd zs \<noteq> 0 \<and> hd zs \<noteq> p"
    using shape_less [OF a(3), of "hd zs"] a(3) by (auto simp: shape_def dest: hd_in_set)
  define b1 where "b1 = (if ys = [] then a else a[last ys := (a ! last ys)\<lparr>c_next := nx a p\<rparr>])"
  define b where "b = (if zs = [] then b1 else b1[hd zs := (b1 ! hd zs)\<lparr>c_prev := pv a p\<rparr>])"
  have b: "nx b = (if ys = [] then nx a else (nx a)(last ys := nx a p))"
    "pv b = (if zs = [] then pv a else (pv a)(hd zs := pv a p))" "dt b = dt a" "length b = length a"
    using y z by (auto simp: b_def b1_def cell_fold fun_eq_iff)
  have sh: "shape b (if ys = [] then nx a p else head_next l) (if zs = [] then pv a p else head_prev l) (ys @ zs) fs [p]"
    by (rule shape_unlink [OF a(3) refl refl b(1,2,4)])
  define b2 where "b2 = b[p := (b ! p)\<lparr>c_prev := -1\<rparr>]"
  define b3 where "b3 = b2[p := (b2 ! p)\<lparr>c_next := nx b 0\<rparr>]"
  define b4 where "b4 = b3[0 := (b3 ! 0)\<lparr>c_next := int p\<rparr>]"
  have b4: "nx b4 = (nx b)(p := nx b 0, 0 := int p)" "pv b4 = (pv b)(p := -1)" "dt b4 = dt b" "length b4 = length b"
    using p b(4) by (auto simp: b4_def b3_def b2_def cell_fold fun_eq_iff)
  let ?l = "l\<lparr>al_array := Some b4, head_next := (if ys = [] then nx a p else head_next l),
      head_prev := (if zs = [] then pv a p else head_prev l), al_count := int (length (ys @ zs))\<rparr>"
  have "Remove l (int p) = Some ?l"
    using a(1,4) p y z ln b(4)
    by (cases "zs = []"; cases "ys = []")
      (simp_all add: Remove_def ReturnToFreeList_def set_next_def set_prev_def get_cell_def valid_def b4_def b3_def b2_def
        b_def b1_def Let_def cell_fold)
  moreover have "al_rep ?l (ys @ zs) (p # fs)"
    using shape_free [OF sh b4(1,2)] a(2) b(4) b4(4) by (simp add: al_rep_def)
  ultimately show ?thesis using a(1) b(3) b4(3) by (auto simp: al_data_def)
qed

lemma AL_Init_rep:
  assumes "0 \<le> n"
  shows "\<exists>l. AL_Init junk ArrayList n = Some (0, l) \<and> al_rep l [] [1..<nat n + 1] \<and> al_max_count l = n"
proof -
  let ?m = "nat n"
  define a where "a = map (\<lambda>i. (map junk [0..<nat (n + 1)] ! i)\<lparr>c_prev := -1, c_next := int i + 1\<rparr>) [0..<nat (n + 1)]"
  define b where "b = a[?m := (a ! ?m)\<lparr>c_next := 0\<rparr>]"
  have len: "length a = ?m + 1" "length b = ?m + 1" using assms by (simp_all add: a_def b_def nat_add_distrib)
  have na: "nx a i = int i + 1" "pv a i = -1" if "i < ?m + 1" for i
    using that assms by (simp_all add: a_def nx_def pv_def nat_add_distrib del: upt_Suc)
  have nb: "nx b = (nx a)(?m := 0)" "pv b = pv a" using len by (simp_all add: b_def cell_fold)
  have "path (nx b) (nx b 0) [1..<?m + 1] 0"
  proof (cases "?m = 0")
    case False
    have "path (nx a) (int 1) [1..<?m] (int ?m)" using na(1) False by (intro path_consecutive) auto
    then have "path (nx a) 1 ([1..<?m] @ [?m]) (nx a ?m)" using False by (simp add: path_append)
    then have "path ((nx a)(?m := 0)) 1 ([1..<?m] @ [?m]) 0" by (rule path_retarget) simp
    then show ?thesis using na(1) [of 0] nb(1) False by (simp add: upt_Suc_append)
  qed (simp add: nb)
  then have "shape b 0 0 [] [1..<?m + 1] []" using nb(2) na(2) len by (auto simp: shape_def)
  moreover have "Clear (ArrayList\<lparr>al_max_count := n, al_array := Some (map junk [0..<nat (n + 1)])\<rparr>)
      = Some (ArrayList\<lparr>al_max_count := n, al_array := Some b\<rparr>)"
    using assms len(1) by (simp add: Clear_def set_next_def valid_def a_def b_def ArrayList_def nat_add_distrib del: upt_Suc)
  moreover have "int (length b) = n + 1" using len(2) assms by simp
  ultimately show ?thesis
    using assms by (auto simp: AL_Init_def al_rep_def ArrayList_def del: upt_Suc)
qed

text \<open>Reading along the links.\<close>

lemma Next_rep:
  assumes "al_rep l (ys @ p # zs) fs"
  shows "Next l (int p) = Some (if zs = [] then 0 else int (hd zs))"
    and "Prev l (int p) = Some (if ys = [] then 0 else int (last ys))"
    and "Get l (int p) = Some (Some (al_data l p))"
proof -
  from assms obtain a where a: "al_array l = Some a" "shape a (head_next l) (head_prev l) (ys @ p # zs) fs []"
    by (auto simp: al_rep_def)
  have p: "p < length a" using shape_less [OF a(2), of p] by simp
  have "IsFree l (int p) = Some False"
    using IsFree_rep [OF assms, of "int p"] rep_bound [OF assms, of p] by simp
  then show "Next l (int p) = Some (if zs = [] then 0 else int (hd zs))"
    "Prev l (int p) = Some (if ys = [] then 0 else int (last ys))" "Get l (int p) = Some (Some (al_data l p))"
    using a(1) p shape_links [OF a(2)]
    by (simp_all add: Next_def Prev_def Get_def get_cell_def valid_def cell_fold al_data_def)
qed

lemma First_rep: "al_rep l xs fs \<Longrightarrow> First l = (if xs = [] then 0 else int (hd xs))"
  using shape_heads(1) by (fastforce simp: al_rep_def First_def)

lemma Last_rep: "al_rep l xs fs \<Longrightarrow> Last l = (if xs = [] then 0 else int (last xs))"
  using shape_heads(2) by (fastforce simp: al_rep_def Last_def)

lemma al_rep_facts:
  assumes "al_rep l xs fs"
  shows "distinct (xs @ fs)" and "al_count l = int (length xs)" and "int (length xs + length fs) = al_max_count l"
proof -
  from assms obtain a where a: "al_array l = Some a" "int (length a) = al_max_count l + 1"
    "shape a (head_next l) (head_prev l) xs fs []" "al_count l = int (length xs)" by (auto simp: al_rep_def)
  then show d: "distinct (xs @ fs)" and "al_count l = int (length xs)" by (auto simp: shape_def)
  have "length (xs @ fs) = card {1..<length a}" using d a(3) distinct_card [of "xs @ fs"] by (simp add: shape_def)
  moreover have "0 < length a" using a(3) by (simp add: shape_def)
  ultimately have "length a = Suc (length xs + length fs)" by simp
  then show "int (length xs + length fs) = al_max_count l" using a(2) by simp
qed

subsection \<open>The contract of a bounded list of slots\<close>

text \<open>
  What users of the list rely on, in terms of the sequence of slots \<open>slots\<close> and of the value in a
  slot: appending takes a slot that was not in use, removing a slot leaves the others alone, and
  the first slot is the head of the sequence. Taking the first slot again and again then returns the
  values in the order in which they were appended.
\<close>

locale slot_list =
  fixes inv :: "'s \<Rightarrow> bool" and slots :: "'s \<Rightarrow> int list" and room :: "'s \<Rightarrow> nat"
    and push :: "'s \<Rightarrow> 'a \<Rightarrow> (int \<times> 's) option" and del :: "'s \<Rightarrow> int \<Rightarrow> 's option"
    and first :: "'s \<Rightarrow> int" and at :: "'s \<Rightarrow> int \<Rightarrow> 'a"
  assumes push_ok: "inv s \<Longrightarrow> 0 < room s \<Longrightarrow> \<exists>p s'. push s d = Some (p, s') \<and> inv s' \<and> slots s' = slots s @ [p] \<and>
      p \<notin> set (slots s) \<and> room s' = room s - 1 \<and> at s' p = d \<and> (\<forall>q \<in> set (slots s). at s' q = at s q)"
    and del_ok: "inv s \<Longrightarrow> slots s = ys @ p # zs \<Longrightarrow> \<exists>s'. del s p = Some s' \<and> inv s' \<and> slots s' = ys @ zs \<and>
      room s' = room s + 1 \<and> (\<forall>q \<in> set (ys @ zs). at s' q = at s q)"
    and first_ok: "inv s \<Longrightarrow> slots s \<noteq> [] \<Longrightarrow> first s = hd (slots s)"
begin

primrec push_all :: "'s \<Rightarrow> 'a list \<Rightarrow> 's option" where
  "push_all s [] = Some s"
| "push_all s (d # ds) = (case push s d of None \<Rightarrow> None | Some (_, s') \<Rightarrow> push_all s' ds)"

primrec pop_all :: "nat \<Rightarrow> 's \<Rightarrow> ('a list \<times> 's) option" where
  "pop_all 0 s = Some ([], s)"
| "pop_all (Suc n) s = (case del s (first s) of None \<Rightarrow> None
     | Some s' \<Rightarrow> map_option (\<lambda>(ds, s''). (at s (first s) # ds, s'')) (pop_all n s'))"

lemma push_all_ok:
  "inv s \<Longrightarrow> length ds \<le> room s \<Longrightarrow> \<exists>s'. push_all s ds = Some s' \<and> inv s' \<and>
     map (at s') (slots s') = map (at s) (slots s) @ ds \<and> room s' = room s - length ds"
proof (induction ds arbitrary: s)
  case (Cons d ds)
  then obtain p s1 where 1: "push s d = Some (p, s1)" "inv s1" "slots s1 = slots s @ [p]" "room s1 = room s - 1"
    "at s1 p = d" "\<forall>q \<in> set (slots s). at s1 q = at s q" using push_ok [of s d] by auto
  then have m: "map (at s1) (slots s1) = map (at s) (slots s) @ [d]" by simp
  have "length ds \<le> room s1" using Cons.prems(2) 1(4) by simp
  from Cons.IH [OF 1(2) this] obtain s' where "push_all s1 ds = Some s'" "inv s'"
    "map (at s') (slots s') = map (at s1) (slots s1) @ ds" "room s' = room s1 - length ds" by auto
  with 1 m show ?case by auto
qed simp

lemma pop_all_ok:
  "inv s \<Longrightarrow> n = length (slots s) \<Longrightarrow> \<exists>s'. pop_all n s = Some (map (at s) (slots s), s') \<and> inv s' \<and> slots s' = [] \<and>
     room s' = room s + n"
proof (induction n arbitrary: s)
  case (Suc n)
  then obtain p ps where sl: "slots s = p # ps" by (cases "slots s") auto
  then have f: "first s = p" using first_ok Suc.prems(1) by simp
  obtain s1 where 1: "del s p = Some s1" "inv s1" "slots s1 = ps" "room s1 = room s + 1" "\<forall>q \<in> set ps. at s1 q = at s q"
    using del_ok [of s "[]" p ps] Suc.prems(1) sl by auto
  then have m: "map (at s1) (slots s1) = map (at s) ps" by simp
  obtain s' where "pop_all n s1 = Some (map (at s1) (slots s1), s')" "inv s'" "slots s' = []" "room s' = room s1 + n"
    using Suc.IH [OF 1(2)] Suc.prems(2) sl 1(3) by auto
  with 1 f sl m show ?case by auto
qed simp

lemma fifo:
  assumes "inv s" and "slots s = []" and "length ds \<le> room s"
  shows "\<exists>s1 s2. push_all s ds = Some s1 \<and> pop_all (length ds) s1 = Some (ds, s2) \<and> inv s2 \<and> slots s2 = [] \<and> room s2 = room s"
proof -
  obtain s1 where 1: "push_all s ds = Some s1" "inv s1" "map (at s1) (slots s1) = ds" "room s1 = room s - length ds"
    using push_all_ok [OF assms(1,3)] assms(2) by auto
  then have "length ds = length (slots s1)" by (metis length_map)
  from pop_all_ok [OF 1(2) this] 1 assms(3) show ?thesis by auto
qed

end

definition al_slots :: "'a array_list \<Rightarrow> int list" where
  "al_slots l = walk (nat (al_count l)) (nx (the (al_array l))) (head_next l)"

definition al_room :: "'a array_list \<Rightarrow> nat" where
  "al_room l = nat (al_max_count l - al_count l)"

definition al_inv :: "'a array_list \<Rightarrow> bool" where
  "al_inv l \<longleftrightarrow> (\<exists>xs fs. al_rep l xs fs)"

definition al_at :: "'a array_list \<Rightarrow> int \<Rightarrow> 'a" where
  "al_at l q = al_data l (nat q)"

lemma al_rep_slots:
  assumes "al_rep l xs fs"
  shows "al_slots l = map int xs" and "al_room l = length fs"
proof -
  from assms obtain a where "al_array l = Some a" "shape a (head_next l) (head_prev l) xs fs []"
    "al_count l = int (length xs)" by (auto simp: al_rep_def)
  then show "al_slots l = map int xs" by (auto simp: al_slots_def shape_def intro: walk_path)
  show "al_room l = length fs" using al_rep_facts(2,3) [OF assms] by (simp add: al_room_def)
qed

interpretation al_list: slot_list al_inv al_slots al_room PushBack Remove First al_at
proof (rule slot_list.intro)
  fix l :: "'a array_list" and d :: 'a
  assume "al_inv l" and room: "0 < al_room l"
  then obtain xs fs where rep: "al_rep l xs fs" by (auto simp: al_inv_def)
  obtain p fs' where fs: "fs = p # fs'" using room al_rep_slots(2) [OF rep] by (cases fs) auto
  obtain l' where l': "PushBack l d = Some (int p, l')" "al_rep l' (xs @ [p]) fs'" "al_data l' = (al_data l)(p := d)"
    using PushBack_rep [OF rep [unfolded fs], of d] by auto
  have "p \<notin> set xs" using al_rep_facts(1) [OF rep] fs by simp
  then show "\<exists>p l'. PushBack l d = Some (p, l') \<and> al_inv l' \<and> al_slots l' = al_slots l @ [p] \<and> p \<notin> set (al_slots l) \<and>
      al_room l' = al_room l - 1 \<and> al_at l' p = d \<and> (\<forall>q \<in> set (al_slots l). al_at l' q = al_at l q)"
    using l' al_rep_slots [OF rep] al_rep_slots [OF l'(2)] fs
    by (intro exI [of _ "int p"] exI [of _ l']) (auto simp: al_inv_def al_at_def)
next
  fix l :: "'a array_list" and ys p zs
  assume "al_inv l" and sl: "al_slots l = ys @ p # zs"
  then obtain xs fs where rep: "al_rep l xs fs" by (auto simp: al_inv_def)
  have "map int xs = ys @ p # zs" using al_rep_slots(1) [OF rep] sl by simp
  then obtain xs1 x xs2 where x: "xs = xs1 @ x # xs2" "ys = map int xs1" "p = int x" "zs = map int xs2"
    by (auto simp: map_eq_append_conv map_eq_Cons_conv)
  obtain l' where l': "Remove l (int x) = Some l'" "al_rep l' (xs1 @ xs2) (x # fs)" "al_data l' = al_data l"
    using Remove_rep [OF rep [unfolded x(1)]] by auto
  show "\<exists>l'. Remove l p = Some l' \<and> al_inv l' \<and> al_slots l' = ys @ zs \<and> al_room l' = al_room l + 1 \<and>
      (\<forall>q \<in> set (ys @ zs). al_at l' q = al_at l q)"
    using l' al_rep_slots [OF rep] al_rep_slots [OF l'(2)] x
    by (intro exI [of _ l']) (auto simp: al_inv_def al_at_def)
next
  fix l :: "'a array_list"
  assume "al_inv l" and "al_slots l \<noteq> []"
  then obtain xs fs where rep: "al_rep l xs fs" and "xs \<noteq> []" using al_rep_slots(1) by (fastforce simp: al_inv_def)
  then show "First l = hd (al_slots l)" using First_rep [OF rep] al_rep_slots(1) [OF rep] by (simp add: hd_map)
qed

text \<open>A list with room for three elements that holds one, and an empty one.\<close>

definition demo_list :: "char array_list" where
  "demo_list = \<lparr>al_array = Some [\<lparr>c_data = CHR ''-'', c_prev = -1, c_next = 2\<rparr>, \<lparr>c_data = CHR ''a'', c_prev = 0, c_next = 0\<rparr>,
       \<lparr>c_data = CHR ''-'', c_prev = -1, c_next = 3\<rparr>, \<lparr>c_data = CHR ''-'', c_prev = -1, c_next = 0\<rparr>],
     head_prev = 1, head_next = 1, al_count = 1, al_max_count = 3\<rparr>"

definition demo_empty :: "char array_list" where
  "demo_empty = \<lparr>al_array = Some [\<lparr>c_data = CHR ''-'', c_prev = -1, c_next = 2\<rparr>, \<lparr>c_data = CHR ''a'', c_prev = -1, c_next = 0\<rparr>,
       \<lparr>c_data = CHR ''-'', c_prev = -1, c_next = 1\<rparr>], head_prev = 0, head_next = 0, al_count = 0, al_max_count = 2\<rparr>"

lemma demo_list_rep: "al_rep demo_list [1] [2, 3]"
  by (auto simp: demo_list_def al_rep_def shape_def nx_def pv_def)

lemma demo_empty_rep: "al_rep demo_empty [] [2, 1]"
  by (auto simp: demo_empty_def al_rep_def shape_def nx_def pv_def)

subsection \<open>Properties\<close>

text \<open>
  \<open>Init\<close> with a non-negative capacity \<open>n\<close> makes an empty list that satisfies the
  invariant and has room for exactly \<open>n\<close> elements.
\<close>

theorem AL_Init_establishes_invariant:
  assumes "0 \<le> n"
  shows "\<exists>l. AL_Init junk ArrayList n = Some (0, l) \<and> al_inv l \<and> al_slots l = [] \<and> al_room l = nat n"
proof -
  obtain l where l: "AL_Init junk ArrayList n = Some (0, l)" "al_rep l [] [1..<nat n + 1]" using AL_Init_rep [OF assms] by blast
  from al_rep_slots [OF l(2)] l show ?thesis by (auto simp: al_inv_def del: upt_Suc)
qed

theorem AL_Init_establishes_invariant_witness:
  "\<exists>l. AL_Init (\<lambda>_. \<lparr>c_data = CHR ''x'', c_prev = 7, c_next = 7\<rparr>) ArrayList 4 = Some (0, l) \<and> al_inv l \<and> al_slots l = [] \<and> al_room l = nat 4"
  by (rule AL_Init_establishes_invariant) simp

text \<open>
  Inserting after a given slot: when the slot is in the list and there is room,
  \<open>InsertAfter\<close> keeps the invariant, puts the new slot right behind the given one and stores the
  value there, leaving all other values as they are.
\<close>

theorem InsertAfter_refines_insert:
  assumes "al_inv l" and "al_slots l = ys @ q # zs" and "0 < al_room l"
  shows "\<exists>p l'. InsertAfter l q d = Some (p, l') \<and> al_inv l' \<and> al_slots l' = ys @ q # p # zs \<and> p \<notin> set (al_slots l) \<and>
    al_room l' = al_room l - 1 \<and> al_at l' p = d \<and> (\<forall>x \<in> set (al_slots l). al_at l' x = al_at l x)"
proof -
  obtain xs fs where rep: "al_rep l xs fs" using assms(1) by (auto simp: al_inv_def)
  obtain p fs' where fs: "fs = p # fs'" using assms(3) al_rep_slots(2) [OF rep] by (cases fs) auto
  have "map int xs = ys @ q # zs" using al_rep_slots(1) [OF rep] assms(2) by simp
  then obtain xs1 x xs2 where x: "xs = xs1 @ x # xs2" "ys = map int xs1" "q = int x" "zs = map int xs2"
    by (auto simp: map_eq_append_conv map_eq_Cons_conv)
  obtain l' where l': "InsertAfter l (int x) d = Some (int p, l')" "al_rep l' (xs1 @ x # p # xs2) fs'"
    "al_data l' = (al_data l)(p := d)" using InsertAfter_rep [OF rep [unfolded x(1) fs], of d] by auto
  have "p \<notin> set xs" using al_rep_facts(1) [OF rep] fs by simp
  then show ?thesis
    using l' al_rep_slots [OF rep] al_rep_slots [OF l'(2)] x fs
    by (intro exI [of _ "int p"] exI [of _ l']) (auto simp: al_inv_def al_at_def)
qed

theorem InsertAfter_refines_insert_witness:
  "\<exists>p l'. InsertAfter demo_list 1 CHR ''b'' = Some (p, l') \<and> al_inv l' \<and> al_slots l' = [] @ 1 # p # [] \<and> p \<notin> set (al_slots demo_list) \<and>
    al_room l' = al_room demo_list - 1 \<and> al_at l' p = CHR ''b'' \<and> (\<forall>x \<in> set (al_slots demo_list). al_at l' x = al_at demo_list x)"
  by (rule InsertAfter_refines_insert [of demo_list "[]" 1 "[]"])
    (use demo_list_rep al_rep_slots [OF demo_list_rep] in \<open>auto simp: al_inv_def\<close>)

text \<open>
  C9. The list is a queue: any sequence of at most as many values as there is room for, appended to
  an empty list with \<open>PushBack\<close>, is returned in the same order by taking \<open>First\<close> and
  removing it, and leaves the list empty with the same room.
\<close>

theorem ArrayList_fifo:
  assumes "al_inv l" and "al_slots l = []" and "length ds \<le> al_room l"
  shows "\<exists>l1 l2. al_list.push_all l ds = Some l1 \<and> al_list.pop_all (length ds) l1 = Some (ds, l2) \<and> al_inv l2 \<and>
    al_slots l2 = [] \<and> al_room l2 = al_room l"
  by (rule al_list.fifo [OF assms])

theorem ArrayList_fifo_witness:
  "\<exists>l1 l2. al_list.push_all demo_empty ''hi'' = Some l1 \<and> al_list.pop_all (length ''hi'') l1 = Some (''hi'', l2) \<and> al_inv l2 \<and>
    al_slots l2 = [] \<and> al_room l2 = al_room demo_empty"
  by (rule ArrayList_fifo) (use demo_empty_rep al_rep_slots [OF demo_empty_rep] in \<open>auto simp: al_inv_def\<close>)

end
