(* ===== verification/Token_Mgr.thy ===== *)
theory Token_Mgr
  imports Prelude
begin

text \<open>
  Tokens and the token manager of \<open>libsrc/blitz/include/blitz/token_mgr.h\<close> (classes
  \<open>Token32\<close> and \<open>TokenMgr<Token32, TData>\<close>; \<open>libsrc/blitz2\<close> has the same code).
  A token is a 32-bit value, the index of a cell in the upper and a salt in the lower half. Cell 0
  heads the list of free cells; the salt of a cell changes when its token is given back, so that old
  tokens are refused. The theory models all operations, proves that they implement a partial
  function from tokens to values, and states how long an old token is refused.
\<close>

subsection \<open>Token32\<close>

type_synonym token32 = u32

definition Token_IsValid :: "token32 \<Rightarrow> bool" where
  "Token_IsValid t \<longleftrightarrow> t \<noteq> 0"

definition GetIndex :: "token32 \<Rightarrow> u32" where
  "GetIndex t = drop_bit 16 t"

definition SetIndex :: "token32 \<Rightarrow> u32 \<Rightarrow> token32" where
  "SetIndex t index = (t AND 0x0000FFFF) OR push_bit 16 index"

definition GetSalt :: "token32 \<Rightarrow> u32" where
  "GetSalt t = t AND 0xFFFF"

definition SetSalt :: "token32 \<Rightarrow> u32 \<Rightarrow> token32" where
  "SetSalt t salt = (t AND 0xFFFF0000) OR (salt AND 0xFFFF)"

definition NewSalt :: "token32 \<Rightarrow> token32" where
  "NewSalt t = SetSalt t (GetSalt t + 1)"

definition GetMaxCount :: u32 where
  "GetMaxCount = 65535"

subsection \<open>The manager\<close>

text \<open>\<open>TData\<close> is a plain value type here: its destructor, which \<open>Dealloc\<close> calls, does nothing.\<close>

record 'd token_item =
  ti_token :: token32
  ti_data :: 'd
  ti_next :: u32

record 'd token_mgr =
  tm_items :: "'d token_item list option"
  tm_count :: u32
  tm_free_count :: u32

definition TokenMgr :: "'d token_mgr" where
  "TokenMgr = \<lparr>tm_items = None, tm_count = 0, tm_free_count = 0\<rparr>"

definition TM_isValid :: "'d token_mgr \<Rightarrow> bool" where
  "TM_isValid m \<longleftrightarrow> tm_items m \<noteq> None"

text \<open>
  \<open>new TokenItem[count + 1]\<close> makes cells whose token is the default token 0 (the constructor
  of \<open>Token32\<close>) and whose data \<open>junk\<close> is the default value of the type.
\<close>

definition init_item :: "'d \<Rightarrow> nat \<Rightarrow> 'd token_item" where
  "init_item junk i = \<lparr>ti_token = NewSalt (SetIndex 0 (of_nat i)), ti_data = junk, ti_next = of_nat i + 1\<rparr>"

definition TM_Init :: "'d \<Rightarrow> 'd token_mgr \<Rightarrow> u32 \<Rightarrow> int \<times> 'd token_mgr" where
  "TM_Init junk m n =
     (if TM_isValid m then (1, m)
      else if n = 0 then (-1, m)
      else if n > GetMaxCount then (-1, m)
      else (0, m\<lparr>tm_items := Some (map (init_item junk) [0..<unat n + 1]), tm_count := n, tm_free_count := n\<rparr>))"

definition TM_Uninit :: "'d token_mgr \<Rightarrow> 'd token_mgr" where
  "TM_Uninit m = m\<lparr>tm_items := None\<rparr>"

text \<open>The list operations work on the cells; the counter of free cells is updated where they are called.\<close>

definition outFreelist :: "'d token_item list \<Rightarrow> (u32 \<times> 'd token_item list) cxx" where
  "outFreelist a =
     (if a = [] then None
      else let ret = ti_next (a ! 0) in
        if unat ret < length a
        then let a1 = a[0 := (a ! 0)\<lparr>ti_next := ti_next (a ! unat ret)\<rparr>]
             in Some (ret, a1[unat ret := (a1 ! unat ret)\<lparr>ti_next := 0\<rparr>])
        else None)"

definition inFreelist :: "'d token_item list \<Rightarrow> nat \<Rightarrow> 'd token_item list" where
  "inFreelist a index =
     (let a1 = a[index := (a ! index)\<lparr>ti_next := ti_next (a ! 0)\<rparr>]
      in a1[0 := (a1 ! 0)\<lparr>ti_next := of_nat index\<rparr>])"

definition TM_Alloc :: "'d token_mgr \<Rightarrow> (int \<times> token32 option \<times> 'd token_mgr) cxx" where
  "TM_Alloc m =
     (case tm_items m of
        None \<Rightarrow> Some (-1, None, m)
      | Some a \<Rightarrow>
          if tm_free_count m > 0
          then (case outFreelist a of
                  None \<Rightarrow> None
                | Some (index, a') \<Rightarrow>
                    if index \<le> tm_count m
                    then Some (0, Some (ti_token (a' ! unat index)), m\<lparr>tm_items := Some a', tm_free_count := tm_free_count m - 1\<rparr>)
                    else None)
          else Some (-1, None, m))"

text \<open>The cell a token denotes: the common check of \<open>SetData\<close>, \<open>GetData\<close> and \<open>Dealloc\<close>.\<close>

definition check_token :: "'d token_mgr \<Rightarrow> 'd token_item list \<Rightarrow> token32 \<Rightarrow> int" where
  "check_token m a t =
     (if GetIndex t > 0 \<and> GetIndex t \<le> tm_count m
      then if GetSalt (ti_token (a ! unat (GetIndex t))) = GetSalt t then 0 else 2
      else 1)"

definition TM_SetData :: "'d token_mgr \<Rightarrow> token32 \<Rightarrow> 'd \<Rightarrow> int \<times> 'd token_mgr" where
  "TM_SetData m t d =
     (case tm_items m of
        None \<Rightarrow> (-1, m)
      | Some a \<Rightarrow>
          let c = check_token m a t; i = unat (GetIndex t) in
          if c = 0 then (0, m\<lparr>tm_items := Some (a[i := (a ! i)\<lparr>ti_data := d\<rparr>])\<rparr>) else (c, m))"

definition TM_GetData :: "'d token_mgr \<Rightarrow> token32 \<Rightarrow> 'd option" where
  "TM_GetData m t =
     (case tm_items m of
        None \<Rightarrow> None
      | Some a \<Rightarrow> if check_token m a t = 0 then Some (ti_data (a ! unat (GetIndex t))) else None)"

definition TM_Dealloc :: "'d token_mgr \<Rightarrow> token32 \<Rightarrow> int \<times> 'd token_mgr" where
  "TM_Dealloc m t =
     (case tm_items m of
        None \<Rightarrow> (-1, m)
      | Some a \<Rightarrow>
          let c = check_token m a t; i = unat (GetIndex t) in
          if c = 0
          then (0, m\<lparr>tm_items := Some (inFreelist (a[i := (a ! i)\<lparr>ti_token := NewSalt (ti_token (a ! i))\<rparr>]) i),
                     tm_free_count := tm_free_count m + 1\<rparr>)
          else (c, m))"

subsection \<open>Index and salt\<close>

lemma unat_take16: "unat (take_bit 16 (w :: u32)) = unat w mod 65536"
  by (simp add: take_bit_eq_mod unat_mod)

lemma GetSalt_take: "GetSalt t = take_bit 16 t"
  by (simp add: GetSalt_def take_bit_eq_mask mask_eq_exp_minus_1)

lemma SetSalt_bits: "SetSalt t s = (t AND NOT (mask 16)) OR take_bit 16 s"
proof -
  have "(0xFFFF0000 :: u32) = NOT (mask 16)" "(0xFFFF :: u32) = mask 16" by (simp_all add: mask_eq_exp_minus_1)
  then show ?thesis by (simp only: SetSalt_def take_bit_eq_mask)
qed

lemma SetIndex_bits: "SetIndex t i = take_bit 16 t OR push_bit 16 i"
  by (simp add: SetIndex_def take_bit_eq_mask mask_eq_exp_minus_1)

lemma index_SetSalt [simp]: "GetIndex (SetSalt t s) = GetIndex t"
  unfolding GetIndex_def SetSalt_bits by (intro bit_word_eqI) (auto simp: bit_simps dest: bit_imp_le_length)

lemma salt_SetSalt [simp]: "GetSalt (SetSalt t s) = take_bit 16 s"
  unfolding GetSalt_take SetSalt_bits by (intro bit_word_eqI) (auto simp: bit_simps)

lemma salt_SetIndex [simp]: "GetSalt (SetIndex t i) = GetSalt t"
  unfolding GetSalt_take SetIndex_bits by (intro bit_word_eqI) (auto simp: bit_simps)

lemma index_SetIndex: "i \<le> GetMaxCount \<Longrightarrow> GetIndex (SetIndex t i) = i"
proof -
  assume "i \<le> GetMaxCount"
  then have "unat i < 65536" by (simp add: GetMaxCount_def word_le_nat_alt)
  then have "unat (take_bit 16 i) = unat i" unfolding unat_take16 by (rule mod_less)
  then have "take_bit 16 i = i" by (rule word_unat_eq_iff [THEN iffD2])
  then have "bit i k \<Longrightarrow> k < 16" for k by (metis bit_take_bit_iff)
  then show ?thesis unfolding GetIndex_def SetIndex_bits by (intro bit_word_eqI) (auto simp: bit_simps)
qed

lemma token_eqI: "GetIndex t = GetIndex u \<Longrightarrow> GetSalt t = GetSalt u \<Longrightarrow> t = u"
proof (rule bit_word_eqI)
  fix n assume *: "GetIndex t = GetIndex u" "GetSalt t = GetSalt u" "n < LENGTH(32)"
  show "bit t n = bit u n"
  proof (cases "n < 16")
    case True
    then show ?thesis using arg_cong [OF *(2), of "\<lambda>w. bit w n"] by (simp add: GetSalt_take bit_simps)
  next
    case False
    then show ?thesis using arg_cong [OF *(1), of "\<lambda>w. bit w (n - 16)"] by (simp add: GetIndex_def bit_simps)
  qed
qed

lemma salt_NewSalt: "unat (GetSalt (NewSalt t)) = (unat (GetSalt t) + 1) mod 65536"
proof -
  have "unat (GetSalt t) < 65536" by (simp add: GetSalt_take unat_take16)
  then show ?thesis by (simp add: NewSalt_def unat_take16 unat_word_ariths)
qed

lemma index_NewSalt [simp]: "GetIndex (NewSalt t) = GetIndex t"
  by (simp add: NewSalt_def)

lemma NewSalt_pow:
  "GetIndex ((NewSalt ^^ k) t) = GetIndex t" "unat (GetSalt ((NewSalt ^^ k) t)) = (unat (GetSalt t) + k) mod 65536"
proof -
  have "unat (GetSalt t) < 65536" by (simp add: GetSalt_take unat_take16)
  then show "unat (GetSalt ((NewSalt ^^ k) t)) = (unat (GetSalt t) + k) mod 65536"
    by (induction k) (simp_all add: salt_NewSalt mod_Suc_eq)
qed (induction k; simp)

lemma NewSalt_same: "GetSalt ((NewSalt ^^ k) t) = GetSalt t \<longleftrightarrow> 65536 dvd k"
proof -
  have "unat (GetSalt t) < 65536" by (simp add: GetSalt_take unat_take16)
  then have "(unat (GetSalt t) + k) mod 65536 = unat (GetSalt t) \<longleftrightarrow> 65536 dvd k"
    using mod_eq_dvd_iff_nat [of "unat (GetSalt t)" "unat (GetSalt t) + k" 65536] by simp
  then show ?thesis unfolding word_unat_eq_iff NewSalt_pow(2) .
qed

subsection \<open>The cells and the list of free cells\<close>

definition ln :: "'d token_item list \<Rightarrow> nat \<Rightarrow> int" where
  "ln a i = uint (ti_next (a ! i))"

lemma ln_upd [simp]: "p < length a \<Longrightarrow> ln (a[p := c]) = (ln a)(p := uint (ti_next c))"
  by (auto simp: ln_def fun_eq_iff nth_list_update)

lemma ln_fold: "uint (ti_next (a ! i)) = ln a i"
  by (simp add: ln_def)

definition tokens_ok :: "'d token_item list \<Rightarrow> bool" where
  "tokens_ok a \<longleftrightarrow> (\<forall>i < length a. GetIndex (ti_token (a ! i)) = of_nat i)"

definition tm_rep :: "'d token_mgr \<Rightarrow> nat list \<Rightarrow> bool" where
  "tm_rep m fs \<longleftrightarrow> (\<exists>a e. tm_items m = Some a \<and> length a = unat (tm_count m) + 1 \<and> 0 < tm_count m \<and> tm_count m \<le> GetMaxCount \<and>
     unat (tm_free_count m) = length fs \<and> distinct fs \<and> set fs \<subseteq> {1..unat (tm_count m)} \<and> path (ln a) (ln a 0) fs e \<and> tokens_ok a)"

lemma tm_repE:
  assumes "tm_rep m fs"
  obtains a e where "tm_items m = Some a" "length a = unat (tm_count m) + 1" "0 < tm_count m" "tm_count m \<le> GetMaxCount"
    "unat (tm_free_count m) = length fs" "distinct fs" "\<And>p. p \<in> set fs \<Longrightarrow> 0 < p \<and> p \<le> unat (tm_count m)"
    "path (ln a) (ln a 0) fs e" "tokens_ok a"
  using assms by (fastforce simp: tm_rep_def)

lemma TM_Init_rep:
  assumes "0 < n" and "n \<le> GetMaxCount"
  shows "\<exists>m. TM_Init junk TokenMgr n = (0, m) \<and> tm_rep m [1..<unat n + 1] \<and> tm_count m = n"
proof -
  let ?a = "map (init_item junk) [0..<unat n + 1]"
  have n: "unat n < 65536" using assms(2) by (simp add: GetMaxCount_def word_le_nat_alt)
  have nx: "ln ?a i = int i + 1" if "i < unat n + 1" for i
  proof -
    have "i < 65536" using that n by linarith
    then have "unat (word_of_nat i + 1 :: u32) = i + 1" by (simp add: unat_word_ariths unat_of_nat)
    then show ?thesis using that by (simp add: ln_def init_item_def uint_nat del: upt_Suc)
  qed
  have "path (ln ?a) (int 1) [1..<unat n + 1] (int (unat n + 1))"
    using nx by (intro path_consecutive) auto
  moreover have "ln ?a 0 = 1" using nx [of 0] by simp
  moreover have "tokens_ok ?a" unfolding tokens_ok_def
  proof (intro allI impI)
    fix i assume i: "i < length ?a"
    then have "word_of_nat i \<le> GetMaxCount" using assms(2) n
      by (simp add: word_le_nat_alt unat_of_nat GetMaxCount_def del: upt_Suc)
    then show "GetIndex (ti_token (?a ! i)) = word_of_nat i" using i
      by (simp add: init_item_def index_SetIndex del: upt_Suc)
  qed
  ultimately have "tm_rep (TokenMgr\<lparr>tm_items := Some ?a, tm_count := n, tm_free_count := n\<rparr>) [1..<unat n + 1]"
    using assms by (auto simp: tm_rep_def simp del: upt_Suc)
  then show ?thesis using assms by (auto simp: TM_Init_def TokenMgr_def TM_isValid_def simp del: upt_Suc)
qed

lemma outFreelist_rep:
  assumes "path (ln a) (ln a 0) (p # fs) e" and "0 < p" and "p < length a" and "distinct (p # fs)" and "\<And>q. q \<in> set fs \<Longrightarrow> 0 < q"
  shows "\<exists>a'. outFreelist a = Some (of_nat p, a') \<and> length a' = length a \<and> path (ln a') (ln a' 0) fs e \<and>
    (\<forall>i < length a. ti_token (a' ! i) = ti_token (a ! i) \<and> ti_data (a' ! i) = ti_data (a ! i))"
proof -
  have l: "ln a 0 = int p" "path (ln a) (ln a p) fs e" using assms(1) by simp_all
  from l(1) have "uint (ti_next (a ! 0)) = int p" by (simp only: ln_def)
  then have u: "unat (ti_next (a ! 0)) = p" by (metis nat_int unat_eq_nat_uint)
  then have w: "ti_next (a ! 0) = of_nat p" by (metis of_nat_unat ucast_id)
  have "p \<notin> set fs" "0 \<notin> set fs" "a \<noteq> []" using assms by auto
  then show ?thesis
    using l u w assms(2,3)
    by (auto simp: outFreelist_def Let_def ln_fold nth_list_update)
qed

subsection \<open>The values of the tokens in use\<close>

text \<open>What the manager stores: the values of the tokens in use.\<close>

definition tm_free :: "'d token_mgr \<Rightarrow> int list" where
  "tm_free m = (case tm_items m of None \<Rightarrow> [] | Some a \<Rightarrow> walk (unat (tm_free_count m)) (ln a) (ln a 0))"

definition tm_map :: "'d token_mgr \<Rightarrow> token32 \<Rightarrow> 'd option" where
  "tm_map m t = (if int (unat (GetIndex t)) \<in> set (tm_free m) then None else TM_GetData m t)"

definition tm_inv :: "'d token_mgr \<Rightarrow> bool" where
  "tm_inv m \<longleftrightarrow> (\<exists>fs. tm_rep m fs)"

definition tm_room :: "'d token_mgr \<Rightarrow> nat" where
  "tm_room m = unat (tm_free_count m)"

lemma tm_rep_free: "tm_rep m fs \<Longrightarrow> tm_free m = map int fs"
  by (erule tm_repE) (auto simp: tm_free_def dest: walk_path)

lemma tm_map_rep: "tm_rep m fs \<Longrightarrow> tm_map m t = (if unat (GetIndex t) \<in> set fs then None else TM_GetData m t)"
proof -
  assume "tm_rep m fs"
  moreover have "int (unat (GetIndex t)) \<in> int ` set fs \<longleftrightarrow> unat (GetIndex t) \<in> set fs"
    by (rule inj_image_mem_iff) simp
  ultimately show ?thesis by (simp add: tm_map_def tm_rep_free del: of_nat_unat)
qed

lemma check_token_iff:
  assumes "length a = unat (tm_count m) + 1" and "tokens_ok a"
  shows "check_token m a t = 0 \<longleftrightarrow> 0 < unat (GetIndex t) \<and> unat (GetIndex t) < length a \<and> ti_token (a ! unat (GetIndex t)) = t"
proof -
  let ?i = "unat (GetIndex t)"
  have "GetSalt (ti_token (a ! ?i)) = GetSalt t \<longleftrightarrow> ti_token (a ! ?i) = t" if "?i < length a"
  proof -
    have "GetIndex (ti_token (a ! ?i)) = of_nat ?i" using assms(2) that by (simp add: tokens_ok_def)
    then have "GetIndex (ti_token (a ! ?i)) = GetIndex t" by (metis of_nat_unat ucast_id)
    then show ?thesis using token_eqI by metis
  qed
  then show ?thesis using assms(1) by (auto simp: check_token_def word_less_nat_alt word_le_nat_alt)
qed

lemma GetData_iff:
  assumes "tm_items m = Some a" and "length a = unat (tm_count m) + 1" and "tokens_ok a"
  shows "TM_GetData m t = (let i = unat (GetIndex t) in if 0 < i \<and> i < length a \<and> ti_token (a ! i) = t then Some (ti_data (a ! i)) else None)"
  using assms check_token_iff [of a m t] by (simp add: TM_GetData_def Let_def)

lemma unat_index: "tokens_ok a \<Longrightarrow> i < length a \<Longrightarrow> length a \<le> 65536 \<Longrightarrow> unat (GetIndex (ti_token (a ! i))) = i"
  by (simp add: tokens_ok_def unat_of_nat)

lemma Alloc_rep:
  assumes "tm_rep m (p # fs)"
  shows "\<exists>t d m'. TM_Alloc m = Some (0, Some t, m') \<and> tm_rep m' fs \<and> tm_map m t = None \<and> tm_map m' = (tm_map m)(t \<mapsto> d) \<and>
    tm_count m' = tm_count m"
proof -
  from assms obtain a e where a: "tm_items m = Some a" "length a = unat (tm_count m) + 1" "0 < tm_count m" "tm_count m \<le> GetMaxCount"
    "unat (tm_free_count m) = length (p # fs)" "distinct (p # fs)" "\<And>q. q \<in> set (p # fs) \<Longrightarrow> 0 < q \<and> q \<le> unat (tm_count m)"
    "path (ln a) (ln a 0) (p # fs) e" "tokens_ok a" by (rule tm_repE) blast
  have p: "0 < p" "p < length a" using a(2) a(7) [of p] by auto
  obtain a' where a': "outFreelist a = Some (of_nat p, a')" "length a' = length a" "path (ln a') (ln a' 0) fs e"
    "\<forall>i < length a. ti_token (a' ! i) = ti_token (a ! i) \<and> ti_data (a' ! i) = ti_data (a ! i)"
    using outFreelist_rep [OF a(8) p a(6)] a(7) by auto
  have big: "unat (tm_count m) \<le> 65535" using a(4) by (simp add: GetMaxCount_def word_le_nat_alt)
  then have up: "unat (of_nat p :: u32) = p" using p a(2) by (simp add: unat_of_nat)
  define t where "t = ti_token (a ! p)"
  define m' where "m' = m\<lparr>tm_items := Some a', tm_free_count := tm_free_count m - 1\<rparr>"
  have fc: "0 < tm_free_count m" "unat (tm_free_count m - 1) = length fs"
    using a(5) by (simp_all add: word_less_nat_alt unat_sub_if' )
  have idx: "unat (GetIndex t) = p" unfolding t_def using unat_index [OF a(9) p(2)] a(2) big by linarith
  have run: "TM_Alloc m = Some (0, Some t, m')"
    using a(1,2) a'(1,4) p up fc(1) by (simp add: TM_Alloc_def m'_def t_def word_le_nat_alt)
  have ok': "tokens_ok a'" using a(9) a'(2,4) by (simp add: tokens_ok_def)
  have rep': "tm_rep m' fs" unfolding tm_rep_def
    using a a' fc(2) ok' by (intro exI [of _ a'] exI [of _ e]) (auto simp: m'_def Suc_le_eq)
  have get: "TM_GetData m' u = TM_GetData m u" for u
    using a a' ok' by (auto simp: GetData_iff [of _ a] GetData_iff [of _ a'] m'_def Let_def)
  have only: "TM_GetData m u = (if u = t then Some (ti_data (a ! p)) else None)" if "unat (GetIndex u) = p" for u
    using that idx p a by (auto simp: GetData_iff [of _ a] t_def)
  have "tm_map m' = (tm_map m)(t \<mapsto> ti_data (a ! p))"
    using idx only a(6) by (auto simp: fun_eq_iff tm_map_rep [OF rep'] tm_map_rep [OF assms] get)
  moreover have "tm_map m t = None" using idx by (simp add: tm_map_rep [OF assms])
  ultimately show ?thesis using run rep' by (auto simp: m'_def)
qed

lemma tm_map_cell:
  assumes "tm_rep m fs" and "tm_map m t = Some d"
  obtains a i e where "tm_items m = Some a" "length a = unat (tm_count m) + 1" "0 < tm_count m" "tm_count m \<le> GetMaxCount"
    "unat (tm_free_count m) = length fs" "distinct fs" "\<And>q. q \<in> set fs \<Longrightarrow> 0 < q \<and> q \<le> unat (tm_count m)"
    "path (ln a) (ln a 0) fs e" "tokens_ok a"
    "i = unat (GetIndex t)" "0 < i" "i < length a" "ti_token (a ! i) = t" "ti_data (a ! i) = d" "i \<notin> set fs" "check_token m a t = 0"
    "length a \<le> 65536"
proof -
  from assms(1) obtain a e where a: "tm_items m = Some a" "length a = unat (tm_count m) + 1" "0 < tm_count m" "tm_count m \<le> GetMaxCount"
    "unat (tm_free_count m) = length fs" "distinct fs" "\<And>q. q \<in> set fs \<Longrightarrow> 0 < q \<and> q \<le> unat (tm_count m)"
    "path (ln a) (ln a 0) fs e" "tokens_ok a" by (rule tm_repE) blast
  have "length a \<le> 65536" using a(2,4) by (simp add: GetMaxCount_def word_le_nat_alt)
  with a assms(2) show ?thesis
    by (intro that [of a e "unat (GetIndex t)"])
      (auto simp: tm_map_rep [OF assms(1)] GetData_iff [of m a] check_token_iff Let_def split: if_splits)
qed

lemma SetData_rep:
  assumes "tm_rep m fs" and "tm_map m t = Some d"
  shows "\<exists>m'. TM_SetData m t d' = (0, m') \<and> tm_rep m' fs \<and> tm_map m' = (tm_map m)(t \<mapsto> d') \<and> tm_count m' = tm_count m"
proof -
  from assms obtain a i e where a: "tm_items m = Some a" "length a = unat (tm_count m) + 1" "0 < tm_count m" "tm_count m \<le> GetMaxCount"
    "unat (tm_free_count m) = length fs" "distinct fs" "\<And>q. q \<in> set fs \<Longrightarrow> 0 < q \<and> q \<le> unat (tm_count m)"
    "path (ln a) (ln a 0) fs e" "tokens_ok a"
    and i: "i = unat (GetIndex t)" "0 < i" "i < length a" "ti_token (a ! i) = t" "ti_data (a ! i) = d" "i \<notin> set fs" "check_token m a t = 0"
    by (rule tm_map_cell) blast
  define a' where "a' = a[i := (a ! i)\<lparr>ti_data := d'\<rparr>]"
  define m' where "m' = m\<lparr>tm_items := Some a'\<rparr>"
  have same: "length a' = length a" "ln a' = ln a" "\<And>j. j < length a \<Longrightarrow> ti_token (a' ! j) = ti_token (a ! j)"
    using i(3) by (auto simp: a'_def ln_fold nth_list_update)
  have ok': "tokens_ok a'" using a(9) same by (simp add: tokens_ok_def)
  have rep': "tm_rep m' fs" unfolding tm_rep_def
    using a same ok' by (intro exI [of _ a'] exI [of _ e]) (auto simp: m'_def Suc_le_eq)
  have run: "TM_SetData m t d' = (0, m')" using a(1) i(1,7) by (simp add: TM_SetData_def m'_def a'_def Let_def)
  have "TM_GetData m' u = ((TM_GetData m)(t \<mapsto> d')) u" for u
    using a same ok' i
    by (auto simp: GetData_iff [of _ a] GetData_iff [of _ a'] m'_def Let_def a'_def nth_list_update)
  then have "tm_map m' = (tm_map m)(t \<mapsto> d')"
    using i(1,6) by (auto simp: fun_eq_iff tm_map_rep [OF rep'] tm_map_rep [OF assms(1)])
  then show ?thesis using run rep' by (auto simp: m'_def)
qed

lemma inFreelist_rep:
  assumes "path (ln a) (ln a 0) fs e" and "0 < i" and "i < length a" and "i \<notin> set fs" and "0 \<notin> set fs" and "length a \<le> 65536"
  shows "path (ln (inFreelist a i)) (ln (inFreelist a i) 0) (i # fs) e" and "length (inFreelist a i) = length a"
    and "j < length a \<Longrightarrow> ti_token (inFreelist a i ! j) = ti_token (a ! j) \<and> ti_data (inFreelist a i ! j) = ti_data (a ! j)"
proof -
  have "uint (of_nat i :: u32) = int i" using assms(3,6) by (simp add: uint_nat unat_of_nat del: of_nat_unat)
  moreover have ne: "a \<noteq> []" using assms(3) by auto
  ultimately show "path (ln (inFreelist a i)) (ln (inFreelist a i) 0) (i # fs) e" "length (inFreelist a i) = length a"
    using assms by (auto simp: inFreelist_def Let_def ln_fold)
  show "ti_token (inFreelist a i ! j) = ti_token (a ! j) \<and> ti_data (inFreelist a i ! j) = ti_data (a ! j)" if "j < length a"
    using that assms(2,3) ne by (auto simp: inFreelist_def Let_def nth_list_update)
qed

lemma Dealloc_rep:
  assumes "tm_rep m fs" and "tm_map m t = Some d"
  shows "\<exists>m'. TM_Dealloc m t = (0, m') \<and> tm_rep m' (unat (GetIndex t) # fs) \<and> tm_map m' = (tm_map m)(t := None) \<and> tm_count m' = tm_count m"
proof -
  from assms obtain a i e where a: "tm_items m = Some a" "length a = unat (tm_count m) + 1" "0 < tm_count m" "tm_count m \<le> GetMaxCount"
    "unat (tm_free_count m) = length fs" "distinct fs" "\<And>q. q \<in> set fs \<Longrightarrow> 0 < q \<and> q \<le> unat (tm_count m)"
    "path (ln a) (ln a 0) fs e" "tokens_ok a"
    and i: "i = unat (GetIndex t)" "0 < i" "i < length a" "ti_token (a ! i) = t" "ti_data (a ! i) = d" "i \<notin> set fs" "check_token m a t = 0"
    and big: "length a \<le> 65536"
    by (rule tm_map_cell) blast
  define b where "b = a[i := (a ! i)\<lparr>ti_token := NewSalt (ti_token (a ! i))\<rparr>]"
  define a' where "a' = inFreelist b i"
  define m' where "m' = m\<lparr>tm_items := Some a', tm_free_count := tm_free_count m + 1\<rparr>"
  have b: "length b = length a" "ln b = ln a" using i(3) by (auto simp: b_def ln_fold)
  have "0 \<notin> set fs" using a(7) by auto
  note f = inFreelist_rep [of b fs e i, folded a'_def, unfolded b, OF a(8) i(2,3,6) this big]
  have tok: "ti_token (a' ! j) = (if j = i then NewSalt t else ti_token (a ! j))" "ti_data (a' ! j) = ti_data (a ! j)" if "j < length a" for j
    using f(3) [OF that] that i(3,4) by (auto simp: b_def nth_list_update)
  have ok': "tokens_ok a'" using a(9) tok(1) f(2) i(3,4) by (auto simp: tokens_ok_def)
  have "card (set (i # fs)) \<le> card {1..unat (tm_count m)}" using a(2,7) i by (intro card_mono) (auto simp: Suc_le_eq)
  then have "length fs < 65536" using a(2,6) i(6) big by (simp add: distinct_card)
  then have fc: "unat (tm_free_count m + 1) = length (i # fs)" using a(5) by (simp add: unat_word_ariths)
  have rep': "tm_rep m' (i # fs)" unfolding tm_rep_def
    using a(2-4,6,7) f fc ok' i by (intro exI [of _ a'] exI [of _ e]) (auto simp: m'_def Suc_le_eq)
  have run: "TM_Dealloc m t = (0, m')" using a(1) i(1,7) by (simp add: TM_Dealloc_def m'_def a'_def b_def Let_def)
  have other: "TM_GetData m' u = TM_GetData m u" if "unat (GetIndex u) \<noteq> i" for u
    using that a f(2) ok' tok
    by (auto simp: GetData_iff [of _ a] GetData_iff [of _ a'] m'_def Let_def)
  have "TM_GetData m u = (if u = t then Some d else None)" if "unat (GetIndex u) = i" for u
    using that a i by (auto simp: GetData_iff [of _ a] Let_def)
  then have "tm_map m' = (tm_map m)(t := None)"
    using i(1,6) other by (auto simp: fun_eq_iff tm_map_rep [OF rep'] tm_map_rep [OF assms(1)])
  then show ?thesis using run rep' i(1) by (auto simp: m'_def)
qed


subsection \<open>The contract of a token store\<close>

text \<open>
  What users of tokens rely on: a new token was not in use, it can be read and written, writing or
  returning one token leaves the others alone. Issuing tokens for a list of values then gives
  distinct tokens through which exactly these values are read.
\<close>

locale token_store =
  fixes inv :: "'s \<Rightarrow> bool" and val :: "'s \<Rightarrow> 't \<Rightarrow> 'd option" and room :: "'s \<Rightarrow> nat"
    and alloc :: "'s \<Rightarrow> (int \<times> 't option \<times> 's) option" and put :: "'s \<Rightarrow> 't \<Rightarrow> 'd \<Rightarrow> int \<times> 's"
    and dealloc :: "'s \<Rightarrow> 't \<Rightarrow> int \<times> 's"
  assumes alloc_ok: "inv s \<Longrightarrow> 0 < room s \<Longrightarrow> \<exists>t d s'. alloc s = Some (0, Some t, s') \<and> inv s' \<and> val s t = None \<and>
      val s' = (val s)(t \<mapsto> d) \<and> room s' = room s - 1"
    and put_ok: "inv s \<Longrightarrow> val s t = Some d \<Longrightarrow> \<exists>s'. put s t d' = (0, s') \<and> inv s' \<and> val s' = (val s)(t \<mapsto> d') \<and> room s' = room s"
    and dealloc_ok: "inv s \<Longrightarrow> val s t = Some d \<Longrightarrow> \<exists>s'. dealloc s t = (0, s') \<and> inv s' \<and> val s' = (val s)(t := None) \<and>
      room s' = room s + 1"
begin

primrec issue :: "'s \<Rightarrow> 'd list \<Rightarrow> ('t list \<times> 's) option" where
  "issue s [] = Some ([], s)"
| "issue s (d # ds) = (case alloc s of Some (_, Some t, s1) \<Rightarrow>
     map_option (\<lambda>(ts, s2). (t # ts, s2)) (issue (snd (put s1 t d)) ds) | _ \<Rightarrow> None)"

primrec return_all :: "'s \<Rightarrow> 't list \<Rightarrow> 's" where
  "return_all s [] = s"
| "return_all s (t # ts) = return_all (snd (dealloc s t)) ts"

lemma issue_ok:
  "inv s \<Longrightarrow> length ds \<le> room s \<Longrightarrow> \<exists>ts s'. issue s ds = Some (ts, s') \<and> inv s' \<and> length ts = length ds \<and> distinct ts \<and>
     (\<forall>t \<in> set ts. val s t = None) \<and> val s' = val s ++ map_of (zip ts ds) \<and> room s' = room s - length ds"
proof (induction ds arbitrary: s)
  case (Cons d ds)
  then obtain t d0 s1 where 1: "alloc s = Some (0, Some t, s1)" "inv s1" "val s t = None" "val s1 = (val s)(t \<mapsto> d0)" "room s1 = room s - 1"
    using alloc_ok [of s] by auto
  obtain s2 where 2: "put s1 t d = (0, s2)" "inv s2" "val s2 = (val s)(t \<mapsto> d)" "room s2 = room s - 1"
    using put_ok [of s1 t d0 d] 1 by auto
  obtain ts s3 where 3: "issue s2 ds = Some (ts, s3)" "inv s3" "length ts = length ds" "distinct ts" "\<forall>t \<in> set ts. val s2 t = None"
    "val s3 = val s2 ++ map_of (zip ts ds)" "room s3 = room s2 - length ds"
    using Cons.IH [OF 2(2)] Cons.prems(2) 2(4) by force
  have t: "t \<notin> set ts" using 3(5) 2(3) by auto
  then have "map_of (zip ts ds) t = None" using 3(3) by (simp add: map_of_zip_is_None)
  then have "val s3 = val s ++ map_of (zip (t # ts) (d # ds))"
    unfolding 3(6) 2(3) by (intro ext) (simp add: map_add_def split: option.splits)
  moreover have "\<forall>u \<in> set (t # ts). val s u = None" using 1(3) 2(3) 3(5) by (auto split: if_splits)
  moreover have "issue s (d # ds) = Some (t # ts, s3)" using 1(1) 2(1) 3(1) by simp
  ultimately show ?case using 3(2-4,7) 2(4) t by (metis diff_diff_left distinct.simps(2) length_Cons plus_1_eq_Suc)
qed simp

lemma return_all_ok:
  "inv s \<Longrightarrow> distinct ts \<Longrightarrow> (\<forall>t \<in> set ts. val s t \<noteq> None) \<Longrightarrow>
     inv (return_all s ts) \<and> val (return_all s ts) = (\<lambda>t. if t \<in> set ts then None else val s t) \<and> room (return_all s ts) = room s + length ts"
proof (induction ts arbitrary: s)
  case (Cons t ts)
  then obtain d s1 where "val s t = Some d" by auto
  then obtain s1 where 1: "dealloc s t = (0, s1)" "inv s1" "val s1 = (val s)(t := None)" "room s1 = room s + 1"
    using dealloc_ok Cons.prems(1) by blast
  have "\<forall>u \<in> set ts. val s1 u \<noteq> None" using Cons.prems 1(3) by auto
  with Cons.IH [OF 1(2)] Cons.prems(2) 1 show ?case by (auto simp: fun_eq_iff)
qed simp

lemma issue_return:
  assumes "inv s" and "length ds \<le> room s"
  shows "\<exists>ts s'. issue s ds = Some (ts, s') \<and> length ts = length ds \<and> distinct ts \<and> (\<forall>t \<in> set ts. val s t = None) \<and>
     inv s' \<and> val s' = val s ++ map_of (zip ts ds) \<and>
     inv (return_all s' ts) \<and> val (return_all s' ts) = val s \<and> room (return_all s' ts) = room s"
proof -
  obtain ts s' where 1: "issue s ds = Some (ts, s')" "inv s'" "length ts = length ds" "distinct ts" "\<forall>t \<in> set ts. val s t = None"
    "val s' = val s ++ map_of (zip ts ds)" "room s' = room s - length ds"
    using issue_ok [OF assms] by blast
  have dom: "map_of (zip ts ds) t = None \<longleftrightarrow> t \<notin> set ts" for t using 1(3) by (simp add: map_of_zip_is_None)
  then have "\<forall>t \<in> set ts. val s' t \<noteq> None" using 1(6) by (auto simp: map_add_None)
  from return_all_ok [OF 1(2,4) this] have "inv (return_all s' ts)" "room (return_all s' ts) = room s"
    "val (return_all s' ts) = (\<lambda>t. if t \<in> set ts then None else val s' t)" using 1(3,7) assms(2) by auto
  moreover have "(\<lambda>t. if t \<in> set ts then None else val s' t) = val s"
    using 1(5,6) dom by (fastforce simp: fun_eq_iff map_add_def)
  ultimately show ?thesis using 1 by auto
qed

end

lemma tm_rep_room: "tm_rep m fs \<Longrightarrow> tm_room m = length fs"
  by (auto simp: tm_rep_def tm_room_def)

interpretation tokens: token_store tm_inv tm_map tm_room TM_Alloc TM_SetData TM_Dealloc
proof (rule token_store.intro)
  fix m :: "'d token_mgr"
  assume "tm_inv m" and "0 < tm_room m"
  then obtain p fs where rep: "tm_rep m (p # fs)" by (metis tm_inv_def tm_rep_room length_greater_0_conv list.exhaust)
  from Alloc_rep [OF this] tm_rep_room [OF rep]
  show "\<exists>t d m'. TM_Alloc m = Some (0, Some t, m') \<and> tm_inv m' \<and> tm_map m t = None \<and> tm_map m' = (tm_map m)(t \<mapsto> d) \<and>
      tm_room m' = tm_room m - 1" by (fastforce simp: tm_inv_def dest: tm_rep_room)
next
  fix m :: "'d token_mgr" and t d d'
  assume "tm_inv m" and d: "tm_map m t = Some d"
  then obtain fs where rep: "tm_rep m fs" by (auto simp: tm_inv_def)
  from SetData_rep [OF rep d, of d'] tm_rep_room [OF rep]
  show "\<exists>m'. TM_SetData m t d' = (0, m') \<and> tm_inv m' \<and> tm_map m' = (tm_map m)(t \<mapsto> d') \<and> tm_room m' = tm_room m"
    by (fastforce simp: tm_inv_def dest: tm_rep_room)
next
  fix m :: "'d token_mgr" and t d
  assume "tm_inv m" and d: "tm_map m t = Some d"
  then obtain fs where rep: "tm_rep m fs" by (auto simp: tm_inv_def)
  from Dealloc_rep [OF rep d] tm_rep_room [OF rep]
  show "\<exists>m'. TM_Dealloc m t = (0, m') \<and> tm_inv m' \<and> tm_map m' = (tm_map m)(t := None) \<and> tm_room m' = tm_room m + 1"
    by (fastforce simp: tm_inv_def dest: tm_rep_room)
qed


subsection \<open>Runs\<close>

text \<open>The calls a program makes, in any order and with any tokens, stale or made up.\<close>

datatype 'd token_op = OpAlloc | OpSet token32 'd | OpDealloc token32

fun tm_exec :: "'d token_mgr \<Rightarrow> 'd token_op \<Rightarrow> 'd token_mgr cxx" where
  "tm_exec m OpAlloc = map_option (\<lambda>(_, _, m'). m') (TM_Alloc m)"
| "tm_exec m (OpSet t d) = Some (snd (TM_SetData m t d))"
| "tm_exec m (OpDealloc t) = Some (snd (TM_Dealloc m t))"

primrec tm_run :: "'d token_mgr \<Rightarrow> 'd token_op list \<Rightarrow> 'd token_mgr cxx" where
  "tm_run m [] = Some m"
| "tm_run m (x # xs) = (case tm_exec m x of None \<Rightarrow> None | Some m' \<Rightarrow> tm_run m' xs)"

text \<open>How often the cell \<open>i\<close> is given back successfully.\<close>

fun gives_back :: "nat \<Rightarrow> 'd token_mgr \<Rightarrow> 'd token_op \<Rightarrow> nat" where
  "gives_back i m (OpDealloc t) = (if unat (GetIndex t) = i \<and> fst (TM_Dealloc m t) = 0 then 1 else 0)"
| "gives_back i m _ = 0"

primrec returns :: "nat \<Rightarrow> 'd token_mgr \<Rightarrow> 'd token_op list \<Rightarrow> nat" where
  "returns i m [] = 0"
| "returns i m (x # xs) = gives_back i m x + (case tm_exec m x of None \<Rightarrow> 0 | Some m' \<Rightarrow> returns i m' xs)"

lemma map_update_keep: "p < length a \<Longrightarrow> f c = f (a ! p) \<Longrightarrow> map f (a[p := c]) = map f a"
  by (metis list_update_id map_update)

lemma outFreelist_tokens: "outFreelist a = Some (r, a') \<Longrightarrow> map ti_token a' = map ti_token a"
  by (auto simp: outFreelist_def Let_def map_update_keep nth_list_update split: if_splits)

lemma inFreelist_tokens: "i < length a \<Longrightarrow> map ti_token (inFreelist a i) = map ti_token a"
proof -
  assume "i < length a"
  moreover from this have "a \<noteq> []" by auto
  ultimately show ?thesis by (simp add: inFreelist_def Let_def map_update_keep)
qed

lemma exec_tokens:
  assumes "tm_exec m x = Some m'" and "tm_items m = Some a" and "length a = unat (tm_count m) + 1" and "i < length a"
  shows "\<exists>a'. tm_items m' = Some a' \<and> length a' = length a \<and> tm_count m' = tm_count m \<and>
    ti_token (a' ! i) = (NewSalt ^^ gives_back i m x) (ti_token (a ! i))"
proof -
  have nth: "ti_token (a' ! i) = ti_token (b ! i)" if "map ti_token a' = map ti_token b" "length b = length a" for a' b :: "'a token_item list"
    using that assms(4) by (metis length_map nth_map)
  show ?thesis
  proof (cases x)
    case OpAlloc
    show ?thesis
    proof (cases "tm_free_count m > 0")
      case True
      then obtain r a' where a': "outFreelist a = Some (r, a')" "m' = m\<lparr>tm_items := Some a', tm_free_count := tm_free_count m - 1\<rparr>"
        using OpAlloc assms(1,2) by (auto simp: TM_Alloc_def split: if_splits option.splits)
      from outFreelist_tokens [OF a'(1)] have t: "map ti_token a' = map ti_token a" .
      then have "length a' = length a" by (metis length_map)
      with nth [OF t] a' OpAlloc show ?thesis by simp
    qed (use OpAlloc assms in \<open>auto simp: TM_Alloc_def\<close>)
  next
    case (OpSet t d)
    have "unat (GetIndex t) < length a" if "check_token m a t = 0"
      using that assms(3) by (auto simp: check_token_def word_le_nat_alt split: if_splits)
    then show ?thesis using OpSet assms by (auto simp: TM_SetData_def Let_def nth_list_update split: if_splits)
  next
    case (OpDealloc t)
    let ?i = "unat (GetIndex t)" and ?b = "a[unat (GetIndex t) := (a ! unat (GetIndex t))\<lparr>ti_token := NewSalt (ti_token (a ! unat (GetIndex t)))\<rparr>]"
    show ?thesis
    proof (cases "check_token m a t = 0")
      case True
      then have "?i < length a" using assms(3) by (auto simp: check_token_def word_le_nat_alt split: if_splits)
      then have "map ti_token (inFreelist ?b ?i) = map ti_token ?b" by (intro inFreelist_tokens) simp
      from nth [OF this] have "ti_token (inFreelist ?b ?i ! i) = ti_token (?b ! i)" by simp
      moreover have "length (inFreelist ?b ?i) = length a" by (simp add: inFreelist_def Let_def)
      ultimately show ?thesis using OpDealloc assms True \<open>?i < length a\<close>
        by (auto simp: TM_Dealloc_def Let_def nth_list_update)
    qed (use OpDealloc assms in \<open>auto simp: TM_Dealloc_def Let_def\<close>)
  qed
qed

lemma run_tokens:
  "tm_run m xs = Some m' \<Longrightarrow> tm_items m = Some a \<Longrightarrow> length a = unat (tm_count m) + 1 \<Longrightarrow> i < length a \<Longrightarrow>
     \<exists>a'. tm_items m' = Some a' \<and> length a' = length a \<and> tm_count m' = tm_count m \<and>
       ti_token (a' ! i) = (NewSalt ^^ returns i m xs) (ti_token (a ! i))"
proof (induction xs arbitrary: m a)
  case (Cons x xs)
  then obtain m1 where m1: "tm_exec m x = Some m1" "tm_run m1 xs = Some m'" by (auto split: option.splits)
  obtain a1 where a1: "tm_items m1 = Some a1" "length a1 = length a" "tm_count m1 = tm_count m"
    "ti_token (a1 ! i) = (NewSalt ^^ gives_back i m x) (ti_token (a ! i))"
    using exec_tokens [OF m1(1) Cons.prems(2-4)] by blast
  obtain a' where "tm_items m' = Some a'" "length a' = length a1" "tm_count m' = tm_count m1"
    "ti_token (a' ! i) = (NewSalt ^^ returns i m1 xs) (ti_token (a1 ! i))"
    using Cons.IH [OF m1(2) a1(1)] a1(2,3) Cons.prems(3,4) by auto
  then show ?case using a1 m1 by (simp add: add.commute [of "gives_back i m x"] funpow_add)
qed simp

subsection \<open>Properties\<close>

text \<open>
  A manager initialised for \<open>n\<close> tokens issues distinct tokens for any list of at most \<open>n\<close>
  values; each token reads the value it was issued for, and when all are given back the manager has
  room for \<open>n\<close> tokens again and no token is in use.
\<close>

theorem TokenMgr_issues_and_returns:
  assumes "0 < n" and "n \<le> GetMaxCount" and "length ds \<le> unat n"
  shows "\<exists>m ts m'. TM_Init junk TokenMgr n = (0, m) \<and> tokens.issue m ds = Some (ts, m') \<and> length ts = length ds \<and> distinct ts \<and>
    (\<forall>i < length ds. TM_GetData m' (ts ! i) = Some (ds ! i)) \<and>
    tm_inv (tokens.return_all m' ts) \<and> tm_room (tokens.return_all m' ts) = unat n \<and> tm_map (tokens.return_all m' ts) = Map.empty"
proof -
  obtain m where m: "TM_Init junk TokenMgr n = (0, m)" "tm_rep m [1..<unat n + 1]" "tm_count m = n"
    using TM_Init_rep [OF assms(1,2), of junk] by (elim exE conjE) (rule that)
  have room: "tm_room m = unat n" using tm_rep_room [OF m(2)] by (simp del: upt_Suc)
  have "tm_map m t = None" for t
  proof (cases "tm_map m t")
    case (Some d)
    with m(2) obtain a i where "tm_items m = Some a" "length a = unat (tm_count m) + 1" "0 < i" "i < length a"
      "i \<notin> set [1..<unat n + 1]" by (rule tm_map_cell) (rule that)
    then show ?thesis using m(3) by simp
  qed
  then have none: "tm_map m = Map.empty" by auto
  have "tm_inv m" "length ds \<le> tm_room m" using m(2) room assms(3) by (auto simp: tm_inv_def)
  from tokens.issue_return [OF this] obtain ts m' where 1: "tokens.issue m ds = Some (ts, m')" "length ts = length ds" "distinct ts"
    "tm_map m' = map_of (zip ts ds)" "tm_inv (tokens.return_all m' ts)" "tm_map (tokens.return_all m' ts) = Map.empty"
    "tm_room (tokens.return_all m' ts) = unat n" by (auto simp: none room)
  have "TM_GetData m' (ts ! i) = Some (ds ! i)" if "i < length ds" for i
  proof -
    have "tm_map m' (ts ! i) = Some (ds ! i)" using 1(2-4) that by (simp add: map_of_zip_nth)
    then show ?thesis by (simp add: tm_map_def split: if_splits)
  qed
  with 1 m(1) show ?thesis by blast
qed

theorem TokenMgr_issues_and_returns_witness:
  "\<exists>m ts m'. TM_Init CHR ''?'' TokenMgr 3 = (0, m) \<and> tokens.issue m ''hi'' = Some (ts, m') \<and> length ts = length ''hi'' \<and> distinct ts \<and>
    (\<forall>i < length ''hi''. TM_GetData m' (ts ! i) = Some (''hi'' ! i)) \<and>
    tm_inv (tokens.return_all m' ts) \<and> tm_room (tokens.return_all m' ts) = unat (3 :: u32) \<and> tm_map (tokens.return_all m' ts) = Map.empty"
  by (rule TokenMgr_issues_and_returns) (simp_all add: GetMaxCount_def)

text \<open>
  C8. For how long an old token is refused: whatever calls a program makes after a token was in use,
  with whatever tokens, the token is accepted afterwards exactly if its cell has been given back a
  multiple of 65536 times in between. In particular it is refused after its own return, until the
  salt has wrapped around.
\<close>

theorem token_refused_until_salt_wraps:
  assumes "tm_inv m" and "tm_map m t = Some d" and "tm_run m xs = Some m'"
  shows "TM_GetData m' t \<noteq> None \<longleftrightarrow> 65536 dvd returns (unat (GetIndex t)) m xs"
proof -
  obtain fs where rep: "tm_rep m fs" using assms(1) by (auto simp: tm_inv_def)
  let ?i = "unat (GetIndex t)"
  obtain a where a: "tm_items m = Some a" "length a = unat (tm_count m) + 1" "?i < length a" "0 < ?i" "ti_token (a ! ?i) = t"
    using tm_map_cell [OF rep assms(2)] by metis
  obtain a' where a': "tm_items m' = Some a'" "length a' = length a" "tm_count m' = tm_count m"
    "ti_token (a' ! ?i) = (NewSalt ^^ returns ?i m xs) t" using run_tokens [OF assms(3) a(1-3)] a(5) by auto
  have "0 < GetIndex t \<and> GetIndex t \<le> tm_count m'" using a(2,3,4) a'(3) by (simp add: word_less_nat_alt word_le_nat_alt)
  then have "TM_GetData m' t \<noteq> None \<longleftrightarrow> GetSalt (ti_token (a' ! ?i)) = GetSalt t"
    using a'(1) by (simp add: TM_GetData_def check_token_def)
  then show ?thesis by (simp add: a'(4) NewSalt_same)
qed

text \<open>A manager for two tokens with one of them in use.\<close>

definition demo_mgr :: "char token_mgr" where
  "demo_mgr = \<lparr>tm_items = Some [\<lparr>ti_token = 1, ti_data = CHR ''-'', ti_next = 2\<rparr>, \<lparr>ti_token = 0x10001, ti_data = CHR ''a'', ti_next = 0\<rparr>,
     \<lparr>ti_token = 0x20001, ti_data = CHR ''-'', ti_next = 3\<rparr>], tm_count = 2, tm_free_count = 1\<rparr>"

lemma demo_mgr_rep: "tm_rep demo_mgr [2]"
  by (auto simp: tm_rep_def demo_mgr_def ln_def tokens_ok_def GetMaxCount_def GetIndex_def less_Suc_eq nth_Cons')

definition demo_calls :: "char token_op list" where
  "demo_calls = [OpDealloc 0x10001, OpAlloc, OpDealloc 0x10001]"

lemma demo_calls_run: "tm_run demo_mgr demo_calls = Some (the (tm_run demo_mgr demo_calls))" "returns 1 demo_mgr demo_calls = 1"
  "tm_map demo_mgr 0x10001 = Some CHR ''a''" "unat (GetIndex 0x10001) = 1"
  by code_simp+

theorem token_refused_until_salt_wraps_witness:
  "returns (unat (GetIndex 0x10001)) demo_mgr demo_calls = 1 \<and>
   (TM_GetData (the (tm_run demo_mgr demo_calls)) 0x10001 \<noteq> None \<longleftrightarrow> 65536 dvd returns (unat (GetIndex 0x10001)) demo_mgr demo_calls)"
  using token_refused_until_salt_wraps [OF _ demo_calls_run(3,1)] demo_mgr_rep demo_calls_run(2,4) by (auto simp: tm_inv_def)

end
