(* ===== verification/State_Machine.thy ===== *)
theory State_Machine
  imports Prelude
begin

text \<open>
  The state machine framework of \<open>libsrc/blitz/include/blitz/state_machine.h\<close> (class
  \<open>StateMachine\<close>). A machine has a table of states with optional entry actions and a table of
  transitions with actions; a context is one execution, with its own data, its current state and a
  callback that receives the result. The actions are methods of the user's data class and are
  arguments of the model: an action maps the data (and the event and context id) to the returned
  code and the new data. Actions do not call back into the machine here.

  A result \<open>None\<close> is a failed assertion, a call through a null callback, or a chain of entry
  actions that never ends. Two threads are modelled separately, at the end, by the steps between
  which the locks are free.
\<close>

type_synonym ctx_id = u32

record 'e event =
  ev_type :: int
  ev_data :: 'e

record 'd state =
  st_id :: int
  st_action :: "('d \<Rightarrow> ctx_id \<Rightarrow> int \<times> 'd) option"

record ('d, 'e) transition =
  tr_state :: int
  tr_event_type :: int
  tr_action :: "'d \<Rightarrow> 'e event \<Rightarrow> ctx_id \<Rightarrow> int \<times> 'd"

text \<open>\<open>cx_user\<close> stands for \<open>fn_on_context_end\<close> with \<open>user_param\<close>; \<open>None\<close> is a null callback.\<close>

record ('d, 'u) internal_context =
  cx_data :: 'd
  cx_id :: ctx_id
  cx_cur_state :: int
  cx_prev_state :: int
  cx_user :: "'u option"

text \<open>The table of states is an association list, so that it can be tested for being empty.\<close>

record ('d, 'e, 'u) state_machine =
  sm_states :: "(int \<times> 'd state) list"
  sm_transitions :: "int \<rightharpoonup> int \<rightharpoonup> ('d, 'e) transition"
  sm_start_state :: int
  sm_end_state :: int
  sm_next_context_id :: ctx_id
  sm_contexts :: "ctx_id \<rightharpoonup> ('d, 'u) internal_context"

definition StateMachine :: "('d, 'e, 'u) state_machine" where
  "StateMachine = \<lparr>sm_states = [], sm_transitions = Map.empty, sm_start_state = -1, sm_end_state = -1,
     sm_next_context_id = 0, sm_contexts = Map.empty\<rparr>"

subsection \<open>Tables\<close>

definition GetState :: "('d, 'e, 'u) state_machine \<Rightarrow> int \<Rightarrow> 'd state option" where
  "GetState m s = map_of (sm_states m) s"

definition GetTransition :: "('d, 'e, 'u) state_machine \<Rightarrow> int \<Rightarrow> int \<Rightarrow> ('d, 'e) transition option" where
  "GetTransition m s ev = (case sm_transitions m s of None \<Rightarrow> None | Some tev \<Rightarrow> tev ev)"

text \<open>
  The loop that inserts the states: \<open>Inl\<close> is the early return with -1, which keeps the states
  inserted so far; otherwise the code \<open>ret\<close> and the table.
\<close>

primrec insert_states :: "(int \<times> 'd state) list \<Rightarrow> 'd state list \<Rightarrow> (int \<times> 'd state) list + int \<times> (int \<times> 'd state) list" where
  "insert_states t [] = Inr (0, t)"
| "insert_states t (s # ss) =
     (if st_id s \<le> 0 then Inl t
      else if map_of t (st_id s) \<noteq> None then Inr (-2, t)
      else insert_states ((st_id s, s) # t) ss)"

primrec insert_transitions ::
  "(int \<times> 'd state) list \<Rightarrow> (int \<rightharpoonup> int \<rightharpoonup> ('d, 'e) transition) \<Rightarrow> ('d, 'e) transition list \<Rightarrow>
   int \<times> (int \<rightharpoonup> int \<rightharpoonup> ('d, 'e) transition)" where
  "insert_transitions st tt [] = (0, tt)"
| "insert_transitions st tt (x # xs) =
     (if map_of st (tr_state x) = None then (-3, tt)
      else let tev = (case tt (tr_state x) of None \<Rightarrow> Map.empty | Some tev \<Rightarrow> tev);
               tt1 = tt(tr_state x \<mapsto> tev) in
        if tev (tr_event_type x) \<noteq> None then (-3, tt1)
        else insert_transitions st (tt(tr_state x \<mapsto> tev(tr_event_type x \<mapsto> x))) xs)"

definition SM_Init ::
  "('d, 'e, 'u) state_machine \<Rightarrow> 'd state list \<Rightarrow> ('d, 'e) transition list \<Rightarrow> int \<Rightarrow> int \<Rightarrow> (int \<times> ('d, 'e, 'u) state_machine) cxx" where
  "SM_Init m states transitions start_state end_state =
     (if \<not> start_state > 0 \<or> \<not> end_state > 0 \<or> states = [] then None
      else if sm_states m \<noteq> [] then Some (1, m)
      else let m1 = m\<lparr>sm_start_state := start_state, sm_end_state := end_state\<rparr> in
        (case insert_states (sm_states m) states of
           Inl t \<Rightarrow> Some (-1, m1\<lparr>sm_states := t\<rparr>)
         | Inr (ret, t) \<Rightarrow>
             if ret \<noteq> 0 then Some (ret, m1\<lparr>sm_states := []\<rparr>)
             else if map_of t end_state = None then Some (-3, m1\<lparr>sm_states := t\<rparr>)
             else (case insert_transitions t (sm_transitions m1) transitions of (ret, tt) \<Rightarrow>
               if ret \<noteq> 0 then Some (ret, m1\<lparr>sm_states := [], sm_transitions := Map.empty\<rparr>)
               else Some (ret, m1\<lparr>sm_states := t, sm_transitions := tt\<rparr>))))"

subsection \<open>Contexts\<close>

partial_function (option) InternalGotoState ::
  "('d, 'e, 'u) state_machine \<Rightarrow> ('d, 'u) internal_context \<Rightarrow> int \<Rightarrow> (int \<times> ('d, 'u) internal_context) option" where
  "InternalGotoState m cx state_id =
     (if state_id < 0 then None
      else case GetState m state_id of
        None \<Rightarrow> None
      | Some st \<Rightarrow>
          let cx1 = cx\<lparr>cx_prev_state := cx_cur_state cx, cx_cur_state := state_id\<rparr>;
              r = (case st_action st of None \<Rightarrow> (0, cx_data cx1) | Some f \<Rightarrow> f (cx_data cx1) (cx_id cx1));
              cx2 = cx1\<lparr>cx_data := snd r\<rparr> in
          if state_id = sm_end_state m then Some (1, cx2)
          else if fst r > 0 then InternalGotoState m cx2 (fst r)
          else if fst r = 0 then Some (0, cx2)
          else Some (fst r, cx2))"

text \<open>A call of the callback: the context, the result code, the output and the user parameter.\<close>

type_synonym ('u, 'o) callback = "ctx_id \<times> int \<times> 'o option \<times> 'u"

definition FindContext :: "('d, 'e, 'u) state_machine \<Rightarrow> ctx_id \<Rightarrow> ('d, 'u) internal_context option" where
  "FindContext m i = sm_contexts m i"

definition OnContextEnd :: "('d, 'e, 'u) state_machine \<Rightarrow> ctx_id \<Rightarrow> ('d, 'e, 'u) state_machine" where
  "OnContextEnd m i = m\<lparr>sm_contexts := (sm_contexts m)(i := None)\<rparr>"

text \<open>The end of a context: output, callback, erasure.\<close>

definition finish ::
  "('d \<Rightarrow> 'o) \<Rightarrow> ('d, 'e, 'u) state_machine \<Rightarrow> ('d, 'u) internal_context \<Rightarrow> int \<Rightarrow> (('d, 'e, 'u) state_machine \<times> ('u, 'o) callback) cxx" where
  "finish get_output m cx res =
     (case cx_user cx of
        None \<Rightarrow> None
      | Some u \<Rightarrow> Some (OnContextEnd m (cx_id cx), (cx_id cx, res, Some (get_output (cx_data cx)), u)))"

text \<open>Storing the context object that an operation has changed.\<close>

definition keep_context :: "('d, 'e, 'u) state_machine \<Rightarrow> ('d, 'u) internal_context \<Rightarrow> ('d, 'e, 'u) state_machine" where
  "keep_context m cx = m\<lparr>sm_contexts := (sm_contexts m)(cx_id cx \<mapsto> cx)\<rparr>"

definition StartOneContext ::
  "('i \<Rightarrow> 'd) \<Rightarrow> ('d \<Rightarrow> 'o) \<Rightarrow> ('d, 'e, 'u) state_machine \<Rightarrow> 'i \<Rightarrow> 'u option \<Rightarrow>
   (int \<times> ('d, 'e, 'u) state_machine \<times> ('u, 'o) callback list) cxx" where
  "StartOneContext set_input get_output m input user =
     (let cid = sm_next_context_id m + 1;
          m1 = m\<lparr>sm_next_context_id := cid\<rparr>;
          cx = \<lparr>cx_data = set_input input, cx_id = cid, cx_cur_state = sm_start_state m, cx_prev_state = 0, cx_user = user\<rparr> in
      if sm_contexts m1 cid \<noteq> None then Some (-2, m1, case user of None \<Rightarrow> [] | Some u \<Rightarrow> [(cid, -2, None, u)])
      else let m2 = keep_context m1 cx in
        (case InternalGotoState m2 cx (sm_start_state m2) of
           None \<Rightarrow> None
         | Some (ret, cx1) \<Rightarrow>
             if ret \<noteq> 0
             then map_option (\<lambda>(m3, c). (0, m3, [c])) (finish get_output m2 cx1 (if ret = 1 then 0 else ret))
             else Some (0, keep_context m2 cx1, [])))"

text \<open>
  What \<open>ProcessEvent\<close> does while it holds the lock of the context: the code to return, the
  context, and the result for the callback if the context has ended.
\<close>

definition handle_event ::
  "('d, 'e, 'u) state_machine \<Rightarrow> ('d, 'u) internal_context \<Rightarrow> 'e event \<Rightarrow> (int \<times> ('d, 'u) internal_context \<times> int option) cxx" where
  "handle_event m cx event =
     (case GetTransition m (cx_cur_state cx) (ev_type event) of
        None \<Rightarrow> Some (2, cx, None)
      | Some tr \<Rightarrow>
          let r = tr_action tr (cx_data cx) event (cx_id cx); next_state = fst r; cx1 = cx\<lparr>cx_data := snd r\<rparr> in
          if next_state > 0
          then (case InternalGotoState m cx1 next_state of
                  None \<Rightarrow> None
                | Some (ret, cx2) \<Rightarrow> Some (0, cx2, if ret \<noteq> 0 then Some (if ret = 1 then 0 else ret) else None))
          else if next_state = 0 then Some (0, cx1, None)
          else Some (0, cx1, Some next_state))"

definition ProcessEvent ::
  "('d \<Rightarrow> 'o) \<Rightarrow> ('d, 'e, 'u) state_machine \<Rightarrow> ctx_id \<Rightarrow> 'e event \<Rightarrow> (int \<times> ('d, 'e, 'u) state_machine \<times> ('u, 'o) callback list) cxx" where
  "ProcessEvent get_output m context_id event =
     (case FindContext m context_id of
        None \<Rightarrow> Some (1, m, [])
      | Some cx \<Rightarrow>
          (case handle_event m cx event of
             None \<Rightarrow> None
           | Some (code, cx1, None) \<Rightarrow> Some (code, keep_context m cx1, [])
           | Some (code, cx1, Some res) \<Rightarrow> map_option (\<lambda>(m2, c). (code, m2, [c])) (finish get_output m cx1 res)))"

subsection \<open>The tables after initialisation\<close>

definition states_ok :: "'d state list \<Rightarrow> bool" where
  "states_ok ss \<longleftrightarrow> (\<forall>s \<in> set ss. 0 < st_id s) \<and> distinct (map st_id ss)"

definition tr_key :: "('d, 'e) transition \<Rightarrow> int \<times> int" where
  "tr_key x = (tr_state x, tr_event_type x)"

definition transitions_ok :: "'d state list \<Rightarrow> ('d, 'e) transition list \<Rightarrow> bool" where
  "transitions_ok ss xs \<longleftrightarrow> (\<forall>x \<in> set xs. tr_state x \<in> st_id ` set ss) \<and> distinct (map tr_key xs)"

abbreviation state_table :: "'d state list \<Rightarrow> (int \<times> 'd state) list" where
  "state_table ss \<equiv> map (\<lambda>s. (st_id s, s)) ss"

lemma insert_states_cases:
  "fst ` set t = K \<Longrightarrow>
   (if (\<forall>s \<in> set ss. 0 < st_id s) \<and> distinct (map st_id ss) \<and> st_id ` set ss \<inter> K = {}
    then insert_states t ss = Inr (0, rev (state_table ss) @ t)
    else (\<exists>t'. insert_states t ss = Inl t') \<or> (\<exists>t'. insert_states t ss = Inr (-2, t')))"
proof (induction ss arbitrary: t K)
  case (Cons s ss)
  then have K: "map_of t (st_id s) \<noteq> None \<longleftrightarrow> st_id s \<in> K" by (simp add: map_of_eq_None_iff)
  have "fst ` set ((st_id s, s) # t) = insert (st_id s) K" using Cons.prems by auto
  from Cons.IH [OF this] K show ?case by (simp add: image_iff split: if_splits)
qed simp


definition tr_lookup :: "(int \<rightharpoonup> int \<rightharpoonup> ('d, 'e) transition) \<Rightarrow> int \<Rightarrow> int \<Rightarrow> ('d, 'e) transition option" where
  "tr_lookup tt s e = (case tt s of None \<Rightarrow> None | Some tev \<Rightarrow> tev e)"

lemma tr_lookup_insert:
  assumes "tev = (case tt s of None \<Rightarrow> Map.empty | Some tev \<Rightarrow> tev)"
  shows "tr_lookup (tt(s \<mapsto> tev(e \<mapsto> x))) s' e' = (if s' = s \<and> e' = e then Some x else tr_lookup tt s' e')"
    and "tev e = tr_lookup tt s e"
  using assms by (auto simp: tr_lookup_def split: option.splits)

lemma insert_transitions_cases:
  "if (\<forall>x \<in> set xs. map_of st (tr_state x) \<noteq> None) \<and> distinct (map tr_key xs) \<and> (\<forall>x \<in> set xs. tr_lookup tt (tr_state x) (tr_event_type x) = None)
   then \<exists>tt'. insert_transitions st tt xs = (0, tt') \<and>
     (\<forall>s e y. tr_lookup tt' s e = Some y \<longleftrightarrow> tr_lookup tt s e = Some y \<or> y \<in> set xs \<and> tr_key y = (s, e))
   else fst (insert_transitions st tt xs) = -3"
proof (induction xs arbitrary: tt)
  case (Cons x xs)
  define tev where "tev = (case tt (tr_state x) of None \<Rightarrow> Map.empty | Some tev \<Rightarrow> tev)"
  define tt1 where "tt1 = tt(tr_state x \<mapsto> tev(tr_event_type x \<mapsto> x))"
  note L = tr_lookup_insert(1) [of tev tt "tr_state x" "tr_event_type x" x, OF tev_def, folded tt1_def]
    tr_lookup_insert(2) [of tev tt "tr_state x", OF tev_def]
  have run: "insert_transitions st tt (x # xs) =
      (if map_of st (tr_state x) = None then (-3, tt)
       else if tr_lookup tt (tr_state x) (tr_event_type x) \<noteq> None then (-3, tt(tr_state x \<mapsto> tev))
       else insert_transitions st tt1 xs)"
    by (simp add: Let_def L(2) tt1_def flip: tev_def)
  show ?case
  proof (cases "map_of st (tr_state x) \<noteq> None \<and> tr_lookup tt (tr_state x) (tr_event_type x) = None")
    case True
    have fresh: "(\<forall>y \<in> set xs. tr_lookup tt1 (tr_state y) (tr_event_type y) = None) \<longleftrightarrow>
        (\<forall>y \<in> set xs. tr_key y \<noteq> tr_key x \<and> tr_lookup tt (tr_state y) (tr_event_type y) = None)"
      by (auto simp: L(1) tr_key_def)
    let ?ok = "(\<forall>y \<in> set xs. map_of st (tr_state y) \<noteq> None) \<and> distinct (map tr_key xs) \<and>
       (\<forall>y \<in> set xs. tr_lookup tt1 (tr_state y) (tr_event_type y) = None)"
    have ok: "?ok \<longleftrightarrow> (\<forall>y \<in> set (x # xs). map_of st (tr_state y) \<noteq> None) \<and> distinct (map tr_key (x # xs)) \<and>
        (\<forall>y \<in> set (x # xs). tr_lookup tt (tr_state y) (tr_event_type y) = None)"
      using True unfolding fresh by (auto simp: image_iff)
    have look: "tr_lookup tt1 s e = Some y \<longleftrightarrow> tr_lookup tt s e = Some y \<or> y = x \<and> tr_key x = (s, e)" for s e y
      using True by (auto simp: L(1) tr_key_def)
    have "insert_transitions st tt (x # xs) = insert_transitions st tt1 xs" using True by (simp only: run) simp
    then show ?thesis unfolding ok [symmetric] using Cons.IH [of tt1]
      by (cases ?ok) (auto simp: look simp del: insert_transitions.simps)
  next
    case False
    then have "fst (insert_transitions st tt (x # xs)) = -3" by (simp only: run) auto
    then show ?thesis using False by (auto simp del: insert_transitions.simps)
  qed
qed (simp add: tr_lookup_def)

text \<open>
  Initialisation of a new machine: it succeeds exactly if the state ids are positive and
  distinct, the end state is one of them, every transition starts in a known state and no two have
  the same state and event; it reports a negative code otherwise. After success the tables hold
  exactly the given states and transitions.
\<close>

theorem SM_Init_builds_tables:
  assumes "0 < start_state" and "0 < end_state" and "states \<noteq> []"
  shows "\<exists>ret m. SM_Init StateMachine states transitions start_state end_state = Some (ret, m) \<and>
    (if states_ok states \<and> end_state \<in> st_id ` set states \<and> transitions_ok states transitions
     then ret = 0 \<and> sm_start_state m = start_state \<and> sm_end_state m = end_state \<and> sm_contexts m = Map.empty \<and>
       (\<forall>s st. GetState m s = Some st \<longleftrightarrow> st \<in> set states \<and> st_id st = s) \<and>
       (\<forall>s e tr. GetTransition m s e = Some tr \<longleftrightarrow> tr \<in> set transitions \<and> tr_state tr = s \<and> tr_event_type tr = e)
     else ret < 0)"
proof (cases "states_ok states")
  case False
  have "states_ok states \<longleftrightarrow> (\<forall>s \<in> set states. 0 < st_id s) \<and> distinct (map st_id states) \<and> st_id ` set states \<inter> {} = {}"
    by (simp add: states_ok_def)
  with insert_states_cases [of "[]" "{}" states] False
  have "(\<exists>t'. insert_states [] states = Inl t') \<or> (\<exists>t'. insert_states [] states = Inr (-2, t'))" by simp
  then show ?thesis using assms False by (auto simp: SM_Init_def StateMachine_def Let_def)
next
  case True
  let ?t = "rev (state_table states)"
  have ins: "insert_states [] states = Inr (0, ?t)"
    using insert_states_cases [of "[]" "{}" states] True by (simp add: states_ok_def)
  have dist: "distinct (map fst ?t)" using True by (simp add: states_ok_def rev_map comp_def flip: rev_map)
  then have look: "map_of ?t s = Some st \<longleftrightarrow> st \<in> set states \<and> st_id st = s" for s st
    by (auto simp: map_of_eq_Some_iff)
  then have dom: "map_of ?t s \<noteq> None \<longleftrightarrow> s \<in> st_id ` set states" for s
    by (simp add: map_of_eq_None_iff image_image)
  have trs: "transitions_ok states transitions \<longleftrightarrow> (\<forall>x \<in> set transitions. map_of ?t (tr_state x) \<noteq> None) \<and> distinct (map tr_key transitions) \<and>
      (\<forall>x \<in> set transitions. tr_lookup Map.empty (tr_state x) (tr_event_type x) = None)"
    unfolding dom by (auto simp: transitions_ok_def tr_lookup_def)
  note cases = insert_transitions_cases [of transitions ?t Map.empty, folded trs]
  show ?thesis
  proof (cases "end_state \<in> st_id ` set states \<and> transitions_ok states transitions")
    case True
    then obtain tt where tt: "insert_transitions ?t Map.empty transitions = (0, tt)"
      "\<forall>s e y. tr_lookup tt s e = Some y \<longleftrightarrow> tr_lookup Map.empty s e = Some y \<or> y \<in> set transitions \<and> tr_key y = (s, e)"
      using cases by auto
    have "map_of ?t end_state \<noteq> None" using True dom by blast
    then have run: "SM_Init StateMachine states transitions start_state end_state =
        Some (0, StateMachine\<lparr>sm_start_state := start_state, sm_end_state := end_state, sm_states := ?t, sm_transitions := tt\<rparr>)"
      using assms ins tt(1) by (simp add: SM_Init_def StateMachine_def Let_def)
    show ?thesis
      by (rule exI, rule exI, rule conjI, rule run)
        (use \<open>states_ok states\<close> True look tt(2) in \<open>simp add: GetState_def GetTransition_def StateMachine_def tr_lookup_def tr_key_def\<close>)
  next
    case False
    then have "map_of ?t end_state = None \<or> fst (insert_transitions ?t Map.empty transitions) = -3"
      using dom [of end_state] cases by (cases "transitions_ok states transitions") auto
    then show ?thesis using assms ins False by (auto simp: SM_Init_def StateMachine_def Let_def split: prod.splits)
  qed
qed


text \<open>A machine that adds up event data until event 5 ends it; event 7 is an error.\<close>

definition demo_states :: "nat state list" where
  "demo_states = [\<lparr>st_id = 1, st_action = None\<rparr>, \<lparr>st_id = 2, st_action = Some (\<lambda>d i. (0, d + 100))\<rparr>]"

definition demo_transitions :: "(nat, nat) transition list" where
  "demo_transitions = [\<lparr>tr_state = 1, tr_event_type = 5, tr_action = (\<lambda>d e i. (2, d + ev_data e))\<rparr>,
     \<lparr>tr_state = 1, tr_event_type = 6, tr_action = (\<lambda>d e i. (0, d + ev_data e))\<rparr>,
     \<lparr>tr_state = 1, tr_event_type = 7, tr_action = (\<lambda>d e i. (-4, d))\<rparr>]"

theorem SM_Init_builds_tables_witness:
  "\<exists>ret m. SM_Init StateMachine demo_states demo_transitions 1 2 = Some (ret, m) \<and>
    (if states_ok demo_states \<and> 2 \<in> st_id ` set demo_states \<and> transitions_ok demo_states demo_transitions
     then ret = 0 \<and> sm_start_state m = 1 \<and> sm_end_state m = 2 \<and> sm_contexts m = Map.empty \<and>
       (\<forall>s st. GetState m s = Some st \<longleftrightarrow> st \<in> set demo_states \<and> st_id st = s) \<and>
       (\<forall>s e tr. GetTransition m s e = Some tr \<longleftrightarrow> tr \<in> set demo_transitions \<and> tr_state tr = s \<and> tr_event_type tr = e)
     else ret < 0)"
  by (rule SM_Init_builds_tables) (simp_all add: demo_states_def)

subsection \<open>Chains of entry actions\<close>

text \<open>The code and the data that the entry action of a state gives.\<close>

definition entry :: "'d state \<Rightarrow> 'd \<Rightarrow> ctx_id \<Rightarrow> int \<times> 'd" where
  "entry st d i = (case st_action st of None \<Rightarrow> (0, d) | Some f \<Rightarrow> f d i)"

definition enter :: "('d, 'u) internal_context \<Rightarrow> int \<Rightarrow> 'd state \<Rightarrow> ('d, 'u) internal_context" where
  "enter cx s st = cx\<lparr>cx_prev_state := cx_cur_state cx, cx_cur_state := s, cx_data := snd (entry st (cx_data cx) (cx_id cx))\<rparr>"

lemma Goto_unfold:
  "InternalGotoState m cx s =
     (if s < 0 then None
      else case GetState m s of
        None \<Rightarrow> None
      | Some st \<Rightarrow>
          let c = fst (entry st (cx_data cx) (cx_id cx)) in
          if s = sm_end_state m then Some (1, enter cx s st)
          else if c > 0 then InternalGotoState m (enter cx s st) c
          else Some (c, enter cx s st))"
  by (subst InternalGotoState.simps) (auto simp: Let_def entry_def enter_def split: option.splits)

lemma enter_simps [simp]:
  "cx_id (enter cx s st) = cx_id cx" "cx_user (enter cx s st) = cx_user cx" "cx_cur_state (enter cx s st) = s"
  by (simp_all add: enter_def)

text \<open>Induction over a chain that ends: in the end state, in another state that stays, or by moving on.\<close>

lemma Goto_induct [consumes 1, case_names at_end stay move]:
  assumes "InternalGotoState m cx s = Some y"
    and "\<And>m cx st. GetState m (sm_end_state m) = Some st \<Longrightarrow> P m cx (sm_end_state m) (1, enter cx (sm_end_state m) st)"
    and "\<And>m cx s st. GetState m s = Some st \<Longrightarrow> s \<noteq> sm_end_state m \<Longrightarrow> fst (entry st (cx_data cx) (cx_id cx)) \<le> 0 \<Longrightarrow>
      P m cx s (fst (entry st (cx_data cx) (cx_id cx)), enter cx s st)"
    and "\<And>m cx s st y. GetState m s = Some st \<Longrightarrow> s \<noteq> sm_end_state m \<Longrightarrow> 0 < fst (entry st (cx_data cx) (cx_id cx)) \<Longrightarrow>
      P m (enter cx s st) (fst (entry st (cx_data cx) (cx_id cx))) y \<Longrightarrow> P m cx s y"
  shows "P m cx s y"
  using assms(1)
proof (induction rule: InternalGotoState.raw_induct [rotated, consumes 1, case_names step])
  case (step goto m cx s y)
  from step.hyps obtain st where st: "GetState m s = Some st" by (auto split: if_splits option.splits)
  let ?c = "fst (entry st (cx_data cx) (cx_id cx))"
  have eq: "(if s = sm_end_state m then Some (1, enter cx s st) else if ?c > 0 then goto m (enter cx s st) ?c else Some (?c, enter cx s st)) = Some y"
    using step.hyps st by (cases "st_action st") (auto simp: Let_def entry_def enter_def split: if_splits)
  show ?case
  proof (cases "s \<noteq> sm_end_state m \<and> ?c > 0")
    case True
    then have "goto m (enter cx s st) ?c = Some y" using eq by simp
    from assms(4) [OF st _ _ step.IH [OF this]] True show ?thesis by simp
  next
    case False
    then show ?thesis using eq assms(2) [of m st cx] assms(3) [OF st, of cx] st by (auto split: if_splits)
  qed
qed

lemma Goto_keeps_raw:
  "InternalGotoState m cx s = Some y \<Longrightarrow>
     cx_id (snd y) = cx_id cx \<and> cx_user (snd y) = cx_user cx \<and>
     (if fst y = 1 then cx_cur_state (snd y) = sm_end_state m else fst y \<le> 0 \<and> cx_cur_state (snd y) \<noteq> sm_end_state m)"
  by (induction rule: Goto_induct) auto

lemmas Goto_keeps = Goto_keeps_raw [of _ _ _ "(ret, cx')", simplified] for ret cx'

text \<open>
  Entry actions may move on only to known states of smaller rank: then every chain ends.
\<close>

definition ranked :: "('d, 'e, 'u) state_machine \<Rightarrow> (int \<Rightarrow> nat) \<Rightarrow> bool" where
  "ranked m rank \<longleftrightarrow> (\<forall>s st d i. GetState m s = Some st \<and> s \<noteq> sm_end_state m \<and> 0 < fst (entry st d i) \<longrightarrow>
     GetState m (fst (entry st d i)) \<noteq> None \<and> rank (fst (entry st d i)) < rank s)"

lemma Goto_returns:
  "ranked m rank \<Longrightarrow> 0 \<le> s \<Longrightarrow> GetState m s \<noteq> None \<Longrightarrow> \<exists>ret cx'. InternalGotoState m cx s = Some (ret, cx')"
proof (induction "rank s" arbitrary: s cx rule: less_induct)
  case less
  then obtain st where st: "GetState m s = Some st" by auto
  let ?c = "fst (entry st (cx_data cx) (cx_id cx))"
  show ?case
  proof (cases "s \<noteq> sm_end_state m \<and> 0 < ?c")
    case True
    then have "GetState m ?c \<noteq> None" "rank ?c < rank s" using less.prems(1) st by (auto simp: ranked_def)
    with less.hyps [of ?c "enter cx s st"] less.prems True st show ?thesis
      by (subst Goto_unfold) (auto simp: Let_def)
  next
    case False
    then show ?thesis using st less.prems by (subst Goto_unfold) (auto simp: Let_def)
  qed
qed

text \<open>
  C30. Entering a state: if entry actions move on only along states of decreasing rank, entering a
  known state ends; the code is 1 exactly if the context has arrived in the end state, and otherwise
  0 or the negative code of an action.
\<close>

theorem InternalGotoState_returns:
  assumes "ranked m rank" and "0 \<le> s" and "GetState m s \<noteq> None"
  shows "\<exists>ret cx'. InternalGotoState m cx s = Some (ret, cx') \<and> cx_id cx' = cx_id cx \<and> cx_user cx' = cx_user cx \<and> ret \<le> 1 \<and>
    (ret = 1 \<longleftrightarrow> cx_cur_state cx' = sm_end_state m)"
proof -
  obtain ret cx' where "InternalGotoState m cx s = Some (ret, cx')" using Goto_returns [OF assms] by blast
  with Goto_keeps [OF this] show ?thesis by (auto split: if_splits)
qed

text \<open>A machine whose entry action of state 1 moves on to the end state.\<close>

definition demo_chain :: "(nat, nat, string) state_machine" where
  "demo_chain = StateMachine\<lparr>sm_states := [(1, \<lparr>st_id = 1, st_action = Some (\<lambda>d i. (2, d + 1))\<rparr>), (2, \<lparr>st_id = 2, st_action = None\<rparr>)],
     sm_start_state := 1, sm_end_state := 2\<rparr>"

lemma demo_chain_ranked: "ranked demo_chain (\<lambda>s. if s = 1 then 1 else 0)"
  by (auto simp: ranked_def demo_chain_def GetState_def entry_def split: if_splits)

definition demo_cx :: "(nat, string) internal_context" where
  "demo_cx = \<lparr>cx_data = 0, cx_id = 1, cx_cur_state = 1, cx_prev_state = 0, cx_user = Some ''u''\<rparr>"

theorem InternalGotoState_returns_witness:
  "\<exists>ret cx'. InternalGotoState demo_chain demo_cx 1 = Some (ret, cx') \<and> cx_id cx' = cx_id demo_cx \<and> cx_user cx' = cx_user demo_cx \<and> ret \<le> 1 \<and>
    (ret = 1 \<longleftrightarrow> cx_cur_state cx' = sm_end_state demo_chain)"
  by (rule InternalGotoState_returns [OF demo_chain_ranked]) (simp_all add: GetState_def demo_chain_def)

subsection \<open>Runs of one thread\<close>

datatype ('i, 'e, 'u) sm_op = OpStart 'i 'u | OpEvent ctx_id "'e event"

fun sm_exec ::
  "('i \<Rightarrow> 'd) \<Rightarrow> ('d \<Rightarrow> 'o) \<Rightarrow> ('d, 'e, 'u) state_machine \<Rightarrow> ('i, 'e, 'u) sm_op \<Rightarrow> (int \<times> ('d, 'e, 'u) state_machine \<times> ('u, 'o) callback list) cxx" where
  "sm_exec si go m (OpStart inp u) = StartOneContext si go m inp (Some u)"
| "sm_exec si go m (OpEvent i ev) = ProcessEvent go m i ev"

primrec sm_run ::
  "('i \<Rightarrow> 'd) \<Rightarrow> ('d \<Rightarrow> 'o) \<Rightarrow> ('d, 'e, 'u) state_machine \<Rightarrow> ('i, 'e, 'u) sm_op list \<Rightarrow> (('d, 'e, 'u) state_machine \<times> ('u, 'o) callback list) cxx" where
  "sm_run si go m [] = Some (m, [])"
| "sm_run si go m (x # xs) =
     (case sm_exec si go m x of None \<Rightarrow> None | Some (_, m1, cs) \<Rightarrow> map_option (\<lambda>(m2, cs'). (m2, cs @ cs')) (sm_run si go m1 xs))"

fun is_start :: "('i, 'e, 'u) sm_op \<Rightarrow> bool" where
  "is_start (OpStart _ _) = True"
| "is_start (OpEvent _ _) = False"

text \<open>How often the callback of a context was called, and whether the context is still registered.\<close>

definition calls :: "('u, 'o) callback list \<Rightarrow> ctx_id \<Rightarrow> nat" where
  "calls cs i = length (filter (\<lambda>c. fst c = i) cs)"

definition alive :: "('d, 'e, 'u) state_machine \<Rightarrow> ctx_id \<Rightarrow> nat" where
  "alive m i = (if sm_contexts m i = None then 0 else 1)"

definition sm_inv :: "('d, 'e, 'u) state_machine \<Rightarrow> nat \<Rightarrow> bool" where
  "sm_inv m n \<longleftrightarrow> sm_next_context_id m = of_nat n \<and>
     (\<forall>i cx. sm_contexts m i = Some cx \<longrightarrow> cx_id cx = i \<and> cx_user cx \<noteq> None \<and> 1 \<le> unat i \<and> unat i \<le> n)"

lemma calls_simps [simp]: "calls [] i = 0" "calls (c # cs) i = (if fst c = i then 1 else 0) + calls cs i" "calls (cs @ ds) i = calls cs i + calls ds i"
  by (simp_all add: calls_def)

lemma alive_simps [simp]:
  "alive (keep_context m cx) j = (if j = cx_id cx then 1 else alive m j)"
  "alive (OnContextEnd m i) j = (if j = i then 0 else alive m j)"
  "alive (m\<lparr>sm_next_context_id := k\<rparr>) j = alive m j"
  by (simp_all add: alive_def keep_context_def OnContextEnd_def)

lemma sm_inv_keep [keeps]:
  "sm_inv m n \<Longrightarrow> cx_user cx \<noteq> None \<Longrightarrow> 1 \<le> unat (cx_id cx) \<Longrightarrow> unat (cx_id cx) \<le> n \<Longrightarrow> sm_inv (keep_context m cx) n"
  by (simp add: sm_inv_def keep_context_def)

lemma sm_inv_end [keeps]: "sm_inv m n \<Longrightarrow> sm_inv (OnContextEnd m i) n"
  by (simp add: sm_inv_def OnContextEnd_def)

lemma sm_inv_next [keeps]: "sm_inv m n \<Longrightarrow> sm_inv (m\<lparr>sm_next_context_id := of_nat (n + 1)\<rparr>) (n + 1)"
  by (fastforce simp: sm_inv_def)

lemma Goto_id: "InternalGotoState m cx s = Some (ret, cx') \<Longrightarrow> cx_id cx' = cx_id cx \<and> cx_user cx' = cx_user cx"
  using Goto_keeps [of m cx s ret cx'] by simp

lemma handle_keeps:
  assumes "handle_event m cx ev = Some (code, cx', r)"
  shows "cx_id cx' = cx_id cx" "cx_user cx' = cx_user cx"
  using assms by (auto simp: handle_event_def Let_def dest!: Goto_id split: option.splits if_splits)

lemma finish_ok:
  assumes "cx_user cx \<noteq> None"
  shows "\<exists>c. finish go m cx res = Some (OnContextEnd m (cx_id cx), c) \<and> fst c = cx_id cx"
  using assms by (auto simp: finish_def)

lemma exec_event:
  assumes "sm_inv m n" and "sm_exec si go m (OpEvent i ev) = Some (code, m', cs)"
  shows "sm_inv m' n \<and> (\<forall>j. calls cs j + alive m' j = alive m j)"
proof (cases "sm_contexts m i")
  case None
  then show ?thesis using assms by (simp add: ProcessEvent_def FindContext_def)
next
  case (Some cx)
  then have one: "alive m i = 1" by (simp add: alive_def)
  have cx: "cx_id cx = i" "cx_user cx \<noteq> None" using assms(1) Some by (auto simp: sm_inv_def)
  from assms(2) Some obtain code1 cx1 r where h: "handle_event m cx ev = Some (code1, cx1, r)"
    by (auto simp: ProcessEvent_def FindContext_def split: option.splits)
  note k = handle_keeps [OF h]
  show ?thesis
  proof (cases r)
    case None
    then have "m' = keep_context m cx1" "cs = []" using assms(2) Some h by (simp_all add: ProcessEvent_def FindContext_def)
    moreover have "1 \<le> unat i \<and> unat i \<le> n" using assms(1) Some by (auto simp: sm_inv_def)
    ultimately show ?thesis using sm_inv_keep [OF assms(1), of cx1] cx k one by simp
  next
    case r: (Some res)
    obtain c where "finish go m cx1 res = Some (OnContextEnd m i, c)" "fst c = i" using finish_ok [of cx1 go m res] cx k by auto
    then have "m' = OnContextEnd m i" "cs = [c]" "fst c = i" using assms(2) Some h r by (simp_all add: ProcessEvent_def FindContext_def)
    then show ?thesis using sm_inv_end [OF assms(1)] one by simp
  qed
qed

lemma exec_start:
  assumes "sm_inv m n" and "n + 1 < 2 ^ 32" and "sm_exec si go m (OpStart inp u) = Some (code, m', cs)"
  shows "sm_inv m' (n + 1) \<and> (\<forall>j. calls cs j + alive m' j = alive m j + (if j = of_nat (n + 1) then 1 else 0))"
proof -
  define cid :: ctx_id where "cid = of_nat (n + 1)"
  have u: "unat cid = n + 1" unfolding cid_def by (rule unat_of_nat_small) (use assms(2) in simp)
  have next_id: "sm_next_context_id m + 1 = cid" using assms(1) by (simp add: sm_inv_def cid_def add.commute)
  have free: "sm_contexts m cid = None"
  proof (rule ccontr)
    assume "sm_contexts m cid \<noteq> None"
    then have "unat cid \<le> n" using assms(1) by (auto simp: sm_inv_def)
    with u show False by simp
  qed
  then have none: "alive m cid = 0" by (simp add: alive_def)
  define cx where "cx = \<lparr>cx_data = si inp, cx_id = cid, cx_cur_state = sm_start_state m, cx_prev_state = 0, cx_user = Some u\<rparr>"
  define m2 where "m2 = keep_context (m\<lparr>sm_next_context_id := cid\<rparr>) cx"
  from assms(3) free obtain ret cx1 where g: "InternalGotoState m2 cx (sm_start_state m2) = Some (ret, cx1)"
    and fin: "(if ret \<noteq> 0 then map_option (\<lambda>(m3, c). (0, m3, [c])) (finish go m2 cx1 (if ret = 1 then 0 else ret))
       else Some (0, keep_context m2 cx1, [])) = Some (code, m', cs)"
    by (auto simp: StartOneContext_def Let_def next_id simp flip: cx_def m2_def split: option.splits)
  have k: "cx_id cx1 = cid" "cx_user cx1 \<noteq> None" using Goto_keeps [OF g] by (simp_all add: cx_def)
  have inv2: "sm_inv m2 (n + 1)" unfolding m2_def cid_def
    by (intro sm_inv_keep sm_inv_next assms(1)) (use u in \<open>simp_all add: cx_def\<close>)
  have alive2: "alive m2 j = alive m j + (if j = cid then 1 else 0)" for j using free by (simp add: m2_def cx_def alive_def keep_context_def)
  show ?thesis
  proof (cases "ret = 0")
    case True
    then have "m' = keep_context m2 cx1" "cs = []" using fin by simp_all
    then show ?thesis using sm_inv_keep [OF inv2, of cx1] k u alive2 none unfolding cid_def [symmetric] by simp
  next
    case False
    obtain c where "finish go m2 cx1 (if ret = 1 then 0 else ret) = Some (OnContextEnd m2 cid, c)" "fst c = cid"
      using finish_ok [OF k(2), of go m2 "if ret = 1 then 0 else ret"] k(1) by auto
    then have "m' = OnContextEnd m2 cid" "cs = [c]" "fst c = cid" using fin False by simp_all
    then show ?thesis using sm_inv_end [OF inv2, of cid] alive2 none unfolding cid_def [symmetric] by simp
  qed
qed

lemma run_balance:
  "sm_run si go m xs = Some (m', cs) \<Longrightarrow> sm_inv m n \<Longrightarrow> n + length (filter is_start xs) < 2 ^ 32 \<Longrightarrow>
     sm_inv m' (n + length (filter is_start xs)) \<and>
     (\<forall>j. calls cs j + alive m' j = alive m j + (if n < unat j \<and> unat j \<le> n + length (filter is_start xs) then 1 else 0))"
proof (induction xs arbitrary: m n cs)
  case (Cons x xs)
  then obtain code m1 cs1 cs2 where 1: "sm_exec si go m x = Some (code, m1, cs1)" "sm_run si go m1 xs = Some (m', cs2)" "cs = cs1 @ cs2"
    by (auto split: option.splits)
  show ?case
  proof (cases x)
    case (OpStart inp u)
    have b: "n + 1 < 2 ^ 32" "n + 1 + length (filter is_start xs) < 2 ^ 32" using Cons.prems(3) OpStart by simp_all
    have s: "sm_inv m1 (n + 1)" "\<And>j. calls cs1 j + alive m1 j = alive m j + (if j = of_nat (n + 1) then 1 else 0)"
      using exec_start [OF Cons.prems(2) b(1) 1(1) [unfolded OpStart]] by simp_all
    have u: "j = of_nat (n + 1) \<longleftrightarrow> unat j = n + 1" for j :: u32
      using unat_of_nat_small [of "n + 1", where 'a = 32] b(1) unfolding word_unat_eq_iff by simp
    note IH = Cons.IH [OF 1(2) s(1) b(2)]
    have "calls cs j + alive m' j = alive m j + (if n < unat j \<and> unat j \<le> n + 1 + length (filter is_start xs) then 1 else 0)" for j
      using spec [OF conjunct2 [OF IH], of j] s(2) [of j] 1(3) u [of j] by (auto split: if_splits)
    then show ?thesis using OpStart conjunct1 [OF IH] by simp
  next
    case (OpEvent i ev)
    have "sm_inv m1 n" "\<And>j. calls cs1 j + alive m1 j = alive m j"
      using exec_event [OF Cons.prems(2) 1(1) [unfolded OpEvent]] by simp_all
    moreover from this(1) have "sm_inv m' (n + length (filter is_start xs)) \<and>
      (\<forall>j. calls cs2 j + alive m' j = alive m1 j + (if n < unat j \<and> unat j \<le> n + length (filter is_start xs) then 1 else 0))"
      using Cons.IH [OF 1(2)] Cons.prems(3) OpEvent by simp
    ultimately show ?thesis using 1(3) OpEvent by (simp add: add.assoc)
  qed
qed simp

text \<open>
  C4. In every run of one thread, with fewer than \<open>2 ^ 32\<close> contexts started, each started
  context is either still registered and its callback has not been called, or it is gone and its
  callback has been called exactly once; no other callback is called. This holds whether contexts
  end in the end state or by an error code, and whatever events arrive.
\<close>

theorem each_context_called_back_once:
  assumes "sm_contexts m = Map.empty" and "sm_next_context_id m = 0" and "length (filter is_start xs) < 2 ^ 32"
    and "sm_run set_input get_output m xs = Some (m', cs)"
  shows "if 1 \<le> unat i \<and> unat i \<le> length (filter is_start xs)
    then (FindContext m' i = None \<longleftrightarrow> calls cs i = 1) \<and> (FindContext m' i \<noteq> None \<longleftrightarrow> calls cs i = 0)
    else FindContext m' i = None \<and> calls cs i = 0"
proof -
  have "sm_inv m 0" using assms(1,2) by (simp add: sm_inv_def)
  from run_balance [OF assms(4) this] assms(1,3)
  have "calls cs i + alive m' i = (if 0 < unat i \<and> unat i \<le> length (filter is_start xs) then 1 else 0)" by (simp add: alive_def)
  then show ?thesis by (auto simp: alive_def FindContext_def split: if_splits)
qed

definition demo_machine :: "(nat, nat, string) state_machine" where
  "demo_machine = (case SM_Init StateMachine demo_states demo_transitions 1 2 of Some (_, m) \<Rightarrow> m | None \<Rightarrow> StateMachine)"

definition demo_session :: "(nat, nat, string) sm_op list" where
  "demo_session = [OpStart 3 ''x'', OpStart 4 ''y'', OpEvent 1 \<lparr>ev_type = 6, ev_data = 2\<rparr>, OpEvent 1 \<lparr>ev_type = 5, ev_data = 1\<rparr>,
     OpEvent 1 \<lparr>ev_type = 5, ev_data = 1\<rparr>, OpEvent 2 \<lparr>ev_type = 9, ev_data = 1\<rparr>]"

lemma demo_machine_simps:
  "GetState demo_machine 1 = Some \<lparr>st_id = 1, st_action = None\<rparr>"
  "GetState demo_machine 2 = Some \<lparr>st_id = 2, st_action = Some (\<lambda>d i. (0, d + 100))\<rparr>"
  "sm_contexts demo_machine = Map.empty" "sm_next_context_id demo_machine = 0" "sm_start_state demo_machine = 1" "sm_end_state demo_machine = 2"
  "GetTransition demo_machine 1 5 = Some \<lparr>tr_state = 1, tr_event_type = 5, tr_action = (\<lambda>d e i. (2, d + ev_data e))\<rparr>"
  "GetTransition demo_machine 1 6 = Some \<lparr>tr_state = 1, tr_event_type = 6, tr_action = (\<lambda>d e i. (0, d + ev_data e))\<rparr>"
  "GetTransition demo_machine 1 7 = Some \<lparr>tr_state = 1, tr_event_type = 7, tr_action = (\<lambda>d e i. (-4, d))\<rparr>"
  "GetTransition demo_machine 1 9 = None"
  by (simp_all add: demo_machine_def SM_Init_def StateMachine_def demo_states_def demo_transitions_def GetState_def GetTransition_def Let_def)

text \<open>The tables do not depend on the contexts.\<close>

lemma table_simps [simp]:
  "GetState (m\<lparr>sm_contexts := c, sm_next_context_id := k\<rparr>) = GetState m" "GetTransition (m\<lparr>sm_contexts := c, sm_next_context_id := k\<rparr>) = GetTransition m"
  "GetState (m\<lparr>sm_contexts := c\<rparr>) = GetState m" "GetTransition (m\<lparr>sm_contexts := c\<rparr>) = GetTransition m"
  "GetState (m\<lparr>sm_next_context_id := k\<rparr>) = GetState m" "GetTransition (m\<lparr>sm_next_context_id := k\<rparr>) = GetTransition m"
  by (simp_all add: GetState_def GetTransition_def fun_eq_iff)

lemma demo_session_run: "\<exists>m'. sm_run id id demo_machine demo_session = Some (m', [(1, 0, Some 106, ''x'')])"
  by (simp add: demo_session_def StartOneContext_def ProcessEvent_def handle_event_def finish_def FindContext_def keep_context_def OnContextEnd_def
      demo_machine_simps Goto_unfold entry_def enter_def Let_def)

theorem each_context_called_back_once_witness:
  "\<exists>m' cs. sm_run id id demo_machine demo_session = Some (m', cs) \<and> length (filter is_start demo_session) = 2 \<and>
   (if 1 \<le> unat (1 :: u32) \<and> unat (1 :: u32) \<le> length (filter is_start demo_session)
    then (FindContext m' 1 = None \<longleftrightarrow> calls cs 1 = 1) \<and> (FindContext m' 1 \<noteq> None \<longleftrightarrow> calls cs 1 = 0)
    else FindContext m' 1 = None \<and> calls cs 1 = 0)"
proof -
  obtain m' cs where run: "sm_run id id demo_machine demo_session = Some (m', cs)" using demo_session_run by blast
  have "length (filter is_start demo_session) = 2" by (simp add: demo_session_def)
  with each_context_called_back_once [OF demo_machine_simps(3,4) _ run, of 1] run show ?thesis by auto
qed

subsection \<open>Two threads in \<open>ProcessEvent\<close>\<close>

text \<open>
  A thread that processes an event holds the lock of the table only while it looks up the context,
  and the lock of the context only until it has decided whether the context ends; the callback and
  the erasure follow without a lock, and the shared pointer keeps the object alive. A thread is
  therefore before the lookup, before the locked section, before the callback, before the erasure,
  or done. The objects stay in \<open>objs\<close> when \<open>registered\<close> no longer contains them.
\<close>

datatype ('e, 'u, 'o) thread =
    AtFind ctx_id "'e event" | AtLock ctx_id "'e event" | AtCall "('u, 'o) callback" | AtErase ctx_id | Done int

record ('d, 'e, 'u, 'o) shared =
  machine :: "('d, 'e, 'u) state_machine"
  objs :: "ctx_id \<rightharpoonup> ('d, 'u) internal_context"
  registered :: "ctx_id list"
  log :: "('u, 'o) callback list"

inductive event_step ::
  "('d \<Rightarrow> 'o) \<Rightarrow> ('d, 'e, 'u, 'o) shared \<Rightarrow> ('e, 'u, 'o) thread \<Rightarrow> ('d, 'e, 'u, 'o) shared \<Rightarrow> ('e, 'u, 'o) thread \<Rightarrow> bool"
  for go where
  found: "i \<in> set (registered g) \<Longrightarrow> event_step go g (AtFind i ev) g (AtLock i ev)"
| not_found: "i \<notin> set (registered g) \<Longrightarrow> event_step go g (AtFind i ev) g (Done 1)"
| stays: "objs g i = Some cx \<Longrightarrow> handle_event (machine g) cx ev = Some (code, cx', None) \<Longrightarrow>
    event_step go g (AtLock i ev) (g\<lparr>objs := (objs g)(i \<mapsto> cx')\<rparr>) (Done code)"
| ends: "objs g i = Some cx \<Longrightarrow> handle_event (machine g) cx ev = Some (code, cx', Some res) \<Longrightarrow> cx_user cx' = Some u \<Longrightarrow>
    event_step go g (AtLock i ev) (g\<lparr>objs := (objs g)(i \<mapsto> cx')\<rparr>) (AtCall (cx_id cx', res, Some (go (cx_data cx')), u))"
| call: "event_step go g (AtCall c) (g\<lparr>log := log g @ [c]\<rparr>) (AtErase (fst c))"
| erase: "event_step go g (AtErase i) (g\<lparr>registered := removeAll i (registered g)\<rparr>) (Done 0)"

inductive threads_step ::
  "('d \<Rightarrow> 'o) \<Rightarrow> ('d, 'e, 'u, 'o) shared \<times> ('e, 'u, 'o) thread list \<Rightarrow> ('d, 'e, 'u, 'o) shared \<times> ('e, 'u, 'o) thread list \<Rightarrow> bool"
  for go where
  step: "k < length ts \<Longrightarrow> event_step go g (ts ! k) g' t' \<Longrightarrow> threads_step go (g, ts) (g', ts[k := t'])"

text \<open>
  When no action reports an error and the end state has no transition, ended contexts stay in the
  end state, and a thread that comes late finds no transition.
\<close>

definition no_errors :: "('d, 'e, 'u) state_machine \<Rightarrow> bool" where
  "no_errors m \<longleftrightarrow> (\<forall>s st d i. GetState m s = Some st \<longrightarrow> 0 \<le> fst (entry st d i)) \<and>
     (\<forall>s e tr d ev i. GetTransition m s e = Some tr \<longrightarrow> 0 \<le> fst (tr_action tr d ev i)) \<and>
     (\<forall>e. GetTransition m (sm_end_state m) e = None)"

definition pending :: "('e, 'u, 'o) thread list \<Rightarrow> ctx_id \<Rightarrow> nat" where
  "pending ts i = length (filter (\<lambda>t. case t of AtCall c \<Rightarrow> fst c = i | _ \<Rightarrow> False) ts)"

definition once :: "('d, 'e, 'u, 'o) shared \<times> ('e, 'u, 'o) thread list \<Rightarrow> bool" where
  "once G \<longleftrightarrow> (case G of (g, ts) \<Rightarrow> no_errors (machine g) \<and> (\<forall>i cx. objs g i = Some cx \<longrightarrow> cx_id cx = i) \<and>
     (\<forall>i. calls (log g) i + pending ts i \<le> 1) \<and>
     (\<forall>i. 0 < calls (log g) i + pending ts i \<longrightarrow> (\<exists>cx. objs g i = Some cx \<and> cx_cur_state cx = sm_end_state (machine g))))"

lemma Goto_no_errors_raw:
  "InternalGotoState m cx s = Some y \<Longrightarrow> no_errors m \<Longrightarrow> 0 \<le> fst y"
  by (induction rule: Goto_induct) (auto simp: no_errors_def)

lemma handle_no_errors:
  assumes "no_errors m" and "handle_event m cx ev = Some (code, cx', r)"
  shows "cx_cur_state cx = sm_end_state m \<Longrightarrow> cx' = cx \<and> r = None"
    and "r \<noteq> None \<Longrightarrow> cx_cur_state cx' = sm_end_state m"
proof -
  show "cx' = cx \<and> r = None" if "cx_cur_state cx = sm_end_state m"
    using assms that by (simp add: handle_event_def no_errors_def)
  show "cx_cur_state cx' = sm_end_state m" if r: "r \<noteq> None"
  proof -
    obtain tr where tr: "GetTransition m (cx_cur_state cx) (ev_type ev) = Some tr"
      using assms(2) r by (auto simp: handle_event_def split: option.splits)
    define s where "s = tr_action tr (cx_data cx) ev (cx_id cx)"
    have nn: "0 \<le> fst s" using assms(1) tr unfolding no_errors_def s_def by blast
    have eq: "handle_event m cx ev = (if 0 < fst s then (case InternalGotoState m (cx\<lparr>cx_data := snd s\<rparr>) (fst s) of None \<Rightarrow> None
        | Some (ret, cx2) \<Rightarrow> Some (0, cx2, if ret \<noteq> 0 then Some (if ret = 1 then 0 else ret) else None))
      else if fst s = 0 then Some (0, cx\<lparr>cx_data := snd s\<rparr>, None) else Some (0, cx\<lparr>cx_data := snd s\<rparr>, Some (fst s)))"
      using tr by (simp add: handle_event_def Let_def s_def)
    have "fst s \<noteq> 0"
    proof
      assume "fst s = 0"
      then have "r = None" using eq assms(2) by simp
      with r show False by simp
    qed
    with nn have eq2: "(case InternalGotoState m (cx\<lparr>cx_data := snd s\<rparr>) (fst s) of None \<Rightarrow> None
        | Some (ret, cx2) \<Rightarrow> Some (0, cx2, if ret \<noteq> 0 then Some (if ret = 1 then 0 else ret) else None)) = Some (code, cx', r)"
      using eq assms(2) by simp
    then obtain ret cx2 where g2: "InternalGotoState m (cx\<lparr>cx_data := snd s\<rparr>) (fst s) = Some (ret, cx2)" by (auto split: option.splits)
    with eq2 r have g: "InternalGotoState m (cx\<lparr>cx_data := snd s\<rparr>) (fst s) = Some (ret, cx')" "ret \<noteq> 0" by (auto split: if_splits)
    then have "ret = 1" using Goto_no_errors_raw [OF g(1) assms(1)] Goto_keeps [OF g(1)] by (auto split: if_splits)
    then show ?thesis using Goto_keeps [OF g(1)] by simp
  qed
qed

lemma pending_upd:
  assumes "k < length ts"
  shows "pending (ts[k := t']) i + pending [ts ! k] i = pending ts i + pending [t'] i"
proof -
  have "ts = take k ts @ ts ! k # drop (Suc k) ts" "ts[k := t'] = take k ts @ t' # drop (Suc k) ts"
    using assms by (simp_all add: id_take_nth_drop upd_conv_take_nth_drop)
  then have "pending ts i = pending (take k ts) i + pending [ts ! k] i + pending (drop (Suc k) ts) i"
    "pending (ts[k := t']) i = pending (take k ts) i + pending [t'] i + pending (drop (Suc k) ts) i"
    unfolding pending_def by (metis append_Cons append_Nil append_assoc filter_append length_append)+
  then show ?thesis by simp
qed

lemma onceI:
  assumes "no_errors (machine g)" and "\<And>i cx. objs g i = Some cx \<Longrightarrow> cx_id cx = i" and "\<And>i. calls (log g) i + pending ts i \<le> 1"
    and "\<And>i. 0 < calls (log g) i + pending ts i \<Longrightarrow> \<exists>cx. objs g i = Some cx \<and> cx_cur_state cx = sm_end_state (machine g)"
  shows "once (g, ts)"
  using assms by (simp add: once_def)

lemma once_same:
  assumes "once (g, ts)" and "machine g' = machine g" and "objs g' = objs g"
    and "\<And>i. calls (log g') i + pending ts' i = calls (log g) i + pending ts i"
  shows "once (g', ts')"
  using assms(1) unfolding once_def prod.case assms(2-4) .

lemma pending_one [simp]:
  "pending [AtCall c] i = (if fst c = i then 1 else 0)" "pending [AtFind j ev] i = 0" "pending [AtLock j ev] i = 0"
  "pending [AtErase j] i = 0" "pending [Done code] i = 0"
  by (simp_all add: pending_def)

lemma once_step:
  assumes "threads_step go G G'" and "once G"
  shows "once G'"
  using assms(1)
proof cases
  case (step k ts g g' t')
  let ?w = "\<lambda>g ts i. calls (log g) i + pending ts i"
  have o: "no_errors (machine g)" "\<And>i cx. objs g i = Some cx \<Longrightarrow> cx_id cx = i" "\<And>i. ?w g ts i \<le> 1"
    "\<And>i. 0 < ?w g ts i \<Longrightarrow> \<exists>cx. objs g i = Some cx \<and> cx_cur_state cx = sm_end_state (machine g)"
    using assms(2) step(1) by (auto simp: once_def)
  have og: "once (g, ts)" using assms(2) step(1) by simp
  note p = pending_upd [OF step(3), of t']
  from step(4) show ?thesis
  proof cases
    case (stays i cx ev code cx')
    have "cx_cur_state cx = sm_end_state (machine g) \<Longrightarrow> cx' = cx" using handle_no_errors(1) [OF o(1) stays(5)] by blast
    moreover have "cx_id cx' = i" using handle_keeps(1) [OF stays(5)] o(2) stays(4) by auto
    ultimately have keep: "cx_cur_state cx = sm_end_state (machine g) \<Longrightarrow> cx' = cx" "cx_id cx' = i" by simp_all
    have w: "?w g' (ts[k := t']) j = ?w g ts j" for j using p [of j] stays by simp
    show ?thesis unfolding step(2)
    proof (intro onceI)
      fix j assume "0 < ?w g' (ts[k := t']) j"
      then obtain c where "objs g j = Some c" "cx_cur_state c = sm_end_state (machine g)" using o(4) w by metis
      then show "\<exists>cx. objs g' j = Some cx \<and> cx_cur_state cx = sm_end_state (machine g')" using stays(2,4) keep by (cases "j = i") auto
    qed (use o stays keep w in \<open>auto split: if_splits\<close>)
  next
    case (ends i cx ev code cx' res u)
    have ne: "cx_cur_state cx \<noteq> sm_end_state (machine g)" using handle_no_errors(1) [OF o(1) ends(5)] by blast
    have e: "cx_cur_state cx' = sm_end_state (machine g)" using handle_no_errors(2) [OF o(1) ends(5)] by simp
    have id: "cx_id cx' = i" using handle_keeps(1) [OF ends(5)] o(2) ends(4) by simp
    have "?w g ts i = 0" using o(4) [of i] ends(4) ne by (metis gr0I option.inject)
    have w: "?w g' (ts[k := t']) j = ?w g ts j + (if j = i then 1 else 0)" for j
      using p [of j] ends id by auto
    show ?thesis unfolding step(2)
    proof (intro onceI)
      fix j assume "0 < ?w g' (ts[k := t']) j"
      then have "j \<noteq> i \<Longrightarrow> 0 < ?w g ts j" using w [of j] by simp
      then show "\<exists>cx. objs g' j = Some cx \<and> cx_cur_state cx = sm_end_state (machine g')" using ends(2) e o(4) [of j] by (cases "j = i") auto
    next
      fix j show "?w g' (ts[k := t']) j \<le> 1" using w [of j] \<open>?w g ts i = 0\<close> o(3) [of j] by (simp only: split: if_split) simp
    qed (use o ends id in \<open>auto split: if_splits\<close>)
  next
    case (call c)
    show ?thesis unfolding step(2)
    proof (rule once_same [OF og])
      fix j show "?w g' (ts[k := t']) j = ?w g ts j" using p [of j] call by simp
    qed (use call in simp_all)
  next
    case (erase i)
    show ?thesis unfolding step(2)
      by (rule once_same [OF og]) (use p erase in \<open>simp_all\<close>)
  next
    case (found i ev)
    show ?thesis unfolding step(2)
      by (rule once_same [OF og]) (use p found in \<open>simp_all\<close>)
  next
    case (not_found i ev)
    show ?thesis unfolding step(2)
      by (rule once_same [OF og]) (use p not_found in \<open>simp_all\<close>)
  qed
qed

text \<open>
  C29. Any number of threads that process events concurrently: if no action reports an error and
  the end state has no transition, then in every interleaving the callback of each context is called
  at most once.
\<close>

theorem concurrent_callbacks_at_most_once:
  assumes "(threads_step get_output)\<^sup>*\<^sup>* (g, ts) (g', ts')" and "no_errors (machine g)" and "\<forall>i cx. objs g i = Some cx \<longrightarrow> cx_id cx = i"
    and "log g = []" and "\<forall>t \<in> set ts. \<exists>i ev. t = AtFind i ev"
  shows "calls (log g') i \<le> 1"
proof -
  have "pending ts i = 0" for i using assms(5) by (fastforce simp: pending_def filter_empty_conv)
  then have "once (g, ts)" using assms(2-4) by (simp add: once_def)
  with assms(1) have "once (g', ts')" by (induction rule: rtranclp_induct) (auto intro: once_step)
  then have "calls (log g') i + pending ts' i \<le> 1" by (simp add: once_def)
  then show ?thesis by simp
qed

text \<open>Two threads, by the step of one of them.\<close>

lemma step_two:
  "event_step go g t g' t' \<Longrightarrow> threads_step go (g, [t, u]) (g', [t', u])"
  "event_step go g u g' u' \<Longrightarrow> threads_step go (g, [t, u]) (g', [t, u'])"
  using threads_step.step [of 0 "[t, u]" go g g' t'] threads_step.step [of 1 "[t, u]" go g g' u'] by simp_all

definition demo_object :: "(nat, string) internal_context" where
  "demo_object = \<lparr>cx_data = 0, cx_id = 1, cx_cur_state = 1, cx_prev_state = 1, cx_user = Some ''u''\<rparr>"

definition demo_shared :: "(nat, nat, string, nat) shared" where
  "demo_shared = \<lparr>machine = demo_machine, objs = [1 \<mapsto> demo_object], registered = [1], log = []\<rparr>"

definition demo_event :: "int \<Rightarrow> nat event" where
  "demo_event k = \<lparr>ev_type = k, ev_data = 0\<rparr>"

lemma demo_fails: "handle_event demo_machine demo_object (demo_event 7) = Some (0, demo_object, Some (-4))"
  by (simp add: handle_event_def demo_object_def demo_event_def demo_machine_simps)

text \<open>The machine without the failing event, and a run of two threads that deliver the same event.\<close>

definition demo_quiet :: "(nat, nat, string, nat) shared" where
  "demo_quiet = demo_shared\<lparr>machine := demo_machine\<lparr>sm_transitions :=
     [1 \<mapsto> [5 \<mapsto> \<lparr>tr_state = 1, tr_event_type = 5, tr_action = (\<lambda>d e i. (2, d + ev_data e))\<rparr>]]\<rparr>\<rparr>"

lemma demo_quiet_ok: "no_errors (machine demo_quiet)"
  by (auto simp: no_errors_def demo_quiet_def demo_shared_def GetState_def GetTransition_def demo_machine_def SM_Init_def StateMachine_def
      demo_states_def demo_transitions_def entry_def Let_def split: if_splits)

definition demo_ended :: "(nat, string) internal_context" where
  "demo_ended = demo_object\<lparr>cx_data := 100, cx_cur_state := 2, cx_prev_state := 1\<rparr>"

lemma demo_quiet_handle:
  "handle_event (machine demo_quiet) demo_object (demo_event 5) = Some (0, demo_ended, Some 0)"
  "handle_event (machine demo_quiet) demo_ended (demo_event 5) = Some (2, demo_ended, None)"
proof -
  have "GetState (machine demo_quiet) 2 = Some \<lparr>st_id = 2, st_action = Some (\<lambda>d i. (0, d + 100))\<rparr>" "sm_end_state (machine demo_quiet) = 2"
    using demo_machine_simps(2,6) by (simp_all add: demo_quiet_def GetState_def)
  then show "handle_event (machine demo_quiet) demo_object (demo_event 5) = Some (0, demo_ended, Some 0)"
    "handle_event (machine demo_quiet) demo_ended (demo_event 5) = Some (2, demo_ended, None)"
    by (simp_all add: handle_event_def GetTransition_def demo_quiet_def demo_object_def demo_ended_def demo_event_def Goto_unfold entry_def enter_def)
qed

lemma demo_quiet_run:
  "\<exists>g'. (threads_step id)\<^sup>*\<^sup>* (demo_quiet, [AtFind 1 (demo_event 5), AtFind 1 (demo_event 5)]) (g', [AtErase 1, Done 2]) \<and> calls (log g') 1 = 1"
proof -
  let ?ev = "demo_event 5" and ?c = "(1, 0, Some 100, ''u'') :: (string, nat) callback"
  define g1 where "g1 = demo_quiet\<lparr>objs := (objs demo_quiet)(1 \<mapsto> demo_ended)\<rparr>"
  have find: "event_step id demo_quiet (AtFind 1 ?ev) demo_quiet (AtLock 1 ?ev)" by (rule found) (simp add: demo_quiet_def demo_shared_def)
  have stop: "event_step id demo_quiet (AtLock 1 ?ev) g1 (AtCall ?c)"
    using ends [of demo_quiet 1 demo_object ?ev 0 demo_ended 0 "''u''" id] demo_quiet_handle(1)
    by (simp add: g1_def demo_quiet_def demo_shared_def demo_object_def demo_ended_def)
  have g1: "objs g1 1 = Some demo_ended" "machine g1 = machine demo_quiet" "g1\<lparr>objs := (objs g1)(1 \<mapsto> demo_ended)\<rparr> = g1" "log g1 = []"
    by (simp_all add: g1_def demo_quiet_def demo_shared_def)
  have late: "event_step id g1 (AtLock 1 ?ev) g1 (Done 2)"
    using stays [of g1 1 demo_ended ?ev 2 demo_ended id, unfolded g1(3)] g1(1,2) demo_quiet_handle(2) by simp
  have c: "event_step id g1 (AtCall ?c) (g1\<lparr>log := [?c]\<rparr>) (AtErase 1)" using call [of id g1 ?c] g1(4) by simp
  have "(threads_step id)\<^sup>*\<^sup>* (demo_quiet, [AtFind 1 ?ev, AtFind 1 ?ev]) (g1\<lparr>log := [?c]\<rparr>, [AtErase 1, Done 2])"
    using step_two(1) [OF find] step_two(2) [OF find] step_two(1) [OF stop] step_two(2) [OF late] step_two(1) [OF c]
    by (meson converse_rtranclp_into_rtranclp rtranclp.rtrancl_refl)
  then show ?thesis by (intro exI [of _ "g1\<lparr>log := [?c]\<rparr>"]) simp
qed

theorem concurrent_callbacks_at_most_once_witness:
  "\<exists>g'. (threads_step id)\<^sup>*\<^sup>* (demo_quiet, [AtFind 1 (demo_event 5), AtFind 1 (demo_event 5)]) (g', [AtErase 1, Done 2]) \<and>
     calls (log g') 1 = 1 \<and> calls (log g') 1 \<le> 1"
proof -
  obtain g' where run: "(threads_step id)\<^sup>*\<^sup>* (demo_quiet, [AtFind 1 (demo_event 5), AtFind 1 (demo_event 5)]) (g', [AtErase 1, Done 2])"
    "calls (log g') 1 = 1" using demo_quiet_run by blast
  from concurrent_callbacks_at_most_once [OF run(1) demo_quiet_ok, of 1] run show ?thesis
    by (auto simp: demo_quiet_def demo_shared_def demo_object_def)
qed

text \<open>
  With error codes the callback can be called twice: two threads that have both looked up the
  context before the first one's action fails each end it and call the callback, because the failed
  context stays in its state.
\<close>

theorem failing_context_called_back_twice:
  "\<exists>g'. (threads_step id)\<^sup>*\<^sup>* (demo_shared, [AtFind 1 (demo_event 7), AtFind 1 (demo_event 7)]) (g', [Done 0, Done 0]) \<and>
     calls (log demo_shared) 1 = 0 \<and> calls (log g') 1 = 2"
proof -
  let ?ev = "demo_event 7" and ?c = "(1, -4, Some 0, ''u'') :: (string, nat) callback"
  have obj: "demo_shared\<lparr>objs := (objs demo_shared)(1 \<mapsto> demo_object)\<rparr> = demo_shared" by (simp add: demo_shared_def)
  have find: "event_step id demo_shared (AtFind 1 ?ev) demo_shared (AtLock 1 ?ev)" by (rule found) (simp add: demo_shared_def)
  have fail: "event_step id demo_shared (AtLock 1 ?ev) demo_shared (AtCall ?c)"
    using ends [of demo_shared 1 demo_object ?ev 0 demo_object "-4" "''u''" id, unfolded obj] demo_fails
    by (simp add: demo_shared_def demo_object_def)
  define g1 where "g1 = demo_shared\<lparr>log := log demo_shared @ [?c]\<rparr>"
  define g2 where "g2 = g1\<lparr>log := log g1 @ [?c]\<rparr>"
  define g3 where "g3 = g2\<lparr>registered := removeAll 1 (registered g2)\<rparr>"
  define g4 where "g4 = g3\<lparr>registered := removeAll 1 (registered g3)\<rparr>"
  have c: "event_step id demo_shared (AtCall ?c) g1 (AtErase 1)" "event_step id g1 (AtCall ?c) g2 (AtErase 1)"
    using call [of id demo_shared ?c] call [of id g1 ?c] by (simp_all add: g1_def g2_def)
  have e: "event_step id g2 (AtErase 1) g3 (Done 0)" "event_step id g3 (AtErase 1) g4 (Done 0)"
    using erase [of id g2 1] erase [of id g3 1] by (simp_all add: g3_def g4_def)
  have "(threads_step id)\<^sup>*\<^sup>* (demo_shared, [AtFind 1 ?ev, AtFind 1 ?ev]) (demo_shared, [AtCall ?c, AtCall ?c])"
    using step_two(1) [OF find] step_two(2) [OF find] step_two(1) [OF fail] step_two(2) [OF fail]
    by (meson converse_rtranclp_into_rtranclp rtranclp.rtrancl_refl)
  also have "(threads_step id)\<^sup>*\<^sup>* (demo_shared, [AtCall ?c, AtCall ?c]) (g4, [Done 0, Done 0])"
    using step_two(1) [OF c(1)] step_two(2) [OF c(2)] step_two(1) [OF e(1)] step_two(2) [OF e(2)]
    by (meson converse_rtranclp_into_rtranclp rtranclp.rtrancl_refl)
  finally have "(threads_step id)\<^sup>*\<^sup>* (demo_shared, [AtFind 1 ?ev, AtFind 1 ?ev]) (g4, [Done 0, Done 0])" .
  moreover have "log g4 = [?c, ?c]" by (simp add: g4_def g3_def g2_def g1_def demo_shared_def)
  ultimately show ?thesis by (intro exI [of _ g4]) (simp add: demo_shared_def)
qed

end
