(* ===== verification/Crc32.thy ===== *)
theory Crc32
  imports Prelude
begin

text \<open>
  The checksum of \<open>libsrc/utils/src/crc32.cpp\<close>, with which the older service selectors hash
  addresses and keys. The table of the source is copied as it stands; the theory proves that the
  table-driven loop computes the bit-serial CRC with the reflected polynomial \<open>0xEDB88320\<close>.
  The loop counter of the source has 32 bits, so the model applies to keys of fewer than
  \<open>2 ^ 32\<close> characters.
\<close>

definition crc32tab :: "u32 list" where
  "crc32tab =
    [0x00000000, 0x77073096, 0xee0e612c, 0x990951ba, 0x076dc419, 0x706af48f, 0xe963a535, 0x9e6495a3,
     0x0edb8832, 0x79dcb8a4, 0xe0d5e91e, 0x97d2d988, 0x09b64c2b, 0x7eb17cbd, 0xe7b82d07, 0x90bf1d91,
     0x1db71064, 0x6ab020f2, 0xf3b97148, 0x84be41de, 0x1adad47d, 0x6ddde4eb, 0xf4d4b551, 0x83d385c7,
     0x136c9856, 0x646ba8c0, 0xfd62f97a, 0x8a65c9ec, 0x14015c4f, 0x63066cd9, 0xfa0f3d63, 0x8d080df5,
     0x3b6e20c8, 0x4c69105e, 0xd56041e4, 0xa2677172, 0x3c03e4d1, 0x4b04d447, 0xd20d85fd, 0xa50ab56b,
     0x35b5a8fa, 0x42b2986c, 0xdbbbc9d6, 0xacbcf940, 0x32d86ce3, 0x45df5c75, 0xdcd60dcf, 0xabd13d59,
     0x26d930ac, 0x51de003a, 0xc8d75180, 0xbfd06116, 0x21b4f4b5, 0x56b3c423, 0xcfba9599, 0xb8bda50f,
     0x2802b89e, 0x5f058808, 0xc60cd9b2, 0xb10be924, 0x2f6f7c87, 0x58684c11, 0xc1611dab, 0xb6662d3d,
     0x76dc4190, 0x01db7106, 0x98d220bc, 0xefd5102a, 0x71b18589, 0x06b6b51f, 0x9fbfe4a5, 0xe8b8d433,
     0x7807c9a2, 0x0f00f934, 0x9609a88e, 0xe10e9818, 0x7f6a0dbb, 0x086d3d2d, 0x91646c97, 0xe6635c01,
     0x6b6b51f4, 0x1c6c6162, 0x856530d8, 0xf262004e, 0x6c0695ed, 0x1b01a57b, 0x8208f4c1, 0xf50fc457,
     0x65b0d9c6, 0x12b7e950, 0x8bbeb8ea, 0xfcb9887c, 0x62dd1ddf, 0x15da2d49, 0x8cd37cf3, 0xfbd44c65,
     0x4db26158, 0x3ab551ce, 0xa3bc0074, 0xd4bb30e2, 0x4adfa541, 0x3dd895d7, 0xa4d1c46d, 0xd3d6f4fb,
     0x4369e96a, 0x346ed9fc, 0xad678846, 0xda60b8d0, 0x44042d73, 0x33031de5, 0xaa0a4c5f, 0xdd0d7cc9,
     0x5005713c, 0x270241aa, 0xbe0b1010, 0xc90c2086, 0x5768b525, 0x206f85b3, 0xb966d409, 0xce61e49f,
     0x5edef90e, 0x29d9c998, 0xb0d09822, 0xc7d7a8b4, 0x59b33d17, 0x2eb40d81, 0xb7bd5c3b, 0xc0ba6cad,
     0xedb88320, 0x9abfb3b6, 0x03b6e20c, 0x74b1d29a, 0xead54739, 0x9dd277af, 0x04db2615, 0x73dc1683,
     0xe3630b12, 0x94643b84, 0x0d6d6a3e, 0x7a6a5aa8, 0xe40ecf0b, 0x9309ff9d, 0x0a00ae27, 0x7d079eb1,
     0xf00f9344, 0x8708a3d2, 0x1e01f268, 0x6906c2fe, 0xf762575d, 0x806567cb, 0x196c3671, 0x6e6b06e7,
     0xfed41b76, 0x89d32be0, 0x10da7a5a, 0x67dd4acc, 0xf9b9df6f, 0x8ebeeff9, 0x17b7be43, 0x60b08ed5,
     0xd6d6a3e8, 0xa1d1937e, 0x38d8c2c4, 0x4fdff252, 0xd1bb67f1, 0xa6bc5767, 0x3fb506dd, 0x48b2364b,
     0xd80d2bda, 0xaf0a1b4c, 0x36034af6, 0x41047a60, 0xdf60efc3, 0xa867df55, 0x316e8eef, 0x4669be79,
     0xcb61b38c, 0xbc66831a, 0x256fd2a0, 0x5268e236, 0xcc0c7795, 0xbb0b4703, 0x220216b9, 0x5505262f,
     0xc5ba3bbe, 0xb2bd0b28, 0x2bb45a92, 0x5cb36a04, 0xc2d7ffa7, 0xb5d0cf31, 0x2cd99e8b, 0x5bdeae1d,
     0x9b64c2b0, 0xec63f226, 0x756aa39c, 0x026d930a, 0x9c0906a9, 0xeb0e363f, 0x72076785, 0x05005713,
     0x95bf4a82, 0xe2b87a14, 0x7bb12bae, 0x0cb61b38, 0x92d28e9b, 0xe5d5be0d, 0x7cdcefb7, 0x0bdbdf21,
     0x86d3d2d4, 0xf1d4e242, 0x68ddb3f8, 0x1fda836e, 0x81be16cd, 0xf6b9265b, 0x6fb077e1, 0x18b74777,
     0x88085ae6, 0xff0f6a70, 0x66063bca, 0x11010b5c, 0x8f659eff, 0xf862ae69, 0x616bffd3, 0x166ccf45,
     0xa00ae278, 0xd70dd2ee, 0x4e048354, 0x3903b3c2, 0xa7672661, 0xd06016f7, 0x4969474d, 0x3e6e77db,
     0xaed16a4a, 0xd9d65adc, 0x40df0b66, 0x37d83bf0, 0xa9bcae53, 0xdebb9ec5, 0x47b2cf7f, 0x30b5ffe9,
     0xbdbdf21c, 0xcabac28a, 0x53b39330, 0x24b4a3a6, 0xbad03605, 0xcdd70693, 0x54de5729, 0x23d967bf,
     0xb3667a2e, 0xc4614ab8, 0x5d681b02, 0x2a6f2b94, 0xb40bbe37, 0xc30c8ea1, 0x5a05df1b, 0x2d02ef8d]"

text \<open>\<open>key[x]\<close> is a signed character: it is sign-extended before the exclusive or.\<close>

definition crc_step :: "u32 \<Rightarrow> char \<Rightarrow> u32" where
  "crc_step crc c = drop_bit 8 crc XOR crc32tab ! unat ((crc XOR word_of_int (schar c)) AND 0xff)"

definition hash_crc32 :: "string \<Rightarrow> u32" where
  "hash_crc32 key = NOT (foldl crc_step 0xFFFFFFFF key)"

subsection \<open>The bit-serial checksum\<close>

text \<open>One shift of the register, with the feedback of the bit that leaves it.\<close>

definition crc_shift :: "u32 \<Rightarrow> u32" where
  "crc_shift r = (if bit r 0 then drop_bit 1 r XOR 0xEDB88320 else drop_bit 1 r)"

definition crc_serial :: "u32 \<Rightarrow> bool \<Rightarrow> u32" where
  "crc_serial r b = crc_shift (r XOR of_bool b)"

definition byte_bits :: "char \<Rightarrow> bool list" where
  "byte_bits c = map (bit (of_char c :: nat)) [0..<8]"

definition crc32_reference :: "string \<Rightarrow> u32" where
  "crc32_reference key = NOT (foldl crc_serial (NOT 0) (concat (map byte_bits key)))"

lemma crc_shift_xor: "crc_shift (a XOR b) = crc_shift a XOR crc_shift b"
  by (intro bit_word_eqI) (auto simp: crc_shift_def bit_simps)

lemma crc_shifts_xor: "(crc_shift ^^ k) (a XOR b) = (crc_shift ^^ k) a XOR (crc_shift ^^ k) b"
  by (induction k) (simp_all add: crc_shift_xor)

lemma crc_shifts_high: "(\<And>j. j < k \<Longrightarrow> \<not> bit r j) \<Longrightarrow> (crc_shift ^^ k) r = drop_bit k r"
proof (induction k)
  case (Suc k)
  then have "(crc_shift ^^ k) r = drop_bit k r" by simp
  moreover have "\<not> bit (drop_bit k r) 0" using Suc.prems [of k] by (simp add: bit_simps)
  ultimately show ?case by (simp add: crc_shift_def [of "drop_bit k r"])
qed simp

text \<open>The table is built by doubling: the second half of the entries adds the value of the new bit.\<close>

primrec crc_doubling :: "u32 list \<Rightarrow> u32 list" where
  "crc_doubling [] = [0]"
| "crc_doubling (c # cs) = (let t = crc_doubling cs in t @ map (\<lambda>x. x XOR c) t)"

definition crc_values :: "nat \<Rightarrow> u32 list" where
  "crc_values k = rev (map (\<lambda>j. (crc_shift ^^ 8) (push_bit j 1)) [0..<k])"

lemma add_high_bit: "i < 2 ^ k \<Longrightarrow> k < 32 \<Longrightarrow> (of_nat (2 ^ k + i) :: u32) = of_nat i XOR push_bit k 1"
proof -
  assume *: "i < 2 ^ k" "k < 32"
  have "(of_nat (2 ^ k + i) :: u32) = of_nat i + push_bit k 1" by (simp add: push_bit_eq_mult)
  also have "\<dots> = of_nat i XOR push_bit k 1"
    using * by (intro disjunctive_add_eq_xor) (auto intro!: bit_word_eqI simp: bit_simps no_high_bit)
  finally show ?thesis .
qed

lemma crc_doubling_values: "k \<le> 8 \<Longrightarrow> crc_doubling (crc_values k) = map (\<lambda>i. (crc_shift ^^ 8) (of_nat i)) [0..<2 ^ k]"
proof (induction k)
  case 0
  have "(crc_shift ^^ 8) 0 = drop_bit 8 0" by (rule crc_shifts_high) simp
  then show ?case by (simp add: crc_values_def)
next
  case (Suc k)
  have "[0..<2 ^ Suc k] = [0..<2 ^ k] @ map (\<lambda>i. 2 ^ k + i) [0..<2 ^ k]"
    using upt_add_eq_append [of 0 "2 ^ k" "2 ^ k"] by (simp add: mult_2 map_add_upt add.commute)
  moreover have "(crc_shift ^^ 8) (of_nat (2 ^ k + i)) = (crc_shift ^^ 8) (of_nat i) XOR (crc_shift ^^ 8) (push_bit k 1)" if "i < 2 ^ k" for i
    using add_high_bit [OF that] Suc.prems by (simp add: crc_shifts_xor del: of_nat_add funpow.simps)
  ultimately show ?case using Suc by (simp add: crc_values_def Let_def del: funpow.simps)
qed

lemma crc_values_8: "crc_values 8 = [0xedb88320, 0x76dc4190, 0x3b6e20c8, 0x1db71064, 0x0edb8832, 0x076dc419, 0xee0e612c, 0x77073096]"
  by code_simp

lemma crc_table: "crc32tab = crc_doubling (crc_values 8)"
  unfolding crc_values_8 crc32tab_def by simp

lemma crc_table_nth:
  assumes "unat x < 256"
  shows "crc32tab ! unat x = (crc_shift ^^ 8) x"
proof -
  have tab: "crc32tab = map (\<lambda>i. (crc_shift ^^ 8) (of_nat i)) [0..<2 ^ 8]"
    using crc_doubling_values [of 8] crc_table by simp
  show ?thesis unfolding tab using assms by (simp del: funpow.simps upt_rec_numeral)
qed

lemma byte_schar: "(word_of_int (schar c) :: u32) AND 0xff = of_nat (of_char c)"
proof -
  have "(of_char c :: nat) < 256" by simp
  have "(0xff :: u32) = mask 8" by (simp add: mask_eq_exp_minus_1)
  then have "(word_of_int (schar c) :: u32) AND 0xff = take_bit 8 (word_of_int (schar c))" by (simp only: take_bit_eq_mask)
  also have "\<dots> = word_of_int (take_bit 8 (schar c))" by (intro bit_word_eqI) (auto simp: bit_simps)
  also have "take_bit 8 (schar c) = int (of_char c)" by (simp add: schar_def take_bit_eq_mod)
  finally show ?thesis by simp
qed

text \<open>Eight shifts of the register: the low byte is looked up, the rest moves down.\<close>

lemma crc_byte: "(crc_shift ^^ 8) x = drop_bit 8 x XOR crc32tab ! unat (x AND 0xff)"
proof -
  have m: "(0xff :: u32) = mask 8" by (simp add: mask_eq_exp_minus_1)
  have x: "x = (x AND NOT (mask 8)) XOR (x AND mask 8)" by (intro bit_word_eqI) (auto simp: bit_simps)
  have "(crc_shift ^^ 8) (x AND NOT (mask 8)) = drop_bit 8 (x AND NOT (mask 8))" by (rule crc_shifts_high) (simp add: bit_simps)
  also have "\<dots> = drop_bit 8 x" by (intro bit_word_eqI) (auto simp: bit_simps dest: bit_imp_le_length)
  finally have high: "(crc_shift ^^ 8) (x AND NOT (mask 8)) = drop_bit 8 x" .
  have "x AND mask 8 < 2 ^ 8" by (rule and_mask_less') simp
  then have "unat (x AND mask 8) < 256" by (simp add: word_less_nat_alt)
  then have low: "crc32tab ! unat (x AND mask 8) = (crc_shift ^^ 8) (x AND mask 8)" by (rule crc_table_nth)
  have "(crc_shift ^^ 8) x = (crc_shift ^^ 8) (x AND NOT (mask 8)) XOR (crc_shift ^^ 8) (x AND mask 8)"
    using crc_shifts_xor [of 8 "x AND NOT (mask 8)" "x AND mask 8"] x by simp
  then show ?thesis unfolding high m low .
qed

lemma serial_bits:
  "k \<le> 31 \<Longrightarrow> foldl crc_serial r (map (bit n) [0..<k]) = (crc_shift ^^ k) (r XOR of_nat (take_bit k n))"
proof (induction k)
  case (Suc k)
  have b: "(crc_shift ^^ k) (push_bit k (of_bool b)) = of_bool b" for b
    using Suc.prems by (subst crc_shifts_high) (auto simp: bit_simps intro!: bit_word_eqI)
  have t: "(of_nat (take_bit (Suc k) n) :: u32) = of_nat (take_bit k n) XOR push_bit k (of_bool (bit n k))"
    using Suc.prems by (intro bit_word_eqI) (auto simp: bit_simps less_Suc_eq)
  have "foldl crc_serial r (map (bit n) [0..<Suc k]) = crc_shift ((crc_shift ^^ k) (r XOR of_nat (take_bit k n)) XOR of_bool (bit n k))"
    using Suc.prems unfolding crc_serial_def [symmetric] by (simp add: Suc.IH)
  also have "\<dots> = (crc_shift ^^ Suc k) (r XOR of_nat (take_bit (Suc k) n))"
    unfolding t by (simp add: crc_shifts_xor b xor.assoc flip: crc_shift_xor)
  finally show ?case .
qed simp

lemma crc_step_serial: "crc_step crc c = foldl crc_serial crc (byte_bits c)"
proof -
  have "(of_char c :: nat) < 256" by simp
  then have n: "take_bit 8 (of_char c) = (of_char c :: nat)" by (simp add: take_bit_eq_mod)
  define b :: u32 where "b = of_nat (of_char c)"
  have "unat b = of_char c" unfolding b_def
    by (intro unat_of_nat_small less_le_trans [OF \<open>(of_char c :: nat) < 256\<close>]) simp
  then have d: "drop_bit 8 b = 0" using \<open>(of_char c :: nat) < 256\<close> unfolding word_unat_eq_iff unat_shiftr by simp
  have a: "b AND 0xff = b" unfolding b_def byte_schar [symmetric] by (simp only: and.assoc and.idem)
  have "foldl crc_serial crc (byte_bits c) = (crc_shift ^^ 8) (crc XOR b)"
    unfolding byte_bits_def b_def by (simp only: serial_bits n)
  also have "\<dots> = drop_bit 8 crc XOR crc32tab ! unat ((crc XOR b) AND 0xff)"
    unfolding crc_byte by (simp add: d)
  also have "(crc XOR b) AND 0xff = (crc XOR word_of_int (schar c)) AND 0xff"
  proof -
    have "(x XOR y) AND 0xff = (x AND 0xff) XOR (y AND 0xff)" for x y :: u32 by (intro bit_word_eqI) (auto simp: bit_simps)
    then show ?thesis using byte_schar [of c] a unfolding b_def by (simp only:)
  qed
  finally show ?thesis by (simp add: crc_step_def)
qed

text \<open>
  The table-driven checksum is the bit-serial one: for every key, \<open>hash_crc32\<close> equals the
  complement of the register after all bits of all bytes, least significant bit first, have been
  shifted through it from the all-ones start value.
\<close>

theorem hash_crc32_is_serial: "hash_crc32 key = crc32_reference key"
proof -
  have "foldl crc_step r key = foldl crc_serial r (concat (map byte_bits key))" for r
    by (induction key arbitrary: r) (simp_all add: crc_step_serial)
  moreover have "(0xFFFFFFFF :: u32) = NOT 0" by simp
  ultimately show ?thesis unfolding hash_crc32_def crc32_reference_def by (simp only:)
qed

end
