(* ===== verification/Md5.thy ===== *)
theory Md5
  imports Prelude
begin

text \<open>
  The message digest of \<open>libsrc/utils/src/md5_new.cpp\<close> (class \<open>MD5\<close>), with which the
  service selectors place servers and keys on their hash ring. The class takes the message in
  pieces: it keeps a counter of bits, a buffer with the bytes that do not fill a block yet, and the
  chaining state. The theory proves that, however the message is cut into pieces, the digest is the
  one of the whole padded message, block after block.

  Lengths have 32 bits in the source (\<open>size_type\<close>); positions are natural numbers here, and
  the model applies to pieces of fewer than \<open>2 ^ 32 - 64\<close> bytes, for which no position
  wraps around. The buffer and the digest are not initialised by the constructor; their first
  contents are an argument.
\<close>

type_synonym md5_state = "u32 \<times> u32 \<times> u32 \<times> u32"

subsection \<open>The transformation of a block\<close>

definition md5_F :: "u32 \<Rightarrow> u32 \<Rightarrow> u32 \<Rightarrow> u32" where
  "md5_F x y z = (x AND y) OR (NOT x AND z)"

definition md5_G :: "u32 \<Rightarrow> u32 \<Rightarrow> u32 \<Rightarrow> u32" where
  "md5_G x y z = (x AND z) OR (y AND NOT z)"

definition md5_H :: "u32 \<Rightarrow> u32 \<Rightarrow> u32 \<Rightarrow> u32" where
  "md5_H x y z = x XOR y XOR z"

definition md5_I :: "u32 \<Rightarrow> u32 \<Rightarrow> u32 \<Rightarrow> u32" where
  "md5_I x y z = y XOR (x OR NOT z)"

definition rotate_left :: "u32 \<Rightarrow> nat \<Rightarrow> u32" where
  "rotate_left x n = push_bit n x OR drop_bit (32 - n) x"

definition md5_FF :: "u32 \<Rightarrow> u32 \<Rightarrow> u32 \<Rightarrow> u32 \<Rightarrow> u32 \<Rightarrow> nat \<Rightarrow> u32 \<Rightarrow> u32" where
  "md5_FF a b c d x s ac = rotate_left (a + md5_F b c d + x + ac) s + b"

definition md5_GG :: "u32 \<Rightarrow> u32 \<Rightarrow> u32 \<Rightarrow> u32 \<Rightarrow> u32 \<Rightarrow> nat \<Rightarrow> u32 \<Rightarrow> u32" where
  "md5_GG a b c d x s ac = rotate_left (a + md5_G b c d + x + ac) s + b"

definition md5_HH :: "u32 \<Rightarrow> u32 \<Rightarrow> u32 \<Rightarrow> u32 \<Rightarrow> u32 \<Rightarrow> nat \<Rightarrow> u32 \<Rightarrow> u32" where
  "md5_HH a b c d x s ac = rotate_left (a + md5_H b c d + x + ac) s + b"

definition md5_II :: "u32 \<Rightarrow> u32 \<Rightarrow> u32 \<Rightarrow> u32 \<Rightarrow> u32 \<Rightarrow> nat \<Rightarrow> u32 \<Rightarrow> u32" where
  "md5_II a b c d x s ac = rotate_left (a + md5_I b c d + x + ac) s + b"

definition md5_decode :: "u8 list \<Rightarrow> u32 list" where
  "md5_decode inp = map (\<lambda>i. ucast (inp ! (4 * i)) OR push_bit 8 (ucast (inp ! (4 * i + 1))) OR
     push_bit 16 (ucast (inp ! (4 * i + 2))) OR push_bit 24 (ucast (inp ! (4 * i + 3)))) [0..<length inp div 4]"

definition md5_encode :: "u32 list \<Rightarrow> u8 list" where
  "md5_encode ws = concat (map (\<lambda>w. [ucast (w AND 0xff), ucast (drop_bit 8 w AND 0xff), ucast (drop_bit 16 w AND 0xff),
     ucast (drop_bit 24 w AND 0xff)]) ws)"

text \<open>The four rounds of \<open>transform\<close>, sixteen steps each.\<close>

definition md5_round1 :: "md5_state \<Rightarrow> u32 list \<Rightarrow> md5_state" where
  "md5_round1 st x = (case st of (a, b, c, d) \<Rightarrow>
     let a = md5_FF a b c d (x ! 0) 7 0xd76aa478;
         d = md5_FF d a b c (x ! 1) 12 0xe8c7b756;
         c = md5_FF c d a b (x ! 2) 17 0x242070db;
         b = md5_FF b c d a (x ! 3) 22 0xc1bdceee;
         a = md5_FF a b c d (x ! 4) 7 0xf57c0faf;
         d = md5_FF d a b c (x ! 5) 12 0x4787c62a;
         c = md5_FF c d a b (x ! 6) 17 0xa8304613;
         b = md5_FF b c d a (x ! 7) 22 0xfd469501;
         a = md5_FF a b c d (x ! 8) 7 0x698098d8;
         d = md5_FF d a b c (x ! 9) 12 0x8b44f7af;
         c = md5_FF c d a b (x ! 10) 17 0xffff5bb1;
         b = md5_FF b c d a (x ! 11) 22 0x895cd7be;
         a = md5_FF a b c d (x ! 12) 7 0x6b901122;
         d = md5_FF d a b c (x ! 13) 12 0xfd987193;
         c = md5_FF c d a b (x ! 14) 17 0xa679438e;
         b = md5_FF b c d a (x ! 15) 22 0x49b40821
     in (a, b, c, d))"

definition md5_round2 :: "md5_state \<Rightarrow> u32 list \<Rightarrow> md5_state" where
  "md5_round2 st x = (case st of (a, b, c, d) \<Rightarrow>
     let a = md5_GG a b c d (x ! 1) 5 0xf61e2562;
         d = md5_GG d a b c (x ! 6) 9 0xc040b340;
         c = md5_GG c d a b (x ! 11) 14 0x265e5a51;
         b = md5_GG b c d a (x ! 0) 20 0xe9b6c7aa;
         a = md5_GG a b c d (x ! 5) 5 0xd62f105d;
         d = md5_GG d a b c (x ! 10) 9 0x2441453;
         c = md5_GG c d a b (x ! 15) 14 0xd8a1e681;
         b = md5_GG b c d a (x ! 4) 20 0xe7d3fbc8;
         a = md5_GG a b c d (x ! 9) 5 0x21e1cde6;
         d = md5_GG d a b c (x ! 14) 9 0xc33707d6;
         c = md5_GG c d a b (x ! 3) 14 0xf4d50d87;
         b = md5_GG b c d a (x ! 8) 20 0x455a14ed;
         a = md5_GG a b c d (x ! 13) 5 0xa9e3e905;
         d = md5_GG d a b c (x ! 2) 9 0xfcefa3f8;
         c = md5_GG c d a b (x ! 7) 14 0x676f02d9;
         b = md5_GG b c d a (x ! 12) 20 0x8d2a4c8a
     in (a, b, c, d))"

definition md5_round3 :: "md5_state \<Rightarrow> u32 list \<Rightarrow> md5_state" where
  "md5_round3 st x = (case st of (a, b, c, d) \<Rightarrow>
     let a = md5_HH a b c d (x ! 5) 4 0xfffa3942;
         d = md5_HH d a b c (x ! 8) 11 0x8771f681;
         c = md5_HH c d a b (x ! 11) 16 0x6d9d6122;
         b = md5_HH b c d a (x ! 14) 23 0xfde5380c;
         a = md5_HH a b c d (x ! 1) 4 0xa4beea44;
         d = md5_HH d a b c (x ! 4) 11 0x4bdecfa9;
         c = md5_HH c d a b (x ! 7) 16 0xf6bb4b60;
         b = md5_HH b c d a (x ! 10) 23 0xbebfbc70;
         a = md5_HH a b c d (x ! 13) 4 0x289b7ec6;
         d = md5_HH d a b c (x ! 0) 11 0xeaa127fa;
         c = md5_HH c d a b (x ! 3) 16 0xd4ef3085;
         b = md5_HH b c d a (x ! 6) 23 0x4881d05;
         a = md5_HH a b c d (x ! 9) 4 0xd9d4d039;
         d = md5_HH d a b c (x ! 12) 11 0xe6db99e5;
         c = md5_HH c d a b (x ! 15) 16 0x1fa27cf8;
         b = md5_HH b c d a (x ! 2) 23 0xc4ac5665
     in (a, b, c, d))"

definition md5_round4 :: "md5_state \<Rightarrow> u32 list \<Rightarrow> md5_state" where
  "md5_round4 st x = (case st of (a, b, c, d) \<Rightarrow>
     let a = md5_II a b c d (x ! 0) 6 0xf4292244;
         d = md5_II d a b c (x ! 7) 10 0x432aff97;
         c = md5_II c d a b (x ! 14) 15 0xab9423a7;
         b = md5_II b c d a (x ! 5) 21 0xfc93a039;
         a = md5_II a b c d (x ! 12) 6 0x655b59c3;
         d = md5_II d a b c (x ! 3) 10 0x8f0ccc92;
         c = md5_II c d a b (x ! 10) 15 0xffeff47d;
         b = md5_II b c d a (x ! 1) 21 0x85845dd1;
         a = md5_II a b c d (x ! 8) 6 0x6fa87e4f;
         d = md5_II d a b c (x ! 15) 10 0xfe2ce6e0;
         c = md5_II c d a b (x ! 6) 15 0xa3014314;
         b = md5_II b c d a (x ! 13) 21 0x4e0811a1;
         a = md5_II a b c d (x ! 4) 6 0xf7537e82;
         d = md5_II d a b c (x ! 11) 10 0xbd3af235;
         c = md5_II c d a b (x ! 2) 15 0x2ad7d2bb;
         b = md5_II b c d a (x ! 9) 21 0xeb86d391
     in (a, b, c, d))"

definition transform :: "md5_state \<Rightarrow> u8 list \<Rightarrow> md5_state" where
  "transform st block =
     (let x = md5_decode block in
      case (st, md5_round4 (md5_round3 (md5_round2 (md5_round1 st x) x) x) x) of
        ((s0, s1, s2, s3), (a, b, c, d)) \<Rightarrow> (s0 + a, s1 + b, s2 + c, s3 + d))"

subsection \<open>The class\<close>

record MD5 =
  md_finalized :: bool
  md_buffer :: "u8 list"
  md_count0 :: u32
  md_count1 :: u32
  md_state :: md5_state
  md_digest :: "u8 list"

definition md5_init :: "u8 list \<Rightarrow> u8 list \<Rightarrow> MD5" where
  "md5_init junk_buffer junk_digest = \<lparr>md_finalized = False, md_buffer = junk_buffer, md_count0 = 0, md_count1 = 0,
     md_state = (0x67452301, 0xefcdab89, 0x98badcfe, 0x10325476), md_digest = junk_digest\<rparr>"

function whole_blocks :: "md5_state \<Rightarrow> u8 list \<Rightarrow> nat \<Rightarrow> md5_state \<times> nat" where
  "whole_blocks st inp i =
     (if i + 64 \<le> length inp then whole_blocks (transform st (take 64 (drop i inp))) inp (i + 64) else (st, i))"
  by auto
termination by (relation "measure (\<lambda>(st, inp, i). length inp - i)") auto

definition md5_update :: "MD5 \<Rightarrow> u8 list \<Rightarrow> MD5" where
  "md5_update m inp =
     (let len = of_nat (length inp) :: u32;
          index = unat (md_count0 m div 8 mod 64);
          c0 = md_count0 m + push_bit 3 len;
          c1 = (if c0 < push_bit 3 len then md_count1 m + 1 else md_count1 m) + drop_bit 29 len;
          firstpart = 64 - index;
          m1 = m\<lparr>md_count0 := c0, md_count1 := c1\<rparr> in
      if length inp \<ge> firstpart
      then let buf = overwrite (md_buffer m) index (take firstpart inp);
               (st, i) = whole_blocks (transform (md_state m) buf) inp firstpart
           in m1\<lparr>md_state := st, md_buffer := overwrite buf 0 (drop i inp)\<rparr>
      else m1\<lparr>md_buffer := overwrite (md_buffer m) index inp\<rparr>)"

definition md5_padding :: "u8 list" where
  "md5_padding = 0x80 # replicate 63 0"

definition md5_finalize :: "MD5 \<Rightarrow> MD5" where
  "md5_finalize m =
     (if md_finalized m then m
      else let bits = md5_encode [md_count0 m, md_count1 m];
               index = unat (md_count0 m div 8 mod 64);
               padLen = (if index < 56 then 56 - index else 120 - index);
               m1 = md5_update m (take padLen md5_padding);
               m2 = md5_update m1 bits in
        (case md_state m2 of (s0, s1, s2, s3) \<Rightarrow>
           m2\<lparr>md_digest := md5_encode [s0, s1, s2, s3], md_buffer := replicate 64 0, md_count0 := 0, md_count1 := 0, md_finalized := True\<rparr>))"

definition hex_char :: "nat \<Rightarrow> char" where
  "hex_char n = ''0123456789abcdef'' ! n"

definition hexdigest :: "MD5 \<Rightarrow> string" where
  "hexdigest m = (if \<not> md_finalized m then [] else concat (map (\<lambda>b. [hex_char (unat b div 16), hex_char (unat b mod 16)]) (md_digest m)))"

definition bytes_of_string :: "string \<Rightarrow> u8 list" where
  "bytes_of_string s = map (\<lambda>c. of_nat (of_char c)) s"

definition md5 :: "u8 list \<Rightarrow> u8 list \<Rightarrow> string \<Rightarrow> string" where
  "md5 junk_buffer junk_digest s = hexdigest (md5_finalize (md5_update (md5_init junk_buffer junk_digest) (bytes_of_string s)))"

subsection \<open>The digest of a whole message\<close>

text \<open>The blocks of a message, as far as they are complete.\<close>

function compress_all :: "md5_state \<Rightarrow> u8 list \<Rightarrow> md5_state" where
  "compress_all st bs = (if length bs < 64 then st else compress_all (transform st (take 64 bs)) (drop 64 bs))"
  by auto
termination by (relation "measure (\<lambda>(st, bs). length bs)") auto

declare compress_all.simps [simp del] whole_blocks.simps [simp del]

definition md5_start :: md5_state where
  "md5_start = (0x67452301, 0xefcdab89, 0x98badcfe, 0x10325476)"

text \<open>Padding: a one bit, zeros, and the number of bits as a 64-bit little-endian number.\<close>

definition pad_message :: "u8 list \<Rightarrow> u8 list" where
  "pad_message bs = bs @ 0x80 # replicate ((119 - length bs mod 64) mod 64) 0 @
     md5_encode [of_nat (8 * length bs), of_nat (8 * length bs div 2 ^ 32)]"

definition md5_reference :: "u8 list \<Rightarrow> string" where
  "md5_reference bs = (case compress_all md5_start (pad_message bs) of (s0, s1, s2, s3) \<Rightarrow>
     concat (map (\<lambda>b. [hex_char (unat b div 16), hex_char (unat b mod 16)]) (md5_encode [s0, s1, s2, s3])))"

lemma compress_short: "length bs < 64 \<Longrightarrow> compress_all st bs = st"
  by (simp add: compress_all.simps)

lemma compress_append: "length xs = 64 * n \<Longrightarrow> compress_all st (xs @ ys) = compress_all (compress_all st xs) ys"
proof (induction n arbitrary: xs st)
  case 0
  then show ?case by (simp add: compress_short)
next
  case (Suc n)
  then have l: "64 \<le> length xs" "length (drop 64 xs) = 64 * n" by auto
  then have "compress_all st (xs @ ys) = compress_all (transform st (take 64 xs)) (drop 64 xs @ ys)"
    by (subst compress_all.simps) simp
  also have "\<dots> = compress_all (compress_all (transform st (take 64 xs)) (drop 64 xs)) ys" by (rule Suc.IH [OF l(2)])
  also have "compress_all (transform st (take 64 xs)) (drop 64 xs) = compress_all st xs"
    using l(1) by (subst (2) compress_all.simps) simp
  finally show ?case .
qed

lemma compress_one: "length xs = 64 \<Longrightarrow> compress_all st (xs @ ys) = compress_all (transform st xs) ys"
  by (subst compress_all.simps) simp

text \<open>The bytes behind the last complete block.\<close>

definition rest :: "u8 list \<Rightarrow> u8 list" where
  "rest bs = drop (64 * (length bs div 64)) bs"

lemma length_rest [simp]: "length (rest bs) = length bs mod 64"
  by (simp add: rest_def minus_mult_div_eq_mod)

lemma split_rest: "\<exists>xs. bs = xs @ rest bs \<and> length xs = 64 * (length bs div 64)"
  by (intro exI [of _ "take (64 * (length bs div 64)) bs"]) (simp add: rest_def)

lemma rest_append: "length xs = 64 * n \<Longrightarrow> rest (xs @ ys) = rest ys"
  by (simp add: rest_def div_mult_self_is_m)

lemma rest_short: "length bs < 64 \<Longrightarrow> rest bs = bs"
  by (simp add: rest_def)

lemma whole_blocks_all:
  "i \<le> length inp \<Longrightarrow> whole_blocks st inp i = (compress_all st (drop i inp), length inp - length (rest (drop i inp)))"
proof (induction st inp i rule: whole_blocks.induct)
  case (1 st inp i)
  show ?case
  proof (cases "i + 64 \<le> length inp")
    case True
    have d: "drop i inp = take 64 (drop i inp) @ drop (i + 64) inp" by (metis add.commute append_take_drop_id drop_drop)
    have l: "length (take 64 (drop i inp)) = 64" using True by simp
    have "whole_blocks st inp i = whole_blocks (transform st (take 64 (drop i inp))) inp (i + 64)"
      using True by (subst whole_blocks.simps) simp
    also have "\<dots> = (compress_all (transform st (take 64 (drop i inp))) (drop (i + 64) inp), length inp - length (rest (drop (i + 64) inp)))"
      using "1.IH" True by simp
    also have "compress_all (transform st (take 64 (drop i inp))) (drop (i + 64) inp) = compress_all st (drop i inp)"
      using compress_one [OF l, of st "drop (i + 64) inp"] d by simp
    also have "rest (drop (i + 64) inp) = rest (drop i inp)"
      using rest_append [of "take 64 (drop i inp)" 1 "drop (i + 64) inp"] l d by simp
    finally show ?thesis .
  next
    case False
    then show ?thesis using "1.prems" by (subst whole_blocks.simps) (simp add: compress_short rest_short)
  qed
qed

text \<open>A context that has taken the message \<open>bs\<close>.\<close>

definition md5_rep :: "MD5 \<Rightarrow> u8 list \<Rightarrow> bool" where
  "md5_rep m bs \<longleftrightarrow> \<not> md_finalized m \<and> length (md_buffer m) = 64 \<and> md_state m = compress_all md5_start bs \<and>
     take (length bs mod 64) (md_buffer m) = rest bs \<and>
     md_count0 m = of_nat (8 * length bs) \<and> md_count1 m = of_nat (8 * length bs div 2 ^ 32)"

lemma md5_rep_init: "length junk = 64 \<Longrightarrow> md5_rep (md5_init junk junk') []"
  by (simp add: md5_rep_def md5_init_def md5_start_def compress_short rest_def)

lemma count_index:
  assumes "c0 = of_nat (8 * n)" shows "unat ((c0 :: u32) div 8 mod 64) = n mod 64"
proof -
  have "unat (c0 div 8 mod 64) = (8 * n mod 2 ^ 32) div 8 mod 64"
    unfolding assms by (simp add: unat_div unat_mod unat_of_nat take_bit_eq_mod del: of_nat_mult)
  also have "(8 * n mod 2 ^ 32) div 8 = n mod 2 ^ 29"
    using mult_mod_right [of 8 n "2 ^ 29"] by (simp add: mult.commute)
  finally show ?thesis by (simp add: mod_mod_cancel)
qed

text \<open>The bit counter is a 64-bit number in two halves.\<close>

lemma carry_iff: "(a :: u32) + b < b \<longleftrightarrow> 2 ^ 32 \<le> unat a + unat b"
proof -
  have lt: "unat a < 2 ^ 32" "unat b < 2 ^ 32" using unsigned_less [of a] unsigned_less [of b] by simp_all
  have "unat (a + b) = (unat a + unat b) mod 2 ^ 32" by (simp add: unat_word_ariths)
  also have "\<dots> = (if 2 ^ 32 \<le> unat a + unat b then unat a + unat b - 2 ^ 32 else unat a + unat b)"
    using lt by (simp add: mod_if)
  finally show ?thesis using lt by (simp add: word_less_nat_alt split: if_splits)
qed

lemma push_bit_3: "push_bit 3 (of_nat l :: u32) = of_nat (8 * l)"
  by (simp add: push_bit_eq_mult)

lemma small_sum_div: "a < C \<Longrightarrow> b < C \<Longrightarrow> (a + b) div C = (if C \<le> a + b then 1 else 0)" for C :: nat
  by (auto simp: div_if)

lemma count_update:
  assumes "c0 = of_nat (8 * n)" and "c1 = of_nat (8 * n div 2 ^ 32)" and "l < 2 ^ 32" and "len = (of_nat l :: u32)"
  shows "c0 + push_bit 3 len = of_nat (8 * (n + l))"
    and "(if c0 + push_bit 3 len < push_bit 3 len then c1 + 1 else c1) + drop_bit 29 len = of_nat (8 * (n + l) div 2 ^ 32)"
proof -
  show "c0 + push_bit 3 len = of_nat (8 * (n + l))" unfolding assms(1,4) push_bit_3 by simp
  let ?C = "2 ^ 32 :: nat"
  have "unat len = l" unfolding assms(4) by (rule unat_of_nat_small) (use assms(3) in simp)
  then have "unat (drop_bit 29 len) = l div 2 ^ 29" by (simp add: unat_shiftr)
  then have d: "drop_bit 29 len = of_nat (l div 2 ^ 29)" by (metis of_nat_unat ucast_id)
  have "8 * l div ?C = l div 2 ^ 29" using div_mult_mult1 [of 8 l "2 ^ 29"] by simp
  moreover have "unat c0 = 8 * n mod ?C" "unat (push_bit 3 len) = 8 * l mod ?C"
    unfolding assms(1,4) push_bit_3 by (simp_all add: unat_of_nat take_bit_eq_mod del: of_nat_mult)
  then have carry: "c0 + push_bit 3 len < push_bit 3 len \<longleftrightarrow> ?C \<le> 8 * n mod ?C + 8 * l mod ?C" by (simp only: carry_iff)
  have "8 * (n + l) div ?C = 8 * n div ?C + 8 * l div ?C + (if ?C \<le> 8 * n mod ?C + 8 * l mod ?C then 1 else 0)"
    unfolding distrib_left div_add1_eq [of "8 * n"] by (subst small_sum_div) simp_all
  ultimately show "(if c0 + push_bit 3 len < push_bit 3 len then c1 + 1 else c1) + drop_bit 29 len = of_nat (8 * (n + l) div 2 ^ 32)"
    unfolding assms(2) d carry by simp
qed

lemma md5_update_rep:
  assumes "md5_rep m bs" and "length inp < 2 ^ 32"
  shows "md5_rep (md5_update m inp) (bs @ inp)"
proof -
  let ?r = "length bs mod 64"
  have m: "\<not> md_finalized m" "length (md_buffer m) = 64" "md_state m = compress_all md5_start bs" "take ?r (md_buffer m) = rest bs"
    "md_count0 m = of_nat (8 * length bs)" "md_count1 m = of_nat (8 * length bs div 2 ^ 32)"
    using assms(1) by (simp_all add: md5_rep_def)
  obtain xs where xs: "bs = xs @ rest bs" "length xs = 64 * (length bs div 64)" using split_rest by blast
  have idx: "unat (md_count0 m div 8 mod 64) = ?r" by (rule count_index [OF m(5)])
  note c = count_update [OF m(5,6) assms(2) refl]
  define m1 where "m1 = m\<lparr>md_count0 := of_nat (8 * length (bs @ inp)), md_count1 := of_nat (8 * length (bs @ inp) div 2 ^ 32)\<rparr>"
  have run: "md5_update m inp =
     (if 64 - ?r \<le> length inp
      then let buf = overwrite (md_buffer m) ?r (take (64 - ?r) inp);
               (st, i) = whole_blocks (transform (md_state m) buf) inp (64 - ?r)
           in m1\<lparr>md_state := st, md_buffer := overwrite buf 0 (drop i inp)\<rparr>
      else m1\<lparr>md_buffer := overwrite (md_buffer m) ?r inp\<rparr>)"
    unfolding md5_update_def Let_def idx m1_def length_append c(2) unfolding c(1) ..
  have r: "?r < 64" by simp
  have state: "compress_all md5_start xs = md_state m"
    using compress_append [OF xs(2), of md5_start "rest bs"] xs(1) m(3) by (simp add: compress_short)
  show ?thesis
  proof (cases "64 - ?r \<le> length inp")
    case False
    then have short: "length (rest bs @ inp) < 64" by simp
    have e: "bs @ inp = xs @ (rest bs @ inp)" using xs(1) by (metis append.assoc)
    have "compress_all md5_start (bs @ inp) = md_state m"
      unfolding arg_cong [OF e, of "compress_all md5_start"] compress_append [OF xs(2)] state by (rule compress_short [OF short])
    moreover have rs: "rest (bs @ inp) = rest bs @ inp"
      unfolding arg_cong [OF e, of rest] rest_append [OF xs(2)] by (rule rest_short [OF short])
    moreover have "length (bs @ inp) mod 64 = ?r + length inp" using arg_cong [OF rs, of length] by simp
    ultimately show ?thesis using False m(1,2,4) r by (simp add: run md5_rep_def m1_def overwrite_def)
  next
    case True
    let ?in1 = "take (64 - ?r) inp" and ?in2 = "drop (64 - ?r) inp"
    have buf: "overwrite (md_buffer m) ?r ?in1 = rest bs @ ?in1" using True m(2,4) by (simp add: overwrite_def)
    have l: "length (rest bs @ ?in1) = 64" using True by simp
    have split: "bs @ inp = (xs @ rest bs @ ?in1) @ ?in2" using xs(1) by (metis append.assoc append_take_drop_id)
    have lx: "length (xs @ rest bs @ ?in1) = 64 * (length bs div 64 + 1)" using xs(2) l by simp
    have "compress_all md5_start (xs @ rest bs @ ?in1) = transform (md_state m) (rest bs @ ?in1)"
      using compress_append [OF xs(2), of md5_start "rest bs @ ?in1"] compress_one [OF l, of "md_state m" "[]"] state
      by (simp add: compress_short)
    then have st: "compress_all (transform (md_state m) (rest bs @ ?in1)) ?in2 = compress_all md5_start (bs @ inp)"
      unfolding split compress_append [OF lx] by simp
    have rs: "rest (bs @ inp) = rest ?in2" unfolding split by (rule rest_append [OF lx])
    have "length (rest (bs @ inp)) = length (rest ?in2)" by (simp only: rs)
    then have rl: "length (bs @ inp) mod 64 = length ?in2 mod 64" by simp
    have "drop (length inp - length (rest ?in2)) inp = rest ?in2"
    proof -
      obtain ys where "?in2 = ys @ rest ?in2" using split_rest by blast
      then have "inp = (?in1 @ ys) @ rest ?in2" by (metis append.assoc append_take_drop_id)
      then show ?thesis by (metis append_eq_conv_conj diff_add_inverse2 length_append)
    qed
    then have "md5_update m inp = m1\<lparr>md_state := compress_all md5_start (bs @ inp), md_buffer := overwrite (rest bs @ ?in1) 0 (rest ?in2)\<rparr>"
      unfolding run buf using True by (simp add: whole_blocks_all st)
    moreover have "length (overwrite (rest bs @ ?in1) 0 (rest ?in2)) = 64"
      using length_overwrite [of 0 "rest ?in2" "rest bs @ ?in1"] unfolding l by (simp add: less_imp_le)
    moreover have "take (length (bs @ inp) mod 64) (overwrite (rest bs @ ?in1) 0 (rest ?in2)) = rest (bs @ inp)"
      unfolding rl rs overwrite_def by simp
    ultimately show ?thesis using m(1) unfolding md5_rep_def m1_def by simp
  qed
qed

lemma md5_updates_rep:
  "md5_rep m bs \<Longrightarrow> \<forall>c \<in> set cs. length c < 2 ^ 32 \<Longrightarrow> md5_rep (foldl md5_update m cs) (bs @ concat cs)"
  by (induction cs arbitrary: m bs) (simp, metis append.assoc concat.simps(2) foldl_Cons list.set_intros md5_update_rep)

lemma length_encode: "length (md5_encode ws) = 4 * length ws"
  by (induction ws) (simp_all add: md5_encode_def)

lemma md5_finalize_rep:
  assumes "md5_rep m bs"
  shows "hexdigest (md5_finalize m) = md5_reference bs"
proof -
  let ?r = "length bs mod 64" and ?k = "(119 - length bs mod 64) mod 64"
  define bits where "bits = md5_encode [md_count0 m, md_count1 m]"
  have m: "\<not> md_finalized m" "md_count0 m = of_nat (8 * length bs)" "md_count1 m = of_nat (8 * length bs div 2 ^ 32)"
    using assms by (simp_all add: md5_rep_def)
  define padLen where "padLen = (if ?r < 56 then 56 - ?r else 120 - ?r)"
  have r: "?r < 64" by simp
  have k: "padLen = Suc ?k"
  proof (cases "?r < 56")
    case True
    then have "119 - ?r - 64 = 55 - ?r" "64 \<le> 119 - ?r" "55 - ?r < 64" by simp_all
    then have "?k = 55 - ?r" by (metis le_mod_geq mod_less)
    moreover have "56 - ?r = Suc (55 - ?r)" using True by linarith
    ultimately show ?thesis using True by (simp add: padLen_def)
  next
    case False
    then have "119 - ?r < 64" by simp
    then have "?k = 119 - ?r" by (rule mod_less)
    moreover have "120 - ?r = Suc (119 - ?r)" using r by linarith
    ultimately show ?thesis using False by (simp add: padLen_def)
  qed
  have "padLen \<le> 64"
  proof -
    have "(if i < 56 then 56 - i else 120 - i) \<le> 64" for i :: nat by auto
    then show ?thesis unfolding padLen_def .
  qed
  with k have pad: "take padLen md5_padding = 0x80 # replicate ?k 0" by (simp add: md5_padding_def)
  define m2 where "m2 = md5_update (md5_update m (0x80 # replicate ?k 0)) bits"
  have "length bits = 8" by (simp add: bits_def length_encode)
  then have "md5_rep m2 ((bs @ 0x80 # replicate ?k 0) @ bits)"
    unfolding m2_def by (intro md5_update_rep assms) simp_all
  then have st: "md_state m2 = compress_all md5_start (pad_message bs)"
    by (simp add: md5_rep_def pad_message_def bits_def m(2,3))
  have "hexdigest (md5_finalize m) = (case md_state m2 of (s0, s1, s2, s3) \<Rightarrow>
     concat (map (\<lambda>b. [hex_char (unat b div 16), hex_char (unat b mod 16)]) (md5_encode [s0, s1, s2, s3])))"
    unfolding md5_finalize_def count_index [OF m(2)] Let_def m2_def pad [unfolded padLen_def] bits_def using m(1)
    by (simp add: hexdigest_def split: prod.splits)
  then show ?thesis by (simp only: st md5_reference_def)
qed

text \<open>
  C10. The digest of a message taken in pieces: whatever the initial contents of the buffer, and
  however the message is cut, the context ends with the digest of the concatenated message, padded as
  a whole and transformed block after block. In particular \<open>md5\<close> of a string is the digest of
  its bytes.
\<close>

theorem md5_digest_of_pieces:
  assumes "length junk = 64" and "\<forall>c \<in> set cs. length c + 64 < 2 ^ 32"
  shows "hexdigest (md5_finalize (foldl md5_update (md5_init junk junk') cs)) = md5_reference (concat cs)"
proof -
  have "\<forall>c \<in> set cs. length c < 2 ^ 32" using assms(2) by fastforce
  from md5_finalize_rep [OF md5_updates_rep [OF md5_rep_init [OF assms(1)] this]] show ?thesis by simp
qed

theorem md5_digest_of_pieces_witness:
  "hexdigest (md5_finalize (foldl md5_update (md5_init (replicate 64 7) []) [[0x61, 0x62], replicate 70 0x63, []])) =
     md5_reference (concat [[0x61, 0x62], replicate 70 0x63, []])"
  by (rule md5_digest_of_pieces) simp_all

end
