(* ===== verification/Text_Numbers.thy ===== *)
theory Text_Numbers
  imports Prelude
begin

text \<open>
  Numbers in text, as the C library reads and prints them: \<open>atoi\<close>, \<open>strtol\<close> with base 16 and the
  formats \<open>%d\<close> and \<open>%x\<close> of \<open>sprintf\<close>.
\<close>

text \<open>\<open>strtol\<close> of hexadecimal digits; it stops at the first other character.\<close>

definition hex_digit_value :: "char \<Rightarrow> nat option" where
  "hex_digit_value c =
     (let n = of_char c in
      if 48 \<le> n \<and> n \<le> 57 then Some (n - 48)
      else if 97 \<le> n \<and> n \<le> 102 then Some (n - 87)
      else if 65 \<le> n \<and> n \<le> 70 then Some (n - 55)
      else None)"

primrec strtol_hex :: "nat \<Rightarrow> string \<Rightarrow> nat" where
  "strtol_hex acc [] = acc"
| "strtol_hex acc (c # cs) = (case hex_digit_value c of None \<Rightarrow> acc | Some d \<Rightarrow> strtol_hex (16 * acc + d) cs)"

fun decimal :: "nat \<Rightarrow> string" where
  "decimal n = (if n < 10 then [char_of (48 + n)] else decimal (n div 10) @ [char_of (48 + n mod 10)])"

declare decimal.simps [simp del]

fun hexadecimal :: "nat \<Rightarrow> string" where
  "hexadecimal n =
     (let d = [char_of (if n mod 16 < 10 then 48 + n mod 16 else 87 + n mod 16)] in if n < 16 then d else hexadecimal (n div 16) @ d)"

declare hexadecimal.simps [simp del]

definition int_text :: "int \<Rightarrow> string" where
  "int_text k = (if k < 0 then CHR ''-'' # decimal (nat (- k)) else decimal (nat k))"

definition is_digit :: "char \<Rightarrow> bool" where
  "is_digit c \<longleftrightarrow> 48 \<le> (of_char c :: nat) \<and> (of_char c :: nat) \<le> 57"

definition is_space :: "char \<Rightarrow> bool" where
  "is_space c \<longleftrightarrow> (of_char c :: nat) = 32 \<or> 9 \<le> (of_char c :: nat) \<and> (of_char c :: nat) \<le> 13"

primrec dec_value :: "nat \<Rightarrow> string \<Rightarrow> nat" where
  "dec_value acc [] = acc"
| "dec_value acc (c # cs) = (if is_digit c then dec_value (10 * acc + (of_char c - 48)) cs else acc)"

text \<open>Spaces and a sign in front of the digits.\<close>

definition sign_of :: "string \<Rightarrow> bool \<times> string" where
  "sign_of s =
     (case dropWhile is_space s of
        c # t \<Rightarrow> if c = CHR ''-'' then (True, t) else if c = CHR ''+'' then (False, t) else (False, c # t)
      | [] \<Rightarrow> (False, []))"

text \<open>A value that no \<open>int\<close> holds is undefined.\<close>

definition atoi :: "string \<Rightarrow> int cxx" where
  "atoi s = (let (neg, t) = sign_of s; v = int (dec_value 0 t); k = (if neg then - v else v) in
     if - (2 ^ 31) \<le> k \<and> k < 2 ^ 31 then Some k else None)"

text \<open>\<open>strtol\<close> with base 16 stops at the bounds of a \<open>long\<close>.\<close>

definition skip_0x :: "string \<Rightarrow> string" where
  "skip_0x s = (case s of
     a # b # c # t \<Rightarrow> if a = CHR ''0'' \<and> (b = CHR ''x'' \<or> b = CHR ''X'') \<and> hex_digit_value c \<noteq> None then c # t else s
   | _ \<Rightarrow> s)"

definition strtol16 :: "string \<Rightarrow> int" where
  "strtol16 s = (let (neg, t) = sign_of s; v = int (strtol_hex 0 (skip_0x t)) in
     if neg then max (- v) (- (2 ^ 63)) else min v (2 ^ 63 - 1))"

subsection \<open>Reading what was printed\<close>

lemma is_digit_char_of: "(n :: nat) < 10 \<Longrightarrow> is_digit (char_of (48 + n))"
  by (simp add: is_digit_def)

lemma dec_value_append:
  "\<forall>c \<in> set s. is_digit c \<Longrightarrow> dec_value acc (s @ t) = dec_value (dec_value acc s) t"
  by (induction s arbitrary: acc) auto

lemma decimal_digits: "\<forall>c \<in> set (decimal n). is_digit c"
proof (induction n rule: decimal.induct)
  case (1 n)
  then show ?case by (subst decimal.simps) (auto simp: is_digit_char_of)
qed

lemma dec_value_decimal: "dec_value 0 (decimal n) = n"
proof (induction n rule: decimal.induct)
  case (1 n)
  show ?case
  proof (cases "n < 10")
    case True
    then show ?thesis by (subst decimal.simps) (simp add: is_digit_char_of)
  next
    case False
    have "dec_value 0 (decimal n) = dec_value (dec_value 0 (decimal (n div 10))) [char_of (48 + n mod 10)]"
      using False dec_value_append [OF decimal_digits] by (subst decimal.simps) simp
    then show ?thesis using 1 False by (simp add: is_digit_char_of)
  qed
qed

lemma decimal_not_Nil [simp]: "decimal n \<noteq> []"
  by (subst decimal.simps) simp

lemma sign_of_digit: "is_digit c \<Longrightarrow> sign_of (c # s) = (False, c # s)"
  by (auto simp: sign_of_def is_digit_def is_space_def)

lemma atoi_decimal:
  assumes "n < 2 ^ 31" and "rest = [] \<or> \<not> is_digit (hd rest)"
  shows "atoi (decimal n @ rest) = Some (int n)"
proof -
  obtain c s where d: "decimal n = c # s" "is_digit c" using decimal_digits [of n] by (cases "decimal n") auto
  then have "sign_of (decimal n @ rest) = (False, decimal n @ rest)" using sign_of_digit by simp
  moreover have "dec_value 0 (decimal n @ rest) = n"
    using dec_value_append [OF decimal_digits] dec_value_decimal assms(2) by (cases rest) simp_all
  ultimately show ?thesis using assms(1) by (simp add: atoi_def)
qed

lemma hex_digit_value_char_of:
  "n < 16 \<Longrightarrow> hex_digit_value (char_of (if n < 10 then 48 + n else 87 + n)) = Some n"
  by (auto simp: hex_digit_value_def Let_def)

lemma strtol_hex_append:
  "\<forall>c \<in> set s. hex_digit_value c \<noteq> None \<Longrightarrow> strtol_hex acc (s @ t) = strtol_hex (strtol_hex acc s) t"
  by (induction s arbitrary: acc) auto

lemma hexadecimal_digits: "\<forall>c \<in> set (hexadecimal n). hex_digit_value c \<noteq> None"
proof (induction n rule: hexadecimal.induct)
  case (1 n)
  have "hex_digit_value (char_of (if n mod 16 < 10 then 48 + n mod 16 else 87 + n mod 16)) \<noteq> None" using hex_digit_value_char_of [of "n mod 16"] by simp
  then show ?case using 1 by (subst hexadecimal.simps) (auto simp: Let_def)
qed

lemma strtol_hex_hexadecimal: "strtol_hex 0 (hexadecimal n) = n"
proof (induction n rule: hexadecimal.induct)
  case (1 n)
  let ?d = "char_of (if n mod 16 < 10 then 48 + n mod 16 else 87 + n mod 16) :: char"
  have d: "hex_digit_value ?d = Some (n mod 16)" using hex_digit_value_char_of [of "n mod 16"] by simp
  show ?case
  proof (cases "n < 16")
    case False
    have "strtol_hex 0 (hexadecimal n) = strtol_hex (strtol_hex 0 (hexadecimal (n div 16))) [?d]"
      using False strtol_hex_append [OF hexadecimal_digits] by (subst hexadecimal.simps) (simp add: Let_def)
    then show ?thesis using 1 [OF refl False] d by simp
  qed (use d in \<open>subst hexadecimal.simps, simp add: Let_def\<close>)
qed

lemma hexadecimal_not_Nil [simp]: "hexadecimal n \<noteq> []"
  by (subst hexadecimal.simps) (simp add: Let_def)

lemma sign_of_hex: "hex_digit_value c \<noteq> None \<Longrightarrow> sign_of (c # s) = (False, c # s)"
  by (auto simp: sign_of_def hex_digit_value_def is_space_def Let_def split: if_splits)

lemma skip_0x_hex:
  assumes "\<forall>c \<in> set s. hex_digit_value c \<noteq> None" and "s \<noteq> []" and "e \<noteq> CHR ''x''" "e \<noteq> CHR ''X''"
  shows "skip_0x (s @ e # t) = s @ e # t"
proof -
  have "hex_digit_value (CHR ''x'') = None" "hex_digit_value (CHR ''X'') = None" by (simp_all add: hex_digit_value_def)
  then have "c \<noteq> CHR ''x'' \<and> c \<noteq> CHR ''X''" if "c \<in> set s" for c using assms(1) that by auto
  then show ?thesis using assms(2-4) by (cases s; cases "tl s") (auto simp: skip_0x_def split: list.splits)
qed

lemma strtol16_hexadecimal:
  assumes "n < 2 ^ 63" and e: "hex_digit_value e = None" "e \<noteq> CHR ''x''" "e \<noteq> CHR ''X''"
  shows "strtol16 (hexadecimal n @ e # t) = int n"
proof -
  obtain c s where d: "hexadecimal n = c # s" "hex_digit_value c \<noteq> None" using hexadecimal_digits [of n] by (cases "hexadecimal n") auto
  then have "sign_of (hexadecimal n @ e # t) = (False, hexadecimal n @ e # t)" using sign_of_hex by simp
  moreover have "strtol_hex 0 (skip_0x (hexadecimal n @ e # t)) = n"
    using skip_0x_hex [OF hexadecimal_digits _ e(2,3)] strtol_hex_append [OF hexadecimal_digits] strtol_hex_hexadecimal e(1) by simp
  ultimately show ?thesis using assms(1) by (simp add: strtol16_def)
qed

end
