(* ===== verification/Service_Selector.thy ===== *)
theory Service_Selector
  imports Md5 Text_Numbers
begin

text \<open>
  The selection of a server by consistent hashing, \<open>libsrc/blitz/include/blitz/service_selector.h\<close>
  and \<open>libsrc/blitz/src/service_selector.cc\<close>: \<open>BinarySearch\<close> and the class
  \<open>ConsistHashSelector\<close>. Every server has a number of virtual nodes on a ring of 32-bit hash
  values, kept in a sorted vector; a key is served by the first node at or behind its hash. The theory
  proves that the sorted vector and the table of servers stay consistent under all calls, that
  \<open>Select\<close> finds the clockwise successor, and that adding a server moves keys only to that server.

  The digest function is an argument; the code uses \<open>md5\<close>, which theory \<open>Md5\<close> models,
  and the theorems hold for every digest. The one byte that
  \<open>AddItem\<close> writes behind its local array \<open>virtual_str\<close> is left out. The node in the
  vector is a copy of the node in the table, as in the source, where the pointer refers to a second
  object.
\<close>

subsection \<open>Binary search\<close>

function search_loop :: "('a \<Rightarrow> 'a \<Rightarrow> int) \<Rightarrow> 'a \<Rightarrow> 'a list \<Rightarrow> nat \<Rightarrow> nat \<Rightarrow> nat \<Rightarrow> int \<Rightarrow> nat \<times> bool" where
  "search_loop compare v arr l r mid cmp =
     (if l < r
      then let mid = (l + r) div 2; cmp = compare v (arr ! mid) in
        if cmp = 0 then (mid, True)
        else if cmp < 0 then search_loop compare v arr l mid mid cmp
        else search_loop compare v arr (mid + 1) r mid cmp
      else (if cmp > 0 then mid + 1 else mid, False))"
  by auto
termination by (relation "measure (\<lambda>(compare, v, arr, l, r, mid, cmp). r - l)") auto

declare search_loop.simps [simp del]

definition BinarySearch :: "'a \<Rightarrow> 'a list \<Rightarrow> ('a \<Rightarrow> 'a \<Rightarrow> int) \<Rightarrow> nat \<times> bool" where
  "BinarySearch v arr compare = (if arr = [] then (0, False) else search_loop compare v arr 0 (length arr) 0 0)"

definition BinarySearchVector :: "'a \<Rightarrow> 'a list \<Rightarrow> ('a \<Rightarrow> 'a \<Rightarrow> int) \<Rightarrow> nat \<times> bool" where
  "BinarySearchVector v arr compare = (if arr = [] then (0, False) else BinarySearch v arr compare)"

subsection \<open>Nodes and hash values\<close>

text \<open>\<open>data\<close> is the user's pointer.\<close>

record 'u select_node =
  sn_mark :: int
  sn_weight :: int
  sn_hash :: u32
  sn_data :: "'u option"

definition SelectNode :: "'u select_node" where
  "SelectNode = \<lparr>sn_mark = 100, sn_weight = 1, sn_hash = 0, sn_data = None\<rparr>"

definition UpdateNodeMark :: "'u select_node \<Rightarrow> int \<Rightarrow> int \<times> 'u select_node" where
  "UpdateNodeMark node mark_delta =
     (let n1 = sn_mark node + mark_delta;
          n2 = (if n1 < -100 then -100 else n1);
          new_mark = (if n2 > 100 then 100 else n2)
      in (new_mark, node\<lparr>sn_mark := new_mark\<rparr>))"

text \<open>The callers ask for 8 digits, which a \<open>long\<close> holds.\<close>

definition GetIntValueFirstN :: "(string \<Rightarrow> string) \<Rightarrow> string \<Rightarrow> nat \<Rightarrow> u32" where
  "GetIntValueFirstN digest key n =
     (let digest_str = digest key in
      if length digest_str \<noteq> 32 then 0 else of_nat (strtol_hex 0 (take n digest_str)))"

subsection \<open>The ring\<close>

record 'u map_node =
  mn_hash :: u32
  mn_status :: int
  mn_node :: "'u select_node"

record 'u list_node =
  ln_hash :: u32
  ln_node :: "'u select_node"

record 'u consist_hash =
  ch_items :: "int \<rightharpoonup> 'u map_node list"
  ch_avail :: "'u list_node list"
  ch_error :: "'u list_node list"
  ch_next_id :: int

definition ConsistHashSelector :: "'u consist_hash" where
  "ConsistHashSelector = \<lparr>ch_items = Map.empty, ch_avail = [], ch_error = [], ch_next_id = 0\<rparr>"

definition CompareNodeHash :: "'u list_node \<Rightarrow> 'u list_node \<Rightarrow> int" where
  "CompareNodeHash a b = (if ln_hash a = ln_hash b then 0 else if ln_hash a < ln_hash b then -1 else 1)"

definition InsertToVector :: "'a list \<Rightarrow> nat \<Rightarrow> 'a \<Rightarrow> 'a list" where
  "InsertToVector vec pos v = take pos vec @ v # drop pos vec"

definition RemoveFromVector :: "'a list \<Rightarrow> nat \<Rightarrow> 'a list cxx" where
  "RemoveFromVector vec pos = (if pos < length vec then Some (take pos vec @ drop (Suc pos) vec) else None)"

text \<open>A list node that only carries a hash, for the search.\<close>

definition probe :: "u32 \<Rightarrow> 'u list_node" where
  "probe h = \<lparr>ln_hash = h, ln_node = SelectNode\<rparr>"

definition MoveNode :: "u32 \<Rightarrow> 'u list_node list \<Rightarrow> 'u list_node list \<Rightarrow> (int \<times> 'u list_node list \<times> 'u list_node list) cxx" where
  "MoveNode hash from to =
     (let r1 = BinarySearchVector (probe hash) from CompareNodeHash in
      if \<not> snd r1 then Some (1, from, to)
      else let r2 = BinarySearchVector (probe hash) to CompareNodeHash in
        if snd r2 then Some (2, from, to)
        else if fst r1 < length from
        then map_option (\<lambda>from'. (0, from', InsertToVector to (fst r2) \<lparr>ln_hash = hash, ln_node = ln_node (from ! fst r1)\<rparr>)) (RemoveFromVector from (fst r1))
        else None)"

text \<open>The loop over the virtual nodes; the result is the code and the selector.\<close>

primrec add_virtual ::
  "(string \<Rightarrow> u32) \<Rightarrow> 'u \<Rightarrow> int \<Rightarrow> string \<Rightarrow> int \<Rightarrow> nat list \<Rightarrow> 'u consist_hash \<Rightarrow> int \<times> 'u consist_hash" where
  "add_virtual hash user_data weight tmp sid [] s = (0, s)"
| "add_virtual hash user_data weight tmp sid (i # js) s =
     (let hash_val = hash (tmp @ ''#'' @ decimal i);
          r = BinarySearchVector (probe hash_val) (ch_avail s) CompareNodeHash in
      if snd r then (1, s)
      else let node = SelectNode\<lparr>sn_weight := weight, sn_data := Some user_data\<rparr>;
               mn = \<lparr>mn_hash = hash_val, mn_status = 1, mn_node = node\<rparr>;
               ins = (if i = 0
                      then (case ch_items s sid of None \<Rightarrow> Some ((ch_items s)(sid \<mapsto> [mn])) | Some _ \<Rightarrow> None)
                      else Some ((ch_items s)(sid \<mapsto> (case ch_items s sid of None \<Rightarrow> [] | Some vec \<Rightarrow> vec) @ [mn]))) in
        case ins of None \<Rightarrow> (-2, s)
        | Some items \<Rightarrow> add_virtual hash user_data weight tmp sid js
            (s\<lparr>ch_items := items, ch_avail := InsertToVector (ch_avail s) (fst r) \<lparr>ln_hash = hash_val, ln_node = node\<rparr>\<rparr>))"

text \<open>
  \<open>addr.substr(6, ...)\<close> throws when the address is shorter than its prefix. The id is
  reported through \<open>service_id\<close> only on success.
\<close>

definition CH_AddItem ::
  "(string \<Rightarrow> string) \<Rightarrow> 'u consist_hash \<Rightarrow> 'u \<Rightarrow> int \<Rightarrow> string \<Rightarrow> int \<Rightarrow> (int \<times> int option \<times> 'u consist_hash) cxx" where
  "CH_AddItem digest s user_data weight addr virtual_count =
     (let sid = ch_next_id s + 1 in
      if length addr < 6 then None
      else case add_virtual (\<lambda>x. GetIntValueFirstN digest x 8) user_data weight (drop 6 addr) sid [0..<nat virtual_count] (s\<lparr>ch_next_id := sid\<rparr>) of
        (code, s') \<Rightarrow> Some (code, if code = 0 then Some sid else None, s'))"

primrec remove_nodes :: "'u map_node list \<Rightarrow> 'u consist_hash \<Rightarrow> 'u consist_hash cxx" where
  "remove_nodes [] s = Some s"
| "remove_nodes (mn # mns) s =
     (let target = (if mn_status mn = 1 then ch_avail s else ch_error s);
          r = BinarySearchVector (probe (mn_hash mn)) target CompareNodeHash in
      if \<not> snd r then None
      else case RemoveFromVector target (fst r) of None \<Rightarrow> None
        | Some target' \<Rightarrow> remove_nodes mns (if mn_status mn = 1 then s\<lparr>ch_avail := target'\<rparr> else s\<lparr>ch_error := target'\<rparr>))"

definition CH_RemoveItem :: "'u consist_hash \<Rightarrow> int \<Rightarrow> (int \<times> 'u consist_hash) cxx" where
  "CH_RemoveItem s service_id =
     (case ch_items s service_id of
        None \<Rightarrow> Some (1, s)
      | Some vec \<Rightarrow> map_option (\<lambda>s'. (0, s'\<lparr>ch_items := (ch_items s')(service_id := None)\<rparr>)) (remove_nodes vec s))"

definition CH_GetItem :: "'u consist_hash \<Rightarrow> int \<Rightarrow> 'u select_node option cxx" where
  "CH_GetItem s i = (case ch_items s i of None \<Rightarrow> Some None | Some [] \<Rightarrow> None | Some (mn # _) \<Rightarrow> Some (Some (mn_node mn)))"

definition ring_entry :: "'u list_node list \<Rightarrow> u32 \<Rightarrow> 'u select_node cxx" where
  "ring_entry vec h =
     (let i = fst (BinarySearchVector (probe h) vec CompareNodeHash) mod length vec
      in if i < length vec then Some (ln_node (vec ! i)) else None)"

definition CH_Select :: "(string \<Rightarrow> string) \<Rightarrow> 'u consist_hash \<Rightarrow> string \<Rightarrow> (int \<times> 'u select_node option) cxx" where
  "CH_Select digest s main_key =
     (let h = GetIntValueFirstN digest main_key 8 in
      if ch_avail s \<noteq> [] then map_option (\<lambda>n. (0, Some n)) (ring_entry (ch_avail s) h)
      else if ch_error s \<noteq> [] then map_option (\<lambda>n. (0, Some n)) (ring_entry (ch_error s) h)
      else Some (1, None))"

definition CH_UpdateMark :: "'u consist_hash \<Rightarrow> int \<Rightarrow> int \<Rightarrow> int \<times> 'u consist_hash" where
  "CH_UpdateMark s service_id mark_delta = (0, s)"

definition CH_UpdateAllMark :: "'u consist_hash \<Rightarrow> int \<Rightarrow> int \<times> 'u consist_hash" where
  "CH_UpdateAllMark s mark_delta = (0, s)"

subsection \<open>The search on a sorted vector\<close>

abbreviation ring_sorted :: "'u list_node list \<Rightarrow> bool" where
  "ring_sorted vec \<equiv> sorted_wrt (\<lambda>a b. ln_hash a < ln_hash b) vec"

lemma compare_probe [simp]: "CompareNodeHash (probe h) x = (if h = ln_hash x then 0 else if h < ln_hash x then -1 else 1)"
  by (simp add: CompareNodeHash_def probe_def)

lemma search_loop_spec:
  assumes "ring_sorted vec" and "l \<le> r" and "r \<le> length vec"
    and "\<And>j. j < l \<Longrightarrow> ln_hash (vec ! j) < h" and "\<And>j. r \<le> j \<Longrightarrow> j < length vec \<Longrightarrow> h < ln_hash (vec ! j)"
    and "l < r \<or> cmp < 0 \<and> mid = l \<or> cmp > 0 \<and> mid + 1 = l"
  shows "\<exists>i b. search_loop CompareNodeHash (probe h) vec l r mid cmp = (i, b) \<and> i \<le> length vec \<and> (\<forall>j < i. ln_hash (vec ! j) < h) \<and>
    (if b then i < length vec \<and> ln_hash (vec ! i) = h else \<forall>j. i \<le> j \<and> j < length vec \<longrightarrow> h < ln_hash (vec ! j))"
  using assms(2-)
proof (induction "r - l" arbitrary: l r mid cmp rule: less_induct)
  case less
  show ?case
  proof (cases "l < r")
    case False
    then have "search_loop CompareNodeHash (probe h) vec l r mid cmp = (l, False)" "l = r"
      using less.prems by (auto simp: search_loop.simps [of CompareNodeHash])
    then show ?thesis using less.prems by auto
  next
    case True
    let ?m = "(l + r) div 2"
    have m: "l \<le> ?m" "?m < r" "?m < length vec" using True less.prems by auto
    have mono: "i < j \<Longrightarrow> j < length vec \<Longrightarrow> ln_hash (vec ! i) < ln_hash (vec ! j)" for i j
      using sorted_wrt_nth_less [OF assms(1)] by blast
    consider "ln_hash (vec ! ?m) = h" | "h < ln_hash (vec ! ?m)" | "ln_hash (vec ! ?m) < h" by (metis linorder_neqE)
    then show ?thesis
    proof cases
      case 1
      then have "search_loop CompareNodeHash (probe h) vec l r mid cmp = (?m, True)"
        using True by (subst search_loop.simps) (simp add: Let_def)
      then show ?thesis using 1 m mono by auto
    next
      case 2
      then have eq: "search_loop CompareNodeHash (probe h) vec l r mid cmp = search_loop CompareNodeHash (probe h) vec l ?m ?m (-1)"
        using True by (subst search_loop.simps) (auto simp: Let_def)
      have gt: "h < ln_hash (vec ! j)" if "?m \<le> j" "j < length vec" for j
        using 2 mono [of ?m j] that by (cases "j = ?m") (auto intro: less_trans)
      show ?thesis unfolding eq by (rule less.hyps) (use m less.prems gt in auto)
    next
      case 3
      then have eq: "search_loop CompareNodeHash (probe h) vec l r mid cmp = search_loop CompareNodeHash (probe h) vec (?m + 1) r ?m 1"
        using True by (subst search_loop.simps) (auto simp: Let_def)
      have lt: "ln_hash (vec ! j) < h" if "j < ?m + 1" for j
        using 3 mono [of j ?m] that m by (cases "j = ?m") (auto intro: less_trans)
      show ?thesis unfolding eq by (rule less.hyps) (use m less.prems lt in auto)
    qed
  qed
qed

definition ring_pos :: "u32 \<Rightarrow> 'u list_node list \<Rightarrow> nat" where
  "ring_pos h vec = length (takeWhile (\<lambda>x. ln_hash x < h) vec)"

lemma ring_posI:
  assumes "i \<le> length vec" and "\<And>j. j < i \<Longrightarrow> ln_hash (vec ! j) < h" and "i < length vec \<Longrightarrow> \<not> ln_hash (vec ! i) < h"
  shows "ring_pos h vec = i"
proof -
  have "takeWhile (\<lambda>x. ln_hash x < h) vec = take i vec"
    using assms by (intro takeWhile_eq_take_P_nth) auto
  then show ?thesis using assms(1) by (simp add: ring_pos_def)
qed

text \<open>Binary search finds the place of a hash value, and whether it is there.\<close>

lemma BinarySearch_ring:
  assumes "ring_sorted vec"
  shows "BinarySearchVector (probe h) vec CompareNodeHash = (ring_pos h vec, h \<in> ln_hash ` set vec)"
proof (cases "vec = []")
  case True
  then show ?thesis by (simp add: BinarySearchVector_def ring_pos_def)
next
  case False
  then obtain i b where s: "search_loop CompareNodeHash (probe h) vec 0 (length vec) 0 0 = (i, b)" "i \<le> length vec" "\<forall>j < i. ln_hash (vec ! j) < h"
    "if b then i < length vec \<and> ln_hash (vec ! i) = h else \<forall>j. i \<le> j \<and> j < length vec \<longrightarrow> h < ln_hash (vec ! j)"
    using search_loop_spec [OF assms, of 0 "length vec" h 0 0] by auto
  have "ring_pos h vec = i" using s by (intro ring_posI) (auto split: if_splits)
  moreover have "b \<longleftrightarrow> h \<in> ln_hash ` set vec"
  proof (cases b)
    case True
    then show ?thesis using s(4) by force
  next
    case False
    have "ln_hash x \<noteq> h" if x: "x \<in> set vec" for x
    proof -
      obtain j where "j < length vec" "x = vec ! j" using x by (auto simp: in_set_conv_nth)
      then show ?thesis using s(3,4) False by (cases "j < i") (force simp: not_less)+
    qed
    then show ?thesis using False by auto
  qed
  ultimately show ?thesis using False s(1) by (simp add: BinarySearchVector_def BinarySearch_def)
qed

lemma sorted_before: "ring_sorted vec \<Longrightarrow> takeWhile (\<lambda>x. ln_hash x < h) vec = filter (\<lambda>x. ln_hash x < h) vec"
proof (induction vec)
  case (Cons x vec)
  show ?case
  proof (cases "ln_hash x < h")
    case False
    then have "\<forall>y \<in> set vec. \<not> ln_hash y < h" using Cons.prems by (auto dest: less_trans)
    then show ?thesis using False by simp
  qed (use Cons in auto)
qed simp

lemma sorted_behind: "ring_sorted vec \<Longrightarrow> dropWhile (\<lambda>x. ln_hash x < h) vec = filter (\<lambda>x. \<not> ln_hash x < h) vec"
proof (induction vec)
  case (Cons x vec)
  show ?case
  proof (cases "ln_hash x < h")
    case False
    then have "\<forall>y \<in> set vec. \<not> ln_hash y < h" using Cons.prems by (auto dest: less_trans)
    then show ?thesis using False by (simp add: filter_id_conv)
  qed (use Cons in auto)
qed simp

lemma ring_insert:
  assumes "ring_sorted vec" and "ln_hash v \<notin> ln_hash ` set vec"
  shows "InsertToVector vec (ring_pos (ln_hash v) vec) v = filter (\<lambda>x. ln_hash x < ln_hash v) vec @ v # filter (\<lambda>x. \<not> ln_hash x < ln_hash v) vec"
    and "ring_sorted (InsertToVector vec (ring_pos (ln_hash v) vec) v)" and "set (InsertToVector vec (ring_pos (ln_hash v) vec) v) = insert v (set vec)"
proof -
  let ?P = "\<lambda>x. ln_hash x < ln_hash v"
  have "take (ring_pos (ln_hash v) vec) vec = takeWhile ?P vec" "drop (ring_pos (ln_hash v) vec) vec = dropWhile ?P vec"
    by (simp_all add: ring_pos_def takeWhile_eq_take [symmetric] dropWhile_eq_drop [symmetric])
  then show e: "InsertToVector vec (ring_pos (ln_hash v) vec) v = filter ?P vec @ v # filter (\<lambda>x. \<not> ?P x) vec"
    using sorted_before [OF assms(1)] sorted_behind [OF assms(1)] by (simp add: InsertToVector_def)
  have "ln_hash v < ln_hash x" if "x \<in> set vec" "\<not> ?P x" for x
    using that assms(2) by (metis image_eqI linorder_neqE)
  moreover have "ln_hash a < ln_hash b" if "?P a" "\<not> ?P b" for a b :: "'a list_node" using that by (metis linorder_not_less order_less_le_trans)
  ultimately show "ring_sorted (InsertToVector vec (ring_pos (ln_hash v) vec) v)"
    unfolding e using assms(1) by (auto simp: sorted_wrt_append sorted_wrt_filter)
  show "set (InsertToVector vec (ring_pos (ln_hash v) vec) v) = insert v (set vec)" unfolding e by auto
qed

lemma ring_remove:
  assumes "ring_sorted vec" and "h \<in> ln_hash ` set vec"
  shows "RemoveFromVector vec (ring_pos h vec) = Some (filter (\<lambda>x. ln_hash x \<noteq> h) vec)"
proof -
  let ?P = "\<lambda>x. ln_hash x < h"
  have d: "dropWhile ?P vec = filter (\<lambda>x. \<not> ?P x) vec" by (rule sorted_behind [OF assms(1)])
  obtain v where v: "v \<in> set vec" "ln_hash v = h" using assms(2) by auto
  then have "v \<in> set (dropWhile ?P vec)" unfolding d by simp
  then obtain y ys where y: "dropWhile ?P vec = y # ys" by (cases "dropWhile ?P vec") auto
  have sd: "ring_sorted (y # ys)" using assms(1) unfolding y [symmetric] by (simp add: sorted_wrt_dropWhile)
  have "\<not> ln_hash y < h" using d y by (metis filter_eq_ConsD)
  moreover have "v = y \<or> v \<in> set ys" using \<open>v \<in> set (dropWhile ?P vec)\<close> y by simp
  ultimately have h: "ln_hash y = h" using sd v(2) by (auto dest: order.asym)
  have "filter (\<lambda>x. ln_hash x \<noteq> h) vec = filter (\<lambda>x. ln_hash x \<noteq> h) (takeWhile ?P vec) @ filter (\<lambda>x. ln_hash x \<noteq> h) (dropWhile ?P vec)"
    by (metis filter_append takeWhile_dropWhile_id)
  also have "filter (\<lambda>x. ln_hash x \<noteq> h) (takeWhile ?P vec) = takeWhile ?P vec" by (auto simp: filter_id_conv dest: set_takeWhileD)
  also have "filter (\<lambda>x. ln_hash x \<noteq> h) (dropWhile ?P vec) = ys" using sd h unfolding y by (auto simp: filter_id_conv)
  finally have "filter (\<lambda>x. ln_hash x \<noteq> h) vec = takeWhile ?P vec @ ys" .
  moreover have v: "vec = takeWhile ?P vec @ y # ys" using y by (metis takeWhile_dropWhile_id)
  moreover have "RemoveFromVector (tw @ y # ys) (length tw) = Some (tw @ ys)" for tw by (simp add: RemoveFromVector_def)
  ultimately show ?thesis unfolding ring_pos_def by metis
qed

subsection \<open>The successor on the ring\<close>

definition clockwise :: "'u list_node list \<Rightarrow> u32 \<Rightarrow> 'u list_node" where
  "clockwise vec h = (case dropWhile (\<lambda>x. ln_hash x < h) vec of [] \<Rightarrow> hd vec | x # _ \<Rightarrow> x)"

text \<open>The same without the order of the vector: the smallest hash at or behind \<open>h\<close>, or the smallest of all.\<close>

definition is_successor :: "'u list_node set \<Rightarrow> u32 \<Rightarrow> 'u list_node \<Rightarrow> bool" where
  "is_successor S h c \<longleftrightarrow> c \<in> S \<and>
     (\<forall>x \<in> S. if h \<le> ln_hash c then h \<le> ln_hash x \<longrightarrow> ln_hash c \<le> ln_hash x else ln_hash x < h \<and> ln_hash c \<le> ln_hash x)"

lemma ring_entry_clockwise:
  assumes "ring_sorted vec" and "vec \<noteq> []"
  shows "ring_entry vec h = Some (ln_node (clockwise vec h))"
proof -
  let ?P = "\<lambda>x. ln_hash x < h"
  have v: "vec = takeWhile ?P vec @ dropWhile ?P vec" by simp
  show ?thesis
  proof (cases "dropWhile ?P vec")
    case Nil
    then have "ring_pos h vec = length vec" by (simp add: ring_pos_def dropWhile_eq_Nil_conv takeWhile_eq_all_conv [THEN iffD2])
    moreover have "clockwise vec h = hd vec" unfolding clockwise_def Nil by simp
    ultimately show ?thesis using assms(2) by (simp add: ring_entry_def BinarySearch_ring [OF assms(1)] hd_conv_nth)
  next
    case (Cons x xs)
    then have "ring_pos h vec < length vec" "vec ! ring_pos h vec = x"
      unfolding ring_pos_def by (metis append_Cons length_append v less_add_same_cancel1 length_greater_0_conv list.distinct(1), metis Cons nth_append_length v)
    then show ?thesis using Cons by (simp add: ring_entry_def BinarySearch_ring [OF assms(1)] clockwise_def)
  qed
qed

lemma clockwise_successor:
  assumes "ring_sorted vec" and "vec \<noteq> []"
  shows "is_successor (set vec) h (clockwise vec h)"
proof -
  let ?P = "\<lambda>x. ln_hash x < h"
  have d: "dropWhile ?P vec = filter (\<lambda>x. \<not> ?P x) vec" by (rule sorted_behind [OF assms(1)])
  show ?thesis
  proof (cases "dropWhile ?P vec")
    case Nil
    then have all: "\<forall>x \<in> set vec. ln_hash x < h" by (simp add: dropWhile_eq_Nil_conv)
    obtain y ys where y: "vec = y # ys" using assms(2) by (cases vec) auto
    have "clockwise vec h = y" unfolding clockwise_def Nil by (simp add: y)
    then show ?thesis using all assms(1) y by (auto simp: is_successor_def less_imp_le)
  next
    case (Cons y ys)
    have "set (y # ys) = {x \<in> set vec. h \<le> ln_hash x}" using d Cons by (metis (mono_tags, lifting) Collect_cong linorder_not_less set_filter)
    moreover have "ring_sorted (y # ys)" using assms(1) unfolding Cons [symmetric] by (simp add: sorted_wrt_dropWhile)
    ultimately have "y \<in> set vec" "h \<le> ln_hash y" "\<forall>x \<in> set vec. h \<le> ln_hash x \<longrightarrow> ln_hash y \<le> ln_hash x"
      by (auto simp: less_imp_le)
    then show ?thesis using Cons by (simp add: is_successor_def clockwise_def)
  qed
qed

lemma ring_hash_inj: "ring_sorted vec \<Longrightarrow> x \<in> set vec \<Longrightarrow> y \<in> set vec \<Longrightarrow> ln_hash x = ln_hash y \<Longrightarrow> x = y"
  by (induction vec) auto

lemma successor_unique:
  "ring_sorted vec \<Longrightarrow> is_successor (set vec) h c \<Longrightarrow> is_successor (set vec) h c' \<Longrightarrow> c = c'"
proof -
  assume s: "ring_sorted vec" and c: "is_successor (set vec) h c" and c': "is_successor (set vec) h c'"
  have "c \<in> set vec" "c' \<in> set vec" using c c' by (simp_all add: is_successor_def)
  moreover have "if h \<le> ln_hash c then h \<le> ln_hash c' \<longrightarrow> ln_hash c \<le> ln_hash c' else ln_hash c' < h \<and> ln_hash c \<le> ln_hash c'"
    using c \<open>c' \<in> set vec\<close> unfolding is_successor_def by blast
  moreover have "if h \<le> ln_hash c' then h \<le> ln_hash c \<longrightarrow> ln_hash c' \<le> ln_hash c else ln_hash c < h \<and> ln_hash c' \<le> ln_hash c"
    using c' \<open>c \<in> set vec\<close> unfolding is_successor_def by blast
  ultimately show "c = c'" using ring_hash_inj [OF s] by (auto split: if_splits)
qed

lemma successor_subset: "is_successor T h c \<Longrightarrow> S \<subseteq> T \<Longrightarrow> c \<in> S \<Longrightarrow> is_successor S h c"
  by (auto simp: is_successor_def)

text \<open>A larger ring serves a key from the old node or from a new one.\<close>

lemma clockwise_mono:
  assumes "ring_sorted vec" and "vec \<noteq> []" and "ring_sorted vec'" and "set vec \<subseteq> set vec'"
  shows "clockwise vec' h = clockwise vec h \<or> clockwise vec' h \<in> set vec' - set vec"
proof -
  have "vec' \<noteq> []" using assms(2,4) by auto
  then have s': "is_successor (set vec') h (clockwise vec' h)" by (rule clockwise_successor [OF assms(3)])
  show ?thesis
  proof (cases "clockwise vec' h \<in> set vec")
    case True
    from successor_unique [OF assms(1) successor_subset [OF s' assms(4) True] clockwise_successor [OF assms(1,2)]] show ?thesis by simp
  qed (use s' in \<open>simp add: is_successor_def\<close>)
qed

subsection \<open>The invariant of the selector\<close>

text \<open>The entries of the vector that a server owns.\<close>

definition entries :: "'u map_node list \<Rightarrow> 'u list_node set" where
  "entries vec = (\<lambda>mn. \<lparr>ln_hash = mn_hash mn, ln_node = mn_node mn\<rparr>) ` set vec"

definition table_ok :: "(int \<rightharpoonup> 'u map_node list) \<Rightarrow> int \<Rightarrow> bool" where
  "table_ok items n \<longleftrightarrow>
     (\<forall>i vec. items i = Some vec \<longrightarrow> i \<le> n \<and> distinct (map mn_hash vec) \<and> (\<forall>mn \<in> set vec. mn_status mn = 1)) \<and>
     (\<forall>i j vec vec'. items i = Some vec \<and> items j = Some vec' \<and> i \<noteq> j \<longrightarrow> mn_hash ` set vec \<inter> mn_hash ` set vec' = {})"

definition entries_of :: "(int \<rightharpoonup> 'u map_node list) \<Rightarrow> int \<Rightarrow> 'u list_node set" where
  "entries_of items i = (case items i of None \<Rightarrow> {} | Some vec \<Rightarrow> entries vec)"

definition ring_ok :: "'u consist_hash \<Rightarrow> bool" where
  "ring_ok s \<longleftrightarrow> ring_sorted (ch_avail s) \<and> ch_error s = [] \<and> set (ch_avail s) = (\<Union>i. entries_of (ch_items s) i) \<and>
     table_ok (ch_items s) (ch_next_id s)"

lemma hash_entries: "ln_hash ` entries vec = mn_hash ` set vec"
  by (force simp: entries_def)

lemma ring_ok_hashes: "ring_ok s \<Longrightarrow> ch_items s i = Some vec \<Longrightarrow> entries vec \<subseteq> set (ch_avail s)"
proof -
  assume ok: "ring_ok s" and "ch_items s i = Some vec"
  then have "entries vec = entries_of (ch_items s) i" by (simp add: entries_of_def)
  then show ?thesis using ok by (auto simp: ring_ok_def)
qed

lemma UN_insert_at: "(\<Union>i. if i = a then insert v (A a) else A i) = insert v (\<Union>i. A i)"
  by (auto split: if_splits)

lemma UN_remove_at:
  assumes "A i \<subseteq> B" and "\<And>j. j \<noteq> i \<Longrightarrow> A j \<inter> B = {}"
  shows "{x \<in> (\<Union>j. A j). x \<notin> B} = (\<Union>j. if j = i then {} else A j)"
proof (intro equalityI subsetI)
  fix x assume "x \<in> {x \<in> (\<Union>j. A j). x \<notin> B}"
  then obtain j where "x \<in> A j" "x \<notin> B" by auto
  moreover from this assms(1) have "j \<noteq> i" by auto
  ultimately show "x \<in> (\<Union>j. if j = i then {} else A j)" by auto
next
  fix x assume "x \<in> (\<Union>j. if j = i then {} else A j)"
  then obtain j where "x \<in> A j" "j \<noteq> i" by (auto split: if_splits)
  with assms(2) show "x \<in> {x \<in> (\<Union>j. A j). x \<notin> B}" by blast
qed

lemma ring_ok_empty: "ring_ok ConsistHashSelector"
  by (simp add: ring_ok_def ConsistHashSelector_def table_ok_def entries_of_def)

text \<open>One virtual node more for the server \<open>sid\<close>.\<close>

definition with_node :: "'u consist_hash \<Rightarrow> int \<Rightarrow> 'u map_node \<Rightarrow> 'u consist_hash" where
  "with_node s sid mn = s\<lparr>ch_items := (ch_items s)(sid \<mapsto> (case ch_items s sid of None \<Rightarrow> [] | Some vec \<Rightarrow> vec) @ [mn]),
     ch_avail := InsertToVector (ch_avail s) (ring_pos (mn_hash mn) (ch_avail s)) \<lparr>ln_hash = mn_hash mn, ln_node = mn_node mn\<rparr>\<rparr>"

lemma ring_ok_with_node:
  assumes "ring_ok s" and "sid \<le> ch_next_id s" and "mn_status mn = 1" and "mn_hash mn \<notin> ln_hash ` set (ch_avail s)"
  shows "ring_ok (with_node s sid mn)"
    and "set (ch_avail (with_node s sid mn)) = insert \<lparr>ln_hash = mn_hash mn, ln_node = mn_node mn\<rparr> (set (ch_avail s))"
proof -
  let ?v = "\<lparr>ln_hash = mn_hash mn, ln_node = mn_node mn\<rparr>"
  let ?old = "case ch_items s sid of None \<Rightarrow> [] | Some vec \<Rightarrow> vec"
  let ?items = "(ch_items s)(sid \<mapsto> ?old @ [mn])"
  have ok: "ring_sorted (ch_avail s)" "ch_error s = []" "set (ch_avail s) = (\<Union>i. entries_of (ch_items s) i)"
    "table_ok (ch_items s) (ch_next_id s)" using assms(1) by (simp_all add: ring_ok_def)
  note ins = ring_insert [of "ch_avail s" ?v, simplified, OF ok(1) assms(4)]
  show set_eq: "set (ch_avail (with_node s sid mn)) = insert ?v (set (ch_avail s))" using ins(3) by (simp add: with_node_def)
  have new: "mn_hash mn \<notin> mn_hash ` set vec" if "ch_items s i = Some vec" for i vec
    using ring_ok_hashes [OF assms(1) that] assms(4) hash_entries [of vec] by blast
  have e: "entries_of ?items i = (if i = sid then insert ?v (entries_of (ch_items s) sid) else entries_of (ch_items s) i)" for i
    by (simp add: entries_of_def entries_def split: option.splits)
  have "(\<Union>i. entries_of ?items i) = insert ?v (\<Union>i. entries_of (ch_items s) i)" unfolding e by (rule UN_insert_at)
  moreover have "table_ok ?items (ch_next_id s)"
    unfolding table_ok_def
  proof (rule conjI; intro allI impI)
    fix i vec assume "?items i = Some vec"
    then show "i \<le> ch_next_id s \<and> distinct (map mn_hash vec) \<and> (\<forall>mn \<in> set vec. mn_status mn = 1)"
      using ok(4) assms(2,3) new by (cases "i = sid"; cases "ch_items s sid") (auto simp: table_ok_def)
  next
    fix i j vec vec' assume *: "?items i = Some vec \<and> ?items j = Some vec' \<and> i \<noteq> j"
    have d: "mn_hash ` set a \<inter> mn_hash ` set b = {}" if "ch_items s k = Some a" "ch_items s l = Some b" "k \<noteq> l" for k l a b
      using ok(4) that unfolding table_ok_def by blast
    have o: "mn_hash ` set (?old @ [mn]) \<inter> mn_hash ` set b = {}" if "ch_items s l = Some b" "l \<noteq> sid" for l b
      using d [OF _ that(1), of sid] that(2) new [OF that(1)] by (cases "ch_items s sid") auto
    show "mn_hash ` set vec \<inter> mn_hash ` set vec' = {}"
    proof (cases "i = sid")
      case True
      then have "vec = ?old @ [mn]" "ch_items s j = Some vec'" "j \<noteq> sid" using * by (auto split: if_splits)
      then show ?thesis using o by metis
    next
      case False
      then have i: "ch_items s i = Some vec" using * by simp
      show ?thesis
      proof (cases "j = sid")
        case True
        then have "vec' = ?old @ [mn]" using * by (auto split: if_splits)
        then show ?thesis using o [OF i False] by (metis inf_commute)
      next
        case j: False
        then show ?thesis using * False d [OF i, of j vec'] by simp
      qed
    qed
  qed
  ultimately show "ring_ok (with_node s sid mn)"
    using ok ins(2) set_eq by (simp add: ring_ok_def with_node_def)
qed

lemma add_virtual_ok:
  assumes "ring_ok s" and "sid \<le> ch_next_id s" and "(k = 0) = (ch_items s sid = None)"
    and "add_virtual hash u w tmp sid [k..<n] s = (code, s')"
  shows "ring_ok s' \<and> ch_next_id s' = ch_next_id s \<and> set (ch_avail s) \<subseteq> set (ch_avail s') \<and>
    (\<forall>x \<in> set (ch_avail s') - set (ch_avail s). sn_data (ln_node x) = Some u) \<and> (\<forall>j. j \<noteq> sid \<longrightarrow> ch_items s' j = ch_items s j) \<and> (code = 0 \<or> code = 1)"
  using assms
proof (induction "n - k" arbitrary: k s)
  case 0
  then show ?case by simp
next
  case (Suc x)
  then have k: "[k..<n] = k # [Suc k..<n]" by (simp add: upt_conv_Cons)
  let ?h = "hash (tmp @ ''#'' @ decimal k)"
  let ?mn = "\<lparr>mn_hash = ?h, mn_status = 1, mn_node = SelectNode\<lparr>sn_weight := w, sn_data := Some u\<rparr>\<rparr>"
  have sorted: "ring_sorted (ch_avail s)" using Suc.prems(1) by (simp add: ring_ok_def)
  show ?case
  proof (cases "?h \<in> ln_hash ` set (ch_avail s)")
    case True
    then show ?thesis using Suc.prems unfolding k by (simp add: BinarySearch_ring [OF sorted] Let_def)
  next
    case False
    have run: "add_virtual hash u w tmp sid [Suc k..<n] (with_node s sid ?mn) = (code, s')"
      using Suc.prems(3,4) False unfolding k
      by (cases "ch_items s sid") (simp_all add: BinarySearch_ring [OF sorted] Let_def with_node_def)
    have "mn_status ?mn = 1" "mn_hash ?mn \<notin> ln_hash ` set (ch_avail s)" using False by simp_all
    note node = ring_ok_with_node [OF Suc.prems(1,2) this]
    have w: "ch_items (with_node s sid ?mn) sid \<noteq> None" "ch_next_id (with_node s sid ?mn) = ch_next_id s"
      "\<And>j. j \<noteq> sid \<Longrightarrow> ch_items (with_node s sid ?mn) j = ch_items s j" by (simp_all add: with_node_def)
    have le: "x = n - Suc k" "sid \<le> ch_next_id (with_node s sid ?mn)" "(Suc k = 0) = (ch_items (with_node s sid ?mn) sid = None)"
      using Suc.hyps(2) Suc.prems(2) w by simp_all
    note IH = Suc.hyps(1) [OF le(1) node(1) le(2,3) run]
    have "sn_data (ln_node y) = Some u" if "y \<in> set (ch_avail s') - set (ch_avail s)" for y
      using IH that node(2) by (cases "y \<in> set (ch_avail (with_node s sid ?mn))") auto
    moreover have "set (ch_avail s) \<subseteq> set (ch_avail s')" using IH node(2) by auto
    ultimately show ?thesis using IH w(2,3) by simp
  qed
qed

lemma remove_nodes_ok:
  assumes "ring_sorted (ch_avail s)" and "distinct (map mn_hash mns)" and "\<forall>mn \<in> set mns. mn_status mn = 1"
    and "mn_hash ` set mns \<subseteq> ln_hash ` set (ch_avail s)"
  shows "remove_nodes mns s = Some (s\<lparr>ch_avail := filter (\<lambda>x. ln_hash x \<notin> mn_hash ` set mns) (ch_avail s)\<rparr>)"
  using assms
proof (induction mns arbitrary: s)
  case (Cons mn mns)
  let ?a = "filter (\<lambda>x. ln_hash x \<noteq> mn_hash mn) (ch_avail s)"
  have "RemoveFromVector (ch_avail s) (ring_pos (mn_hash mn) (ch_avail s)) = Some ?a" using Cons.prems by (intro ring_remove) auto
  then have "remove_nodes (mn # mns) s = remove_nodes mns (s\<lparr>ch_avail := ?a\<rparr>)"
    using Cons.prems by (simp add: BinarySearch_ring Let_def)
  also have "\<dots> = Some (s\<lparr>ch_avail := filter (\<lambda>x. ln_hash x \<notin> mn_hash ` set mns) ?a\<rparr>)"
  proof -
    have "mn_hash ` set mns \<subseteq> ln_hash ` set ?a"
    proof
      fix h assume h: "h \<in> mn_hash ` set mns"
      then have "h \<noteq> mn_hash mn" using Cons.prems(2) by (metis distinct.simps(2) list.map(2) set_map)
      moreover obtain x where "x \<in> set (ch_avail s)" "ln_hash x = h" using Cons.prems(4) h by auto
      ultimately show "h \<in> ln_hash ` set ?a" by force
    qed
    then show ?thesis using Cons.IH [of "s\<lparr>ch_avail := ?a\<rparr>"] Cons.prems by (simp add: sorted_wrt_filter)
  qed
  finally show ?case by (simp add: conj_commute)
qed simp

lemma RemoveItem_ok:
  assumes "ring_ok s"
  shows "\<exists>code s'. CH_RemoveItem s i = Some (code, s') \<and> ring_ok s' \<and> ch_next_id s' = ch_next_id s"
proof (cases "ch_items s i")
  case None
  then show ?thesis using assms by (simp add: CH_RemoveItem_def)
next
  case (Some vec)
  let ?a = "filter (\<lambda>x. ln_hash x \<notin> mn_hash ` set vec) (ch_avail s)" and ?items = "(ch_items s)(i := None)"
  have ok: "ring_sorted (ch_avail s)" "ch_error s = []" "set (ch_avail s) = (\<Union>i. entries_of (ch_items s) i)"
    "table_ok (ch_items s) (ch_next_id s)" using assms by (simp_all add: ring_ok_def)
  have "mn_hash ` set vec \<subseteq> ln_hash ` set (ch_avail s)"
    using ring_ok_hashes [OF assms Some] hash_entries [of vec] by (metis image_mono)
  then have run: "remove_nodes vec s = Some (s\<lparr>ch_avail := ?a\<rparr>)"
    using ok(1,4) Some by (intro remove_nodes_ok) (simp_all add: table_ok_def)
  have e: "entries_of ?items j = (if j = i then {} else entries_of (ch_items s) j)" for j by (simp add: entries_of_def)
  have d: "entries_of (ch_items s) j \<inter> {x. ln_hash x \<in> mn_hash ` set vec} = {}" if "j \<noteq> i" for j
  proof (cases "ch_items s j")
    case j: (Some b)
    then have "mn_hash ` set b \<inter> mn_hash ` set vec = {}" using ok(4) Some that unfolding table_ok_def by blast
    moreover have "ln_hash x \<in> mn_hash ` set b" if "x \<in> entries b" for x using that hash_entries [of b] by blast
    moreover have "entries_of (ch_items s) j = entries b" using j by (simp add: entries_of_def)
    ultimately show ?thesis by blast
  qed (simp add: entries_of_def)
  have "entries_of (ch_items s) i \<subseteq> {x. ln_hash x \<in> mn_hash ` set vec}" using hash_entries [of vec] Some by (auto simp: entries_of_def)
  from UN_remove_at [of "entries_of (ch_items s)", OF this d] have "set ?a = (\<Union>j. entries_of ?items j)"
    unfolding set_filter ok(3) e by simp
  moreover have "table_ok ?items (ch_next_id s)" using ok(4) by (auto simp: table_ok_def)
  ultimately have "ring_ok (s\<lparr>ch_avail := ?a, ch_items := ?items\<rparr>)" using ok(1,2) by (simp add: ring_ok_def sorted_wrt_filter)
  then show ?thesis using run Some by (simp add: CH_RemoveItem_def)
qed

lemma AddItem_ok:
  assumes "ring_ok s" and "6 \<le> length addr"
  shows "\<exists>code sid s'. CH_AddItem digest s u w addr vc = Some (code, sid, s') \<and> ring_ok s' \<and>
    set (ch_avail s) \<subseteq> set (ch_avail s') \<and> (\<forall>x \<in> set (ch_avail s') - set (ch_avail s). sn_data (ln_node x) = Some u) \<and> (code = 0 \<or> code = 1)"
proof -
  let ?sid = "ch_next_id s + 1" and ?s = "s\<lparr>ch_next_id := ch_next_id s + 1\<rparr>"
  have ok: "ring_ok ?s" using assms(1) by (fastforce simp: ring_ok_def table_ok_def)
  have "ch_items ?s ?sid = None"
  proof (cases "ch_items s ?sid")
    case (Some vec)
    then have "?sid \<le> ch_next_id s" using assms(1) unfolding ring_ok_def table_ok_def by blast
    then show ?thesis by simp
  qed simp
  then have new: "(0 = (0::nat)) = (ch_items ?s ?sid = None)" by simp
  have le: "?sid \<le> ch_next_id ?s" by simp
  obtain code s' where run: "add_virtual (\<lambda>x. GetIntValueFirstN digest x 8) u w (drop 6 addr) ?sid [0..<nat vc] ?s = (code, s')" by fastforce
  from add_virtual_ok [OF ok le new run] run show ?thesis using assms(2) by (simp add: CH_AddItem_def)
qed

subsection \<open>Runs\<close>

datatype 'u ring_op = AddServer 'u int string int | RemoveServer int

fun ring_exec :: "(string \<Rightarrow> string) \<Rightarrow> 'u consist_hash \<Rightarrow> 'u ring_op \<Rightarrow> 'u consist_hash cxx" where
  "ring_exec digest s (AddServer u w addr vc) = map_option (\<lambda>(_, _, s'). s') (CH_AddItem digest s u w addr vc)"
| "ring_exec digest s (RemoveServer i) = map_option snd (CH_RemoveItem s i)"

primrec ring_run :: "(string \<Rightarrow> string) \<Rightarrow> 'u consist_hash \<Rightarrow> 'u ring_op list \<Rightarrow> 'u consist_hash cxx" where
  "ring_run digest s [] = Some s"
| "ring_run digest s (x # xs) = (case ring_exec digest s x of None \<Rightarrow> None | Some s' \<Rightarrow> ring_run digest s' xs)"

definition addresses_ok :: "'u ring_op list \<Rightarrow> bool" where
  "addresses_ok xs \<longleftrightarrow> (\<forall>u w addr vc. AddServer u w addr vc \<in> set xs \<longrightarrow> 6 \<le> length addr)"

lemma ring_run_ok: "ring_ok s \<Longrightarrow> addresses_ok xs \<Longrightarrow> \<exists>s'. ring_run digest s xs = Some s' \<and> ring_ok s'"
proof (induction xs arbitrary: s)
  case (Cons x xs)
  have "\<exists>s1. ring_exec digest s x = Some s1 \<and> ring_ok s1"
  proof (cases x)
    case (AddServer u w addr vc)
    then have "6 \<le> length addr" using Cons.prems(2) by (auto simp: addresses_ok_def)
    from AddItem_ok [OF Cons.prems(1) this, of digest u w vc] AddServer show ?thesis by auto
  next
    case (RemoveServer i)
    then show ?thesis using RemoveItem_ok [OF Cons.prems(1), of i] by auto
  qed
  moreover have "addresses_ok xs" using Cons.prems(2) by (auto simp: addresses_ok_def)
  ultimately show ?case using Cons.IH by auto
qed simp

text \<open>The digest of the program, two servers of which one is removed again, and a ring with one node.\<close>

definition demo_digest :: "string \<Rightarrow> string" where
  "demo_digest = md5 (replicate 64 0) (replicate 16 0)"

definition demo_servers :: "nat ring_op list" where
  "demo_servers = [AddServer 7 1 ''tcp://10.0.0.1:80'' 3, AddServer 8 1 ''tcp://10.0.0.2:80'' 3, RemoveServer 1, RemoveServer 9]"

definition demo_ring :: "nat consist_hash" where
  "demo_ring = \<lparr>ch_items = [1 \<mapsto> [\<lparr>mn_hash = 5, mn_status = 1, mn_node = SelectNode\<rparr>]],
     ch_avail = [\<lparr>ln_hash = 5, ln_node = SelectNode\<rparr>], ch_error = [], ch_next_id = 1\<rparr>"

lemma demo_ring_ok: "ring_ok demo_ring"
  by (auto simp: ring_ok_def demo_ring_def table_ok_def entries_of_def entries_def split: if_splits)

subsection \<open>Properties\<close>

text \<open>
  C5. Whatever servers are added and removed, in any order and also with colliding hash values or
  unknown ids, no assertion fails and the vector stays sorted and holds exactly the virtual nodes of
  the registered servers; every key then selects the node at its clockwise successor, and 1 is
  reported only on an empty ring.
\<close>

theorem ring_runs_select_successor:
  assumes "addresses_ok xs"
  shows "\<exists>s. ring_run digest ConsistHashSelector xs = Some s \<and> ring_ok s \<and>
    (if ch_avail s = [] then CH_Select digest s key = Some (1, None)
     else \<exists>c. CH_Select digest s key = Some (0, Some (ln_node c)) \<and> is_successor (set (ch_avail s)) (GetIntValueFirstN digest key 8) c)"
proof -
  obtain s where s: "ring_run digest ConsistHashSelector xs = Some s" "ring_ok s" using ring_run_ok [OF ring_ok_empty assms] by blast
  then have "ring_sorted (ch_avail s)" "ch_error s = []" by (simp_all add: ring_ok_def)
  then show ?thesis using s clockwise_successor [of "ch_avail s"] ring_entry_clockwise [of "ch_avail s"]
    by (intro exI [of _ s]) (auto simp: CH_Select_def Let_def)
qed

theorem ring_runs_select_successor_witness:
  "\<exists>s. ring_run demo_digest ConsistHashSelector demo_servers = Some s \<and> ring_ok s \<and>
    (if ch_avail s = [] then CH_Select demo_digest s ''key'' = Some (1, None)
     else \<exists>c. CH_Select demo_digest s ''key'' = Some (0, Some (ln_node c)) \<and>
       is_successor (set (ch_avail s)) (GetIntValueFirstN demo_digest ''key'' 8) c)"
  by (rule ring_runs_select_successor) (auto simp: addresses_ok_def demo_servers_def)

text \<open>
  Adding a server to a ring that is not empty moves keys only to the new server: every key is
  served by the same node as before, or by a node of the server just added.
\<close>

theorem AddItem_moves_keys_to_new_server:
  assumes "ring_ok s" and "ch_avail s \<noteq> []" and "6 \<le> length addr"
  shows "\<exists>code sid s' n n'. CH_AddItem digest s u w addr vc = Some (code, sid, s') \<and> ring_ok s' \<and>
    CH_Select digest s key = Some (0, Some n) \<and> CH_Select digest s' key = Some (0, Some n') \<and> (n' = n \<or> sn_data n' = Some u)"
proof -
  let ?h = "GetIntValueFirstN digest key 8"
  obtain code sid s' where a: "CH_AddItem digest s u w addr vc = Some (code, sid, s')" "ring_ok s'" "set (ch_avail s) \<subseteq> set (ch_avail s')"
    "\<forall>x \<in> set (ch_avail s') - set (ch_avail s). sn_data (ln_node x) = Some u"
    using AddItem_ok [OF assms(1,3), of digest u w vc] by blast
  have sorted: "ring_sorted (ch_avail s)" "ring_sorted (ch_avail s')" using assms(1) a(2) by (simp_all add: ring_ok_def)
  have ne: "ch_avail s' \<noteq> []" using a(3) assms(2) by auto
  have "CH_Select digest s key = Some (0, Some (ln_node (clockwise (ch_avail s) ?h)))"
    "CH_Select digest s' key = Some (0, Some (ln_node (clockwise (ch_avail s') ?h)))"
    using assms(2) ne ring_entry_clockwise [OF sorted(1)] ring_entry_clockwise [OF sorted(2)] by (simp_all add: CH_Select_def Let_def)
  moreover have "clockwise (ch_avail s') ?h = clockwise (ch_avail s) ?h \<or> clockwise (ch_avail s') ?h \<in> set (ch_avail s') - set (ch_avail s)"
    by (rule clockwise_mono [OF sorted(1) assms(2) sorted(2) a(3)])
  ultimately show ?thesis using a(1,2,4) by auto
qed

theorem AddItem_moves_keys_to_new_server_witness:
  "\<exists>code sid s' n n'. CH_AddItem demo_digest demo_ring 3 1 ''tcp://10.0.0.3:80'' 4 = Some (code, sid, s') \<and> ring_ok s' \<and>
    CH_Select demo_digest demo_ring ''key'' = Some (0, Some n) \<and> CH_Select demo_digest s' ''key'' = Some (0, Some n') \<and>
    (n' = n \<or> sn_data n' = Some 3)"
  by (rule AddItem_moves_keys_to_new_server [OF demo_ring_ok]) (simp_all add: demo_ring_def)

end
