(* ===== verification/Msg_Decoder.thy ===== *)
theory Msg_Decoder
  imports Prelude
begin

text \<open>
  The decoders that cut the bytes received on a connection into messages: lines
  (\<open>libsrc/blitz/src/line_msg.cc\<close> and \<open>libsrc/blitz2/include/blitz2/line_msg.h\<close>) and messages with a
  head of fixed length (\<open>fix_head_msg.cc\<close>, \<open>fix_head_msg.h\<close>). The connection asks the decoder for a
  buffer, receives into it and reports the number of bytes by \<open>Feed\<close>.

  A block of memory is a list of bytes; \<open>alloc n\<close> is the block that \<open>malloc\<close> or \<open>new (nothrow)\<close>
  returns for \<open>n\<close> bytes, \<open>None\<close> the null pointer.
\<close>

type_synonym allocator = "nat \<Rightarrow> u8 list option"

definition alloc_ok :: "(nat \<Rightarrow> 'b list option) \<Rightarrow> bool" where
  "alloc_ok alloc \<longleftrightarrow> (\<forall>n. \<exists>b. alloc n = Some b \<and> length b = n)"

text \<open>The control characters of the text protocols.\<close>

definition NUL :: char where "NUL = CHR 0x00"
definition CR :: char where "CR = CHR 0x0D"
definition LF :: char where "LF = CHR 0x0A"

subsection \<open>Chunks and messages\<close>

text \<open>
  The contract of a decoder: \<open>frames\<close> says which messages a sequence of bytes contains and which bytes
  are left over; feeding a chunk that is \<open>fine\<close> in view of the bytes left over reports the messages
  that are now complete. Then the messages do not depend on how the stream was cut into chunks.
\<close>

primrec run_feed :: "('b list \<Rightarrow> 's \<Rightarrow> ('m list \<times> 's) option) \<Rightarrow> 'b list list \<Rightarrow> 's \<Rightarrow> ('m list \<times> 's) option" where
  "run_feed feed [] s = Some ([], s)"
| "run_feed feed (c # cs) s =
     (case feed c s of None \<Rightarrow> None
      | Some (ms, s') \<Rightarrow> map_option (\<lambda>(ns, s''). (ms @ ns, s'')) (run_feed feed cs s'))"

primrec all_fine :: "('b list \<Rightarrow> 'm list \<times> 'b list) \<Rightarrow> ('b list \<Rightarrow> 'b list \<Rightarrow> bool) \<Rightarrow> 'b list list \<Rightarrow> 'b list \<Rightarrow> bool" where
  "all_fine frames fine [] p = True"
| "all_fine frames fine (c # cs) p = (fine p c \<and> all_fine frames fine cs (snd (frames (p @ c))))"

locale stream_decoder =
  fixes ready :: "'s \<Rightarrow> bool" and pending :: "'s \<Rightarrow> 'b list"
    and feed :: "'b list \<Rightarrow> 's \<Rightarrow> ('m list \<times> 's) option"
    and fine :: "'b list \<Rightarrow> 'b list \<Rightarrow> bool" and frames :: "'b list \<Rightarrow> 'm list \<times> 'b list"
  assumes frames_append: "frames (xs @ ys) = (fst (frames xs) @ fst (frames (snd (frames xs) @ ys)), snd (frames (snd (frames xs) @ ys)))"
    and feed_frames: "ready s \<Longrightarrow> fine (pending s) c \<Longrightarrow>
      \<exists>s'. feed c s = Some (fst (frames (pending s @ c)), s') \<and> pending s' = snd (frames (pending s @ c)) \<and> ready s'"
    and pending_frames: "ready s \<Longrightarrow> frames (pending s) = ([], pending s)"
begin

lemma run_feed_frames:
  "ready s \<Longrightarrow> all_fine frames fine cs (pending s) \<Longrightarrow>
     \<exists>s'. run_feed feed cs s = Some (fst (frames (pending s @ concat cs)), s') \<and>
       pending s' = snd (frames (pending s @ concat cs)) \<and> ready s'"
proof (induction cs arbitrary: s)
  case Nil
  then show ?case by (simp add: pending_frames)
next
  case (Cons c cs)
  then obtain s1 where 1: "feed c s = Some (fst (frames (pending s @ c)), s1)" "pending s1 = snd (frames (pending s @ c))" "ready s1"
    using feed_frames [of s c] by auto
  then obtain s' where 2: "run_feed feed cs s1 = Some (fst (frames (pending s1 @ concat cs)), s')"
    "pending s' = snd (frames (pending s1 @ concat cs))" "ready s'" using Cons.IH [of s1] Cons.prems(2) by auto
  have "frames ((pending s @ c) @ concat cs) =
      (fst (frames (pending s @ c)) @ fst (frames (pending s1 @ concat cs)), snd (frames (pending s1 @ concat cs)))"
    using frames_append [of "pending s @ c" "concat cs"] 1(2) by simp
  with 1 2 show ?case by auto
qed

lemma run_feed_chunks_irrelevant:
  assumes "ready s" "pending s = []" "all_fine frames fine cs []" "all_fine frames fine ds []" "concat cs = concat ds"
  shows "map_option fst (run_feed feed cs s) = map_option fst (run_feed feed ds s)"
  using run_feed_frames [of s cs] run_feed_frames [of s ds] assms by auto

end

subsection \<open>One round of reading\<close>

text \<open>\<open>recv\<close> writes into the part of the block that the decoder has offered.\<close>

definition recv_into :: "'b list option \<Rightarrow> nat \<Rightarrow> 'b list \<Rightarrow> 'b list cxx" where
  "recv_into b off c = (case b of None \<Rightarrow> None
     | Some m \<Rightarrow> if off + length c \<le> length m then Some (overwrite m off c) else None)"

text \<open>
  One round of the loop of \<open>TcpConn::OnRead\<close> in which the bytes \<open>c\<close> are received (at most as many as
  offered). \<open>Inl\<close> is the error code with which the connection is closed; the messages that \<open>Feed\<close> has
  collected are dropped then. \<open>StreamSocketChannel::OnRead\<close> is the same loop, but \<open>Feed\<close> has reported
  its messages already.
\<close>

definition TcpConn_read ::
    "('s \<Rightarrow> int \<times> (nat \<times> nat) option \<times> 's) \<Rightarrow> (nat \<Rightarrow> u8 list \<Rightarrow> 's \<Rightarrow> 's cxx) \<Rightarrow> ('s \<Rightarrow> nat \<Rightarrow> (int \<times> 's \<times> 'm list) cxx)
       \<Rightarrow> u8 list \<Rightarrow> 's \<Rightarrow> (int + 'm list \<times> 's) cxx" where
  "TcpConn_read get recv feed c d =
     (case get d of
        (_, None, _) \<Rightarrow> Some (Inl (-1))
      | (_, Some (off, room), d1) \<Rightarrow>
          if room = 0 then Some (Inl (-1))
          else if c = [] then Some (Inr ([], d1))
          else if room < length c then None
          else (case recv off c d1 of None \<Rightarrow> None
            | Some d2 \<Rightarrow> (case feed d2 (length c) of None \<Rightarrow> None
                | Some (ret, d3, msgs) \<Rightarrow> Some (if ret < 0 then Inl (-1) else Inr (msgs, d3)))))"

definition Channel_read ::
    "('s \<Rightarrow> int \<times> (nat \<times> nat) option \<times> 's) \<Rightarrow> (nat \<Rightarrow> 'b list \<Rightarrow> 's \<Rightarrow> 's cxx) \<Rightarrow> ('s \<Rightarrow> nat \<Rightarrow> (int \<times> 's \<times> 'm list) cxx)
       \<Rightarrow> 'b list \<Rightarrow> 's \<Rightarrow> ('m list \<times> (int + 's)) cxx" where
  "Channel_read get recv feed c d =
     (case get d of
        (_, None, _) \<Rightarrow> Some ([], Inl (-1))
      | (_, Some (off, room), d1) \<Rightarrow>
          if room = 0 then Some ([], Inl (-1))
          else if c = [] then Some ([], Inr d1)
          else if room < length c then None
          else (case recv off c d1 of None \<Rightarrow> None
            | Some d2 \<Rightarrow> (case feed d2 (length c) of None \<Rightarrow> None
                | Some (ret, d3, msgs) \<Rightarrow> Some (msgs, if ret < 0 then Inl (-1) else Inr d3))))"

text \<open>Several rounds; an error ends them.\<close>

primrec channel_run :: "('b list \<Rightarrow> 's \<Rightarrow> ('m list \<times> (int + 's)) cxx) \<Rightarrow> 'b list list \<Rightarrow> 's \<Rightarrow> ('m list \<times> (int + 's)) cxx" where
  "channel_run read [] d = Some ([], Inr d)"
| "channel_run read (c # cs) d =
     (case read c d of
        None \<Rightarrow> None
      | Some (ms, Inl e) \<Rightarrow> Some (ms, Inl e)
      | Some (ms, Inr d') \<Rightarrow> map_option (\<lambda>(ms', res). (ms @ ms', res)) (channel_run read cs d'))"

lemma TcpConn_read_fits:
  assumes "get d = (0, Some (off, room), d1)" and "c \<noteq> []" and "length c \<le> room" and "recv off c d1 = Some d2"
  shows "TcpConn_read get recv feed c d = map_option (\<lambda>(ret, d3, msgs). if ret < 0 then Inl (-1) else Inr (msgs, d3)) (feed d2 (length c))"
proof -
  have "0 < room" using assms(2,3) by (cases c) auto
  then show ?thesis using assms by (cases "feed d2 (length c)") (auto simp: TcpConn_read_def)
qed

lemma Channel_read_fits:
  assumes "get d = (0, Some (off, room), d1)" and "c \<noteq> []" and "length c \<le> room" and "recv off c d1 = Some d2"
  shows "Channel_read get recv feed c d = map_option (\<lambda>(ret, d3, msgs). (msgs, if ret < 0 then Inl (-1) else Inr d3)) (feed d2 (length c))"
proof -
  have "0 < room" using assms(2,3) by (cases c) auto
  then show ?thesis using assms by (cases "feed d2 (length c)") (auto simp: Channel_read_def)
qed

subsection \<open>Lines, first version\<close>

text \<open>A message as the handlers get it: \<open>bytes_length\<close> bytes of a block of memory (null if \<open>malloc\<close> failed).\<close>

record in_msg =
  im_data :: "u8 list option"
  im_bytes_length :: nat

definition im_bytes :: "in_msg \<Rightarrow> u8 list" where
  "im_bytes m = (case im_data m of None \<Rightarrow> [] | Some d \<Rightarrow> take (im_bytes_length m) d)"

record line_decoder =
  ld_buffer :: "u8 list option"
  ld_max_length :: nat
  ld_data_length :: nat

definition LineMsgDecoder :: "nat \<Rightarrow> line_decoder cxx" where
  "LineMsgDecoder max_length =
     (if 0 < max_length then Some \<lparr>ld_buffer = None, ld_max_length = max_length, ld_data_length = 0\<rparr> else None)"

definition PrepareBuffer :: "allocator \<Rightarrow> line_decoder \<Rightarrow> int \<times> line_decoder" where
  "PrepareBuffer alloc d =
     (case ld_buffer d of
        Some _ \<Rightarrow> (0, d)
      | None \<Rightarrow> (case alloc (ld_max_length d + 1) of
          None \<Rightarrow> (-100, d)
        | Some b \<Rightarrow> (0, d\<lparr>ld_buffer := Some b\<rparr>)))"

text \<open>The result code and, on success, offset and length of the free part of the buffer.\<close>

definition Line_GetBuffer :: "allocator \<Rightarrow> line_decoder \<Rightarrow> int \<times> (nat \<times> nat) option \<times> line_decoder" where
  "Line_GetBuffer alloc d =
     (let (ret, d') = PrepareBuffer alloc d in
      if ret \<noteq> 0 then (ret, None, d')
      else if ld_max_length d' \<le> ld_data_length d' then (-1, None, d')
      else (0, Some (ld_data_length d', ld_max_length d' - ld_data_length d'), d'))"

definition FillInMsg :: "u8 list \<Rightarrow> nat \<Rightarrow> nat \<Rightarrow> in_msg" where
  "FillInMsg b start e = \<lparr>im_data = Some (drop start b), im_bytes_length = e - start + 1\<rparr>"

definition AllocInMsg :: "allocator \<Rightarrow> u8 list \<Rightarrow> nat \<Rightarrow> nat \<Rightarrow> in_msg" where
  "AllocInMsg alloc b start e =
     (let n = e - start + 1 in
      case alloc (n + 1) of
        None \<Rightarrow> \<lparr>im_data = None, im_bytes_length = n\<rparr>
      | Some m \<Rightarrow> \<lparr>im_data = Some (overwrite m 0 (take n (drop start b) @ [0])), im_bytes_length = n\<rparr>)"

text \<open>The two loops of \<open>Feed\<close> over the cells from \<open>it\<close> to \<open>e\<close> of the block \<open>b\<close>.\<close>

function first_line :: "u8 list \<Rightarrow> nat \<Rightarrow> nat \<Rightarrow> nat \<Rightarrow> in_msg list \<Rightarrow> nat \<times> nat \<times> in_msg list" where
  "first_line b prev it e msgs =
     (if it < e then
        if b ! it = 0x0A then (it + 1, it + 1, msgs @ [FillInMsg b prev it])
        else first_line b prev (it + 1) e msgs
      else (prev, it, msgs))"
  by auto
termination by (relation "measure (\<lambda>(b, prev, it, e, msgs). e - it)") auto

function more_lines :: "allocator \<Rightarrow> u8 list \<Rightarrow> nat \<Rightarrow> nat \<Rightarrow> nat \<Rightarrow> in_msg list \<Rightarrow> nat \<times> in_msg list" where
  "more_lines alloc b prev it e msgs =
     (if it < e then
        if b ! it = 0x0A then more_lines alloc b (it + 1) (it + 1) e (msgs @ [AllocInMsg alloc b prev it])
        else more_lines alloc b prev (it + 1) e msgs
      else (prev, msgs))"
  by auto
termination by (relation "measure (\<lambda>(alloc, b, prev, it, e, msgs). e - it)") auto

declare first_line.simps [simp del] more_lines.simps [simp del]

text \<open>
  \<open>first_msg->data[bytes_length] = 0\<close>: when \<open>msgs\<close> was empty, the first message is the one that
  took over the buffer \<open>b\<close>, from which the rest is copied afterwards.
\<close>

definition end_first :: "bool \<Rightarrow> u8 list \<Rightarrow> in_msg list \<Rightarrow> (u8 list \<times> in_msg list) cxx" where
  "end_first own b msgs =
     (case msgs of
        [] \<Rightarrow> None
      | m # ms \<Rightarrow> (case im_data m of
          None \<Rightarrow> None
        | Some x \<Rightarrow>
            if im_bytes_length m < length x
            then let x' = x[im_bytes_length m := 0]
                 in Some (if own then x' else b, m\<lparr>im_data := Some x'\<rparr> # ms)
            else None))"

definition Line_Feed :: "allocator \<Rightarrow> line_decoder \<Rightarrow> nat \<Rightarrow> in_msg list \<Rightarrow> (int \<times> line_decoder \<times> in_msg list) cxx" where
  "Line_Feed alloc d len msgs =
     (case ld_buffer d of
        None \<Rightarrow> None
      | Some b \<Rightarrow>
          let e = ld_data_length d + len in
          if length b < e then None
          else
            let (prev, it, msgs1) = first_line b 0 (ld_data_length d) e msgs;
                (prev', msgs2) = more_lines alloc b prev it e msgs1
            in if prev' < e then
                 if prev' = 0
                 then Some (if ld_max_length d \<le> e then -1 else 0, d\<lparr>ld_data_length := e\<rparr>, msgs2)
                 else (case end_first (msgs = []) b msgs2 of
                     None \<Rightarrow> None
                   | Some (b', msgs3) \<Rightarrow>
                       let (ret, d') = PrepareBuffer alloc (d\<lparr>ld_buffer := None, ld_data_length := 0\<rparr>) in
                       if ret \<noteq> 0 then Some (ret, d', msgs3)
                       else Some (0, d'\<lparr>ld_data_length := e - prev',
                              ld_buffer := map_option (\<lambda>nb. overwrite nb 0 (take (e - prev') (drop prev' b'))) (ld_buffer d')\<rparr>,
                              msgs3))
               else Some (0, d\<lparr>ld_buffer := None, ld_data_length := 0\<rparr>, msgs2))"

definition Line_read :: "allocator \<Rightarrow> u8 list \<Rightarrow> line_decoder \<Rightarrow> (int + in_msg list \<times> line_decoder) cxx" where
  "Line_read alloc = TcpConn_read (Line_GetBuffer alloc)
     (\<lambda>off c d. map_option (\<lambda>b. d\<lparr>ld_buffer := Some b\<rparr>) (recv_into (ld_buffer d) off c))
     (\<lambda>d len. Line_Feed alloc d len [])"

subsection \<open>What the first line decoder reports\<close>

text \<open>The lines of a byte sequence, with their line feeds, and the bytes behind the last one.\<close>

fun cons_line :: "u8 \<Rightarrow> u8 list list \<times> u8 list \<Rightarrow> u8 list list \<times> u8 list" where
  "cons_line x (l # ls, r) = ((x # l) # ls, r)"
| "cons_line x ([], r) = ([], x # r)"

primrec lines_of :: "u8 list \<Rightarrow> u8 list list \<times> u8 list" where
  "lines_of [] = ([], [])"
| "lines_of (x # xs) = (if x = 0x0A then (let (ls, r) = lines_of xs in ([x] # ls, r)) else cons_line x (lines_of xs))"

lemma lines_of_no_lf: "0x0A \<notin> set xs \<Longrightarrow> lines_of xs = ([], xs)"
  by (induction xs) auto

lemma lines_of_lf: "0x0A \<notin> set xs \<Longrightarrow> lines_of (xs @ 0x0A # ys) = ((xs @ [0x0A]) # fst (lines_of ys), snd (lines_of ys))"
  by (induction xs) (auto split: prod.split)

lemma lines_of_rest_no_lf: "0x0A \<notin> set (snd (lines_of xs))"
proof (induction xs)
  case (Cons x xs)
  then show ?case by (cases "lines_of xs"; cases "fst (lines_of xs)") auto
qed simp

lemma lines_of_append: "lines_of (xs @ ys) =
    (fst (lines_of xs) @ fst (lines_of (snd (lines_of xs) @ ys)), snd (lines_of (snd (lines_of xs) @ ys)))"
proof (induction xs)
  case (Cons x xs)
  show ?case
  proof (cases "lines_of xs")
    case (Pair ls r)
    with Cons show ?thesis by (cases ls) (auto simp: lines_of_no_lf split: prod.split)
  qed
qed simp

lemma lines_of_concat: "concat (fst (lines_of xs)) @ snd (lines_of xs) = xs"
proof (induction xs)
  case (Cons x xs)
  then show ?case by (cases "lines_of xs"; cases "fst (lines_of xs)") auto
qed simp

text \<open>The loops find the lines of the cells between \<open>prev\<close> and \<open>e\<close>.\<close>

abbreviation cells :: "'a list \<Rightarrow> nat \<Rightarrow> nat \<Rightarrow> 'a list" where
  "cells b i e \<equiv> take (e - i) (drop i b)"

lemma cells_snoc: "i \<le> j \<Longrightarrow> j < length b \<Longrightarrow> cells b i (Suc j) = cells b i j @ [b ! j]"
  by (simp add: Suc_diff_le take_Suc_conv_app_nth)

lemma cells_split: "i \<le> j \<Longrightarrow> j \<le> e \<Longrightarrow> cells b i e = cells b i j @ cells b j e"
proof -
  assume "i \<le> j" "j \<le> e"
  then have e: "e - i = (j - i) + (e - j)" and j: "(j - i) + i = j" by auto
  show ?thesis unfolding e take_add drop_drop j ..
qed

lemma im_bytes_Alloc:
  assumes "alloc_ok alloc" and "start \<le> e" and "e < length b"
  shows "im_bytes (AllocInMsg alloc b start e) = cells b start (Suc e)"
proof -
  let ?bs = "take (e - start + 1) (drop start b)"
  obtain m where m: "alloc (e - start + 1 + 1) = Some m" "length m = e - start + 1 + 1"
    using assms(1) unfolding alloc_ok_def by blast
  have l: "length ?bs = e - start + 1" using assms by simp
  have "take (e - start + 1) (overwrite m 0 (?bs @ [0])) = ?bs"
    using l by (simp add: overwrite_def)
  then show ?thesis using m(1) assms(2) by (simp add: AllocInMsg_def im_bytes_def Let_def Suc_diff_le)
qed

lemma more_lines_ok:
  "alloc_ok alloc \<Longrightarrow> e \<le> length b \<Longrightarrow> prev \<le> it \<Longrightarrow> it \<le> e \<Longrightarrow> 0x0A \<notin> set (cells b prev it) \<Longrightarrow>
    \<exists>p' ms. more_lines alloc b prev it e msgs = (p', msgs @ ms) \<and> prev \<le> p' \<and> p' \<le> e \<and>
      map im_bytes ms = fst (lines_of (cells b prev e)) \<and> cells b p' e = snd (lines_of (cells b prev e)) \<and>
      (ms = [] \<longleftrightarrow> p' = prev)"
proof (induction alloc b prev it e msgs rule: more_lines.induct)
  case (1 alloc b prev it e msgs)
  consider "\<not> it < e" | "it < e" "b ! it \<noteq> 0x0A" | "it < e" "b ! it = 0x0A" by blast
  then show ?case
  proof cases
    assume "\<not> it < e"
    with "1.prems" show ?thesis by (subst more_lines.simps) (simp add: lines_of_no_lf)
  next
    assume it: "it < e" "b ! it \<noteq> 0x0A"
    then have "0x0A \<notin> set (cells b prev (it + 1))" using "1.prems" by (auto simp: cells_snoc)
    with it "1.prems" "1.IH"(2) [OF it] show ?thesis by (subst more_lines.simps) simp
  next
    assume it: "it < e" "b ! it = 0x0A"
    let ?m = "AllocInMsg alloc b prev it"
    have "set (cells b (it + 1) (it + 1)) = {}" by simp
    then obtain p' ms where IH: "more_lines alloc b (it + 1) (it + 1) e (msgs @ [?m]) = (p', (msgs @ [?m]) @ ms)"
      "it + 1 \<le> p'" "p' \<le> e" "map im_bytes ms = fst (lines_of (cells b (it + 1) e))"
      "cells b p' e = snd (lines_of (cells b (it + 1) e))"
      using "1.IH"(1) [OF it] "1.prems" it(1) by auto
    have "cells b prev e = cells b prev it @ 0x0A # cells b (it + 1) e"
      using cells_split [of prev "it + 1" e b] cells_snoc [of prev it b] it "1.prems" by simp
    then have "lines_of (cells b prev e) = ((cells b prev it @ [0x0A]) # fst (lines_of (cells b (it + 1) e)), snd (lines_of (cells b (it + 1) e)))"
      using "1.prems"(5) by (simp add: lines_of_lf)
    moreover have "im_bytes ?m = cells b prev it @ [0x0A]"
      using im_bytes_Alloc [of alloc prev it b] cells_snoc [of prev it b] it "1.prems" by simp
    ultimately have "more_lines alloc b prev it e msgs = (p', msgs @ ?m # ms) \<and> prev \<le> p' \<and> p' \<le> e \<and>
      map im_bytes (?m # ms) = fst (lines_of (cells b prev e)) \<and> cells b p' e = snd (lines_of (cells b prev e)) \<and>
      (?m # ms = [] \<longleftrightarrow> p' = prev)"
      using IH it "1.prems" by (subst more_lines.simps) simp
    then show ?thesis by blast
  qed
qed

lemma first_line_none: "0x0A \<notin> set (cells b it e) \<Longrightarrow> e \<le> length b \<Longrightarrow> it \<le> e \<Longrightarrow> first_line b prev it e msgs = (prev, e, msgs)"
proof (induction b prev it e msgs rule: first_line.induct)
  case (1 b prev it e msgs)
  show ?case
  proof (cases "it < e")
    case True
    then have "cells b it e = b ! it # cells b (it + 1) e"
      using cells_split [of it "it + 1" e b] cells_snoc [of it it b] "1.prems"(2) by simp
    then have lf: "b ! it \<noteq> 0x0A" "0x0A \<notin> set (cells b (it + 1) e)" using "1.prems"(1) by auto
    show ?thesis using "1.IH" [OF True lf(1) lf(2)] True lf(1) "1.prems" by (subst first_line.simps) simp
  qed (use "1.prems" in \<open>subst first_line.simps, simp\<close>)
qed

lemma first_line_lf: "cells b it e = xs @ 0x0A # ys \<Longrightarrow> 0x0A \<notin> set xs \<Longrightarrow> e \<le> length b \<Longrightarrow>
    first_line b prev it e msgs = (it + length xs + 1, it + length xs + 1, msgs @ [FillInMsg b prev (it + length xs)])"
proof (induction b prev it e msgs arbitrary: xs rule: first_line.induct)
  case (1 b prev it e msgs)
  have it: "it < e" using "1.prems"(1) by (cases "it < e") auto
  then have c: "cells b it e = b ! it # cells b (it + 1) e"
    using cells_split [of it "it + 1" e b] cells_snoc [of it it b] "1.prems"(3) by simp
  show ?case
  proof (cases xs)
    case Nil
    then show ?thesis using c it "1.prems"(1) by (subst first_line.simps) simp
  next
    case (Cons x zs)
    then have x: "b ! it \<noteq> 0x0A" "cells b (it + 1) e = zs @ 0x0A # ys" using c "1.prems"(1,2) by auto
    show ?thesis using "1.IH" [OF it x(1) x(2)] x(1) it Cons "1.prems"(2,3) by (subst first_line.simps) simp
  qed
qed

definition line_inv :: "nat \<Rightarrow> line_decoder \<Rightarrow> bool" where
  "line_inv M d \<longleftrightarrow> ld_max_length d = M \<and> ld_data_length d < M \<and>
     (case ld_buffer d of None \<Rightarrow> ld_data_length d = 0
      | Some b \<Rightarrow> length b = M + 1 \<and> 0x0A \<notin> set (take (ld_data_length d) b))"

definition line_pending :: "line_decoder \<Rightarrow> u8 list" where
  "line_pending d = (case ld_buffer d of None \<Rightarrow> [] | Some b \<Rightarrow> take (ld_data_length d) b)"

text \<open>The rest that is kept: its first byte is lost when the chunk ends exactly one line.\<close>

definition kept_rest :: "u8 list \<Rightarrow> u8 list" where
  "kept_rest c = (let (ls, r) = lines_of c in if length ls = 1 \<and> r \<noteq> [] then 0 # tl r else r)"

lemma lines_of_empty_iff: "fst (lines_of xs) = [] \<longleftrightarrow> 0x0A \<notin> set xs"
proof (induction xs)
  case (Cons x xs)
  then show ?case by (cases "lines_of xs"; cases "fst (lines_of xs)") auto
qed simp

lemma kept_rest_no_lf: "0x0A \<notin> set (kept_rest c)"
  using lines_of_rest_no_lf [of c] by (cases "lines_of c"; cases "snd (lines_of c)") (auto simp: kept_rest_def)

lemma cells_update: "i \<le> k \<Longrightarrow> k < length b \<Longrightarrow> cells (b[k := v]) i e = (cells b i e)[k - i := v]"
  by (simp add: drop_update_swap take_update_swap)

lemma Line_Feed_lines:
  assumes al: "alloc_ok alloc" and d: "ld_max_length d = M" "ld_buffer d = Some b" "length b = M + 1"
    and e: "ld_data_length d + length c \<le> M" and b: "take (ld_data_length d + length c) b = q @ c"
    and q: "length q = ld_data_length d" "0x0A \<notin> set q" and lf: "0x0A \<in> set c"
  shows "\<exists>d' ms. Line_Feed alloc d (length c) [] = Some (0, d', ms) \<and> map im_bytes ms = fst (lines_of (q @ c)) \<and>
    line_inv M d' \<and> line_pending d' = kept_rest c"
proof -
  obtain xs ys where c: "c = xs @ 0x0A # ys" "0x0A \<notin> set xs" using split_list_first [OF lf] by blast
  define k where "k = length q + length xs + 1"
  let ?e = "length q + length c" and ?k = k
  have cells: "cells b (length q) ?e = c" "cells b ?k ?e = ys" "take ?k b = q @ xs @ [0x0A]"
  proof -
    have "drop (length q) (take ?e b) = c" "drop ?k (take ?e b) = ys" "take ?k (take ?e b) = q @ xs @ [0x0A]"
      using b q(1) c(1) by (simp_all add: k_def)
    then show "cells b (length q) ?e = c" "cells b ?k ?e = ys" "take ?k b = q @ xs @ [0x0A]"
      using c(1) by (simp_all add: drop_take min_def k_def)
  qed
  have le: "?e \<le> length b" "?k \<le> ?e" using e d(3) q(1) c(1) by (auto simp: k_def)
  have k0: "0 < k" "0 < M" using e c(1) by (simp_all add: k_def)
  have f: "first_line b 0 (length q) ?e [] = (?k, ?k, [FillInMsg b 0 (?k - 1)])"
    using first_line_lf [where b = b and it = "length q" and e = ?e and xs = xs and ys = ys and prev = 0 and msgs = "[]"] cells(1) c le(1) by (simp add: k_def)
  have "0x0A \<notin> set (cells b ?k ?k)" by simp
  from more_lines_ok [OF al le(1) order_refl le(2) this, of "[FillInMsg b 0 (?k - 1)]"]
  obtain p' ms where m: "more_lines alloc b ?k ?k ?e [FillInMsg b 0 (?k - 1)] = (p', FillInMsg b 0 (?k - 1) # ms)"
    "?k \<le> p'" "p' \<le> ?e" "map im_bytes ms = fst (lines_of ys)" "cells b p' ?e = snd (lines_of ys)" "ms = [] \<longleftrightarrow> p' = ?k"
    unfolding cells(2) by auto
  have ls: "lines_of (q @ c) = ((q @ xs @ [0x0A]) # fst (lines_of ys), snd (lines_of ys))"
    using lines_of_lf [of "q @ xs" ys] q(2) c by simp
  have lc: "length (fst (lines_of c)) = 1 \<longleftrightarrow> ms = []" "snd (lines_of c) = snd (lines_of ys)"
    using lines_of_lf [of xs ys] c m(4) by (auto simp flip: map_is_Nil_conv)
  have msg: "im_bytes (FillInMsg b 0 (?k - 1)) = q @ xs @ [0x0A]" using cells(3) k0 by (simp add: FillInMsg_def im_bytes_def)
  have feed: "Line_Feed alloc d (length c) [] =
     (if p' < ?e then
        (case end_first True b (FillInMsg b 0 (?k - 1) # ms) of None \<Rightarrow> None
         | Some (b', msgs3) \<Rightarrow>
             let (ret, d') = PrepareBuffer alloc (d\<lparr>ld_buffer := None, ld_data_length := 0\<rparr>) in
             if ret \<noteq> 0 then Some (ret, d', msgs3)
             else Some (0, d'\<lparr>ld_data_length := ?e - p',
                    ld_buffer := map_option (\<lambda>nb. overwrite nb 0 (cells b' p' ?e)) (ld_buffer d')\<rparr>, msgs3))
      else Some (0, d\<lparr>ld_buffer := None, ld_data_length := 0\<rparr>, FillInMsg b 0 (?k - 1) # ms))"
    using le(1) m(2) k0 unfolding Line_Feed_def Let_def q(1) [symmetric] d(2) option.case f split m(1) by simp
  show ?thesis
  proof (cases "p' < ?e")
    case False
    then have "snd (lines_of ys) = []" using m(3,5) by simp
    then have "kept_rest c = []" using lc(2) by (simp add: kept_rest_def split_beta)
    then show ?thesis using False feed m(4) ls msg d(1) k0(2) by (auto simp: line_inv_def line_pending_def)
  next
    case True
    obtain nb where nb: "alloc (M + 1) = Some nb" "length nb = M + 1" using al unfolding alloc_ok_def by blast
    have k: "?k < length b" using True m(2) le(1) by linarith
    let ?r = "cells (b[?k := 0]) p' ?e"
    let ?d = "d\<lparr>ld_buffer := Some (overwrite nb 0 ?r), ld_data_length := ?e - p'\<rparr>"
    let ?m = "(FillInMsg b 0 (?k - 1))\<lparr>im_data := Some (b[?k := 0])\<rparr>"
    have res: "Line_Feed alloc d (length c) [] = Some (0, ?d, ?m # ms)"
      using feed True k k0 d(1) nb(1) by (simp add: end_first_def FillInMsg_def PrepareBuffer_def Let_def)
    have lr: "length ?r = ?e - p'" using le(1) by simp
    have r: "?r = kept_rest c"
    proof (cases "ms = []")
      case True
      then have p: "p' = ?k" using m(6) by simp
      have "?r = (snd (lines_of ys))[0 := 0]" using cells_update [where i = k and k = k and b = b and v = 0 and e = ?e] k m(5) p by simp
      moreover have "0 < length (cells b p' ?e)" using \<open>p' < ?e\<close> le(1) by simp
      then have "snd (lines_of ys) \<noteq> []" unfolding m(5) by simp
      ultimately show ?thesis using lc True by (cases "snd (lines_of ys)") (simp_all add: kept_rest_def split_beta)
    next
      case False
      then have "?k < p'" using m(2,6) by linarith
      then have "?r = cells b p' ?e" by simp
      then show ?thesis using lc False m(5) by (simp add: kept_rest_def split_beta)
    qed
    have "im_bytes ?m = q @ xs @ [0x0A]" using cells(3) k0 by (simp add: FillInMsg_def im_bytes_def)
    moreover have "take (?e - p') (overwrite nb 0 ?r) = ?r" using lr by (simp add: overwrite_def)
    moreover have "length (overwrite nb 0 ?r) = M + 1" using lr nb(2) e q(1) by (subst length_overwrite) auto
    ultimately show ?thesis
      using res m(2,4) ls r kept_rest_no_lf [of c] d(1) e q(1) k0 by (auto simp: line_inv_def line_pending_def)
  qed
qed

text \<open>One round: the complete behaviour of the decoder on a chunk that fits into the offered buffer.\<close>

lemma Line_read_step:
  assumes al: "alloc_ok alloc" and inv: "line_inv M d" and c: "c \<noteq> []" "length (line_pending d) + length c \<le> M"
  shows "0x0A \<notin> set c \<Longrightarrow> length (line_pending d) + length c = M \<Longrightarrow> Line_read alloc c d = Some (Inl (-1))"
    and "0x0A \<notin> set c \<Longrightarrow> length (line_pending d) + length c < M \<Longrightarrow>
      \<exists>d'. Line_read alloc c d = Some (Inr ([], d')) \<and> line_inv M d' \<and> line_pending d' = line_pending d @ c"
    and "0x0A \<in> set c \<Longrightarrow> \<exists>d' ms. Line_read alloc c d = Some (Inr (ms, d')) \<and>
      map im_bytes ms = fst (lines_of (line_pending d @ c)) \<and> line_inv M d' \<and> line_pending d' = kept_rest c"
proof -
  define q where "q = line_pending d"
  obtain b where b: "snd (PrepareBuffer alloc d) = d\<lparr>ld_buffer := Some b\<rparr>" "fst (PrepareBuffer alloc d) = 0"
    "length b = M + 1" "take (ld_data_length d) b = q" "ld_data_length d = length q"
  proof (cases "ld_buffer d")
    case None
    obtain nb where "alloc (M + 1) = Some nb" "length nb = M + 1" using al unfolding alloc_ok_def by blast
    with None inv that [of nb] show ?thesis by (auto simp: PrepareBuffer_def line_inv_def line_pending_def q_def)
  next
    case (Some x)
    then have "d\<lparr>ld_buffer := Some x\<rparr> = d" by (cases d) simp
    then have "snd (PrepareBuffer alloc d) = d\<lparr>ld_buffer := Some x\<rparr>" using Some by (simp add: PrepareBuffer_def)
    moreover have "length x = M + 1" "take (ld_data_length d) x = q" "ld_data_length d = length q"
      using inv Some by (simp_all add: line_inv_def line_pending_def q_def)
    ultimately show ?thesis using that [of x] Some by (simp add: PrepareBuffer_def)
  qed
  let ?b = "overwrite b (length q) c" and ?e = "length q + length c"
  let ?d = "d\<lparr>ld_buffer := Some ?b\<rparr>"
  have M: "ld_max_length d = M" "length q < M" "0x0A \<notin> set q"
    using inv b(5) by (auto simp: line_inv_def q_def line_pending_def split: option.splits)
  have bl: "length ?b = M + 1" and bt: "take ?e ?b = q @ c" using b c(2) by (simp_all add: q_def [symmetric])
  have fit: "\<not> M - length q < length c" "length q + length c \<le> M" using c(2) by (simp_all add: q_def)
  have "PrepareBuffer alloc d = (0, d\<lparr>ld_buffer := Some b\<rparr>)" using b(1,2) by (cases "PrepareBuffer alloc d") simp
  then have get: "Line_GetBuffer alloc d = (0, Some (length q, M - length q), d\<lparr>ld_buffer := Some b\<rparr>)"
    using M(1,2) b(5) by (simp add: Line_GetBuffer_def)
  have read: "Line_read alloc c d = map_option (\<lambda>(ret, d2, msgs). if ret < 0 then Inl (-1) else Inr (msgs, d2))
      (Line_Feed alloc ?d (length c) [])"
    unfolding Line_read_def
    by (rule TcpConn_read_fits [where get = "Line_GetBuffer alloc" and d = d, OF get c(1)]) (use fit b(3) in \<open>auto simp: recv_into_def\<close>)
  {
    assume lf: "0x0A \<notin> set c"
    have "drop (length q) (take ?e ?b) = c" using bt by simp
    then have "cells ?b (length q) ?e = c" by (simp add: drop_take)
    then have f: "first_line ?b 0 (length q) ?e [] = (0, ?e, [])"
      using first_line_none [where b = ?b and it = "length q" and e = ?e] lf bl c(2) by (simp add: q_def [symmetric])
    have m: "more_lines alloc ?b 0 ?e ?e [] = (0, [])" by (subst more_lines.simps) simp
    have "Line_Feed alloc ?d (length c) [] = Some (if M \<le> ?e then -1 else 0, ?d\<lparr>ld_data_length := ?e\<rparr>, [])"
      using c(1,2) b(5) bl M(1) unfolding q_def [symmetric] by (simp add: Line_Feed_def f m)
    then have r: "Line_read alloc c d = Some (if M \<le> ?e then Inl (-1) else Inr ([], ?d\<lparr>ld_data_length := ?e\<rparr>))"
      unfolding read by simp
    then show "length (line_pending d) + length c = M \<Longrightarrow> Line_read alloc c d = Some (Inl (-1))" by (simp add: q_def [symmetric])
    assume "length (line_pending d) + length c < M"
    then show "\<exists>d'. Line_read alloc c d = Some (Inr ([], d')) \<and> line_inv M d' \<and> line_pending d' = line_pending d @ c"
      using r bl bt M lf unfolding q_def [symmetric] by (simp add: line_inv_def line_pending_def)
  }
  assume lf: "0x0A \<in> set c"
  have "ld_data_length ?d = length q" using b(5) by simp
  with Line_Feed_lines [of alloc ?d M ?b c q, OF al _ _ bl _ _ _ M(3) lf] M(1) bt c(2)
  show "\<exists>d' ms. Line_read alloc c d = Some (Inr (ms, d')) \<and>
      map im_bytes ms = fst (lines_of (line_pending d @ c)) \<and> line_inv M d' \<and> line_pending d' = kept_rest c"
    unfolding read q_def [symmetric] by auto
qed

text \<open>Chunks after which no byte is lost and the line is not too long.\<close>

definition line_fine :: "nat \<Rightarrow> u8 list \<Rightarrow> u8 list \<Rightarrow> bool" where
  "line_fine M q c \<longleftrightarrow> c \<noteq> [] \<and> (if 0x0A \<in> set c
     then length q + length c \<le> M \<and> (length (fst (lines_of c)) \<noteq> 1 \<or> snd (lines_of c) = [])
     else length q + length c < M)"

definition line_feed :: "allocator \<Rightarrow> u8 list \<Rightarrow> line_decoder \<Rightarrow> (u8 list list \<times> line_decoder) option" where
  "line_feed alloc c d = (case Line_read alloc c d of
     Some (Inr (ms, d')) \<Rightarrow> Some (map im_bytes ms, d') | _ \<Rightarrow> None)"

interpretation lines1: stream_decoder "\<lambda>d. alloc_ok alloc \<and> line_inv M d" line_pending "line_feed alloc" "line_fine M" lines_of
  for alloc :: allocator and M :: nat
proof (rule stream_decoder.intro)
  fix xs ys :: "u8 list"
  show "lines_of (xs @ ys) = (fst (lines_of xs) @ fst (lines_of (snd (lines_of xs) @ ys)), snd (lines_of (snd (lines_of xs) @ ys)))"
    by (rule lines_of_append)
next
  fix d :: line_decoder
  assume d: "alloc_ok alloc \<and> line_inv M d"
  then have lf: "0x0A \<notin> set (line_pending d)" by (auto simp: line_inv_def line_pending_def split: option.splits)
  then show "lines_of (line_pending d) = ([], line_pending d)" by (rule lines_of_no_lf)
  fix c
  assume f: "line_fine M (line_pending d) c"
  show "\<exists>d'. line_feed alloc c d = Some (fst (lines_of (line_pending d @ c)), d') \<and>
      line_pending d' = snd (lines_of (line_pending d @ c)) \<and> alloc_ok alloc \<and> line_inv M d'"
  proof (cases "0x0A \<in> set c")
    case True
    then obtain xs ys where c: "c = xs @ 0x0A # ys" "0x0A \<notin> set xs" using split_list_first by metis
    have "kept_rest c = snd (lines_of c)" using f True by (auto simp: kept_rest_def line_fine_def split_beta)
    also have "\<dots> = snd (lines_of (line_pending d @ c))"
      using lines_of_lf [of "line_pending d @ xs" ys] lines_of_lf [of xs ys] lf c by simp
    finally show ?thesis using Line_read_step(3) [of alloc M d c] d f True by (auto simp: line_fine_def line_feed_def)
  next
    case False
    then show ?thesis using Line_read_step(2) [of alloc M d c] d f lf lines_of_no_lf [of "line_pending d @ c"]
      by (auto simp: line_fine_def line_feed_def)
  qed
qed

text \<open>
  C31. Line decoder of blitz: whatever the chunks in which a stream arrives, as long as they fit into
  the buffer, no line exceeds it and no chunk ends exactly one line and carries bytes of the next,
  the messages reported are the lines of the stream and the decoder keeps the bytes behind the last
  line feed.
\<close>

theorem LineMsgDecoder_reports_lines:
  assumes "alloc_ok alloc" and "LineMsgDecoder M = Some d" and "all_fine lines_of (line_fine M) cs []"
  shows "\<exists>d'. run_feed (line_feed alloc) cs d = Some (fst (lines_of (concat cs)), d') \<and>
    line_pending d' = snd (lines_of (concat cs))"
proof -
  have "line_inv M d" "line_pending d = []" using assms(2)
    by (auto simp: LineMsgDecoder_def line_inv_def line_pending_def split: if_splits)
  then show ?thesis using lines1.run_feed_frames [of alloc M d cs] assms(1,3) by auto
qed

definition zero_alloc :: allocator where
  "zero_alloc n = Some (replicate n 0)"

lemma zero_alloc_ok: "alloc_ok zero_alloc"
  by (simp add: alloc_ok_def zero_alloc_def)

theorem LineMsgDecoder_reports_lines_witness:
  "\<exists>d d'. LineMsgDecoder 80 = Some d \<and> run_feed (line_feed zero_alloc) [[0x61], [0x62, 0x0A], [0x63, 0x0A, 0x64, 0x0A, 0x65]] d =
     Some ([[0x61, 0x62, 0x0A], [0x63, 0x0A], [0x64, 0x0A]], d') \<and> line_pending d' = [0x65]"
proof -
  let ?cs = "[[0x61], [0x62, 0x0A], [0x63, 0x0A, 0x64, 0x0A, 0x65]] :: u8 list list"
  obtain d where d: "LineMsgDecoder 80 = Some d" by (simp add: LineMsgDecoder_def)
  have "all_fine lines_of (line_fine 80) ?cs []" by (simp add: line_fine_def)
  from LineMsgDecoder_reports_lines [OF zero_alloc_ok d this] d show ?thesis by simp
qed

text \<open>
  Line decoder of blitz: a chunk that ends exactly one line and carries the beginning \<open>y # ys\<close> of
  the next one loses the byte \<open>y\<close>; when the rest of that line arrives, it is reported with a zero
  byte instead.
\<close>

theorem Line_Feed_loses_byte:
  assumes "alloc_ok alloc" and "line_inv M d" and "0x0A \<notin> set (xs @ y # ys @ zs)"
    and "length (line_pending d) + length (xs @ 0x0A # y # ys) \<le> M" and "length (y # ys @ zs) < M"
  shows "\<exists>d'. run_feed (line_feed alloc) [xs @ 0x0A # y # ys, zs @ [0x0A]] d =
    Some ([line_pending d @ xs @ [0x0A], 0 # ys @ zs @ [0x0A]], d')"
proof -
  have lf: "0x0A \<notin> set (line_pending d)" using assms(2) by (auto simp: line_inv_def line_pending_def split: option.splits)
  let ?c = "xs @ 0x0A # y # ys"
  have nl: "lines_of (y # ys) = ([], y # ys)" using assms(3) by (intro lines_of_no_lf) auto
  have l: "lines_of ?c = ([xs @ [0x0A]], y # ys)" "lines_of (line_pending d @ ?c) = ([line_pending d @ xs @ [0x0A]], y # ys)"
    using lines_of_lf [of xs "y # ys"] lines_of_lf [of "line_pending d @ xs" "y # ys"] lf assms(3) nl by auto
  have "0x0A \<in> set ?c" "?c \<noteq> []" by simp_all
  then obtain d1 ms where 1: "Line_read alloc ?c d = Some (Inr (ms, d1))" "map im_bytes ms = [line_pending d @ xs @ [0x0A]]"
    "line_inv M d1" "line_pending d1 = kept_rest ?c" using Line_read_step(3) [OF assms(1,2) _ assms(4)] l(2) by auto
  then have p: "line_pending d1 = 0 # ys" using l(1) by (simp add: kept_rest_def)
  have l2: "lines_of (line_pending d1 @ zs @ [0x0A]) = ([0 # ys @ zs @ [0x0A]], [])"
    using lines_of_lf [of "0 # ys @ zs" "[]"] assms(3) p by simp
  obtain d2 ns where "Line_read alloc (zs @ [0x0A]) d1 = Some (Inr (ns, d2))" "map im_bytes ns = [0 # ys @ zs @ [0x0A]]"
    using Line_read_step(3) [OF assms(1) 1(3), of "zs @ [0x0A]"] l2 p assms(5) by auto
  with 1(1,2) show ?thesis by (simp add: line_feed_def)
qed

theorem Line_Feed_loses_byte_witness:
  "\<exists>d d'. LineMsgDecoder 80 = Some d \<and> run_feed (line_feed zero_alloc) [[0x61, 0x0A, 0x62], [0x63, 0x0A]] d =
     Some ([[0x61, 0x0A], [0, 0x63, 0x0A]], d')"
proof -
  obtain d where d: "LineMsgDecoder 80 = Some d" by (simp add: LineMsgDecoder_def)
  then have "line_inv 80 d" "line_pending d = []" by (auto simp: LineMsgDecoder_def line_inv_def line_pending_def)
  then show ?thesis using Line_Feed_loses_byte [of zero_alloc 80 d "[0x61]" "0x62" "[]" "[0x63]"] zero_alloc_ok d by auto
qed

subsection \<open>Lines, second version\<close>

text \<open>\<open>ld2_buffer\<close> is the memory of the shared buffer, of \<open>capacity\<close> bytes.\<close>

record line_decoder2 =
  ld2_buffer :: "u8 list"
  ld2_max_length :: nat
  ld2_data_length :: nat

definition Line2_Init :: "allocator \<Rightarrow> nat \<Rightarrow> line_decoder2 \<Rightarrow> int \<times> line_decoder2" where
  "Line2_Init alloc max_length d =
     (case alloc max_length of
        None \<Rightarrow> (-1, d\<lparr>ld2_max_length := max_length, ld2_buffer := []\<rparr>)
      | Some b \<Rightarrow> (0, d\<lparr>ld2_max_length := max_length, ld2_buffer := b\<rparr>))"

definition Line2_GetBuffer :: "line_decoder2 \<Rightarrow> int \<times> (nat \<times> nat) option" where
  "Line2_GetBuffer d =
     (if ld2_max_length d \<le> ld2_data_length d then (-1, None)
      else (0, Some (ld2_data_length d, length (ld2_buffer d) - ld2_data_length d)))"

text \<open>The loop of \<open>Feed\<close>; a line is reported as its bytes of the shared buffer, which is not written any more.\<close>

function report_lines :: "u8 list \<Rightarrow> nat \<Rightarrow> nat \<Rightarrow> nat \<Rightarrow> u8 list list \<Rightarrow> nat \<times> u8 list list" where
  "report_lines b prev it e ls =
     (if it < e then
        if b ! it = 0x0A then report_lines b (it + 1) (it + 1) e (ls @ [take (it - prev + 1) (drop prev b)])
        else report_lines b prev (it + 1) e ls
      else (prev, ls))"
  by auto
termination by (relation "measure (\<lambda>(b, prev, it, e, ls). e - it)") auto

declare report_lines.simps [simp del]

definition Line2_Feed :: "allocator \<Rightarrow> line_decoder2 \<Rightarrow> nat \<Rightarrow> (int \<times> line_decoder2 \<times> u8 list list) cxx" where
  "Line2_Feed alloc d len =
     (let e = ld2_data_length d + len; b = ld2_buffer d in
      if length b < e then None
      else
        let (prev, ls) = report_lines b 0 (ld2_data_length d) e [] in
        if 0 < length ls then
          (case alloc (ld2_max_length d) of
             None \<Rightarrow> Some (-2, d, ls)
           | Some nb \<Rightarrow>
               if prev < e
               then Some (0, d\<lparr>ld2_data_length := e - prev, ld2_buffer := overwrite nb 0 (take (e - prev) (drop prev b))\<rparr>, ls)
               else Some (0, d\<lparr>ld2_buffer := nb\<rparr>, ls))
        else Some (if ld2_max_length d \<le> e then -1 else 0, d\<lparr>ld2_data_length := e\<rparr>, ls))"

definition Line2_read :: "allocator \<Rightarrow> u8 list \<Rightarrow> line_decoder2 \<Rightarrow> (u8 list list \<times> (int + line_decoder2)) cxx" where
  "Line2_read alloc = Channel_read (\<lambda>d. let (ret, buf) = Line2_GetBuffer d in (ret, buf, d))
     (\<lambda>off c d. map_option (\<lambda>b. d\<lparr>ld2_buffer := b\<rparr>) (recv_into (Some (ld2_buffer d)) off c)) (Line2_Feed alloc)"

definition line2_inv :: "nat \<Rightarrow> line_decoder2 \<Rightarrow> bool" where
  "line2_inv M d \<longleftrightarrow> ld2_max_length d = M \<and> ld2_data_length d < M \<and> length (ld2_buffer d) = M"

definition line2_pending :: "line_decoder2 \<Rightarrow> u8 list" where
  "line2_pending d = take (ld2_data_length d) (ld2_buffer d)"

lemma report_lines_ok:
  "e \<le> length b \<Longrightarrow> prev \<le> it \<Longrightarrow> it \<le> e \<Longrightarrow> 0x0A \<notin> set (cells b prev it) \<Longrightarrow>
    \<exists>p'. report_lines b prev it e ls = (p', ls @ fst (lines_of (cells b prev e))) \<and> prev \<le> p' \<and> p' \<le> e \<and>
      cells b p' e = snd (lines_of (cells b prev e))"
proof (induction b prev it e ls rule: report_lines.induct)
  case (1 b prev it e ls)
  consider "\<not> it < e" | "it < e" "b ! it \<noteq> 0x0A" | "it < e" "b ! it = 0x0A" by blast
  then show ?case
  proof cases
    assume "\<not> it < e"
    with "1.prems" show ?thesis by (subst report_lines.simps) (simp add: lines_of_no_lf)
  next
    assume it: "it < e" "b ! it \<noteq> 0x0A"
    then have "0x0A \<notin> set (cells b prev (it + 1))" using "1.prems" by (auto simp: cells_snoc)
    with it "1.prems" "1.IH"(2) [OF it] show ?thesis by (subst report_lines.simps) simp
  next
    assume it: "it < e" "b ! it = 0x0A"
    have "cells b prev e = cells b prev it @ 0x0A # cells b (it + 1) e"
      using cells_split [of prev "it + 1" e b] cells_snoc [of prev it b] it "1.prems" by simp
    then have "lines_of (cells b prev e) = ((cells b prev it @ [0x0A]) # fst (lines_of (cells b (it + 1) e)), snd (lines_of (cells b (it + 1) e)))"
      using "1.prems"(4) by (simp add: lines_of_lf)
    moreover have "take (it - prev + 1) (drop prev b) = cells b prev it @ [0x0A]"
      using cells_snoc [of prev it b] it "1.prems" by (simp add: Suc_diff_le)
    ultimately show ?thesis using "1.IH"(1) [OF it] "1.prems" it by (subst report_lines.simps) auto
  qed
qed

text \<open>
  One round, on every branch. When the chunk ends a line and nothing is left over, \<open>data_length_\<close>
  keeps its old value, so that as many bytes of the new, uninitialised buffer count as received.
\<close>

lemma Line2_read_step:
  assumes al: "alloc M = Some nb" "length nb = M" and inv: "line2_inv M d" and q: "line2_pending d = q" "0x0A \<notin> set q"
    and c: "c \<noteq> []" "length q + length c \<le> M"
  shows "0x0A \<notin> set c \<Longrightarrow> length q + length c = M \<Longrightarrow> Line2_read alloc c d = Some ([], Inl (-1))"
    and "0x0A \<notin> set c \<Longrightarrow> length q + length c < M \<Longrightarrow>
      \<exists>d'. Line2_read alloc c d = Some ([], Inr d') \<and> line2_inv M d' \<and> line2_pending d' = q @ c"
    and "0x0A \<in> set c \<Longrightarrow> \<exists>d'. Line2_read alloc c d = Some (fst (lines_of (q @ c)), Inr d') \<and> line2_inv M d' \<and>
      line2_pending d' = (if snd (lines_of c) = [] then take (length q) nb else snd (lines_of c))"
proof -
  let ?b = "overwrite (ld2_buffer d) (length q) c" and ?e = "length q + length c"
  let ?d = "d\<lparr>ld2_buffer := ?b\<rparr>"
  have M: "ld2_max_length d = M" "ld2_data_length d = length q" "length q < M" "length (ld2_buffer d) = M"
    using inv q(1) by (auto simp: line2_inv_def line2_pending_def)
  have bl: "length ?b = M" and bt: "take ?e ?b = q @ c" using M c(2) q(1) by (simp_all add: line2_pending_def)
  have fit: "\<not> M - length q < length c" using c(2) by simp
  have get: "(let (ret, buf) = Line2_GetBuffer d in (ret, buf, d)) = (0, Some (length q, M - length q), d)"
    using M by (simp add: Line2_GetBuffer_def)
  have read: "Line2_read alloc c d = map_option (\<lambda>(ret, d2, ls). (ls, if ret < 0 then Inl (-1) else Inr d2))
      (Line2_Feed alloc ?d (length c))"
    unfolding Line2_read_def
    by (rule Channel_read_fits [where get = "\<lambda>d. let (ret, buf) = Line2_GetBuffer d in (ret, buf, d)" and d = d, OF get c(1)])
      (use fit M c(2) in \<open>auto simp: recv_into_def\<close>)
  have "take (length q) (take ?e ?b) = q" unfolding bt by simp
  then have "cells ?b 0 (length q) = q" by simp
  then obtain p' where p: "report_lines ?b 0 (length q) ?e [] = (p', fst (lines_of (q @ c)))" "p' \<le> ?e"
      "cells ?b p' ?e = snd (lines_of (q @ c))"
    using report_lines_ok [of ?e ?b 0 "length q" "[]"] bl c(2) q(2) bt by auto
  {
    assume lf: "0x0A \<notin> set c"
    then have "fst (lines_of (q @ c)) = []" using q(2) by (simp add: lines_of_no_lf)
    then have "Line2_Feed alloc ?d (length c) = Some (if M \<le> ?e then -1 else 0, ?d\<lparr>ld2_data_length := ?e\<rparr>, [])"
      using M p(1) bl c(2) by (simp add: Line2_Feed_def)
    then have r: "Line2_read alloc c d = Some ([], if M \<le> ?e then Inl (-1) else Inr (?d\<lparr>ld2_data_length := ?e\<rparr>))"
      unfolding read by simp
    then show "?e = M \<Longrightarrow> Line2_read alloc c d = Some ([], Inl (-1))" by simp
    show "?e < M \<Longrightarrow> \<exists>d'. Line2_read alloc c d = Some ([], Inr d') \<and> line2_inv M d' \<and> line2_pending d' = q @ c"
      using r bl bt M by (simp add: line2_inv_def line2_pending_def)
  }
  assume lf: "0x0A \<in> set c"
  then obtain xs ys where xy: "c = xs @ 0x0A # ys" "0x0A \<notin> set xs" using split_list_first by metis
  have rest: "snd (lines_of (q @ c)) = snd (lines_of c)"
    using lines_of_lf [of "q @ xs" ys] lines_of_lf [of xs ys] xy q(2) by simp
  have ls: "0 < length (fst (lines_of (q @ c)))" using lf lines_of_empty_iff [of "q @ c"] by simp
  have "length (snd (lines_of c)) < length c"
    using arg_cong [OF lines_of_concat, of length c] lines_of_empty_iff [of c] lines_of_lf [of xs ys] xy by auto
  then have short: "length (snd (lines_of c)) < M" using c(2) by linarith
  have pe: "p' < ?e \<longleftrightarrow> snd (lines_of c) \<noteq> []" "?e - p' = length (snd (lines_of c))"
    using p(2,3) rest bl c(2) by (auto simp flip: p(3) rest)
  let ?d2 = "if snd (lines_of c) \<noteq> [] then ?d\<lparr>ld2_data_length := length (snd (lines_of c)), ld2_buffer := overwrite nb 0 (snd (lines_of c))\<rparr>
    else ?d\<lparr>ld2_buffer := nb\<rparr>"
  have "Line2_Feed alloc ?d (length c) = Some (0, ?d2, fst (lines_of (q @ c)))"
    using M p(1) bl c(2) ls al(1) pe p(3) rest by (simp add: Line2_Feed_def)
  then show "\<exists>d'. Line2_read alloc c d = Some (fst (lines_of (q @ c)), Inr d') \<and> line2_inv M d' \<and>
      line2_pending d' = (if snd (lines_of c) = [] then take (length q) nb else snd (lines_of c))"
    unfolding read using M al(2) short by (auto simp: line2_inv_def line2_pending_def overwrite_def)
qed

definition line2_fine :: "nat \<Rightarrow> u8 list \<Rightarrow> u8 list \<Rightarrow> bool" where
  "line2_fine M q c \<longleftrightarrow> c \<noteq> [] \<and> (if 0x0A \<in> set c
     then length q + length c \<le> M \<and> (q = [] \<or> snd (lines_of c) \<noteq> [])
     else length q + length c < M)"

definition line2_feed :: "allocator \<Rightarrow> u8 list \<Rightarrow> line_decoder2 \<Rightarrow> (u8 list list \<times> line_decoder2) option" where
  "line2_feed alloc c d = (case Line2_read alloc c d of Some (ls, Inr d') \<Rightarrow> Some (ls, d') | _ \<Rightarrow> None)"

interpretation lines2: stream_decoder "\<lambda>d. alloc_ok alloc \<and> line2_inv M d \<and> 0x0A \<notin> set (line2_pending d)" line2_pending
    "line2_feed alloc" "line2_fine M" lines_of
  for alloc :: allocator and M :: nat
proof (rule stream_decoder.intro)
  fix d :: line_decoder2
  assume d: "alloc_ok alloc \<and> line2_inv M d \<and> 0x0A \<notin> set (line2_pending d)"
  then show "lines_of (line2_pending d) = ([], line2_pending d)" by (simp add: lines_of_no_lf)
  fix c
  assume f: "line2_fine M (line2_pending d) c"
  obtain nb where nb: "alloc M = Some nb" "length nb = M" using d unfolding alloc_ok_def by blast
  note step = Line2_read_step [of alloc M nb d "line2_pending d" c, OF nb]
  show "\<exists>d'. line2_feed alloc c d = Some (fst (lines_of (line2_pending d @ c)), d') \<and>
      line2_pending d' = snd (lines_of (line2_pending d @ c)) \<and> alloc_ok alloc \<and> line2_inv M d' \<and> 0x0A \<notin> set (line2_pending d')"
  proof (cases "0x0A \<in> set c")
    case True
    then obtain xs ys where c: "c = xs @ 0x0A # ys" "0x0A \<notin> set xs" using split_list_first by metis
    have "snd (lines_of c) = snd (lines_of (line2_pending d @ c))"
      using lines_of_lf [of "line2_pending d @ xs" ys] lines_of_lf [of xs ys] d c by simp
    then show ?thesis using step(3) d f True lines_of_rest_no_lf [of c] by (auto simp: line2_fine_def line2_feed_def)
  next
    case False
    then show ?thesis using step(2) d f lines_of_no_lf [of "line2_pending d @ c"] by (auto simp: line2_fine_def line2_feed_def)
  qed
qed (rule lines_of_append)

text \<open>
  Line decoder of blitz2: the same contract holds for the second version, as long as no chunk
  ends with a line feed while bytes of an earlier chunk are pending.
\<close>

theorem LineMsgDecoder2_reports_lines:
  assumes "alloc_ok alloc" and "0 < M" and "ld2_data_length d0 = 0" and "all_fine lines_of (line2_fine M) cs []"
  shows "\<exists>d'. run_feed (line2_feed alloc) cs (snd (Line2_Init alloc M d0)) = Some (fst (lines_of (concat cs)), d') \<and>
    line2_pending d' = snd (lines_of (concat cs))"
proof -
  let ?d = "snd (Line2_Init alloc M d0)"
  obtain b where "alloc M = Some b" "length b = M" using assms(1) unfolding alloc_ok_def by blast
  then have "line2_inv M ?d" "line2_pending ?d = []" using assms(2,3) by (simp_all add: Line2_Init_def line2_inv_def line2_pending_def)
  then show ?thesis using lines2.run_feed_frames [of alloc M ?d cs] assms(1,4) by auto
qed

theorem LineMsgDecoder2_reports_lines_witness:
  "\<exists>d'. run_feed (line2_feed zero_alloc) [[0x61, 0x0A], [0x62], [0x63, 0x0A, 0x64]]
       (snd (Line2_Init zero_alloc 80 \<lparr>ld2_buffer = [], ld2_max_length = 80, ld2_data_length = 0\<rparr>)) =
     Some ([[0x61, 0x0A], [0x62, 0x63, 0x0A]], d') \<and> line2_pending d' = [0x64]"
  using LineMsgDecoder2_reports_lines [of zero_alloc 80 "\<lparr>ld2_buffer = [], ld2_max_length = 80, ld2_data_length = 0\<rparr>"
    "[[0x61, 0x0A], [0x62], [0x63, 0x0A, 0x64]]"] zero_alloc_ok
  by (simp add: line2_fine_def)

text \<open>
  Line decoder of blitz2: when a line that arrived in two pieces ends its chunk, the length of
  the first piece is not reset; the next line is reported with as many uninitialised bytes in front.
\<close>

theorem Line2_Feed_reports_junk:
  assumes "alloc M = Some nb" "length nb = M" and "line2_inv M d" and "0x0A \<notin> set (line2_pending d @ xs @ ys)"
    and "length (line2_pending d) + length xs < M" "length (line2_pending d) + length ys < M"
    and "0x0A \<notin> set (take (length (line2_pending d)) nb)"
  shows "\<exists>d'. run_feed (line2_feed alloc) [xs @ [0x0A], ys @ [0x0A]] d =
    Some ([line2_pending d @ xs @ [0x0A], take (length (line2_pending d)) nb @ ys @ [0x0A]], d')"
proof -
  let ?q = "line2_pending d"
  let ?j = "take (length ?q) nb"
  have lf: "0x0A \<notin> set ?q" using assms(4) by simp
  have l: "lines_of (xs @ [0x0A]) = ([xs @ [0x0A]], [])" "lines_of (?q @ xs @ [0x0A]) = ([?q @ xs @ [0x0A]], [])"
    "lines_of (?j @ ys @ [0x0A]) = ([?j @ ys @ [0x0A]], [])"
    using lines_of_lf [of xs "[]"] lines_of_lf [of "?q @ xs" "[]"] lines_of_lf [of "?j @ ys" "[]"] assms(4,7) by simp_all
  obtain d1 where 1: "Line2_read alloc (xs @ [0x0A]) d = Some ([?q @ xs @ [0x0A]], Inr d1)" "line2_inv M d1"
    "line2_pending d1 = ?j" using Line2_read_step(3) [of alloc M nb d ?q "xs @ [0x0A]", OF assms(1-3) refl lf] assms(5) l by auto
  have "length ?j = length ?q" using assms(2,5) by simp
  then obtain d2 where "Line2_read alloc (ys @ [0x0A]) d1 = Some ([?j @ ys @ [0x0A]], Inr d2)"
    using Line2_read_step(3) [of alloc M nb d1 ?j "ys @ [0x0A]", OF assms(1,2) 1(2,3) assms(7)] assms(6) l(3) by auto
  with 1(1) show ?thesis by (simp add: line2_feed_def)
qed

theorem Line2_Feed_reports_junk_witness:
  "\<exists>d d'. run_feed (line2_feed zero_alloc) [[0x62, 0x0A], [0x63, 0x0A]] d = Some ([[0x61, 0x62, 0x0A], [0, 0x63, 0x0A]], d') \<and>
     line2_pending d = [0x61]"
proof -
  let ?d = "\<lparr>ld2_buffer = 0x61 # replicate 79 0, ld2_max_length = 80, ld2_data_length = 1\<rparr>"
  have "line2_pending ?d = [0x61]" "line2_inv 80 ?d" by (simp_all add: line2_pending_def line2_inv_def)
  moreover have "take 1 (replicate 80 0) = [0 :: u8]" by simp
  ultimately show ?thesis
    using Line2_Feed_reports_junk [of zero_alloc 80 "replicate 80 0" ?d "[0x62]" "[0x63]"] by (auto simp: zero_alloc_def)
qed

end
