(* ===== verification/Fix_Head_Msg.thy ===== *)
theory Fix_Head_Msg
  imports Msg_Decoder
begin

text \<open>
  Messages with a head of fixed length from which the length of the body is computed:
  \<open>libsrc/blitz/src/fix_head_msg.cc\<close>, its second version \<open>libsrc/blitz2/include/blitz2/fix_head_msg.h\<close>,
  and the framed Thrift messages of \<open>libsrc/blitz/include/blitz/thrift_msg.h\<close> that use them.

  Lengths are \<open>uint32_t\<close>: they are natural numbers, and the additions that can wrap around are
  reduced. The user's function that computes the length of the body from the head is an argument;
  \<open>None\<close> is a result other than 0.
\<close>

type_synonym body_len = "u8 list \<Rightarrow> nat option"

subsection \<open>The first version\<close>

record fix_head =
  fh_head_len :: nat
  fh_buffer :: "u8 list option"
  fh_buffer_len :: nat
  fh_data_len :: nat
  fh_msg_len :: nat

definition FixHeadMsgDecoder :: "nat \<Rightarrow> fix_head" where
  "FixHeadMsgDecoder head_len =
     \<lparr>fh_head_len = head_len, fh_buffer = None, fh_buffer_len = 0, fh_data_len = 0, fh_msg_len = 0\<rparr>"

definition FixHead_GetBuffer :: "allocator \<Rightarrow> fix_head \<Rightarrow> int \<times> (nat \<times> nat) option \<times> fix_head" where
  "FixHead_GetBuffer alloc d =
     (let d1 = (case fh_buffer d of None \<Rightarrow> d\<lparr>fh_buffer := alloc 1024, fh_buffer_len := 1024\<rparr> | Some _ \<Rightarrow> d) in
      if fh_data_len d1 < fh_head_len d1 then (0, Some (fh_data_len d1, fh_head_len d1 - fh_data_len d1), d1)
      else if fh_data_len d1 < fh_msg_len d1 then (0, Some (fh_data_len d1, fh_msg_len d1 - fh_data_len d1), d1)
      else (-1, None, d1))"

definition FixHead_head :: "allocator \<Rightarrow> body_len \<Rightarrow> fix_head \<Rightarrow> (int \<times> fix_head) cxx" where
  "FixHead_head alloc fn d =
     (case fh_buffer d of
        None \<Rightarrow> None
      | Some b \<Rightarrow> (case fn b of
          None \<Rightarrow> Some (-1, d)
        | Some body_len \<Rightarrow>
            let m = (body_len + fh_head_len d) mod 2 ^ 32; d' = d\<lparr>fh_msg_len := m\<rparr> in
            if 256 * 1024 * 1024 < m then Some (-2, d')
            else if fh_buffer_len d < m then
              (case alloc m of
                 None \<Rightarrow> None
               | Some nb \<Rightarrow>
                   if fh_head_len d \<le> length b \<and> fh_head_len d \<le> m
                   then Some (0, d'\<lparr>fh_buffer := Some (overwrite nb 0 (take (fh_head_len d) b)), fh_buffer_len := m\<rparr>)
                   else None)
            else Some (0, d')))"

definition FixHead_Feed :: "allocator \<Rightarrow> body_len \<Rightarrow> fix_head \<Rightarrow> nat \<Rightarrow> in_msg list \<Rightarrow> (int \<times> fix_head \<times> in_msg list) cxx" where
  "FixHead_Feed alloc fn d len msgs =
     (if len = 0 then Some (1, d, msgs)
      else
        let d1 = d\<lparr>fh_data_len := (fh_data_len d + len) mod 2 ^ 32\<rparr> in
        case (if fh_data_len d1 = fh_head_len d1 then FixHead_head alloc fn d1 else Some (0, d1)) of
          None \<Rightarrow> None
        | Some (ret, d2) \<Rightarrow>
            if ret \<noteq> 0 then Some (ret, d2, msgs)
            else if fh_data_len d2 = fh_msg_len d2
            then Some (0, d2\<lparr>fh_buffer := None, fh_buffer_len := 0, fh_data_len := 0, fh_msg_len := 0\<rparr>,
                   msgs @ [\<lparr>im_data = fh_buffer d2, im_bytes_length = fh_msg_len d2\<rparr>])
            else if fh_msg_len d2 < fh_data_len d2 then Some (-3, d2, msgs)
            else Some (1, d2, msgs))"

definition FixHead_read :: "allocator \<Rightarrow> body_len \<Rightarrow> u8 list \<Rightarrow> fix_head \<Rightarrow> (int + in_msg list \<times> fix_head) cxx" where
  "FixHead_read alloc fn = TcpConn_read (FixHead_GetBuffer alloc)
     (\<lambda>off c d. map_option (\<lambda>b. d\<lparr>fh_buffer := Some b\<rparr>) (recv_into (fh_buffer d) off c))
     (\<lambda>d len. FixHead_Feed alloc fn d len [])"

subsection \<open>The messages of a stream\<close>

function head_frames :: "nat \<Rightarrow> body_len \<Rightarrow> u8 list \<Rightarrow> u8 list list \<times> u8 list" where
  "head_frames hl fn bs =
     (if 0 < hl \<and> hl \<le> length bs
      then (case fn (take hl bs) of
          None \<Rightarrow> ([], bs)
        | Some n \<Rightarrow> if hl + n \<le> length bs
            then (let (ms, r) = head_frames hl fn (drop (hl + n) bs) in (take (hl + n) bs # ms, r))
            else ([], bs))
      else ([], bs))"
  by auto
termination by (relation "measure (\<lambda>(hl, fn, bs). length bs)") auto

declare head_frames.simps [simp del]

lemma head_frames_append:
  "head_frames hl fn (xs @ ys) = (fst (head_frames hl fn xs) @ fst (head_frames hl fn (snd (head_frames hl fn xs) @ ys)),
     snd (head_frames hl fn (snd (head_frames hl fn xs) @ ys)))"
proof (induction hl fn xs rule: head_frames.induct)
  case (1 hl fn xs)
  show ?case
  proof (cases "0 < hl \<and> hl \<le> length xs \<and> (\<exists>n. fn (take hl xs) = Some n \<and> hl + n \<le> length xs)")
    case False
    then have "head_frames hl fn xs = ([], xs)" by (subst head_frames.simps) (auto split: option.splits)
    then show ?thesis by simp
  next
    case True
    then obtain n where n: "0 < hl \<and> hl \<le> length xs" "fn (take hl xs) = Some n" "hl + n \<le> length xs" by blast
    let ?t = "take (hl + n) xs" and ?d = "drop (hl + n) xs"
    have x: "head_frames hl fn xs = (?t # fst (head_frames hl fn ?d), snd (head_frames hl fn ?d))"
      using n by (subst head_frames.simps) (simp add: split_beta)
    have "head_frames hl fn (xs @ ys) = (?t # fst (head_frames hl fn (?d @ ys)), snd (head_frames hl fn (?d @ ys)))"
      using n by (subst head_frames.simps) (simp add: split_beta)
    also have "\<dots> = (fst (head_frames hl fn xs) @ fst (head_frames hl fn (snd (head_frames hl fn xs) @ ys)),
       snd (head_frames hl fn (snd (head_frames hl fn xs) @ ys)))"
      unfolding "1.IH" [OF n(1,2,3)] x by simp
    finally show ?thesis .
  qed
qed

lemma head_frames_part:
  "bs = [] \<or> fn (take hl bs) = Some n \<and> length bs < hl + n \<Longrightarrow> head_frames hl fn bs = ([], bs)"
  by (subst head_frames.simps) auto

lemma head_frames_whole:
  "0 < hl \<Longrightarrow> fn (take hl bs) = Some n \<Longrightarrow> length bs = hl + n \<Longrightarrow> head_frames hl fn bs = ([bs], [])"
  by (subst head_frames.simps) (simp add: head_frames_part)

text \<open>The length of the body depends on the head only.\<close>

definition head_only :: "nat \<Rightarrow> body_len \<Rightarrow> bool" where
  "head_only hl fn \<longleftrightarrow> (\<forall>b. hl \<le> length b \<longrightarrow> fn b = fn (take hl b))"

text \<open>Chunks such that a head arrives as a whole, no message exceeds \<open>M\<close> bytes and no chunk the message.\<close>

definition head_fine :: "nat \<Rightarrow> body_len \<Rightarrow> nat \<Rightarrow> u8 list \<Rightarrow> u8 list \<Rightarrow> bool" where
  "head_fine hl fn M p c \<longleftrightarrow> c \<noteq> [] \<and>
     (case fn (take hl (p @ c)) of None \<Rightarrow> False
      | Some n \<Rightarrow> hl + n \<le> M \<and> (if p = [] then length c = hl else length p + length c \<le> hl + n))"

subsection \<open>What the first version reports\<close>

abbreviation (input) max_msg :: nat where
  "max_msg \<equiv> 256 * 1024 * 1024"

definition fh_pending :: "fix_head \<Rightarrow> u8 list" where
  "fh_pending d = (case fh_buffer d of None \<Rightarrow> [] | Some b \<Rightarrow> take (fh_data_len d) b)"

definition fh_inv :: "nat \<Rightarrow> body_len \<Rightarrow> fix_head \<Rightarrow> bool" where
  "fh_inv hl fn d \<longleftrightarrow> fh_head_len d = hl \<and> 0 < hl \<and> hl \<le> 1024 \<and>
     (if fh_data_len d = 0 then fh_msg_len d = 0 \<and> (case fh_buffer d of None \<Rightarrow> True | Some b \<Rightarrow> length b = fh_buffer_len d \<and> 1024 \<le> length b)
      else \<exists>b n. fh_buffer d = Some b \<and> length b = fh_buffer_len d \<and> fn (take hl b) = Some n \<and> fh_msg_len d = hl + n \<and>
        hl \<le> fh_data_len d \<and> fh_data_len d < hl + n \<and> hl + n \<le> max_msg \<and> hl + n \<le> length b)"

lemma FixHead_read_head:
  assumes al: "alloc_ok alloc" and fn: "head_only hl fn" and inv: "fh_inv hl fn d" and p: "fh_data_len d = 0"
    and c: "length c = hl" "fn c = Some n" "hl + n \<le> max_msg"
  shows "\<exists>d' ms. FixHead_read alloc fn c d = Some (Inr (ms, d')) \<and> map im_bytes ms = fst (head_frames hl fn c) \<and>
    fh_pending d' = snd (head_frames hl fn c) \<and> fh_inv hl fn d'"
proof -
  have hl: "fh_head_len d = hl" "0 < hl" "hl \<le> 1024" "fh_msg_len d = 0" using inv p by (auto simp: fh_inv_def)
  obtain b d1 where d1: "FixHead_GetBuffer alloc d = (0, Some (0, hl), d1)" "fh_buffer d1 = Some b" "1024 \<le> length b"
    "fh_buffer_len d1 = length b" "fh_head_len d1 = hl" "fh_data_len d1 = 0" "fh_msg_len d1 = 0"
  proof (cases "fh_buffer d")
    case None
    obtain nb where "alloc 1024 = Some nb" "length nb = 1024" using al unfolding alloc_ok_def by blast
    note nb = this
    then have "FixHead_GetBuffer alloc d = (0, Some (0, hl), d\<lparr>fh_buffer := Some nb, fh_buffer_len := 1024\<rparr>)"
      using None hl p by (simp add: FixHead_GetBuffer_def)
    then show ?thesis by (rule that [where b = nb]) (use hl p nb(2) in simp_all)
  next
    case (Some b)
    then have "FixHead_GetBuffer alloc d = (0, Some (0, hl), d)" using hl p by (simp add: FixHead_GetBuffer_def)
    then show ?thesis by (rule that [where b = b]) (use Some inv hl p in \<open>simp_all add: fh_inv_def\<close>)
  qed
  let ?b = "overwrite b 0 c"
  let ?d2 = "d1\<lparr>fh_buffer := Some ?b\<rparr>"
  have c0: "c \<noteq> []" using c(1) hl(2) by auto
  have read: "FixHead_read alloc fn c d =
      map_option (\<lambda>(ret, d3, ms). if ret < 0 then Inl (-1) else Inr (ms, d3)) (FixHead_Feed alloc fn ?d2 hl [])"
    unfolding FixHead_read_def c(1) [symmetric]
    by (rule TcpConn_read_fits [where get = "FixHead_GetBuffer alloc" and d = d, OF d1(1) c0])
      (use c(1) d1(2,3) hl(3) in \<open>auto simp: recv_into_def\<close>)
  have tb: "take hl ?b = c" "length ?b = length b" using c(1) d1(3) hl(3) by (auto simp: overwrite_def)
  have "fn ?b = fn (take hl ?b)" using fn d1(3) hl(3) tb(2) unfolding head_only_def by (metis order_trans)
  then have fb: "fn ?b = Some n" using tb(1) c(2) by simp
  have small: "(n + hl) mod 2 ^ 32 = hl + n" "hl mod 2 ^ 32 = hl" using c(3) hl(3) by simp_all
  have noth: "\<not> 256 * 1024 * 1024 < hl + n" using c(3) by simp
  obtain b2 d3 where d3: "FixHead_head alloc fn (?d2\<lparr>fh_data_len := hl\<rparr>) = Some (0, d3)" "fh_buffer d3 = Some b2" "take hl b2 = c"
    "fh_buffer_len d3 = length b2" "hl + n \<le> length b2" "fh_head_len d3 = hl" "fh_data_len d3 = hl" "fh_msg_len d3 = hl + n"
  proof (cases "length b < hl + n")
    case True
    obtain nb where nb: "alloc (hl + n) = Some nb" "length nb = hl + n" using al unfolding alloc_ok_def by blast
    have "hl \<le> length b" using d1(3) hl(3) by simp
    with True nb(1) fb small(1) noth tb d1(4,5) have "FixHead_head alloc fn (?d2\<lparr>fh_data_len := hl\<rparr>) =
      Some (0, ?d2\<lparr>fh_data_len := hl, fh_msg_len := hl + n, fh_buffer := Some (overwrite nb 0 c), fh_buffer_len := hl + n\<rparr>)"
      by (simp add: FixHead_head_def Let_def add.commute [of n hl])
    then show ?thesis by (rule that [where ?b2.0 = "overwrite nb 0 c"]) (use nb(2) c(1) d1(5) in \<open>simp_all add: overwrite_def\<close>)
  next
    case False
    with fb small(1) noth d1(4,5) have "FixHead_head alloc fn (?d2\<lparr>fh_data_len := hl\<rparr>) = Some (0, ?d2\<lparr>fh_data_len := hl, fh_msg_len := hl + n\<rparr>)"
      by (simp add: FixHead_head_def Let_def add.commute [of n hl])
    then show ?thesis by (rule that [where ?b2.0 = ?b]) (use False tb d1(4,5) in simp_all)
  qed
  have hd: "FixHead_Feed alloc fn ?d2 hl [] =
     (if n = 0 then Some (0, d3\<lparr>fh_buffer := None, fh_buffer_len := 0, fh_data_len := 0, fh_msg_len := 0\<rparr>,
        [\<lparr>im_data = Some b2, im_bytes_length = hl\<rparr>]) else Some (1, d3, []))"
    using hl(2) small(2) d1(5,6) d3(1,2,7,8) by (simp add: FixHead_Feed_def)
  show ?thesis
  proof (cases "n = 0")
    case True
    then have "head_frames hl fn c = ([c], [])" using head_frames_whole [of hl fn c n] c hl(2) by simp
    then show ?thesis using True hd d3(3,6) read hl by (simp add: im_bytes_def fh_pending_def fh_inv_def)
  next
    case False
    then have "head_frames hl fn c = ([], c)" using head_frames_part [of c fn hl n] c by simp
    then show ?thesis using False hd d3 read hl c by (simp add: fh_pending_def fh_inv_def)
  qed
qed

lemma FixHead_read_body:
  assumes inv: "fh_inv hl fn d" and p: "0 < fh_data_len d" and c: "c \<noteq> []" "fh_data_len d + length c \<le> fh_msg_len d"
  shows "\<exists>d' ms. FixHead_read alloc fn c d = Some (Inr (ms, d')) \<and> map im_bytes ms = fst (head_frames hl fn (fh_pending d @ c)) \<and>
    fh_pending d' = snd (head_frames hl fn (fh_pending d @ c)) \<and> fh_inv hl fn d'"
proof -
  let ?k = "fh_data_len d"
  obtain b n where d: "fh_head_len d = hl" "0 < hl" "hl \<le> 1024" "fh_buffer d = Some b" "length b = fh_buffer_len d"
    "fn (take hl b) = Some n" "fh_msg_len d = hl + n" "hl \<le> ?k" "?k < hl + n" "hl + n \<le> max_msg" "hl + n \<le> length b"
    using inv p by (auto simp: fh_inv_def)
  let ?b = "overwrite b ?k c" and ?e = "?k + length c"
  let ?d = "d\<lparr>fh_buffer := Some ?b\<rparr>"
  have get: "FixHead_GetBuffer alloc d = (0, Some (?k, hl + n - ?k), d)" using d by (simp add: FixHead_GetBuffer_def)
  have e: "?e \<le> hl + n" "?e mod 2 ^ 32 = ?e" "?e \<noteq> hl" "?k \<noteq> hl + n"
    using c d by (auto simp: le_eq_less_or_eq)
  have read: "FixHead_read alloc fn c d =
      map_option (\<lambda>(ret, d3, ms). if ret < 0 then Inl (-1) else Inr (ms, d3)) (FixHead_Feed alloc fn ?d (length c) [])"
    unfolding FixHead_read_def
    by (rule TcpConn_read_fits [where get = "FixHead_GetBuffer alloc" and d = d, OF get c(1)])
      (use e(1) d in \<open>auto simp: recv_into_def\<close>)
  have b: "length ?b = length b" "take ?e ?b = fh_pending d @ c" "take hl ?b = take hl b"
    using e(1) d by (simp_all add: fh_pending_def)
  have "take hl (fh_pending d @ c) = take hl (take ?e ?b)" using b(2) by simp
  also have "\<dots> = take hl b" using b(3) d(8) by (simp add: min_def)
  finally have h: "fn (take hl (fh_pending d @ c)) = Some n" using d(6) by simp
  have l: "length (fh_pending d @ c) = ?e" using d e(1) by (simp add: fh_pending_def)
  have feed: "FixHead_Feed alloc fn ?d (length c) [] =
      (if ?e = hl + n then Some (0, ?d\<lparr>fh_buffer := None, fh_buffer_len := 0, fh_data_len := 0, fh_msg_len := 0\<rparr>,
         [\<lparr>im_data = Some ?b, im_bytes_length = hl + n\<rparr>])
       else Some (1, ?d\<lparr>fh_data_len := ?e\<rparr>, []))"
    using c(1) e d by (simp add: FixHead_Feed_def)
  show ?thesis
  proof (cases "?e = hl + n")
    case True
    then have "head_frames hl fn (fh_pending d @ c) = ([fh_pending d @ c], [])" using head_frames_whole h l d(2) by metis
    then show ?thesis using True feed read b(2) d by (simp add: im_bytes_def fh_pending_def fh_inv_def)
  next
    case False
    then have "head_frames hl fn (fh_pending d @ c) = ([], fh_pending d @ c)"
      using head_frames_part [of "fh_pending d @ c" fn hl n] h l e(1) by simp
    then show ?thesis using False feed read b d e(1) by (simp add: fh_pending_def fh_inv_def)
  qed
qed

definition fix_feed :: "allocator \<Rightarrow> body_len \<Rightarrow> u8 list \<Rightarrow> fix_head \<Rightarrow> (u8 list list \<times> fix_head) option" where
  "fix_feed alloc fn c d = (case FixHead_read alloc fn c d of
     Some (Inr (ms, d')) \<Rightarrow> Some (map im_bytes ms, d') | _ \<Rightarrow> None)"

interpretation frames1: stream_decoder "\<lambda>d. alloc_ok alloc \<and> head_only hl fn \<and> fh_inv hl fn d" fh_pending
    "fix_feed alloc fn" "head_fine hl fn max_msg" "head_frames hl fn"
  for alloc :: allocator and hl :: nat and fn :: body_len
proof (rule stream_decoder.intro)
  fix d :: fix_head
  assume d: "alloc_ok alloc \<and> head_only hl fn \<and> fh_inv hl fn d"
  show "head_frames hl fn (fh_pending d) = ([], fh_pending d)"
  proof (cases "fh_data_len d = 0")
    case True
    then show ?thesis using head_frames_part [of "[]"] by (simp add: fh_pending_def split: option.split)
  next
    case False
    then obtain b n where "fh_buffer d = Some b" "fn (take hl b) = Some n" "hl \<le> fh_data_len d" "fh_data_len d < hl + n" "hl + n \<le> length b"
      using d by (auto simp: fh_inv_def)
    then show ?thesis using head_frames_part [of "fh_pending d" fn hl n] by (simp add: fh_pending_def min_def)
  qed
  fix c
  assume f: "head_fine hl fn max_msg (fh_pending d) c"
  show "\<exists>d'. fix_feed alloc fn c d = Some (fst (head_frames hl fn (fh_pending d @ c)), d') \<and>
     fh_pending d' = snd (head_frames hl fn (fh_pending d @ c)) \<and> alloc_ok alloc \<and> head_only hl fn \<and> fh_inv hl fn d'"
  proof (cases "fh_data_len d = 0")
    case True
    then have "fh_pending d = []" by (simp add: fh_pending_def split: option.split)
    then show ?thesis using FixHead_read_head [of alloc hl fn d c] d f True
      by (auto simp: head_fine_def fix_feed_def split: option.splits)
  next
    case False
    then obtain b n where b: "fh_buffer d = Some b" "fn (take hl b) = Some n" "hl \<le> fh_data_len d" "fh_data_len d < hl + n"
        "hl + n \<le> length b" "fh_msg_len d = hl + n" using d by (auto simp: fh_inv_def)
    then have "fh_pending d \<noteq> []" "length (fh_pending d) = fh_data_len d" "take hl (fh_pending d @ c) = take hl b"
      using False by (auto simp: fh_pending_def min_def)
    then show ?thesis using FixHead_read_body [of hl fn d c alloc] d f False b
      by (auto simp: head_fine_def fix_feed_def)
  qed
qed (rule head_frames_append)

text \<open>
  Fixed-head decoder of blitz: if every head arrives in one piece and no message exceeds 256 MB,
  the messages reported are those of the stream, in whatever pieces the bodies arrive.
\<close>

theorem FixHeadMsgDecoder_reports_frames:
  assumes "alloc_ok alloc" and "head_only hl fn" and "0 < hl" "hl \<le> 1024"
    and "all_fine (head_frames hl fn) (head_fine hl fn (256 * 1024 * 1024)) cs []"
  shows "\<exists>d'. run_feed (fix_feed alloc fn) cs (FixHeadMsgDecoder hl) = Some (fst (head_frames hl fn (concat cs)), d') \<and>
    fh_pending d' = snd (head_frames hl fn (concat cs))"
proof -
  have "fh_inv hl fn (FixHeadMsgDecoder hl)" "fh_pending (FixHeadMsgDecoder hl) = []"
    using assms(3,4) by (simp_all add: FixHeadMsgDecoder_def fh_inv_def fh_pending_def)
  then show ?thesis using frames1.run_feed_frames [of alloc hl fn "FixHeadMsgDecoder hl" cs] assms(1,2,5) by auto
qed

subsection \<open>A head in two pieces\<close>

text \<open>
  Fixed-head decoder of blitz: when only a part of the head has arrived, \<open>Feed\<close> compares it with
  the length 0 of a message not yet known and answers -3, with which the connection is closed.
\<close>

theorem FixHead_partial_head_refused:
  assumes "alloc_ok alloc" and "hl \<le> 1024" and "c \<noteq> []" and "length c < hl"
  shows "FixHead_read alloc fn c (FixHeadMsgDecoder hl) = Some (Inl (-1))"
proof -
  let ?d = "FixHeadMsgDecoder hl"
  obtain nb where nb: "alloc 1024 = Some nb" "length nb = 1024" using assms(1) unfolding alloc_ok_def by blast
  have get: "FixHead_GetBuffer alloc ?d = (0, Some (0, hl), ?d\<lparr>fh_buffer := Some nb, fh_buffer_len := 1024\<rparr>)"
    using nb(1) assms(4) by (simp add: FixHead_GetBuffer_def FixHeadMsgDecoder_def)
  let ?d2 = "?d\<lparr>fh_buffer := Some (overwrite nb 0 c), fh_buffer_len := 1024\<rparr>"
  have "FixHead_read alloc fn c ?d =
      map_option (\<lambda>(ret, d3, ms). if ret < 0 then Inl (-1) else Inr (ms, d3)) (FixHead_Feed alloc fn ?d2 (length c) [])"
    unfolding FixHead_read_def
    by (rule TcpConn_read_fits [where get = "FixHead_GetBuffer alloc" and d = ?d, OF get assms(3)])
      (use assms(2,4) nb(2) in \<open>auto simp: recv_into_def\<close>)
  moreover have "FixHead_Feed alloc fn ?d2 (length c) [] = Some (-3, ?d2\<lparr>fh_data_len := length c\<rparr>, [])"
    using assms(2-4) by (simp add: FixHead_Feed_def FixHeadMsgDecoder_def)
  ultimately show ?thesis by simp
qed

subsection \<open>Framed Thrift messages\<close>

text \<open>\<open>ntohl\<close> of the first four bytes; \<open>htonl\<close> writes a value in the same order.\<close>

definition FnGetBodyLen :: body_len where
  "FnGetBodyLen data = Some (nat_of_bytes (rev (take 4 data)))"

definition htonl_bytes :: "nat \<Rightarrow> u8 list" where
  "htonl_bytes v = rev (bytes_of 4 (v mod 2 ^ 32))"

lemma length_htonl_bytes [simp]: "length (htonl_bytes v) = 4"
  by (simp add: htonl_bytes_def)

lemma FnGetBodyLen_htonl: "v < 2 ^ 32 \<Longrightarrow> FnGetBodyLen (htonl_bytes v @ bs) = Some v"
  by (simp add: FnGetBodyLen_def htonl_bytes_def nat_of_bytes_of)

lemma FnGetBodyLen_head_only: "head_only 4 FnGetBodyLen"
  by (simp add: head_only_def FnGetBodyLen_def)

record mem_out =
  mo_buffer :: "u8 list option"
  mo_length :: nat
  mo_data_len :: nat

definition ThriftMemoryOutTransport :: mem_out where
  "ThriftMemoryOutTransport = \<lparr>mo_buffer = None, mo_length = 0, mo_data_len = 0\<rparr>"

definition mo_Extend :: "allocator \<Rightarrow> nat \<Rightarrow> mem_out \<Rightarrow> mem_out cxx" where
  "mo_Extend alloc len t =
     (let total = (mo_data_len t + len + 4) mod 2 ^ 32; size = ((total div 4096 + 1) * 4096) mod 2 ^ 32 in
      case alloc size of
        None \<Rightarrow> None
      | Some nb \<Rightarrow> (case mo_buffer t of
          None \<Rightarrow> Some (t\<lparr>mo_length := size, mo_buffer := Some nb\<rparr>)
        | Some b \<Rightarrow>
            if mo_data_len t + 4 \<le> length b \<and> mo_data_len t + 4 \<le> size
            then Some (t\<lparr>mo_length := size, mo_buffer := Some (overwrite nb 4 (take (mo_data_len t) (drop 4 b)))\<rparr>)
            else None))"

definition write_virt :: "allocator \<Rightarrow> u8 list \<Rightarrow> mem_out \<Rightarrow> mem_out cxx" where
  "write_virt alloc bs t =
     (case (if (mo_data_len t + 4 + length bs) mod 2 ^ 32 < mo_length t then Some t else mo_Extend alloc (length bs) t) of
        None \<Rightarrow> None
      | Some t' \<Rightarrow> (case recv_into (mo_buffer t') (mo_data_len t' + 4) bs of
          None \<Rightarrow> None
        | Some b \<Rightarrow> Some (t'\<lparr>mo_buffer := Some b, mo_data_len := (mo_data_len t' + length bs) mod 2 ^ 32\<rparr>)))"

definition mo_flush :: "mem_out \<Rightarrow> mem_out cxx" where
  "mo_flush t = map_option (\<lambda>b. t\<lparr>mo_buffer := Some b\<rparr>) (recv_into (mo_buffer t) 0 (htonl_bytes (mo_data_len t)))"

definition mo_Detach :: "mem_out \<Rightarrow> u8 list option \<times> nat \<times> mem_out" where
  "mo_Detach t = (mo_buffer t, (mo_data_len t + 4) mod 2 ^ 32, \<lparr>mo_buffer = None, mo_length = 0, mo_data_len = 0\<rparr>)"

record mem_in =
  mi_data :: "u8 list"
  mi_pos :: nat

definition ThriftMemoryInTransport :: "u8 list \<Rightarrow> mem_in" where
  "ThriftMemoryInTransport bs = \<lparr>mi_data = bs, mi_pos = 0\<rparr>"

definition read_virt :: "nat \<Rightarrow> mem_in \<Rightarrow> u8 list \<times> mem_in" where
  "read_virt len t =
     (let left = length (mi_data t) - mi_pos t; k = (if len \<le> left then len else left)
      in (take k (drop (mi_pos t) (mi_data t)), t\<lparr>mi_pos := mi_pos t + k\<rparr>))"

definition readAll_virt :: "nat \<Rightarrow> mem_in \<Rightarrow> (u8 list \<times> mem_in) cxx" where
  "readAll_virt len t =
     (if len \<le> length (mi_data t) - mi_pos t
      then Some (take len (drop (mi_pos t) (mi_data t)), t\<lparr>mi_pos := mi_pos t + len\<rparr>) else None)"

text \<open>A sequence of writes; reading is that of a source of bytes.\<close>

primrec write_all :: "allocator \<Rightarrow> u8 list list \<Rightarrow> mem_out \<Rightarrow> mem_out cxx" where
  "write_all alloc [] t = Some t"
| "write_all alloc (bs # bss) t = (case write_virt alloc bs t of None \<Rightarrow> None | Some t' \<Rightarrow> write_all alloc bss t')"

definition mi_unread :: "mem_in \<Rightarrow> u8 list" where
  "mi_unread t = drop (mi_pos t) (mi_data t)"

interpretation mem_source: byte_source "\<lambda>t. mi_pos t \<le> length (mi_data t)" mi_unread readAll_virt
  by (rule byte_source.intro) (auto simp: readAll_virt_def mi_unread_def add.commute)

definition mo_inv :: "mem_out \<Rightarrow> u8 list \<Rightarrow> bool" where
  "mo_inv t w \<longleftrightarrow> mo_data_len t = length w \<and> (case mo_buffer t of None \<Rightarrow> w = [] \<and> mo_length t = 0
     | Some b \<Rightarrow> length b = mo_length t \<and> 4 + length w \<le> length b \<and> take (length w) (drop 4 b) = w)"

lemma write_virt_ok:
  assumes al: "alloc_ok alloc" and inv: "mo_inv t w" and l: "length w + length bs + 4 \<le> 256 * 1024 * 1024"
  shows "\<exists>t'. write_virt alloc bs t = Some t' \<and> mo_inv t' (w @ bs) \<and> mo_buffer t' \<noteq> None"
proof -
  let ?n = "length w"
  have n: "mo_data_len t = ?n" using inv by (simp add: mo_inv_def)
  have small: "(?n + 4 + length bs) mod 2 ^ 32 = ?n + 4 + length bs" "(?n + length bs) mod 2 ^ 32 = ?n + length bs"
    "(?n + length bs + 4) mod 2 ^ 32 = ?n + length bs + 4" using l by simp_all
  obtain t1 b where t1: "(if (mo_data_len t + 4 + length bs) mod 2 ^ 32 < mo_length t then Some t else mo_Extend alloc (length bs) t) = Some t1"
    "mo_inv t1 w" "mo_buffer t1 = Some b" "4 + ?n + length bs \<le> length b"
  proof (cases "?n + 4 + length bs < mo_length t")
    case True
    then obtain b where "mo_buffer t = Some b" "length b = mo_length t" using inv by (auto simp: mo_inv_def split: option.splits)
    then show ?thesis using True n small(1) inv by (intro that [of t b]) simp_all
  next
    case False
    define size where "size = ((?n + length bs + 4) div 4096 + 1) * 4096"
    have size: "size mod 2 ^ 32 = size" "?n + length bs + 4 \<le> size"
    proof -
      have "(?n + length bs + 4) div 4096 \<le> 65536" using l by linarith
      then show "size mod 2 ^ 32 = size" by (simp add: size_def)
      show "?n + length bs + 4 \<le> size" unfolding size_def by simp
    qed
    obtain nb where nb: "alloc size = Some nb" "length nb = size" using al unfolding alloc_ok_def by blast
    show ?thesis
    proof (cases "mo_buffer t")
      case None
      let ?t = "t\<lparr>mo_length := size, mo_buffer := Some nb\<rparr>"
      have "mo_Extend alloc (length bs) t = Some ?t"
        using None nb(1) size(1) n small(3) by (simp add: mo_Extend_def size_def Let_def)
      moreover have "mo_inv ?t w" using inv None nb(2) size(2) by (simp add: mo_inv_def)
      ultimately show ?thesis using False n small(1) nb(2) size(2) by (intro that [of ?t nb]) simp_all
    next
      case (Some b)
      then have b: "length b = mo_length t" "4 + ?n \<le> length b" "take ?n (drop 4 b) = w"
        using inv by (auto simp: mo_inv_def)
      let ?nb = "overwrite nb 4 w" and ?t = "t\<lparr>mo_length := size, mo_buffer := Some (overwrite nb 4 w)\<rparr>"
      have "mo_Extend alloc (length bs) t = Some ?t"
        using b size(2) unfolding mo_Extend_def Let_def n small(3) size_def [symmetric] size(1) Some nb(1) by simp
      moreover have "length ?nb = size" "take ?n (drop 4 ?nb) = w" using nb(2) size(2) by (simp, simp add: overwrite_def)
      then have "mo_inv ?t w" using n size(2) by (simp add: mo_inv_def)
      ultimately show ?thesis using False n small(1) size(2) \<open>length ?nb = size\<close> by (intro that [of ?t ?nb]) simp_all
    qed
  qed
  let ?b = "overwrite b (?n + 4) bs"
  have n1: "mo_data_len t1 = ?n" "mo_length t1 = length b" "take ?n (drop 4 b) = w" using t1(2,3) by (simp_all add: mo_inv_def)
  have w: "write_virt alloc bs t = Some (t1\<lparr>mo_buffer := Some ?b, mo_data_len := ?n + length bs\<rparr>)"
    using t1(3,4) n1(1) small(2) unfolding write_virt_def t1(1) by (simp add: recv_into_def)
  have "?n + length bs + 4 = ?n + 4 + length bs" by simp
  then have "take (?n + length bs) (drop 4 ?b) = drop 4 (take (?n + 4 + length bs) ?b)" by (simp only: take_drop)
  also have "\<dots> = drop 4 (take (?n + 4) b @ bs)" using take_overwrite [of "?n + 4" bs b] t1(4) by simp
  also have "\<dots> = w @ bs" using n1(3) t1(4) by (simp add: drop_take)
  finally show ?thesis using w t1(4) n1(2) by (simp add: mo_inv_def)
qed

lemma write_all_ok:
  "alloc_ok alloc \<Longrightarrow> mo_inv t w \<Longrightarrow> length w + length (concat bss) + 4 \<le> 256 * 1024 * 1024 \<Longrightarrow>
     \<exists>t'. write_all alloc bss t = Some t' \<and> mo_inv t' (w @ concat bss) \<and> (bss \<noteq> [] \<or> mo_buffer t \<noteq> None \<longrightarrow> mo_buffer t' \<noteq> None)"
proof (induction bss arbitrary: t w)
  case (Cons bs bss)
  then obtain t1 where 1: "write_virt alloc bs t = Some t1" "mo_inv t1 (w @ bs)" "mo_buffer t1 \<noteq> None"
    using write_virt_ok [of alloc t w bs] by auto
  with Cons.IH [OF Cons.prems(1) 1(2)] Cons.prems(3) show ?case by auto
qed simp

text \<open>The chunks of a body, after the head has arrived.\<close>

lemma body_chunks_fine:
  assumes "hl + n \<le> M" and "0 < hl"
  shows "hl \<le> length p \<Longrightarrow> fn (take hl p) = Some n \<Longrightarrow> length p + length (concat cs) = hl + n \<Longrightarrow> [] \<notin> set cs \<Longrightarrow>
    all_fine (head_frames hl fn) (head_fine hl fn M) cs p"
proof (induction cs arbitrary: p)
  case (Cons c cs)
  have c: "take hl (p @ c) = take hl p" using Cons.prems(1) by simp
  have "c \<noteq> []" "p \<noteq> []" using Cons.prems(1,4) assms(2) by auto
  then have "head_fine hl fn M p c" unfolding head_fine_def c Cons.prems(2) using Cons.prems(3) assms(1) by simp
  moreover have "all_fine (head_frames hl fn) (head_fine hl fn M) cs (snd (head_frames hl fn (p @ c)))"
  proof (cases "cs = []")
    case False
    then obtain e es where "cs = e # es" "e \<noteq> []" using Cons.prems(4) by (cases cs) auto
    then have "length (p @ c) < hl + n" using Cons.prems(3) by (cases e) simp_all
    then have "head_frames hl fn (p @ c) = ([], p @ c)" by (intro head_frames_part [of _ _ _ n]) (use c Cons.prems(1,2) in simp)
    then show ?thesis using Cons.IH [of "p @ c"] Cons.prems c by simp
  qed simp
  ultimately show ?case by simp
qed simp

text \<open>
  C32. Framed Thrift messages: what is written through the output transport and flushed is, sent as
  one head and a body in arbitrary pieces, reported by the decoder as one message, from whose body
  the input transport reads back every piece that was written; nothing more can be read then.
\<close>

theorem thrift_frame_roundtrip:
  assumes al: "alloc_ok alloc" and ws: "ws \<noteq> []" "length (concat ws) + 4 \<le> 256 * 1024 * 1024"
  shows "\<exists>t t' b n. write_all alloc ws ThriftMemoryOutTransport = Some t \<and> mo_flush t = Some t' \<and>
    (fst (mo_Detach t'), fst (snd (mo_Detach t'))) = (Some b, n) \<and>
    (\<forall>cs. [] \<notin> set cs \<longrightarrow> concat cs = drop 4 (take n b) \<longrightarrow>
      map_option fst (run_feed (fix_feed alloc FnGetBodyLen) (take 4 b # cs) (FixHeadMsgDecoder 4)) = Some [take n b]) \<and>
    (\<exists>r. mem_source.fetch_all (map length ws) (ThriftMemoryInTransport (drop 4 (take n b))) = Some (ws, r) \<and>
      (\<forall>k>0. readAll_virt k r = None))"
proof -
  let ?w = "concat ws"
  have "mo_inv ThriftMemoryOutTransport []" by (simp add: mo_inv_def ThriftMemoryOutTransport_def)
  from write_all_ok [OF al this, of ws] ws obtain t b where t: "write_all alloc ws ThriftMemoryOutTransport = Some t"
    "mo_inv t ?w" "mo_buffer t = Some b" by auto
  then have b: "mo_data_len t = length ?w" "4 + length ?w \<le> length b" "take (length ?w) (drop 4 b) = ?w"
    by (simp_all add: mo_inv_def)
  let ?h = "htonl_bytes (length ?w)" and ?n = "length ?w + 4"
  let ?b = "overwrite b 0 ?h"
  have f: "mo_flush t = Some (t\<lparr>mo_buffer := Some ?b\<rparr>)" using t(3) b(1,2) by (simp add: mo_flush_def recv_into_def)
  have n: "?n mod 2 ^ 32 = ?n" "length ?w < 2 ^ 32" using ws(2) by simp_all
  have h4: "take 4 ?b = ?h" and fr: "take ?n ?b = ?h @ ?w"
    using b by (simp_all add: overwrite_def drop_take)
  have d: "drop 4 (take ?n ?b) = ?w" unfolding fr by simp
  have len: "FnGetBodyLen (?h @ x) = Some (length ?w)" for x by (rule FnGetBodyLen_htonl [OF n(2)])
  have dec: "map_option fst (run_feed (fix_feed alloc FnGetBodyLen) (take 4 ?b # cs) (FixHeadMsgDecoder 4)) = Some [take ?n ?b]"
    if cs: "[] \<notin> set cs" "concat cs = drop 4 (take ?n ?b)" for cs
  proof -
    have cat: "concat (?h # cs) = ?h @ ?w" using cs(2) d by simp
    have whole: "head_frames 4 FnGetBodyLen (?h @ ?w) = ([?h @ ?w], [])"
      using head_frames_whole [of 4 FnGetBodyLen "?h @ ?w" "length ?w"] len [of "[]"] by simp
    have "head_fine 4 FnGetBodyLen (256 * 1024 * 1024) [] ?h" using len [of "[]"] ws(2) by (auto simp: head_fine_def simp flip: length_0_conv)
    moreover have "all_fine (head_frames 4 FnGetBodyLen) (head_fine 4 FnGetBodyLen (256 * 1024 * 1024)) cs
        (snd (head_frames 4 FnGetBodyLen ?h))"
    proof (cases "cs = []")
      case False
      then have "concat cs \<noteq> []" using cs(1) by (cases cs) auto
      then have "?w \<noteq> []" using cs(2) d by metis
      then have "head_frames 4 FnGetBodyLen ?h = ([], ?h)" using head_frames_part [of ?h FnGetBodyLen 4 "length ?w"] len [of "[]"] by simp
      then show ?thesis using body_chunks_fine [of 4 "length ?w" "256 * 1024 * 1024" ?h FnGetBodyLen cs] ws(2) len [of "[]"] cs d by simp
    qed simp
    ultimately have fine: "all_fine (head_frames 4 FnGetBodyLen) (head_fine 4 FnGetBodyLen (256 * 1024 * 1024)) (?h # cs) []" by simp
    have ready: "alloc_ok alloc \<and> head_only 4 FnGetBodyLen \<and> fh_inv 4 FnGetBodyLen (FixHeadMsgDecoder 4)"
      "fh_pending (FixHeadMsgDecoder 4) = []"
      using al FnGetBodyLen_head_only by (simp_all add: FixHeadMsgDecoder_def fh_inv_def fh_pending_def)
    show ?thesis
      using frames1.run_feed_frames [OF ready(1), of "?h # cs"] fine cat whole unfolding ready(2) h4 fr by auto
  qed
  obtain r where r: "mem_source.fetch_all (map length ws) (ThriftMemoryInTransport ?w) = Some (ws, r)" "mi_unread r = []"
    using mem_source.fetch_all_pieces [of "ThriftMemoryInTransport ?w" ws "[]"] by (auto simp: ThriftMemoryInTransport_def mi_unread_def)
  then have "\<forall>k>0. readAll_virt k r = None" by (simp add: readAll_virt_def mi_unread_def)
  moreover have "(fst (mo_Detach (t\<lparr>mo_buffer := Some ?b\<rparr>)), fst (snd (mo_Detach (t\<lparr>mo_buffer := Some ?b\<rparr>)))) = (Some ?b, ?n)"
    using b(1) n(1) by (simp add: mo_Detach_def)
  moreover have "mem_source.fetch_all (map length ws) (ThriftMemoryInTransport (drop 4 (take ?n ?b))) = Some (ws, r)" using r(1) d by simp
  ultimately show ?thesis using t(1) f dec by blast
qed

theorem thrift_frame_roundtrip_witness:
  "\<exists>t t' b n. write_all zero_alloc [[0x61], [0x62, 0x63]] ThriftMemoryOutTransport = Some t \<and> mo_flush t = Some t' \<and>
    (fst (mo_Detach t'), fst (snd (mo_Detach t'))) = (Some b, n) \<and>
    (\<exists>r. mem_source.fetch_all (map length [[0x61], [0x62, 0x63 :: u8]]) (ThriftMemoryInTransport (drop 4 (take n b))) = Some ([[0x61], [0x62, 0x63]], r))"
proof -
  have "[[0x61], [0x62, 0x63 :: u8]] \<noteq> []" "length (concat [[0x61], [0x62, 0x63 :: u8]]) + 4 \<le> 256 * 1024 * 1024" by simp_all
  from thrift_frame_roundtrip [OF zero_alloc_ok this] show ?thesis by blast
qed

theorem FixHeadMsgDecoder_reports_frames_witness:
  "\<exists>d'. run_feed (fix_feed zero_alloc FnGetBodyLen) [[0, 0, 0, 2], [0x61], [0x62], [0, 0, 0, 0], [0, 0, 0, 1]] (FixHeadMsgDecoder 4) =
     Some ([[0, 0, 0, 2, 0x61, 0x62], [0, 0, 0, 0]], d') \<and> fh_pending d' = [0, 0, 0, 1]"
proof -
  let ?cs = "[[0, 0, 0, 2], [0x61], [0x62], [0, 0, 0, 0], [0, 0, 0, 1]] :: u8 list list"
  note ev = head_frames.simps [where hl = 4 and fn = FnGetBodyLen] FnGetBodyLen_def nat_of_bytes_def head_fine_def
  have "all_fine (head_frames 4 FnGetBodyLen) (head_fine 4 FnGetBodyLen (256 * 1024 * 1024)) ?cs []"
    by (simp add: ev)
  from FixHeadMsgDecoder_reports_frames [OF zero_alloc_ok FnGetBodyLen_head_only _ _ this]
  show ?thesis by (simp add: ev)
qed

theorem FixHead_partial_head_refused_witness:
  "FixHead_read zero_alloc FnGetBodyLen [0, 0] (FixHeadMsgDecoder 4) = Some (Inl (-1))"
  using FixHead_partial_head_refused [of zero_alloc 4 "[0, 0]" FnGetBodyLen] zero_alloc_ok by simp

subsection \<open>The second version\<close>

record fix_head2 =
  f2_head_len :: nat
  f2_buffer :: "u8 list option"
  f2_buffer_len :: nat
  f2_data_len :: nat
  f2_msg_len :: nat
  f2_start_len :: nat
  f2_max_len :: nat

definition FixHead2_Init :: "allocator \<Rightarrow> nat \<times> nat \<Rightarrow> fix_head2 \<Rightarrow> (int \<times> fix_head2) cxx" where
  "FixHead2_Init alloc params d =
     (let d1 = d\<lparr>f2_start_len := fst params, f2_max_len := snd params\<rparr> in
      case f2_buffer d of
        Some _ \<Rightarrow> Some (0, d1)
      | None \<Rightarrow> map_option (\<lambda>b. (0, d1\<lparr>f2_buffer := Some b, f2_buffer_len := fst params\<rparr>)) (alloc (fst params)))"

definition FixHead2_GetBuffer :: "fix_head2 \<Rightarrow> int \<times> (nat \<times> nat) option \<times> fix_head2" where
  "FixHead2_GetBuffer d =
     (if f2_data_len d < f2_head_len d then (0, Some (f2_data_len d, f2_head_len d - f2_data_len d), d)
      else if f2_data_len d < f2_msg_len d then (0, Some (f2_data_len d, f2_msg_len d - f2_data_len d), d)
      else (-1, None, d))"

definition FixHead2_Feed :: "allocator \<Rightarrow> body_len \<Rightarrow> fix_head2 \<Rightarrow> nat \<Rightarrow> (int \<times> fix_head2 \<times> u8 list list) cxx" where
  "FixHead2_Feed alloc fn d len =
     (if len = 0 then Some (1, d, [])
      else
        let d1 = d\<lparr>f2_data_len := (f2_data_len d + len) mod 2 ^ 32\<rparr> in
        case f2_buffer d1 of
          None \<Rightarrow> None
        | Some b \<Rightarrow>
            if f2_data_len d1 = f2_head_len d1 then
              (case fn b of
                 None \<Rightarrow> Some (-1, d1, [])
               | Some body_len \<Rightarrow>
                   let m = (body_len + f2_head_len d1) mod 2 ^ 32; d2 = d1\<lparr>f2_msg_len := m\<rparr> in
                   if f2_max_len d < m then Some (-2, d2, [])
                   else if f2_buffer_len d < m then
                     (case alloc m of
                        None \<Rightarrow> None
                      | Some nb \<Rightarrow>
                          if f2_head_len d \<le> length b \<and> f2_head_len d \<le> m
                          then Some (0, d2\<lparr>f2_buffer := Some (overwrite nb 0 (take (f2_head_len d) b)), f2_buffer_len := m\<rparr>, [])
                          else None)
                   else Some (0, d2, []))
            else if f2_data_len d1 = f2_msg_len d1 then
              (case alloc (f2_start_len d) of
                 None \<Rightarrow> None
               | Some nb \<Rightarrow> Some (0, d1\<lparr>f2_buffer := Some nb, f2_buffer_len := f2_start_len d, f2_data_len := 0, f2_msg_len := 0\<rparr>,
                   [take (f2_data_len d1) b]))
            else if f2_msg_len d1 < f2_data_len d1 then Some (-3, d1, [])
            else Some (0, d1, []))"

text \<open>\<open>GetBuffer\<close> asserts that there is a buffer.\<close>

definition FixHead2_read :: "allocator \<Rightarrow> body_len \<Rightarrow> u8 list \<Rightarrow> fix_head2 \<Rightarrow> (u8 list list \<times> (int + fix_head2)) cxx" where
  "FixHead2_read alloc fn c d =
     (if f2_buffer d = None then None
      else Channel_read FixHead2_GetBuffer
        (\<lambda>off c d. map_option (\<lambda>b. d\<lparr>f2_buffer := Some b\<rparr>) (recv_into (f2_buffer d) off c)) (FixHead2_Feed alloc fn) c d)"

definition f2_pending :: "fix_head2 \<Rightarrow> u8 list" where
  "f2_pending d = (case f2_buffer d of None \<Rightarrow> [] | Some b \<Rightarrow> take (f2_data_len d) b)"

definition f2_inv :: "nat \<Rightarrow> body_len \<Rightarrow> nat \<Rightarrow> fix_head2 \<Rightarrow> bool" where
  "f2_inv hl fn M d \<longleftrightarrow> f2_head_len d = hl \<and> 0 < hl \<and> hl \<le> f2_start_len d \<and> f2_max_len d = M \<and> M < 2 ^ 32 \<and>
     (\<exists>b. f2_buffer d = Some b \<and> length b = f2_buffer_len d \<and> hl \<le> length b \<and>
       (if f2_data_len d = 0 then f2_msg_len d = 0
        else \<exists>n. fn (take hl b) = Some n \<and> f2_msg_len d = hl + n \<and>
          hl \<le> f2_data_len d \<and> f2_data_len d < hl + n \<and> hl + n \<le> M \<and> hl + n \<le> length b))"

lemma FixHead2_read_step:
  assumes inv: "f2_inv hl fn M d" and b: "f2_buffer d = Some b" and c: "c \<noteq> []"
    and room: "length c \<le> (if f2_data_len d = 0 then hl else f2_msg_len d - f2_data_len d)"
  shows "FixHead2_read alloc fn c d = map_option (\<lambda>(ret, d3, ms). (ms, if ret < 0 then Inl (-1) else Inr d3))
     (FixHead2_Feed alloc fn (d\<lparr>f2_buffer := Some (overwrite b (f2_data_len d) c)\<rparr>) (length c))"
proof -
  let ?k = "f2_data_len d"
  define r where "r = (if ?k = 0 then hl else f2_msg_len d - ?k)"
  have get: "FixHead2_GetBuffer d = (0, Some (?k, r), d)"
    using inv by (auto simp: FixHead2_GetBuffer_def f2_inv_def r_def)
  have "?k + length c \<le> length b" using inv b room by (auto simp: f2_inv_def split: if_splits)
  then show ?thesis unfolding FixHead2_read_def using b room
    by (simp, intro Channel_read_fits [where get = FixHead2_GetBuffer and d = d, OF get c]) (auto simp: recv_into_def r_def split: if_splits)
qed

lemma FixHead2_read_head:
  assumes al: "alloc_ok alloc" and fn: "head_only hl fn" and inv: "f2_inv hl fn M d" and p: "f2_data_len d = 0"
    and c: "length c = hl" "fn c = Some n" "hl + n \<le> M"
  shows "\<exists>d' b'. FixHead2_read alloc fn c d = Some ([], Inr d') \<and> f2_buffer d' = Some b' \<and> take hl b' = c \<and> length b' = f2_buffer_len d' \<and>
    hl + n \<le> length b' \<and> f2_data_len d' = hl \<and> f2_msg_len d' = hl + n \<and> f2_head_len d' = hl \<and>
    f2_start_len d' = f2_start_len d \<and> f2_max_len d' = M"
proof -
  obtain b where b: "f2_buffer d = Some b" "length b = f2_buffer_len d" "hl \<le> length b" "f2_head_len d = hl" "0 < hl"
    "f2_max_len d = M" "M < 2 ^ 32" using inv by (auto simp: f2_inv_def)
  let ?b = "overwrite b 0 c"
  let ?d1 = "d\<lparr>f2_buffer := Some ?b, f2_data_len := hl\<rparr>"
  have c0: "c \<noteq> []" using c(1) b(5) by auto
  have tb: "take hl ?b = c" "length ?b = length b" using c(1) b(3) by (auto simp: overwrite_def)
  have "fn ?b = fn (take hl ?b)" using fn b(3) tb(2) unfolding head_only_def by metis
  then have fb: "fn ?b = Some n" using tb(1) c(2) by simp
  have small: "(n + hl) mod 2 ^ 32 = hl + n" "hl mod 2 ^ 32 = hl" "\<not> M < hl + n" using c(3) b(7) by simp_all
  have read: "FixHead2_read alloc fn c d = map_option (\<lambda>(ret, d3, ms). (ms, if ret < 0 then Inl (-1) else Inr d3))
      (FixHead2_Feed alloc fn (d\<lparr>f2_buffer := Some ?b\<rparr>) hl)"
    using FixHead2_read_step [OF inv b(1) c0, of alloc] p c(1) by simp
  show ?thesis
  proof (cases "length b < hl + n")
    case True
    obtain nb where nb: "alloc (hl + n) = Some nb" "length nb = hl + n" using al unfolding alloc_ok_def by blast
    have "FixHead2_Feed alloc fn (d\<lparr>f2_buffer := Some ?b\<rparr>) hl =
        Some (0, ?d1\<lparr>f2_msg_len := hl + n, f2_buffer := Some (overwrite nb 0 c), f2_buffer_len := hl + n\<rparr>, [])"
      using True nb(1) fb small b p tb unfolding FixHead2_Feed_def Let_def by (simp add: small del: power_numeral)
    then show ?thesis using read nb(2) c(1) b by (simp add: overwrite_def)
  next
    case False
    then have "FixHead2_Feed alloc fn (d\<lparr>f2_buffer := Some ?b\<rparr>) hl = Some (0, ?d1\<lparr>f2_msg_len := hl + n\<rparr>, [])"
      using fb small b p tb unfolding FixHead2_Feed_def Let_def by (simp add: small del: power_numeral)
    then show ?thesis using read False tb b by simp
  qed
qed

lemma FixHead2_read_body:
  assumes al: "alloc_ok alloc" and inv: "f2_inv hl fn M d" and p: "0 < f2_data_len d"
    and c: "c \<noteq> []" "f2_data_len d + length c \<le> f2_msg_len d"
  shows "\<exists>d'. FixHead2_read alloc fn c d = Some (fst (head_frames hl fn (f2_pending d @ c)), Inr d') \<and>
    f2_pending d' = snd (head_frames hl fn (f2_pending d @ c)) \<and> f2_inv hl fn M d'"
proof -
  let ?k = "f2_data_len d"
  obtain b n where d: "f2_head_len d = hl" "0 < hl" "hl \<le> f2_start_len d" "f2_max_len d = M" "M < 2 ^ 32" "f2_buffer d = Some b"
    "length b = f2_buffer_len d" "fn (take hl b) = Some n" "f2_msg_len d = hl + n" "hl \<le> ?k" "?k < hl + n" "hl + n \<le> M" "hl + n \<le> length b"
    using inv p by (auto simp: f2_inv_def)
  let ?b = "overwrite b ?k c" and ?e = "?k + length c"
  have e: "?e \<le> hl + n" "?e mod 2 ^ 32 = ?e" "?e \<noteq> hl" using c d by (auto simp: le_eq_less_or_eq)
  have read: "FixHead2_read alloc fn c d = map_option (\<lambda>(ret, d3, ms). (ms, if ret < 0 then Inl (-1) else Inr d3))
      (FixHead2_Feed alloc fn (d\<lparr>f2_buffer := Some ?b\<rparr>) (length c))"
    using FixHead2_read_step [OF inv d(6) c(1), of alloc] p c(2) by simp
  have b: "length ?b = length b" "take ?e ?b = f2_pending d @ c" "take hl ?b = take hl b"
    using e(1) d by (simp_all add: f2_pending_def)
  have "take hl (f2_pending d @ c) = take hl (take ?e ?b)" using b(2) by simp
  also have "\<dots> = take hl b" using b(3) d(10) by (simp add: min_def)
  finally have h: "fn (take hl (f2_pending d @ c)) = Some n" using d(8) by simp
  have l: "length (f2_pending d @ c) = ?e" using d e(1) by (simp add: f2_pending_def)
  show ?thesis
  proof (cases "?e = hl + n")
    case True
    obtain nb where nb: "alloc (f2_start_len d) = Some nb" "length nb = f2_start_len d" using al unfolding alloc_ok_def by blast
    have "FixHead2_Feed alloc fn (d\<lparr>f2_buffer := Some ?b\<rparr>) (length c) =
        Some (0, d\<lparr>f2_buffer := Some nb, f2_buffer_len := f2_start_len d, f2_data_len := 0, f2_msg_len := 0\<rparr>, [f2_pending d @ c])"
      using c(1) e(2,3) True d(1,9) nb(1) b(2) unfolding FixHead2_Feed_def Let_def by simp
    moreover have "head_frames hl fn (f2_pending d @ c) = ([f2_pending d @ c], [])"
      using head_frames_whole [of hl fn "f2_pending d @ c" n] h l d(2) True by simp
    ultimately show ?thesis using read nb(2) d by (simp add: f2_pending_def f2_inv_def)
  next
    case False
    have "FixHead2_Feed alloc fn (d\<lparr>f2_buffer := Some ?b\<rparr>) (length c) = Some (0, d\<lparr>f2_buffer := Some ?b, f2_data_len := ?e\<rparr>, [])"
      using c(1) e False d(1,9) unfolding FixHead2_Feed_def Let_def by simp
    moreover have "head_frames hl fn (f2_pending d @ c) = ([], f2_pending d @ c)"
      using head_frames_part [of "f2_pending d @ c" fn hl n] h l e(1) False by simp
    ultimately show ?thesis using read b d e(1) False by (simp add: f2_pending_def f2_inv_def)
  qed
qed

text \<open>Chunks as for the first version, with bodies that are not empty.\<close>

definition head2_fine :: "nat \<Rightarrow> body_len \<Rightarrow> nat \<Rightarrow> u8 list \<Rightarrow> u8 list \<Rightarrow> bool" where
  "head2_fine hl fn M p c \<longleftrightarrow> head_fine hl fn M p c \<and> fn (take hl (p @ c)) \<noteq> Some 0"

definition fix2_feed :: "allocator \<Rightarrow> body_len \<Rightarrow> u8 list \<Rightarrow> fix_head2 \<Rightarrow> (u8 list list \<times> fix_head2) option" where
  "fix2_feed alloc fn c d = (case FixHead2_read alloc fn c d of Some (ms, Inr d') \<Rightarrow> Some (ms, d') | _ \<Rightarrow> None)"

interpretation frames2: stream_decoder "\<lambda>d. alloc_ok alloc \<and> head_only hl fn \<and> f2_inv hl fn M d" f2_pending
    "fix2_feed alloc fn" "head2_fine hl fn M" "head_frames hl fn"
  for alloc :: allocator and hl :: nat and fn :: body_len and M :: nat
proof (rule stream_decoder.intro)
  fix d :: fix_head2
  assume d: "alloc_ok alloc \<and> head_only hl fn \<and> f2_inv hl fn M d"
  then obtain b where b: "f2_buffer d = Some b" by (auto simp: f2_inv_def)
  show "head_frames hl fn (f2_pending d) = ([], f2_pending d)"
  proof (cases "f2_data_len d = 0")
    case True
    then show ?thesis using head_frames_part [of "[]"] by (simp add: f2_pending_def split: option.split)
  next
    case False
    then obtain n where "fn (take hl b) = Some n" "hl \<le> f2_data_len d" "f2_data_len d < hl + n" "hl + n \<le> length b"
      using d b by (auto simp: f2_inv_def)
    then show ?thesis using b head_frames_part [of "f2_pending d" fn hl n] by (simp add: f2_pending_def min_def)
  qed
  fix c
  assume f: "head2_fine hl fn M (f2_pending d) c"
  show "\<exists>d'. fix2_feed alloc fn c d = Some (fst (head_frames hl fn (f2_pending d @ c)), d') \<and>
     f2_pending d' = snd (head_frames hl fn (f2_pending d @ c)) \<and> alloc_ok alloc \<and> head_only hl fn \<and> f2_inv hl fn M d'"
  proof (cases "f2_data_len d = 0")
    case True
    then have p: "f2_pending d = []" by (simp add: f2_pending_def split: option.split)
    with f obtain n where n: "fn c = Some n" "0 < n" "hl + n \<le> M" "length c = hl"
      by (auto simp: head2_fine_def head_fine_def split: option.splits)
    then have "head_frames hl fn c = ([], c)" using head_frames_part [of c fn hl n] by simp
    then show ?thesis using FixHead2_read_head [of alloc hl fn M d c n] d n True p
      by (auto simp: fix2_feed_def f2_pending_def f2_inv_def)
  next
    case False
    then obtain n where n: "fn (take hl b) = Some n" "hl \<le> f2_data_len d" "f2_data_len d < hl + n"
        "hl + n \<le> length b" "f2_msg_len d = hl + n" using d b by (auto simp: f2_inv_def)
    then have "f2_pending d \<noteq> []" "length (f2_pending d) = f2_data_len d" "take hl (f2_pending d @ c) = take hl b"
      using False b by (auto simp: f2_pending_def min_def)
    then show ?thesis using FixHead2_read_body [of alloc hl fn M d c] d f False n
      by (auto simp: head2_fine_def head_fine_def fix2_feed_def)
  qed
qed (rule head_frames_append)

text \<open>
  Fixed-head decoder of blitz2: with heads that arrive in one piece and bodies that are not empty,
  the messages of the stream are reported; a message with an empty body is never reported: after its
  head the decoder offers no buffer any more and the channel is closed.
\<close>

theorem FixHeadMsgDecoder2_frames:
  assumes "alloc_ok alloc" and "head_only hl fn" and "0 < hl" "hl \<le> fst params" "snd params < 2 ^ 32"
    and "f2_head_len d0 = hl" "f2_buffer d0 = None" "f2_data_len d0 = 0" "f2_msg_len d0 = 0"
    and "FixHead2_Init alloc params d0 = Some (0, d)"
  shows "(all_fine (head_frames hl fn) (head2_fine hl fn (snd params)) cs [] \<longrightarrow>
      (\<exists>d'. run_feed (fix2_feed alloc fn) cs d = Some (fst (head_frames hl fn (concat cs)), d') \<and>
        f2_pending d' = snd (head_frames hl fn (concat cs)))) \<and>
    (length h = hl \<and> fn h = Some 0 \<and> hl \<le> snd params \<longrightarrow>
      (\<exists>d'. FixHead2_read alloc fn h d = Some ([], Inr d') \<and> FixHead2_read alloc fn c d' = Some ([], Inl (-1))))"
proof (intro conjI impI)
  obtain b where b: "alloc (fst params) = Some b" "length b = fst params" using assms(1) unfolding alloc_ok_def by blast
  then have d: "d = d0\<lparr>f2_start_len := fst params, f2_max_len := snd params, f2_buffer := Some b, f2_buffer_len := fst params\<rparr>"
    using assms(7,10) by (simp add: FixHead2_Init_def)
  have inv: "f2_inv hl fn (snd params) d" "f2_pending d = []" "f2_data_len d = 0"
    using assms(3-9) b(2) by (simp_all add: d f2_inv_def f2_pending_def)
  show "\<exists>d'. run_feed (fix2_feed alloc fn) cs d = Some (fst (head_frames hl fn (concat cs)), d') \<and>
        f2_pending d' = snd (head_frames hl fn (concat cs))" if "all_fine (head_frames hl fn) (head2_fine hl fn (snd params)) cs []"
    using frames2.run_feed_frames [of alloc hl fn "snd params" d cs] assms(1,2) inv that by auto
  assume h: "length h = hl \<and> fn h = Some 0 \<and> hl \<le> snd params"
  obtain d' b' where d': "FixHead2_read alloc fn h d = Some ([], Inr d')" "f2_buffer d' = Some b'" "f2_data_len d' = hl"
    "f2_msg_len d' = hl" "f2_head_len d' = hl"
    using FixHead2_read_head [of alloc hl fn "snd params" d h 0, OF assms(1,2) inv(1,3)] h by auto
  then have "FixHead2_read alloc fn c d' = Some ([], Inl (-1))"
    by (simp add: FixHead2_read_def Channel_read_def FixHead2_GetBuffer_def)
  with d'(1) show "\<exists>d'. FixHead2_read alloc fn h d = Some ([], Inr d') \<and> FixHead2_read alloc fn c d' = Some ([], Inl (-1))" by blast
qed

theorem FixHeadMsgDecoder2_frames_witness:
  "\<exists>d. FixHead2_Init zero_alloc (4096, 4194304) \<lparr>f2_head_len = 4, f2_buffer = None, f2_buffer_len = 0, f2_data_len = 0,
       f2_msg_len = 0, f2_start_len = 0, f2_max_len = 0\<rparr> = Some (0, d) \<and>
    map_option fst (run_feed (fix2_feed zero_alloc FnGetBodyLen) [[0, 0, 0, 2], [0x61], [0x62]] d) = Some [[0, 0, 0, 2, 0x61, 0x62]] \<and>
    (\<exists>d'. FixHead2_read zero_alloc FnGetBodyLen [0, 0, 0, 0] d = Some ([], Inr d') \<and>
      FixHead2_read zero_alloc FnGetBodyLen [0x61] d' = Some ([], Inl (-1)))"
proof -
  let ?d0 = "\<lparr>f2_head_len = 4, f2_buffer = None, f2_buffer_len = 0, f2_data_len = 0, f2_msg_len = 0, f2_start_len = 0, f2_max_len = 0\<rparr>"
  obtain d where d: "FixHead2_Init zero_alloc (4096, 4194304) ?d0 = Some (0, d)" by (simp add: FixHead2_Init_def zero_alloc_def)
  let ?cs = "[[0, 0, 0, 2], [0x61], [0x62]] :: u8 list list"
  note ev = head_frames.simps [where hl = 4 and fn = FnGetBodyLen] FnGetBodyLen_def nat_of_bytes_def head_fine_def head2_fine_def
  have fine: "all_fine (head_frames 4 FnGetBodyLen) (head2_fine 4 FnGetBodyLen 4194304) ?cs []" by (simp add: ev)
  have fr: "head_frames 4 FnGetBodyLen (concat ?cs) = ([[0, 0, 0, 2, 0x61, 0x62]], [])" by (simp add: ev)
  have "length [0, 0, 0, 0 :: u8] = 4 \<and> FnGetBodyLen [0, 0, 0, 0] = Some 0" by (simp add: ev)
  then show ?thesis
    using FixHeadMsgDecoder2_frames [OF zero_alloc_ok FnGetBodyLen_head_only, of "(4096, 4194304)" ?d0 d ?cs "[0, 0, 0, 0]" "[0x61]"] d fine
    unfolding fr by auto
qed

end
