(* ===== verification/Buffer.thy ===== *)
theory Buffer
  imports Msg_Decoder
begin

text \<open>
  Writing values into a chain of memory blocks and reading them back, classes \<open>BufferWriter\<close> and
  \<open>BufferReader\<close> of \<open>libsrc/blitz/include/blitz/buffer.h\<close> and \<open>libsrc/blitz/src/buffer.cc\<close>.
  Integers are stored in network order. A pointer to a block of the array \<open>buffers_\<close> is its index.
\<close>

subsection \<open>The writer\<close>

record data_buffer =
  db_ptr :: "u8 list option"
  db_length :: nat
  db_data_length :: nat
  db_read_pos :: nat

definition zero_db :: data_buffer where
  "zero_db = \<lparr>db_ptr = None, db_length = 0, db_data_length = 0, db_read_pos = 0\<rparr>"

record buffer_writer =
  bw_buffers :: "data_buffer list option"
  bw_buffer_count :: nat
  bw_buffer_capacity :: nat
  bw_cur_buffer :: "nat option"
  bw_data_length :: nat

definition BufferWriter :: buffer_writer where
  "BufferWriter = \<lparr>bw_buffers = None, bw_buffer_count = 0, bw_buffer_capacity = 0, bw_cur_buffer = None, bw_data_length = 0\<rparr>"

text \<open>\<open>BufferWriter::Alloc\<close>: whole pages.\<close>

definition bw_Alloc :: "allocator \<Rightarrow> data_buffer \<Rightarrow> nat \<Rightarrow> int \<times> data_buffer" where
  "bw_Alloc alloc b len =
     (let n = ((len - 1) div 4096 + 1) * 4096 in
      case alloc n of
        None \<Rightarrow> (-100, b\<lparr>db_ptr := None\<rparr>)
      | Some m \<Rightarrow> (0, b\<lparr>db_ptr := Some m, db_length := n\<rparr>))"

text \<open>A \<open>DataBuffer\<close> has 40 bytes.\<close>

definition bw_Init :: "allocator \<Rightarrow> nat \<Rightarrow> buffer_writer \<Rightarrow> int \<times> buffer_writer" where
  "bw_Init alloc hint_length w =
     (case bw_cur_buffer w of
        Some _ \<Rightarrow> (1, w)
      | None \<Rightarrow>
          if alloc (40 * 2) = None then (-100, w\<lparr>bw_buffers := None, bw_buffer_capacity := 0\<rparr>)
          else
            let (ret, b) = bw_Alloc alloc zero_db hint_length;
                w1 = w\<lparr>bw_buffer_capacity := 2, bw_buffers := Some [b, zero_db]\<rparr>
            in if ret \<noteq> 0 then (ret, w1) else (0, w1\<lparr>bw_cur_buffer := Some 0, bw_buffer_count := 1\<rparr>))"

text \<open>
  The array of blocks grows by two. The old array is freed while \<open>cur_buffer_\<close> still points into it;
  if the new block cannot be allocated then, the pointer is left dangling (and is \<open>None\<close> here).
\<close>

definition bw_Extend :: "allocator \<Rightarrow> nat \<Rightarrow> buffer_writer \<Rightarrow> (int \<times> buffer_writer) cxx" where
  "bw_Extend alloc len w =
     (case (bw_cur_buffer w, bw_buffers w) of
        (Some i, Some bs) \<Rightarrow>
          if length bs \<le> i then None
          else if len \<le> db_length (bs ! i) - db_data_length (bs ! i) then Some (0, w)
          else
            let full = (bw_buffer_count w = bw_buffer_capacity w); cap = bw_buffer_capacity w + 2 in
            if full \<and> alloc (40 * cap) = None then Some (-100, w)
            else
              let bs' = (if full then bs @ [zero_db, zero_db] else bs);
                  w1 = (if full then w\<lparr>bw_buffers := Some bs', bw_buffer_capacity := cap\<rparr> else w);
                  n = bw_buffer_count w
              in if length bs' \<le> n then None
                 else
                   let (ret, b) = bw_Alloc alloc (bs' ! n) len in
                   if ret \<noteq> 0 then Some (ret, w1\<lparr>bw_buffers := Some (bs'[n := b]), bw_cur_buffer := (if full then None else Some i)\<rparr>)
                   else Some (0, w1\<lparr>bw_buffers := Some (bs'[n := b]), bw_cur_buffer := Some n, bw_buffer_count := n + 1\<rparr>)
      | _ \<Rightarrow> None)"

text \<open>Storing bytes behind the data of the current block.\<close>

definition bw_put :: "u8 list \<Rightarrow> buffer_writer \<Rightarrow> buffer_writer cxx" where
  "bw_put xs w =
     (case (bw_cur_buffer w, bw_buffers w) of
        (Some i, Some bs) \<Rightarrow>
          if length bs \<le> i then None
          else (case recv_into (db_ptr (bs ! i)) (db_data_length (bs ! i)) xs of
              None \<Rightarrow> None
            | Some p \<Rightarrow> Some (w\<lparr>bw_buffers := Some (bs[i := (bs ! i)\<lparr>db_ptr := Some p, db_data_length := db_data_length (bs ! i) + length xs\<rparr>]),
                bw_data_length := bw_data_length w + length xs\<rparr>))
      | _ \<Rightarrow> None)"

definition bw_extend_put :: "allocator \<Rightarrow> u8 list \<Rightarrow> buffer_writer \<Rightarrow> (int \<times> buffer_writer) cxx" where
  "bw_extend_put alloc xs w =
     (case bw_Extend alloc (length xs) w of
        None \<Rightarrow> None
      | Some (ret, w1) \<Rightarrow>
          if ret \<noteq> 0 then Some (ret, w1)
          else map_option (\<lambda>w2. (int (length xs), w2)) (bw_put xs w1))"

definition WriteByte :: "allocator \<Rightarrow> u8 \<Rightarrow> buffer_writer \<Rightarrow> (int \<times> buffer_writer) cxx" where
  "WriteByte alloc b = bw_extend_put alloc [b]"

definition WriteI16 :: "allocator \<Rightarrow> u16 \<Rightarrow> buffer_writer \<Rightarrow> (int \<times> buffer_writer) cxx" where
  "WriteI16 alloc v = bw_extend_put alloc (rev (bytes_of 2 (unat v)))"

definition WriteI32 :: "allocator \<Rightarrow> u32 \<Rightarrow> buffer_writer \<Rightarrow> (int \<times> buffer_writer) cxx" where
  "WriteI32 alloc v = bw_extend_put alloc (rev (bytes_of 4 (unat v)))"

definition WriteI64 :: "allocator \<Rightarrow> u64 \<Rightarrow> buffer_writer \<Rightarrow> (int \<times> buffer_writer) cxx" where
  "WriteI64 alloc v = bw_extend_put alloc (rev (bytes_of 8 (unat v)))"

definition WriteData :: "allocator \<Rightarrow> u8 list \<Rightarrow> buffer_writer \<Rightarrow> (int \<times> buffer_writer) cxx" where
  "WriteData alloc xs = bw_extend_put alloc xs"

text \<open>The results of the inner calls are ignored.\<close>

definition WriteString :: "allocator \<Rightarrow> u8 list \<Rightarrow> buffer_writer \<Rightarrow> (int \<times> buffer_writer) cxx" where
  "WriteString alloc xs w =
     (case bw_Extend alloc (length xs + 4) w of
        None \<Rightarrow> None
      | Some (ret, w1) \<Rightarrow>
          if ret \<noteq> 0 then Some (ret, w1)
          else (case WriteI32 alloc (word_of_nat (length xs)) w1 of
              None \<Rightarrow> None
            | Some (_, w2) \<Rightarrow> map_option (\<lambda>(_, w3). (int (length xs + 4), w3)) (WriteData alloc xs w2)))"

definition WriteBinary :: "allocator \<Rightarrow> u8 list \<Rightarrow> buffer_writer \<Rightarrow> (int \<times> buffer_writer) cxx" where
  "WriteBinary alloc xs w =
     (case bw_Extend alloc (length xs + 4) w of
        None \<Rightarrow> None
      | Some (ret, w1) \<Rightarrow>
          if ret \<noteq> 0 then Some (ret, w1)
          else (case WriteI32 alloc (word_of_nat (length xs)) w1 of
              None \<Rightarrow> None
            | Some (_, w2) \<Rightarrow> map_option (\<lambda>w3. (int (length xs + 4), w3)) (bw_put xs w2)))"

text \<open>The digits of \<open>PrintInt\<close>, written from the end of its local array, and the character behind them.\<close>

function print_digits :: "nat \<Rightarrow> u8 list \<Rightarrow> u8 list" where
  "print_digits val acc =
     (let acc' = word_of_nat (val mod 10 + 0x30) # acc
      in if val div 10 = 0 then acc' else print_digits (val div 10) acc')"
  by auto
termination by (relation "measure fst") auto

declare print_digits.simps [simp del]

definition PrintInt :: "allocator \<Rightarrow> int \<Rightarrow> u8 \<Rightarrow> buffer_writer \<Rightarrow> (int \<times> buffer_writer) cxx" where
  "PrintInt alloc v e =
     (let ds = print_digits (nat \<bar>v\<bar>) [e] in WriteData alloc (if v < 0 then 0x2D # ds else ds))"

definition bw_UseNakedPtr :: "allocator \<Rightarrow> nat \<Rightarrow> buffer_writer \<Rightarrow> (int \<times> (nat \<times> nat) option \<times> buffer_writer) cxx" where
  "bw_UseNakedPtr alloc len w =
     (case bw_Extend alloc len w of
        None \<Rightarrow> None
      | Some (ret, w1) \<Rightarrow>
          if ret \<noteq> 0 then Some (ret, None, w1)
          else (case (bw_cur_buffer w1, bw_buffers w1) of
              (Some i, Some bs) \<Rightarrow>
                if length bs \<le> i then None
                else Some (int len, Some (i, db_data_length (bs ! i)),
                  w1\<lparr>bw_buffers := Some (bs[i := (bs ! i)\<lparr>db_data_length := db_data_length (bs ! i) + len\<rparr>]),
                     bw_data_length := bw_data_length w1 + len\<rparr>)
            | _ \<Rightarrow> None))"

subsection \<open>The reader\<close>

record buffer_reader =
  br_buffers :: "data_buffer list"
  br_current :: nat
  br_data_length :: nat
  br_data_left_length :: nat

definition BufferReader :: "data_buffer list \<Rightarrow> buffer_reader" where
  "BufferReader bs =
     (let n = sum_list (map db_data_length bs) in
      \<lparr>br_buffers = map (\<lambda>b. b\<lparr>db_read_pos := 0\<rparr>) bs, br_current = 0, br_data_length = n, br_data_left_length = n\<rparr>)"

definition set_read_pos :: "nat \<Rightarrow> nat \<Rightarrow> buffer_reader \<Rightarrow> buffer_reader" where
  "set_read_pos i p r = r\<lparr>br_buffers := (br_buffers r)[i := (br_buffers r ! i)\<lparr>db_read_pos := p\<rparr>]\<rparr>"

definition AdvanceCurrentBuffer :: "nat \<Rightarrow> buffer_reader \<Rightarrow> buffer_reader" where
  "AdvanceCurrentBuffer n r =
     (set_read_pos (br_current r) (db_read_pos (br_buffers r ! br_current r) + n) r)
       \<lparr>br_data_left_length := br_data_left_length r - n\<rparr>"

text \<open>\<open>n\<close> bytes at the read position of a block.\<close>

definition db_bytes :: "data_buffer \<Rightarrow> nat \<Rightarrow> u8 list cxx" where
  "db_bytes b n = (case db_ptr b of None \<Rightarrow> None
     | Some p \<Rightarrow> if db_read_pos b + n \<le> length p then Some (take n (drop (db_read_pos b) p)) else None)"

text \<open>Going on to the next block at the end of the current one; \<open>None\<close> after the last block.\<close>

definition next_block :: "buffer_reader \<Rightarrow> buffer_reader option" where
  "next_block r =
     (let i = br_current r; b = br_buffers r ! i in
      if db_data_length b \<le> db_read_pos b
      then if i + 1 = length (br_buffers r) then None else Some (set_read_pos (i + 1) 0 (r\<lparr>br_current := i + 1\<rparr>))
      else Some r)"

text \<open>
  The loop of \<open>IterateRead\<close>; the result is the sequence of bytes that the functor gets. Leaving the
  loop at the last block fails the assertion that nothing is left.
\<close>

function iterate_read :: "nat \<Rightarrow> buffer_reader \<Rightarrow> (u8 list \<times> buffer_reader) cxx" where
  "iterate_read left r =
     (if left = 0 then Some ([], r)
      else if length (br_buffers r) \<le> br_current r then None
      else case next_block r of
        None \<Rightarrow> None
      | Some r1 \<Rightarrow>
          let b = br_buffers r1 ! br_current r1;
              buffer_left = db_data_length b - db_read_pos b;
              copy_length = (if buffer_left < left then buffer_left else left)
          in case db_bytes b copy_length of
            None \<Rightarrow> None
          | Some xs \<Rightarrow> map_option (\<lambda>(ys, r'). (xs @ ys, r')) (iterate_read (left - copy_length) (AdvanceCurrentBuffer copy_length r1)))"
  by auto
termination
  by (relation "measures [\<lambda>(left, r). length (br_buffers r) - br_current r, \<lambda>(left, r). left]")
    (auto simp: next_block_def AdvanceCurrentBuffer_def set_read_pos_def Let_def split: if_splits)

declare iterate_read.simps [simp del]

definition IterateRead :: "nat \<Rightarrow> buffer_reader \<Rightarrow> (int \<times> u8 list \<times> buffer_reader) cxx" where
  "IterateRead n r =
     (if br_data_left_length r < n then Some (-5, [], r)
      else map_option (\<lambda>(xs, r'). (int n, xs, r')) (iterate_read n r))"

text \<open>\<open>ReadData\<close>, and the common part of the functions that read a value of \<open>n\<close> bytes.\<close>

definition ReadData :: "nat \<Rightarrow> buffer_reader \<Rightarrow> (int \<times> u8 list \<times> buffer_reader) cxx" where
  "ReadData n r =
     (if n = 0 \<or> length (br_buffers r) \<le> br_current r then None
      else
        let b = br_buffers r ! br_current r in
        if n \<le> db_data_length b - db_read_pos b
        then map_option (\<lambda>xs. (int n, xs, AdvanceCurrentBuffer n r)) (db_bytes b n)
        else IterateRead n r)"

definition ReadByte :: "buffer_reader \<Rightarrow> (int \<times> u8 option \<times> buffer_reader) cxx" where
  "ReadByte r = map_option (\<lambda>(ret, xs, r'). (ret, if ret < 0 then None else Some (hd xs), r')) (ReadData 1 r)"

definition ReadI16 :: "buffer_reader \<Rightarrow> (int \<times> u16 option \<times> buffer_reader) cxx" where
  "ReadI16 r = map_option (\<lambda>(ret, xs, r'). (ret, if ret < 0 then None else Some (word_of_nat (nat_of_bytes (rev xs))), r')) (ReadData 2 r)"

definition ReadI32 :: "buffer_reader \<Rightarrow> (int \<times> u32 option \<times> buffer_reader) cxx" where
  "ReadI32 r = map_option (\<lambda>(ret, xs, r'). (ret, if ret < 0 then None else Some (word_of_nat (nat_of_bytes (rev xs))), r')) (ReadData 4 r)"

definition ReadI64 :: "buffer_reader \<Rightarrow> (int \<times> u64 option \<times> buffer_reader) cxx" where
  "ReadI64 r = map_option (\<lambda>(ret, xs, r'). (ret, if ret < 0 then None else Some (word_of_nat (nat_of_bytes (rev xs))), r')) (ReadData 8 r)"

function Back :: "nat \<Rightarrow> buffer_reader \<Rightarrow> buffer_reader cxx" where
  "Back n r =
     (if n = 0 then Some r
      else if length (br_buffers r) \<le> br_current r then None
      else
        let i = br_current r; p = db_read_pos (br_buffers r ! i) in
        if n \<le> p then Some ((set_read_pos i (p - n) r)\<lparr>br_data_left_length := br_data_left_length r + n\<rparr>)
        else if i = 0 then None
        else Back (n - p) ((set_read_pos i 0 r)\<lparr>br_data_left_length := br_data_left_length r + p, br_current := i - 1\<rparr>))"
  by auto
termination by (relation "measure (\<lambda>(n, r). br_current r)") auto

declare Back.simps [simp del]

text \<open>A negative length makes \<open>reserve\<close> throw.\<close>

definition ReadString :: "buffer_reader \<Rightarrow> (int \<times> u8 list \<times> buffer_reader) cxx" where
  "ReadString r =
     (case ReadI32 r of
        None \<Rightarrow> None
      | Some (ret, None, r1) \<Rightarrow> Some (ret, [], r1)
      | Some (ret, Some len, r1) \<Rightarrow>
          if int (br_data_left_length r1) < sint len
          then map_option (\<lambda>r2. (-5, [], r2)) (Back (nat ret) r1)
          else if sint len < 0 then None
          else map_option (\<lambda>(ret', xs, r2). (ret' + 4, xs, r2)) (IterateRead (nat (sint len)) r1))"

definition ReadBinary :: "buffer_reader \<Rightarrow> (int \<times> u8 list \<times> buffer_reader) cxx" where
  "ReadBinary r = ReadString r"

text \<open>The pointer of a contiguous part does not count as read in \<open>data_left_length_\<close>.\<close>

definition br_UseNakedPtr :: "nat \<Rightarrow> buffer_reader \<Rightarrow> (int \<times> u8 list \<times> buffer_reader) cxx" where
  "br_UseNakedPtr n r =
     (if length (br_buffers r) \<le> br_current r then None
      else
        let i = br_current r; b = br_buffers r ! i in
        if n \<le> db_data_length b - db_read_pos b
        then map_option (\<lambda>xs. (int n, xs, set_read_pos i (db_read_pos b + n) r)) (db_bytes b n)
        else IterateRead n r)"

text \<open>
  \<open>ScanfDigit\<close>: the integer and the number of its digits. The position advances by the number of
  bytes \<^emph>\<open>behind\<close> the digits. \<open>fuel\<close> bounds the rounds of the outer loop; \<open>None\<close> is a loop that has
  not ended.
\<close>

definition is_digit8 :: "u8 \<Rightarrow> bool" where
  "is_digit8 b \<longleftrightarrow> 0x30 \<le> b \<and> b \<le> 0x39"

primrec scan_loop :: "nat \<Rightarrow> int \<Rightarrow> nat \<Rightarrow> buffer_reader \<Rightarrow> (nat \<times> int \<times> buffer_reader) cxx option" where
  "scan_loop 0 v len r = None"
| "scan_loop (Suc fuel) v len r =
     (if length (br_buffers r) \<le> br_current r then Some None
      else case next_block r of
        None \<Rightarrow> Some (Some (len, v, r\<lparr>br_current := br_current r + 1\<rparr>))
      | Some r1 \<Rightarrow>
          let i = br_current r1; b = br_buffers r1 ! i in
          case db_bytes b (db_data_length b - db_read_pos b) of
            None \<Rightarrow> Some None
          | Some xs \<Rightarrow>
              let ds = takeWhile is_digit8 xs;
                  v' = foldl (\<lambda>a d. a * 10 + int (unat d) - 0x30) v ds;
                  rest = length xs - length ds;
                  r2 = set_read_pos i (db_read_pos b + rest) r1
              in if 0 < rest then Some (Some (len + length ds, v', r2))
                 else scan_loop fuel v' (len + length ds) r2)"

definition ScanfDigit :: "nat \<Rightarrow> buffer_reader \<Rightarrow> (nat \<times> int \<times> buffer_reader) cxx option" where
  "ScanfDigit fuel r = scan_loop fuel 0 0 r"

subsection \<open>What the writer holds\<close>

definition db_content :: "data_buffer \<Rightarrow> u8 list" where
  "db_content b = (case db_ptr b of None \<Rightarrow> [] | Some p \<Rightarrow> take (db_data_length b) p)"

definition db_ok :: "data_buffer \<Rightarrow> bool" where
  "db_ok b \<longleftrightarrow> (\<exists>p. db_ptr b = Some p \<and> length p = db_length b \<and> db_data_length b \<le> db_length b)"

definition bw_inv :: "buffer_writer \<Rightarrow> u8 list \<Rightarrow> bool" where
  "bw_inv w xs \<longleftrightarrow> (\<exists>bs n. bw_buffers w = Some bs \<and> bw_buffer_count w = Suc n \<and> bw_buffer_capacity w = length bs \<and> n < length bs \<and>
     bw_cur_buffer w = Some n \<and> list_all db_ok (take (Suc n) bs) \<and> list_all (\<lambda>b. b = zero_db) (drop (Suc n) bs) \<and>
     concat (map db_content (take (Suc n) bs)) = xs \<and> bw_data_length w = length xs)"

definition bw_room :: "buffer_writer \<Rightarrow> nat" where
  "bw_room w = (case (bw_cur_buffer w, bw_buffers w) of (Some i, Some bs) \<Rightarrow> db_length (bs ! i) - db_data_length (bs ! i) | _ \<Rightarrow> 0)"

lemma page_size: "len \<le> ((len - 1) div 4096 + 1) * (4096 :: nat)"
  using div_mult_mod_eq [of "len - 1" 4096] by (simp add: algebra_simps)

lemma bw_Alloc_ok:
  assumes "alloc_ok alloc"
  shows "\<exists>b. bw_Alloc alloc zero_db len = (0, b) \<and> db_ok b \<and> db_content b = [] \<and> len \<le> db_length b \<and> db_data_length b = 0"
proof -
  obtain m where "alloc (((len - 1) div 4096 + 1) * 4096) = Some m" "length m = ((len - 1) div 4096 + 1) * 4096"
    using assms unfolding alloc_ok_def by blast
  then show ?thesis using page_size [of len] by (simp add: bw_Alloc_def zero_db_def db_ok_def db_content_def)
qed

lemma bw_Init_ok:
  assumes "alloc_ok alloc" shows "\<exists>w. bw_Init alloc hint BufferWriter = (0, w) \<and> bw_inv w []"
proof -
  obtain b where b: "bw_Alloc alloc zero_db hint = (0, b)" "db_ok b" "db_content b = []" using bw_Alloc_ok [OF assms] by blast
  obtain x where x: "alloc 80 = Some x" using assms unfolding alloc_ok_def by blast
  show ?thesis using b x by (simp add: bw_Init_def BufferWriter_def bw_inv_def)
qed

lemma bw_Extend_ok:
  assumes al: "alloc_ok alloc" and inv: "bw_inv w xs"
  shows "\<exists>w'. bw_Extend alloc len w = Some (0, w') \<and> bw_inv w' xs \<and> len \<le> bw_room w' \<and> (len \<le> bw_room w \<longrightarrow> w' = w)"
proof -
  obtain bs n where w: "bw_buffers w = Some bs" "bw_buffer_count w = Suc n" "bw_buffer_capacity w = length bs" "n < length bs"
    "bw_cur_buffer w = Some n" "list_all db_ok (take (Suc n) bs)" "list_all (\<lambda>b. b = zero_db) (drop (Suc n) bs)"
    "concat (map db_content (take (Suc n) bs)) = xs" "bw_data_length w = length xs" using inv by (auto simp: bw_inv_def)
  have room: "bw_room w = db_length (bs ! n) - db_data_length (bs ! n)" using w(1,5) by (simp add: bw_room_def)
  show ?thesis
  proof (cases "len \<le> bw_room w")
    case True
    then show ?thesis using w inv room by (simp add: bw_Extend_def Let_def)
  next
    case False
    obtain b where b: "bw_Alloc alloc zero_db len = (0, b)" "db_ok b" "db_content b = []" "len \<le> db_length b" "db_data_length b = 0"
      using bw_Alloc_ok [OF al] by blast
    define full where "full \<longleftrightarrow> Suc n = length bs"
    define bs' where "bs' = (if full then bs @ [zero_db, zero_db] else bs)"
    have al2: "alloc (40 * (length bs + 2)) \<noteq> None" using al unfolding alloc_ok_def by (metis option.distinct(1))
    have bs': "Suc n < length bs'" "take (Suc n) bs' = take (Suc n) bs" "list_all (\<lambda>b. b = zero_db) (drop (Suc n) bs')"
      using w(4,7) by (auto simp: bs'_def full_def)
    have "drop (Suc n) bs' = bs' ! Suc n # drop (Suc (Suc n)) bs'" using bs'(1) by (rule Cons_nth_drop_Suc [symmetric])
    then have z: "bs' ! Suc n = zero_db" "drop (Suc n) bs' = zero_db # drop (Suc (Suc n)) bs'" using bs'(3) by simp_all
    let ?w = "w\<lparr>bw_buffers := Some (bs'[Suc n := b]), bw_buffer_capacity := length bs', bw_cur_buffer := Some (Suc n), bw_buffer_count := Suc (Suc n)\<rparr>"
    have e: "bw_Extend alloc len w = Some (0, ?w)"
    proof (cases full)
      case True
      then have f: "bw_buffer_count w = bw_buffer_capacity w" "bs' = bs @ [zero_db, zero_db]" "Suc n = length bs"
        using w(2,3) by (simp_all add: full_def bs'_def)
      then show ?thesis using w(1,3,4,5) False room b(1) al2 by (simp add: bw_Extend_def Let_def)
    next
      case nf: False
      then have f: "bw_buffer_count w \<noteq> bw_buffer_capacity w" "bs' = bs" using w(2,3) by (simp_all add: full_def bs'_def)
      moreover have "w\<lparr>bw_buffer_capacity := length bs\<rparr> = w" using w(3) by (cases w) simp
      ultimately show ?thesis using w(1,2,3,4,5) False room b(1) bs'(1) z(1) by (cases w) (simp add: bw_Extend_def Let_def)
    qed
    have t: "take (Suc (Suc n)) (bs'[Suc n := b]) = take (Suc n) bs @ [b]"
      using bs'(1,2) by (simp add: take_Suc_conv_app_nth)
    have "list_all (\<lambda>b. b = zero_db) (drop (Suc (Suc n)) (bs'[Suc n := b]))" using bs'(3) z(2) by simp
    then have "bw_inv ?w xs" using bs'(1) w(6,8,9) b(2,3) t by (simp add: bw_inv_def)
    moreover have "len \<le> bw_room ?w" using bs'(1) b(4,5) by (simp add: bw_room_def)
    ultimately show ?thesis using e False by blast
  qed
qed

lemma bw_put_ok:
  assumes inv: "bw_inv w xs" and room: "length ys \<le> bw_room w"
  shows "\<exists>w'. bw_put ys w = Some w' \<and> bw_inv w' (xs @ ys) \<and> bw_room w' = bw_room w - length ys"
proof -
  obtain bs n where w: "bw_buffers w = Some bs" "bw_buffer_count w = Suc n" "bw_buffer_capacity w = length bs" "n < length bs"
    "bw_cur_buffer w = Some n" "list_all db_ok (take (Suc n) bs)" "list_all (\<lambda>b. b = zero_db) (drop (Suc n) bs)"
    "concat (map db_content (take (Suc n) bs)) = xs" "bw_data_length w = length xs" using inv by (auto simp: bw_inv_def)
  have tn: "take (Suc n) bs = take n bs @ [bs ! n]" using w(4) by (simp add: take_Suc_conv_app_nth)
  let ?k = "db_data_length (bs ! n)"
  obtain p where p: "db_ptr (bs ! n) = Some p" "length p = db_length (bs ! n)" "?k \<le> length p"
    using w(6) unfolding tn by (auto simp: db_ok_def)
  have r: "bw_room w = length p - ?k" using w(1,5) p(2) by (simp add: bw_room_def)
  then have fit: "?k + length ys \<le> length p" using room p(3) by simp
  let ?b = "(bs ! n)\<lparr>db_ptr := Some (overwrite p ?k ys), db_data_length := ?k + length ys\<rparr>"
  let ?w = "w\<lparr>bw_buffers := Some (bs[n := ?b]), bw_data_length := length xs + length ys\<rparr>"
  have "bw_put ys w = Some ?w" using w(1,4,5,9) p(1) fit by (simp add: bw_put_def recv_into_def)
  moreover have "take (Suc n) (bs[n := ?b]) = take n bs @ [?b]" using w(4) by (simp add: take_Suc_conv_app_nth)
  moreover have "db_content ?b = db_content (bs ! n) @ ys" using p fit by (simp add: db_content_def)
  moreover have "db_ok ?b" using p fit by (simp add: db_ok_def)
  moreover have "bw_room ?w = bw_room w - length ys" using w(4,5) r p(2) by (simp add: bw_room_def)
  ultimately show ?thesis using w tn by (auto simp: bw_inv_def)
qed

lemma bw_extend_put_ok:
  assumes "alloc_ok alloc" and "bw_inv w xs"
  shows "\<exists>w'. bw_extend_put alloc ys w = Some (int (length ys), w') \<and> bw_inv w' (xs @ ys) \<and>
    (length ys \<le> bw_room w \<longrightarrow> bw_room w' = bw_room w - length ys)"
proof -
  obtain w1 where 1: "bw_Extend alloc (length ys) w = Some (0, w1)" "bw_inv w1 xs" "length ys \<le> bw_room w1" "length ys \<le> bw_room w \<longrightarrow> w1 = w"
    using bw_Extend_ok [OF assms] by blast
  with bw_put_ok [OF 1(2,3)] show ?thesis by (auto simp: bw_extend_put_def)
qed

subsection \<open>What the reader returns\<close>

definition br_unread :: "buffer_reader \<Rightarrow> u8 list" where
  "br_unread r = drop (db_read_pos (br_buffers r ! br_current r)) (db_content (br_buffers r ! br_current r)) @
     concat (map db_content (drop (Suc (br_current r)) (br_buffers r)))"

definition br_consumed :: "buffer_reader \<Rightarrow> u8 list" where
  "br_consumed r = concat (map db_content (take (br_current r) (br_buffers r))) @
     take (db_read_pos (br_buffers r ! br_current r)) (db_content (br_buffers r ! br_current r))"

definition br_inv :: "buffer_reader \<Rightarrow> bool" where
  "br_inv r \<longleftrightarrow> br_current r < length (br_buffers r) \<and> list_all db_ok (br_buffers r) \<and>
     db_read_pos (br_buffers r ! br_current r) \<le> db_data_length (br_buffers r ! br_current r) \<and>
     list_all (\<lambda>b. db_read_pos b = db_data_length b) (take (br_current r) (br_buffers r)) \<and>
     br_data_left_length r = length (br_unread r)"

lemma length_db_content: "db_ok b \<Longrightarrow> length (db_content b) = db_data_length b"
  by (auto simp: db_ok_def db_content_def)

lemma db_bytes_ok: "db_ok b \<Longrightarrow> db_read_pos b + n \<le> db_data_length b \<Longrightarrow> db_bytes b n = Some (take n (drop (db_read_pos b) (db_content b)))"
  by (auto simp: db_ok_def db_content_def db_bytes_def drop_take min_def)

lemma db_content_read_pos [simp]: "db_content (b\<lparr>db_read_pos := p\<rparr>) = db_content b"
  by (cases "db_ptr b") (simp_all add: db_content_def)

lemma db_ok_read_pos [simp]: "db_ok (b\<lparr>db_read_pos := p\<rparr>) = db_ok b"
  by (simp add: db_ok_def)

lemma br_inv_nth: "br_inv r \<Longrightarrow> db_ok (br_buffers r ! br_current r)"
  by (simp add: br_inv_def list_all_length)

lemma concat_map_update: "concat (map db_content (drop (Suc i) (bs[i := b]))) = concat (map db_content (drop (Suc i) bs))"
  by simp

lemma Advance_ok:
  assumes "br_inv r" and "n \<le> db_data_length (br_buffers r ! br_current r) - db_read_pos (br_buffers r ! br_current r)"
  shows "br_inv (AdvanceCurrentBuffer n r) \<and> br_unread (AdvanceCurrentBuffer n r) = drop n (br_unread r) \<and>
    br_consumed (AdvanceCurrentBuffer n r) = br_consumed r @ take n (br_unread r)"
proof -
  let ?i = "br_current r"
  let ?b = "br_buffers r ! ?i"
  let ?p = "db_read_pos ?b" and ?c = "db_content ?b"
  have ok: "db_ok ?b" "?i < length (br_buffers r)" "length ?c = db_data_length ?b"
    using assms(1) br_inv_nth length_db_content by (auto simp: br_inv_def)
  have "?p \<le> db_data_length ?b" using assms(1) by (simp add: br_inv_def)
  then have n: "?p + n \<le> length ?c" using assms(2) ok(3) by linarith
  have u: "br_unread (AdvanceCurrentBuffer n r) = drop n (br_unread r)"
    using ok(2) n by (simp add: br_unread_def AdvanceCurrentBuffer_def set_read_pos_def add.commute)
  have "take (?p + n) ?c = take ?p ?c @ take n (drop ?p ?c)" by (rule take_add)
  then have "br_consumed (AdvanceCurrentBuffer n r) = br_consumed r @ take n (br_unread r)"
    using ok(2) n by (simp add: br_consumed_def br_unread_def AdvanceCurrentBuffer_def set_read_pos_def)
  moreover have "br_inv (AdvanceCurrentBuffer n r)"
  proof -
    have "br_data_left_length (AdvanceCurrentBuffer n r) = length (br_unread (AdvanceCurrentBuffer n r))"
      using assms(1) unfolding u by (simp add: br_inv_def AdvanceCurrentBuffer_def)
    then show ?thesis using assms(1) ok n
      by (simp add: br_inv_def AdvanceCurrentBuffer_def set_read_pos_def list_all_length nth_list_update)
  qed
  ultimately show ?thesis using u by simp
qed

lemma next_block_ok:
  assumes inv: "br_inv r" and u: "br_unread r \<noteq> []"
  shows "\<exists>r1. next_block r = Some r1 \<and> br_inv r1 \<and> br_unread r1 = br_unread r \<and> br_consumed r1 = br_consumed r \<and>
    length (br_buffers r1) = length (br_buffers r)"
proof -
  let ?i = "br_current r" and ?bs = "br_buffers r"
  let ?b = "?bs ! ?i"
  have ok: "db_ok ?b" "?i < length ?bs" "length (db_content ?b) = db_data_length ?b"
    using inv br_inv_nth length_db_content by (auto simp: br_inv_def)
  show ?thesis
  proof (cases "db_data_length ?b \<le> db_read_pos ?b")
    case False
    then show ?thesis using inv by (simp add: next_block_def)
  next
    case True
    then have p: "db_read_pos ?b = db_data_length ?b" using inv by (simp add: br_inv_def)
    then have un: "br_unread r = concat (map db_content (drop (Suc ?i) ?bs))" using ok(3) by (simp add: br_unread_def)
    then have i: "Suc ?i < length ?bs" using u by (cases "Suc ?i < length ?bs") auto
    let ?r = "set_read_pos (Suc ?i) 0 (r\<lparr>br_current := Suc ?i\<rparr>)"
    have "next_block r = Some ?r" using True i by (simp add: next_block_def Let_def)
    moreover have dr: "drop (Suc ?i) ?bs = ?bs ! Suc ?i # drop (Suc (Suc ?i)) ?bs" using i by (rule Cons_nth_drop_Suc [symmetric])
    have un': "br_unread ?r = br_unread r" unfolding un dr using i by (simp add: br_unread_def set_read_pos_def)
    moreover have "br_consumed ?r = br_consumed r"
      using i ok(2,3) p by (simp add: br_consumed_def set_read_pos_def take_Suc_conv_app_nth)
    moreover have "br_inv ?r"
    proof -
      have "br_data_left_length ?r = length (br_unread ?r)" using inv unfolding un' by (simp add: br_inv_def set_read_pos_def)
      then show ?thesis using inv i p
        by (auto simp: br_inv_def set_read_pos_def list_all_length nth_list_update take_Suc_conv_app_nth nth_append)
    qed
    ultimately show ?thesis using un' by (simp add: set_read_pos_def)
  qed
qed

lemma iterate_read_ok:
  "br_inv r \<Longrightarrow> n \<le> length (br_unread r) \<Longrightarrow> \<exists>r'. iterate_read n r = Some (take n (br_unread r), r') \<and> br_inv r' \<and>
     br_unread r' = drop n (br_unread r) \<and> br_consumed r' = br_consumed r @ take n (br_unread r)"
proof (induction n r rule: iterate_read.induct)
  case (1 n r)
  show ?case
  proof (cases "n = 0")
    case True
    then show ?thesis using "1.prems" by (subst iterate_read.simps) simp
  next
    case False
    then have "br_unread r \<noteq> []" using "1.prems"(2) by auto
    then obtain r1 where r1: "next_block r = Some r1" "br_inv r1" "br_unread r1 = br_unread r" "br_consumed r1 = br_consumed r"
      using next_block_ok "1.prems"(1) by blast
    have i: "\<not> length (br_buffers r) \<le> br_current r" using "1.prems"(1) by (simp add: br_inv_def)
    let ?b = "br_buffers r1 ! br_current r1"
    define m where "m = db_data_length ?b - db_read_pos ?b"
    define k where "k = (if m < n then m else n)"
    have ok: "db_ok ?b" "db_read_pos ?b \<le> db_data_length ?b" "length (db_content ?b) = db_data_length ?b"
      using r1(2) br_inv_nth length_db_content by (auto simp: br_inv_def)
    have k: "k \<le> m" "k \<le> n" "db_read_pos ?b + k \<le> db_data_length ?b" using ok(2) by (auto simp: k_def m_def)
    have t: "take k (drop (db_read_pos ?b) (db_content ?b)) = take k (br_unread r)"
      using k(3) ok(3) unfolding r1(3) [symmetric] by (simp add: br_unread_def)
    have db: "db_bytes ?b k = Some (take k (br_unread r))" using db_bytes_ok [OF ok(1) k(3)] t by simp
    let ?r2 = "AdvanceCurrentBuffer k r1"
    have r2: "br_inv ?r2" "br_unread ?r2 = drop k (br_unread r)" "br_consumed ?r2 = br_consumed r @ take k (br_unread r)"
      using Advance_ok [OF r1(2), of k] k(1) r1(3,4) by (simp_all add: m_def)
    have "n - k \<le> length (br_unread ?r2)" using "1.prems"(2) k(2) r2(2) by simp
    from "1.IH" [OF False i r1(1) refl refl, folded m_def, OF k_def db r2(1) this]
    obtain r' where r': "iterate_read (n - k) ?r2 = Some (take (n - k) (drop k (br_unread r)), r')" "br_inv r'"
      "br_unread r' = drop (n - k) (drop k (br_unread r))" "br_consumed r' = (br_consumed r @ take k (br_unread r)) @ take (n - k) (drop k (br_unread r))"
      unfolding r2(2,3) by auto
    have tk: "take n (br_unread r) = take k (br_unread r) @ take (n - k) (drop k (br_unread r))"
      using take_add [of k "n - k" "br_unread r"] k(2) by simp
    have "iterate_read n r = (case db_bytes ?b k of None \<Rightarrow> None
        | Some xs \<Rightarrow> map_option (\<lambda>(ys, r'). (xs @ ys, r')) (iterate_read (n - k) ?r2))"
      unfolding iterate_read.simps [of n r] Let_def r1(1) option.case k_def m_def using False i by simp
    then have "iterate_read n r = Some (take n (br_unread r), r')" using db r'(1) tk by simp
    then show ?thesis using r'(2,3,4) tk k(2) by simp
  qed
qed

lemma ReadData_ok:
  assumes "br_inv r" and "0 < n"
  shows "n \<le> length (br_unread r) \<Longrightarrow> \<exists>r'. ReadData n r = Some (int n, take n (br_unread r), r') \<and> br_inv r' \<and>
     br_unread r' = drop n (br_unread r) \<and> br_consumed r' = br_consumed r @ take n (br_unread r)"
    and "length (br_unread r) < n \<Longrightarrow> ReadData n r = Some (-5, [], r)"
proof -
  let ?b = "br_buffers r ! br_current r"
  have ok: "db_ok ?b" "br_current r < length (br_buffers r)" "db_read_pos ?b \<le> db_data_length ?b"
    "length (db_content ?b) = db_data_length ?b" "br_data_left_length r = length (br_unread r)"
    using assms(1) br_inv_nth length_db_content by (auto simp: br_inv_def)
  have len: "db_data_length ?b - db_read_pos ?b \<le> length (br_unread r)" using ok(4) by (simp add: br_unread_def)
  then show "length (br_unread r) < n \<Longrightarrow> ReadData n r = Some (-5, [], r)"
    using assms(2) ok(2,5) by (simp add: ReadData_def IterateRead_def)
  assume n: "n \<le> length (br_unread r)"
  show "\<exists>r'. ReadData n r = Some (int n, take n (br_unread r), r') \<and> br_inv r' \<and>
     br_unread r' = drop n (br_unread r) \<and> br_consumed r' = br_consumed r @ take n (br_unread r)"
  proof (cases "n \<le> db_data_length ?b - db_read_pos ?b")
    case True
    then have "db_read_pos ?b + n \<le> db_data_length ?b" using ok(3) by linarith
    moreover from this have "take n (drop (db_read_pos ?b) (db_content ?b)) = take n (br_unread r)"
      using ok(4) by (simp add: br_unread_def)
    ultimately have "ReadData n r = Some (int n, take n (br_unread r), AdvanceCurrentBuffer n r)"
      using True assms(2) ok(2) db_bytes_ok [OF ok(1), of n] by (simp add: ReadData_def)
    then show ?thesis using Advance_ok [OF assms(1) True] by blast
  next
    case False
    then show ?thesis using iterate_read_ok [OF assms(1) n] n assms(2) ok(2,5) by (auto simp: ReadData_def IterateRead_def)
  qed
qed

definition br_fetch :: "nat \<Rightarrow> buffer_reader \<Rightarrow> (u8 list \<times> buffer_reader) option" where
  "br_fetch n r = (if n = 0 then Some ([], r)
     else case ReadData n r of Some (ret, xs, r') \<Rightarrow> if ret < 0 then None else Some (xs, r') | None \<Rightarrow> None)"

interpretation reader: byte_source br_inv br_unread br_fetch
proof (rule byte_source.intro)
  fix r n
  assume "br_inv r" "n \<le> length (br_unread r)"
  then show "\<exists>r'. br_fetch n r = Some (take n (br_unread r), r') \<and> br_unread r' = drop n (br_unread r) \<and> br_inv r'"
    using ReadData_ok(1) [of r n] by (cases "n = 0") (auto simp: br_fetch_def)
qed

lemma ReadData_front:
  assumes "br_inv r" and "br_unread r = xs @ ys" and "xs \<noteq> []"
  shows "\<exists>r'. ReadData (length xs) r = Some (int (length xs), xs, r') \<and> br_unread r' = ys \<and> br_inv r'"
  using ReadData_ok(1) [OF assms(1), of "length xs"] assms(2,3) by auto

lemma Back_ok:
  "br_inv r \<Longrightarrow> n \<le> length (br_consumed r) \<Longrightarrow> \<exists>r'. Back n r = Some r' \<and> br_inv r' \<and>
     br_consumed r' = take (length (br_consumed r) - n) (br_consumed r) \<and>
     br_unread r' = drop (length (br_consumed r) - n) (br_consumed r) @ br_unread r"
proof (induction n r rule: Back.induct)
  case (1 n r)
  let ?i = "br_current r" and ?bs = "br_buffers r"
  let ?b = "?bs ! ?i"
  let ?p = "db_read_pos ?b" and ?c = "db_content ?b"
  have ok: "db_ok ?b" "?i < length ?bs" "?p \<le> db_data_length ?b" "length ?c = db_data_length ?b"
    "br_data_left_length r = length (br_unread r)" "list_all db_ok ?bs"
    using "1.prems"(1) br_inv_nth length_db_content by (auto simp: br_inv_def)
  define pre where "pre = concat (map db_content (take ?i ?bs))"
  define post where "post = concat (map db_content (drop (Suc ?i) ?bs))"
  have cu: "br_consumed r = pre @ take ?p ?c" "br_unread r = drop ?p ?c @ post"
    by (simp_all add: br_consumed_def br_unread_def pre_def post_def)
  consider "n = 0" | "0 < n" "n \<le> ?p" | "0 < n" "?p < n" "?i = 0" | "0 < n" "?p < n" "0 < ?i" by linarith
  then show ?case
  proof cases
    assume "n = 0"
    then show ?thesis using "1.prems"(1) by (subst Back.simps) simp
  next
    assume n: "0 < n" "n \<le> ?p"
    let ?r = "(set_read_pos ?i (?p - n) r)\<lparr>br_data_left_length := br_data_left_length r + n\<rparr>"
    have "Back n r = Some ?r" using n ok(2) by (subst Back.simps) (simp add: Let_def)
    moreover have cu': "br_consumed ?r = pre @ take (?p - n) ?c" "br_unread ?r = drop (?p - n) ?c @ post"
      using ok(2) by (simp_all add: br_consumed_def br_unread_def pre_def post_def set_read_pos_def)
    moreover have "br_inv ?r"
    proof -
      have "br_data_left_length ?r = length (br_unread ?r)" unfolding cu' using ok(3,4,5) n cu(2) by simp
      then show ?thesis using "1.prems"(1) ok n
        by (auto simp: br_inv_def set_read_pos_def list_all_length nth_list_update)
    qed
    moreover have "drop (?p - n) ?c = drop (?p - n) (take ?p ?c) @ drop ?p ?c"
      using n ok(3,4) by (metis append_take_drop_id diff_le_self drop_append drop_take length_take min.absorb2 diff_is_0_eq drop0)
    ultimately show ?thesis using n ok(3,4) unfolding cu by simp
  next
    assume "0 < n" "?p < n" "?i = 0"
    then show ?thesis using "1.prems"(2) ok(3,4) cu(1) by (simp add: pre_def)
  next
    assume n: "0 < n" "?p < n" "0 < ?i"
    let ?r = "(set_read_pos ?i 0 r)\<lparr>br_data_left_length := br_data_left_length r + ?p, br_current := ?i - 1\<rparr>"
    have i: "?i - 1 < length ?bs" "Suc (?i - 1) = ?i" using ok(2) n(3) by auto
    let ?a = "?bs ! (?i - 1)"
    have a: "db_ok ?a" "db_read_pos ?a = db_data_length ?a" "length (db_content ?a) = db_data_length ?a"
    proof -
      show "db_ok ?a" using ok(6) i(1) by (simp add: list_all_length)
      then show "length (db_content ?a) = db_data_length ?a" by (rule length_db_content)
      have "?i - 1 < length (take ?i ?bs)" using i ok(2) by simp
      then show "db_read_pos ?a = db_data_length ?a"
        using "1.prems"(1) i(2) unfolding br_inv_def list_all_length by (metis lessI nth_take)
    qed
    have pre: "pre = concat (map db_content (take (?i - 1) ?bs)) @ db_content ?a"
      using take_Suc_conv_app_nth [OF i(1)] unfolding pre_def i(2) by simp
    have nth: "br_buffers ?r ! (?i - 1) = ?a" using n(3) by (simp add: set_read_pos_def)
    have dr: "drop (Suc (?i - 1)) (br_buffers ?r) = ?b\<lparr>db_read_pos := 0\<rparr> # drop (Suc ?i) ?bs"
      using ok(2) unfolding i(2) by (simp add: set_read_pos_def drop_update_swap flip: Cons_nth_drop_Suc)
    have cu': "br_consumed ?r = pre" "br_unread ?r = ?c @ post"
    proof -
      have "br_consumed ?r = concat (map db_content (take (?i - 1) ?bs)) @ db_content ?a"
        using a n(3) nth by (simp add: br_consumed_def set_read_pos_def)
      then show "br_consumed ?r = pre" using pre by simp
      have "br_unread ?r = drop (db_read_pos ?a) (db_content ?a) @ concat (map db_content (drop (Suc (?i - 1)) (br_buffers ?r)))"
        unfolding br_unread_def using nth by simp
      then show "br_unread ?r = ?c @ post" unfolding dr using a by (simp add: post_def)
    qed
    have inv: "br_inv ?r"
    proof -
      have "br_data_left_length ?r = length (br_unread ?r)" unfolding cu' using ok(3,4,5) cu(2) by simp
      moreover have "list_all db_ok (br_buffers ?r)" using ok(6,1,2) by (auto simp: set_read_pos_def list_all_length nth_list_update)
      moreover have "list_all (\<lambda>b. db_read_pos b = db_data_length b) (take (?i - 1) (br_buffers ?r))"
        using "1.prems"(1) n(3) by (auto simp: br_inv_def set_read_pos_def list_all_length)
      ultimately show ?thesis using nth a(2) i(1) by (simp add: br_inv_def set_read_pos_def)
    qed
    have le: "n - ?p \<le> length (br_consumed ?r)" unfolding cu'(1) using "1.prems"(2) cu(1) ok(3,4) n(2) by simp
    have "\<not> n = 0" "\<not> length ?bs \<le> ?i" "\<not> n \<le> ?p" "?i \<noteq> 0" using n ok(2) by auto
    from "1.IH" [OF this(1,2) refl refl this(3,4) inv le]
    obtain r' where r': "Back (n - ?p) ?r = Some r'" "br_inv r'" "br_consumed r' = take (length pre - (n - ?p)) pre"
      "br_unread r' = drop (length pre - (n - ?p)) pre @ ?c @ post" unfolding cu' by auto
    have "Back n r = Some r'" using r'(1) n ok(2) by (subst Back.simps) (simp add: Let_def)
    moreover have "length (br_consumed r) - n = length pre - (n - ?p)" using cu(1) ok(3,4) n(2) by simp
    moreover have "length pre - (n - ?p) \<le> length pre" by simp
    ultimately show ?thesis using r'(2,3,4) cu by simp
  qed
qed

subsection \<open>Sequences of values\<close>

datatype field = FByte u8 | FI16 u16 | FI32 u32 | FI64 u64 | FString "u8 list" | FBinary "u8 list"

primrec write_field :: "allocator \<Rightarrow> field \<Rightarrow> buffer_writer \<Rightarrow> (int \<times> buffer_writer) cxx" where
  "write_field alloc (FByte v) = WriteByte alloc v"
| "write_field alloc (FI16 v) = WriteI16 alloc v"
| "write_field alloc (FI32 v) = WriteI32 alloc v"
| "write_field alloc (FI64 v) = WriteI64 alloc v"
| "write_field alloc (FString xs) = WriteString alloc xs"
| "write_field alloc (FBinary xs) = WriteBinary alloc xs"

text \<open>Reading a value of the same kind as a given one.\<close>

primrec read_like :: "field \<Rightarrow> buffer_reader \<Rightarrow> (int \<times> field option \<times> buffer_reader) cxx" where
  "read_like (FByte _) r = map_option (\<lambda>(ret, v, r'). (ret, map_option FByte v, r')) (ReadByte r)"
| "read_like (FI16 _) r = map_option (\<lambda>(ret, v, r'). (ret, map_option FI16 v, r')) (ReadI16 r)"
| "read_like (FI32 _) r = map_option (\<lambda>(ret, v, r'). (ret, map_option FI32 v, r')) (ReadI32 r)"
| "read_like (FI64 _) r = map_option (\<lambda>(ret, v, r'). (ret, map_option FI64 v, r')) (ReadI64 r)"
| "read_like (FString _) r = map_option (\<lambda>(ret, xs, r'). (ret, if ret < 0 then None else Some (FString xs), r')) (ReadString r)"
| "read_like (FBinary _) r = map_option (\<lambda>(ret, xs, r'). (ret, if ret < 0 then None else Some (FBinary xs), r')) (ReadBinary r)"

primrec field_bytes :: "field \<Rightarrow> u8 list" where
  "field_bytes (FByte v) = [v]"
| "field_bytes (FI16 v) = rev (bytes_of 2 (unat v))"
| "field_bytes (FI32 v) = rev (bytes_of 4 (unat v))"
| "field_bytes (FI64 v) = rev (bytes_of 8 (unat v))"
| "field_bytes (FString xs) = rev (bytes_of 4 (length xs)) @ xs"
| "field_bytes (FBinary xs) = rev (bytes_of 4 (length xs)) @ xs"

text \<open>Lengths are within \<open>int\<close>, also with the four bytes in front.\<close>

fun field_ok :: "field \<Rightarrow> bool" where
  "field_ok (FString xs) = (length xs + 4 < 2 ^ 31)"
| "field_ok (FBinary xs) = (length xs + 4 < 2 ^ 31)"
| "field_ok _ = True"

primrec write_fields :: "allocator \<Rightarrow> field list \<Rightarrow> buffer_writer \<Rightarrow> (int list \<times> buffer_writer) cxx" where
  "write_fields alloc [] w = Some ([], w)"
| "write_fields alloc (f # fs) w = (case write_field alloc f w of None \<Rightarrow> None
     | Some (ret, w') \<Rightarrow> map_option (\<lambda>(rets, w''). (ret # rets, w'')) (write_fields alloc fs w'))"

primrec read_fields :: "field list \<Rightarrow> buffer_reader \<Rightarrow> ((int \<times> field option) list \<times> buffer_reader) cxx" where
  "read_fields [] r = Some ([], r)"
| "read_fields (f # fs) r = (case read_like f r of None \<Rightarrow> None
     | Some (ret, v, r') \<Rightarrow> map_option (\<lambda>(vs, r''). ((ret, v) # vs, r'')) (read_fields fs r'))"

lemma unat_length: "n + 4 < 2 ^ 31 \<Longrightarrow> unat (word_of_nat n :: u32) = n"
  by (rule unat_of_nat_small) simp

lemma write_field_ok:
  assumes al: "alloc_ok alloc" and inv: "bw_inv w xs" and f: "field_ok f"
  shows "\<exists>w'. write_field alloc f w = Some (int (length (field_bytes f)), w') \<and> bw_inv w' (xs @ field_bytes f)"
proof -
  note put = bw_extend_put_ok [OF al inv]
  have str: "\<exists>w'. WriteString alloc ys w = Some (int (length ys + 4), w') \<and> bw_inv w' (xs @ rev (bytes_of 4 (length ys)) @ ys)"
    "\<exists>w'. WriteBinary alloc ys w = Some (int (length ys + 4), w') \<and> bw_inv w' (xs @ rev (bytes_of 4 (length ys)) @ ys)"
    if l: "length ys + 4 < 2 ^ 31" for ys
  proof -
    let ?h = "rev (bytes_of 4 (length ys))"
    obtain w1 where 1: "bw_Extend alloc (length ys + 4) w = Some (0, w1)" "bw_inv w1 xs" "length ys + 4 \<le> bw_room w1"
      using bw_Extend_ok [OF al inv] by blast
    obtain w2 where 2: "bw_extend_put alloc ?h w1 = Some (int (length ?h), w2)" "bw_inv w2 (xs @ ?h)" "bw_room w2 = bw_room w1 - 4"
      using bw_extend_put_ok [OF al 1(2), of ?h] 1(3) by auto
    have i32: "WriteI32 alloc (word_of_nat (length ys)) w1 = Some (4, w2)" using 2(1) unat_length [OF l] by (simp add: WriteI32_def)
    obtain w3 where "bw_extend_put alloc ys w2 = Some (int (length ys), w3)" "bw_inv w3 ((xs @ ?h) @ ys)"
      using bw_extend_put_ok [OF al 2(2)] by blast
    then show "\<exists>w'. WriteString alloc ys w = Some (int (length ys + 4), w') \<and> bw_inv w' (xs @ ?h @ ys)"
      using 1(1) i32 by (simp add: WriteString_def WriteData_def)
    have "length ys \<le> bw_room w2" using 1(3) 2(3) by simp
    from bw_put_ok [OF 2(2) this]
    show "\<exists>w'. WriteBinary alloc ys w = Some (int (length ys + 4), w') \<and> bw_inv w' (xs @ ?h @ ys)"
      using 1(1) i32 by (auto simp: WriteBinary_def)
  qed
  show ?thesis
  proof (cases f)
    case (FByte v)
    then show ?thesis using put [of "[v]"] by (auto simp: WriteByte_def)
  next
    case (FI16 v)
    then show ?thesis using put [of "rev (bytes_of 2 (unat v))"] by (auto simp: WriteI16_def)
  next
    case (FI32 v)
    then show ?thesis using put [of "rev (bytes_of 4 (unat v))"] by (auto simp: WriteI32_def)
  next
    case (FI64 v)
    then show ?thesis using put [of "rev (bytes_of 8 (unat v))"] by (auto simp: WriteI64_def)
  next
    case (FString ys)
    then show ?thesis using str(1) [of ys] f by (simp add: add.commute)
  next
    case (FBinary ys)
    then show ?thesis using str(2) [of ys] f by (simp add: add.commute)
  qed
qed

lemma write_fields_ok:
  "alloc_ok alloc \<Longrightarrow> bw_inv w xs \<Longrightarrow> list_all field_ok fs \<Longrightarrow>
     \<exists>w'. write_fields alloc fs w = Some (map (\<lambda>f. int (length (field_bytes f))) fs, w') \<and> bw_inv w' (xs @ concat (map field_bytes fs))"
proof (induction fs arbitrary: w xs)
  case (Cons f fs)
  then obtain w1 where 1: "write_field alloc f w = Some (int (length (field_bytes f)), w1)" "bw_inv w1 (xs @ field_bytes f)"
    using write_field_ok [of alloc w xs f] by auto
  with Cons.IH [OF Cons.prems(1) 1(2)] Cons.prems(3) show ?case by auto
qed simp

lemma ReadString_front:
  assumes "br_inv r" and "br_unread r = rev (bytes_of 4 (length xs)) @ xs @ ys" and "length xs + 4 < 2 ^ 31"
  shows "\<exists>r'. ReadString r = Some (int (length xs + 4), xs, r') \<and> br_unread r' = ys \<and> br_inv r'"
proof -
  let ?h = "rev (bytes_of 4 (length xs))"
  have "?h \<noteq> []" by (auto simp flip: length_0_conv)
  then obtain r1 where 1: "ReadData 4 r = Some (4, ?h, r1)" "br_unread r1 = xs @ ys" "br_inv r1"
    using ReadData_front [OF assms(1,2)] by auto
  have "length xs < 256 ^ 4" using assms(3) by simp
  then have i32: "ReadI32 r = Some (4, Some (word_of_nat (length xs)), r1)" using 1(1) by (simp add: ReadI32_def nat_of_bytes_of)
  have sl: "sint (word_of_nat (length xs) :: u32) = int (length xs)"
    using int_of_int32 [of "int (length xs)"] assms(3) by simp
  have left: "br_data_left_length r1 = length (xs @ ys)" using 1(2,3) by (simp add: br_inv_def)
  obtain r2 where "iterate_read (length xs) r1 = Some (xs, r2)" "br_unread r2 = ys" "br_inv r2"
    using iterate_read_ok [OF 1(3), of "length xs"] 1(2) by auto
  then show ?thesis using i32 sl left by (simp add: ReadString_def IterateRead_def)
qed

lemma read_like_ok:
  assumes inv: "br_inv r" and u: "br_unread r = field_bytes f @ ys" and f: "field_ok f"
  shows "\<exists>r'. read_like f r = Some (int (length (field_bytes f)), Some f, r') \<and> br_unread r' = ys \<and> br_inv r'"
proof -
  have ne: "field_bytes f \<noteq> []" by (cases f) (auto simp flip: length_0_conv)
  show ?thesis
  proof (cases f)
    case (FString xs)
    then show ?thesis using ReadString_front [OF inv, of xs ys] u f by (auto simp: add.commute)
  next
    case (FBinary xs)
    then show ?thesis using ReadString_front [OF inv, of xs ys] u f by (auto simp: ReadBinary_def add.commute)
  qed (use ReadData_front [OF inv u ne] in \<open>auto simp: ReadByte_def ReadI16_def ReadI32_def ReadI64_def nat_of_word_bytes\<close>)
qed

lemma read_fields_ok:
  "br_inv r \<Longrightarrow> br_unread r = concat (map field_bytes fs) @ ys \<Longrightarrow> list_all field_ok fs \<Longrightarrow>
     \<exists>r'. read_fields fs r = Some (map (\<lambda>f. (int (length (field_bytes f)), Some f)) fs, r') \<and> br_unread r' = ys \<and> br_inv r'"
proof (induction fs arbitrary: r)
  case (Cons f fs)
  then obtain r1 where 1: "read_like f r = Some (int (length (field_bytes f)), Some f, r1)"
    "br_unread r1 = concat (map field_bytes fs) @ ys" "br_inv r1" using read_like_ok [of r f] by auto
  with Cons.IH [OF 1(3,2)] Cons.prems(3) show ?case by auto
qed simp

lemma BufferReader_ok:
  assumes "list_all db_ok bs" and "bs \<noteq> []"
  shows "br_inv (BufferReader bs) \<and> br_unread (BufferReader bs) = concat (map db_content bs)"
proof -
  obtain b cs where b: "bs = b # cs" using assms(2) by (cases bs) auto
  have "map db_content (map (\<lambda>b. b\<lparr>db_read_pos := 0\<rparr>) cs) = map db_content cs" by simp
  then have u: "br_unread (BufferReader bs) = concat (map db_content bs)" by (simp add: br_unread_def BufferReader_def b Let_def comp_def)
  have "sum_list (map db_data_length bs) = sum_list (map (length \<circ> db_content) bs)"
    using assms(1) by (intro arg_cong [where f = sum_list] map_cong) (auto simp: list_all_iff length_db_content)
  then have "br_data_left_length (BufferReader bs) = length (br_unread (BufferReader bs))"
    unfolding u by (simp add: BufferReader_def Let_def length_concat)
  then show ?thesis using u assms by (auto simp: br_inv_def BufferReader_def Let_def list_all_length)
qed

text \<open>
  Buffers: a sequence of values written into an initialised writer and read back in the same
  order from its blocks gives the same values, each call reports the number of bytes it handled, and
  nothing is left unread; no access leaves a block, wherever the blocks end.
\<close>

theorem BufferWriter_BufferReader_roundtrip:
  assumes "alloc_ok alloc" and "list_all field_ok fs"
  shows "\<exists>w0 w bs r. bw_Init alloc hint BufferWriter = (0, w0) \<and>
    write_fields alloc fs w0 = Some (map (\<lambda>f. int (length (field_bytes f))) fs, w) \<and>
    bw_data_length w = length (concat (map field_bytes fs)) \<and> bw_buffers w = Some bs \<and>
    read_fields fs (BufferReader (take (bw_buffer_count w) bs)) = Some (map (\<lambda>f. (int (length (field_bytes f)), Some f)) fs, r) \<and>
    br_data_left_length r = 0 \<and> ReadByte r = Some (-5, None, r)"
proof -
  obtain w0 where w0: "bw_Init alloc hint BufferWriter = (0, w0)" "bw_inv w0 []" using bw_Init_ok [OF assms(1)] by blast
  obtain w where w: "write_fields alloc fs w0 = Some (map (\<lambda>f. int (length (field_bytes f))) fs, w)"
    "bw_inv w (concat (map field_bytes fs))" using write_fields_ok [OF assms(1) w0(2) assms(2)] by auto
  obtain bs n where b: "bw_buffers w = Some bs" "bw_buffer_count w = Suc n" "n < length bs" "list_all db_ok (take (Suc n) bs)"
    "concat (map db_content (take (Suc n) bs)) = concat (map field_bytes fs)" "bw_data_length w = length (concat (map field_bytes fs))"
    using w(2) by (auto simp: bw_inv_def)
  let ?r = "BufferReader (take (Suc n) bs)"
  have "take (Suc n) bs \<noteq> []" using b(3) by (cases bs) auto
  then have "br_inv ?r" "br_unread ?r = concat (map field_bytes fs) @ []" using BufferReader_ok [OF b(4)] b(5) by simp_all
  then obtain r where r: "read_fields fs ?r = Some (map (\<lambda>f. (int (length (field_bytes f)), Some f)) fs, r)" "br_unread r = []" "br_inv r"
    using read_fields_ok [of ?r fs "[]"] assms(2) by blast
  have "ReadByte r = Some (-5, None, r)" using ReadData_ok(2) [OF r(3), of 1] r(2) by (simp add: ReadByte_def)
  moreover have "br_data_left_length r = 0" using r(2,3) by (simp add: br_inv_def)
  ultimately show ?thesis using w0(1) w(1) b(1,2,6) r(1) by auto
qed

theorem BufferWriter_BufferReader_roundtrip_witness:
  "\<exists>w0 w bs r. bw_Init zero_alloc 1 BufferWriter = (0, w0) \<and>
    write_fields zero_alloc [FByte 7, FString [0x61, 0x62], FI16 0x1234] w0 = Some ([1, 6, 2], w) \<and> bw_buffers w = Some bs \<and>
    read_fields [FByte 7, FString [0x61, 0x62], FI16 0x1234] (BufferReader (take (bw_buffer_count w) bs)) =
      Some ([(1, Some (FByte 7)), (6, Some (FString [0x61, 0x62])), (2, Some (FI16 0x1234))], r)"
  using BufferWriter_BufferReader_roundtrip [of zero_alloc "[FByte 7, FString [0x61, 0x62], FI16 0x1234]" 1] zero_alloc_ok
  by (simp del: write_fields.simps read_fields.simps) blast

text \<open>
  Buffers: when the bytes of a string have not all arrived, \<open>ReadString\<close> reports that there is not
  enough data and gives back the length it has read, even across blocks: the same bytes are unread as
  before.
\<close>

theorem ReadString_incomplete:
  assumes "br_inv r" and "br_unread r = h @ xs" and "length h = 4"
    and "int (length xs) < sint (word_of_nat (nat_of_bytes (rev h)) :: u32)"
  shows "\<exists>r'. ReadString r = Some (-5, [], r') \<and> br_inv r' \<and> br_unread r' = br_unread r \<and> br_data_left_length r' = br_data_left_length r"
proof -
  obtain r1 where 1: "ReadData 4 r = Some (4, h, r1)" "br_inv r1" "br_unread r1 = xs" "br_consumed r1 = br_consumed r @ h"
    using ReadData_ok(1) [OF assms(1), of 4] assms(2,3) by auto
  then have i32: "ReadI32 r = Some (4, Some (word_of_nat (nat_of_bytes (rev h))), r1)" by (simp add: ReadI32_def)
  obtain r' where r': "Back 4 r1 = Some r'" "br_inv r'" "br_unread r' = h @ xs"
    using Back_ok [OF 1(2), of 4] assms(3) 1(3,4) by auto
  have "br_data_left_length r1 = length xs" "br_data_left_length r' = length (h @ xs)" "br_data_left_length r = length (h @ xs)"
    using 1(2,3) r'(2,3) assms(1,2) unfolding br_inv_def by auto
  then show ?thesis using i32 r' assms(2,4) by (simp add: ReadString_def)
qed

theorem ReadString_incomplete_witness:
  "\<exists>r'. ReadString (BufferReader [\<lparr>db_ptr = Some [0, 0, 0], db_length = 3, db_data_length = 3, db_read_pos = 0\<rparr>,
       \<lparr>db_ptr = Some [3, 0x61], db_length = 2, db_data_length = 2, db_read_pos = 0\<rparr>]) = Some (-5, [], r') \<and>
     br_unread r' = [0, 0, 0, 3, 0x61]"
proof -
  let ?bs = "[\<lparr>db_ptr = Some [0, 0, 0], db_length = 3, db_data_length = 3, db_read_pos = 0\<rparr>,
       \<lparr>db_ptr = Some [3, 0x61], db_length = 2, db_data_length = 2, db_read_pos = 0\<rparr>] :: data_buffer list"
  have ok: "br_inv (BufferReader ?bs)" "br_unread (BufferReader ?bs) = [0, 0, 0, 3] @ [0x61]"
    using BufferReader_ok [of ?bs] by (simp_all add: db_ok_def db_content_def)
  have "nat_of_bytes (rev [0, 0, 0, 3]) = 3" by (simp add: nat_of_bytes_def)
  then show ?thesis using ReadString_incomplete [OF ok] ok(2) by auto
qed

subsection \<open>Scanning digits\<close>

lemma scan_loop_digits:
  assumes "br_inv r" and "br_current r = i" and "br_buffers r ! i = b" and "drop (db_read_pos b) (db_content b) = ds"
    and "ds \<noteq> []" and "list_all is_digit8 ds"
  shows "scan_loop fuel v n r = None"
proof (induction fuel arbitrary: v n)
  case (Suc fuel)
  have ok: "db_ok b" "i < length (br_buffers r)" "db_read_pos b \<le> db_data_length b" "length (db_content b) = db_data_length b"
    using assms(1-3) br_inv_nth length_db_content by (auto simp: br_inv_def)
  then have m: "length ds = db_data_length b - db_read_pos b" using assms(4) by auto
  then have lt: "db_read_pos b < db_data_length b" using assms(5) by (cases ds) auto
  have xs: "db_bytes b (db_data_length b - db_read_pos b) = Some ds"
    using db_bytes_ok [OF ok(1), of "db_data_length b - db_read_pos b"] ok(3) m assms(4) by simp
  have tw: "takeWhile is_digit8 ds = ds" using assms(6) by (simp add: list_all_iff takeWhile_eq_all_conv)
  have "(br_buffers r)[i := b] = br_buffers r" using assms(3) by auto
  then have "set_read_pos i (db_read_pos b) r = r" using assms(3) by (cases r) (simp add: set_read_pos_def)
  then show ?case using assms(2,3) ok(2) lt xs Suc.IH by (simp add: next_block_def Let_def tw)
qed simp

text \<open>
  \<open>ScanfDigit\<close> never returns when the rest of the current block is not empty and consists of
  digits only: the read position does not move and the same digits are read again.
\<close>

theorem ScanfDigit_diverges:
  assumes "br_inv r" and "b = br_buffers r ! br_current r" and "ds = drop (db_read_pos b) (db_content b)"
    and "ds \<noteq> []" and "list_all is_digit8 ds"
  shows "ScanfDigit fuel r = None"
  using scan_loop_digits [OF assms(1) refl assms(2) [symmetric] assms(3) [symmetric] assms(4,5)] by (simp add: ScanfDigit_def)

theorem ScanfDigit_diverges_witness:
  "ScanfDigit 1000 (BufferReader [\<lparr>db_ptr = Some [0x31, 0x32], db_length = 2, db_data_length = 2, db_read_pos = 0\<rparr>]) = None"
proof -
  let ?bs = "[\<lparr>db_ptr = Some [0x31, 0x32], db_length = 2, db_data_length = 2, db_read_pos = 0\<rparr>] :: data_buffer list"
  have inv: "br_inv (BufferReader ?bs)" using BufferReader_ok [of ?bs] by (simp add: db_ok_def)
  show ?thesis by (rule ScanfDigit_diverges [OF inv refl refl]) (simp_all add: BufferReader_def db_content_def is_digit8_def)
qed

text \<open>
  When a byte other than a digit follows in the same block, the value and the number of digits are
  right, but the position moves by the number of bytes behind the digits.
\<close>

lemma ScanfDigit_position:
  assumes "br_inv r" and "b = br_buffers r ! br_current r" and "drop (db_read_pos b) (db_content b) = ds @ x # ys"
    and "list_all is_digit8 ds" and "\<not> is_digit8 x"
  shows "ScanfDigit (Suc fuel) r = Some (Some (length ds, foldl (\<lambda>a d. a * 10 + int (unat d) - 0x30) 0 ds,
    set_read_pos (br_current r) (db_read_pos b + length (x # ys)) r))"
proof -
  have ok: "db_ok b" "br_current r < length (br_buffers r)" "db_read_pos b \<le> db_data_length b" "length (db_content b) = db_data_length b"
    using assms(1,2) br_inv_nth length_db_content by (auto simp: br_inv_def)
  have "length (drop (db_read_pos b) (db_content b)) = length (ds @ x # ys)" using assms(3) by simp
  then have m: "length (ds @ x # ys) = db_data_length b - db_read_pos b" using ok(4) by simp
  then have lt: "db_read_pos b < db_data_length b" by simp
  have xs: "db_bytes b (db_data_length b - db_read_pos b) = Some (ds @ x # ys)"
    using db_bytes_ok [OF ok(1), of "db_data_length b - db_read_pos b"] ok(3) m assms(3) by simp
  have tw: "takeWhile is_digit8 (ds @ x # ys) = ds" using assms(4,5) by (simp add: list_all_iff)
  show ?thesis using ok(2) lt xs tw assms(2) by (simp add: ScanfDigit_def next_block_def Let_def)
qed

end
