(* ===== verification/Stream_Channel.thy ===== *)
theory Stream_Channel
  imports Prelude "HOL-Library.Sublist"
begin

text \<open>
  The sending side of a connection, class \<open>StreamSocketChannel\<close> of
  \<open>libsrc/blitz2/include/blitz2/stream_socket_channel.h\<close> with the messages of \<open>outmsg.h\<close>.

  A message is the sequence of its data blocks. What the system calls return is an argument. The
  record also holds what the outside sees: the bytes the kernel has accepted on the current
  connection, the messages released as sent, and the notifications of the observer and of the task
  queue. The observer does not call back into the channel here.
\<close>

type_synonym out_msg = "u8 list list"

definition msg_bytes :: "out_msg \<Rightarrow> u8 list" where
  "msg_bytes m = concat m"

datatype connect_status = Closed | Connecting | Connected

datatype notice = OnOpened | OnClosed | OpenedTask | ClosedTask

record channel =
  ch_fd :: bool
  ch_status :: connect_status
  ch_queue :: "out_msg list"
  ch_sending :: "out_msg option"
  ch_iovec :: "u8 list list option"
  ch_iovec_len :: nat
  ch_wire :: "u8 list"
  ch_released :: "out_msg list"
  ch_notices :: "notice list"

definition StreamSocketChannel :: channel where
  "StreamSocketChannel = \<lparr>ch_fd = False, ch_status = Closed, ch_queue = [], ch_sending = None, ch_iovec = None, ch_iovec_len = 0,
     ch_wire = [], ch_released = [], ch_notices = []\<rparr>"

definition notify :: "notice \<Rightarrow> channel \<Rightarrow> channel" where
  "notify e c = c\<lparr>ch_notices := ch_notices c @ [e]\<rparr>"

definition RemoveSentFailMsg :: "channel \<Rightarrow> channel" where
  "RemoveSentFailMsg c = c\<lparr>ch_sending := None, ch_queue := []\<rparr>"

definition RealClose :: "bool \<Rightarrow> channel \<Rightarrow> channel" where
  "RealClose note c =
     (if \<not> ch_fd c then c
      else let c1 = RemoveSentFailMsg (c\<lparr>ch_status := Closed, ch_fd := False\<rparr>)
           in if note then notify OnClosed c1 else c1)"

definition ch_Close :: "bool \<Rightarrow> channel \<Rightarrow> channel" where
  "ch_Close trigger_event c =
     (let c1 = RealClose False c in if trigger_event then notify ClosedTask c1 else c1)"

text \<open>The outcome of \<open>socket\<close> and \<open>connect\<close>.\<close>

datatype connect_result = NoSocket | ConnectOk | InProgress | ConnectFails

definition ch_Connect :: "connect_result \<Rightarrow> channel \<Rightarrow> channel" where
  "ch_Connect res c =
     (if ch_status c \<noteq> Closed then c
      else case res of
        NoSocket \<Rightarrow> notify ClosedTask (c\<lparr>ch_fd := False\<rparr>)
      | ConnectOk \<Rightarrow> notify OpenedTask (c\<lparr>ch_fd := True, ch_wire := [], ch_status := Connected\<rparr>)
      | InProgress \<Rightarrow> c\<lparr>ch_fd := True, ch_wire := [], ch_status := Connecting\<rparr>
      | ConnectFails \<Rightarrow> notify ClosedTask (RealClose False (c\<lparr>ch_fd := True, ch_wire := []\<rparr>)))"

text \<open>\<open>same\<close>: the address equals the one connected to. \<open>BeConnected\<close> takes over an accepted connection.\<close>

definition ch_Connect_addr :: "bool \<Rightarrow> connect_result \<Rightarrow> channel \<Rightarrow> channel" where
  "ch_Connect_addr same res c =
     (if ch_status c = Closed then ch_Connect res c
      else if same then c else ch_Connect res (RealClose True c))"

definition BeConnected :: "channel \<Rightarrow> int \<times> channel" where
  "BeConnected c =
     (if ch_status c \<noteq> Closed then (1, c) else (0, c\<lparr>ch_fd := True, ch_wire := [], ch_status := Connected\<rparr>))"

definition ResetIovec :: "channel \<Rightarrow> channel" where
  "ResetIovec c = c\<lparr>ch_sending := None, ch_iovec := None, ch_iovec_len := 0\<rparr>"

text \<open>\<open>Convert2iovec\<close> makes one entry per data block.\<close>

definition PrepareIovec :: "channel \<Rightarrow> channel cxx" where
  "PrepareIovec c =
     (case ch_sending c of
        Some m \<Rightarrow> Some (c\<lparr>ch_iovec := Some m, ch_iovec_len := length (msg_bytes m)\<rparr>)
      | None \<Rightarrow> (case ch_queue c of
          [] \<Rightarrow> Some c
        | m # q \<Rightarrow>
            if m = [] then None
            else Some (c\<lparr>ch_queue := q, ch_sending := Some m, ch_iovec := Some m, ch_iovec_len := length (msg_bytes m)\<rparr>)))"

text \<open>Skipping the entries that were sent completely; \<open>None\<close> is an access behind the last one.\<close>

fun forward_iovec :: "nat \<Rightarrow> u8 list list \<Rightarrow> u8 list list cxx" where
  "forward_iovec left [] = None"
| "forward_iovec left (x # xs) = (if left < length x then Some (drop left x # xs) else forward_iovec (left - length x) xs)"

definition ForwardIovec :: "nat \<Rightarrow> channel \<Rightarrow> channel cxx" where
  "ForwardIovec len c =
     (case ch_iovec c of
        None \<Rightarrow> None
      | Some v \<Rightarrow> map_option (\<lambda>v'. c\<lparr>ch_iovec := Some v', ch_iovec_len := ch_iovec_len c - len\<rparr>) (forward_iovec len v))"

text \<open>
  The outcome of \<open>writev\<close>: \<open>Sent k\<close> stands for any number of bytes from one to all that are offered.
  When the list of outcomes is used up, the socket is full.
\<close>

datatype writev_result = Sent nat | Again | Interrupted | WriteFails

definition accepted :: "nat \<Rightarrow> nat \<Rightarrow> nat" where
  "accepted k offered = Suc (k mod offered)"

fun send_loop :: "bool \<Rightarrow> writev_result list \<Rightarrow> channel \<Rightarrow> channel cxx" where
  "send_loop eventloop [] c = Some c"
| "send_loop eventloop (Sent k # ws) c =
     (case (ch_iovec c, ch_sending c) of
        (Some v, Some m) \<Rightarrow>
          let n = accepted k (length (concat v)); c1 = c\<lparr>ch_wire := ch_wire c @ take n (concat v)\<rparr> in
          if n = ch_iovec_len c then
            (case PrepareIovec (ResetIovec (c1\<lparr>ch_released := ch_released c1 @ [m]\<rparr>)) of
               None \<Rightarrow> None
             | Some c2 \<Rightarrow> if ch_iovec c2 = None then Some c2 else send_loop eventloop ws c2)
          else (case ForwardIovec n c1 of None \<Rightarrow> None | Some c2 \<Rightarrow> send_loop eventloop ws c2)
      | _ \<Rightarrow> None)"
| "send_loop eventloop (Again # ws) c = Some c"
| "send_loop eventloop (Interrupted # ws) c = send_loop eventloop ws c"
| "send_loop eventloop (WriteFails # ws) c =
     Some (if eventloop then RealClose True c else notify ClosedTask (RealClose False c))"

definition TrySend :: "bool \<Rightarrow> writev_result list \<Rightarrow> channel \<Rightarrow> channel cxx" where
  "TrySend eventloop ws c =
     (case ch_iovec c of
        Some _ \<Rightarrow> send_loop eventloop ws c
      | None \<Rightarrow> (case PrepareIovec c of
          None \<Rightarrow> None
        | Some c1 \<Rightarrow> if ch_iovec c1 = None then Some c1 else send_loop eventloop ws c1))"

definition SendMsg :: "writev_result list \<Rightarrow> out_msg \<Rightarrow> channel \<Rightarrow> channel cxx" where
  "SendMsg ws m c =
     (if ch_status c = Closed then Some c
      else if ch_sending c \<noteq> None then Some (c\<lparr>ch_queue := ch_queue c @ [m]\<rparr>)
      else
        let c1 = c\<lparr>ch_sending := Some m\<rparr> in
        if ch_status c \<noteq> Connected then Some c1 else TrySend False ws c1)"

text \<open>\<open>err\<close>: \<open>getsockopt\<close> fails or reports an error of the connection attempt.\<close>

definition OnWrite :: "bool \<Rightarrow> writev_result list \<Rightarrow> channel \<Rightarrow> channel cxx" where
  "OnWrite err ws c =
     (if ch_status c = Connecting then
        if err then Some (RealClose True c)
        else TrySend True ws (notify OnOpened (c\<lparr>ch_status := Connected\<rparr>))
      else if ch_status c = Connected then TrySend True ws c
      else Some c)"

subsection \<open>The stream of bytes of one connection\<close>

datatype channel_op = Send "writev_result list" out_msg | Writable bool "writev_result list"

primrec channel_step :: "channel_op \<Rightarrow> channel \<Rightarrow> channel cxx" where
  "channel_step (Send ws m) c = SendMsg ws m c"
| "channel_step (Writable err ws) c = OnWrite err ws c"

primrec channel_run :: "channel_op list \<Rightarrow> channel \<Rightarrow> channel cxx" where
  "channel_run [] c = Some c"
| "channel_run (x # xs) c = (case channel_step x c of None \<Rightarrow> None | Some c' \<Rightarrow> channel_run xs c')"

primrec op_msgs :: "channel_op \<Rightarrow> out_msg list" where
  "op_msgs (Send ws m) = [m]"
| "op_msgs (Writable err ws) = []"

text \<open>What is still to be sent, as messages and as bytes.\<close>

definition ch_pending :: "channel \<Rightarrow> out_msg list" where
  "ch_pending c = (case ch_sending c of None \<Rightarrow> [] | Some m \<Rightarrow> [m]) @ ch_queue c"

definition ch_unsent :: "channel \<Rightarrow> u8 list" where
  "ch_unsent c = (case ch_iovec c of Some v \<Rightarrow> concat v
      | None \<Rightarrow> (case ch_sending c of None \<Rightarrow> [] | Some m \<Rightarrow> msg_bytes m)) @ concat (map msg_bytes (ch_queue c))"

definition ch_inv :: "out_msg list \<Rightarrow> channel \<Rightarrow> bool" where
  "ch_inv ms c \<longleftrightarrow>
     (if ch_status c = Closed then prefix (ch_wire c) (concat (map msg_bytes ms))
      else ch_fd c \<and> ch_released c @ ch_pending c = ms \<and> ch_wire c @ ch_unsent c = concat (map msg_bytes ms) \<and>
        (\<forall>m \<in> set (ch_pending c). msg_bytes m \<noteq> []) \<and>
        (ch_sending c = None \<longrightarrow> ch_queue c = [] \<and> ch_iovec c = None) \<and>
        (case ch_iovec c of None \<Rightarrow> True
         | Some v \<Rightarrow> ch_status c = Connected \<and> concat v \<noteq> [] \<and> ch_iovec_len c = length (concat v)))"

lemma forward_iovec_ok: "left < length (concat v) \<Longrightarrow> \<exists>v'. forward_iovec left v = Some v' \<and> concat v' = drop left (concat v)"
  by (induction left v rule: forward_iovec.induct) auto

lemma RealClose_inv: "ch_inv ms c \<Longrightarrow> ch_status c \<noteq> Closed \<Longrightarrow> ch_inv ms (RealClose note c) \<and> ch_status (RealClose note c) = Closed"
proof -
  assume a: "ch_inv ms c" "ch_status c \<noteq> Closed"
  then have "concat (map msg_bytes ms) = ch_wire c @ ch_unsent c" "ch_fd c" by (auto simp: ch_inv_def)
  then show ?thesis by (simp add: ch_inv_def RealClose_def RemoveSentFailMsg_def notify_def Let_def)
qed

lemma notify_inv [simp]: "ch_inv ms (notify e c) = ch_inv ms c"
  by (cases "ch_iovec c"; cases "ch_sending c") (simp_all add: ch_inv_def notify_def ch_pending_def ch_unsent_def)

lemma PrepareIovec_inv:
  assumes "ch_inv ms c" and "ch_iovec c = None" and "ch_status c = Connected"
  shows "\<exists>c'. PrepareIovec c = Some c' \<and> ch_inv ms c' \<and> ch_status c' = Connected \<and> (ch_iovec c' = None \<longleftrightarrow> ch_sending c = None)"
proof (cases "ch_sending c")
  case None
  then show ?thesis using assms by (simp add: PrepareIovec_def ch_inv_def)
next
  case (Some m)
  then have "msg_bytes m \<noteq> []" using assms by (simp add: ch_inv_def ch_pending_def)
  then show ?thesis using assms Some by (simp add: PrepareIovec_def ch_inv_def ch_pending_def ch_unsent_def msg_bytes_def)
qed

text \<open>After the last byte of a message: the next message of the queue is prepared.\<close>

lemma next_message_inv:
  assumes inv: "ch_inv ms c" and "ch_iovec c = Some v" "ch_sending c = Some m" "ch_status c = Connected"
  shows "\<exists>c'. PrepareIovec (ResetIovec (c\<lparr>ch_wire := ch_wire c @ concat v, ch_released := ch_released c @ [m]\<rparr>)) = Some c' \<and>
    ch_inv ms c' \<and> ch_status c' = Connected"
proof (cases "ch_queue c")
  case Nil
  then show ?thesis using assms by (simp add: PrepareIovec_def ResetIovec_def ch_inv_def ch_pending_def ch_unsent_def)
next
  case (Cons m' q)
  then have "msg_bytes m' \<noteq> []" using inv assms(4) by (simp add: ch_inv_def ch_pending_def)
  moreover from this have "m' \<noteq> []" by (auto simp: msg_bytes_def)
  ultimately show ?thesis using assms Cons
    by (simp add: PrepareIovec_def ResetIovec_def ch_inv_def ch_pending_def ch_unsent_def msg_bytes_def)
qed

lemma send_loop_inv:
  "ch_inv ms c \<Longrightarrow> ch_iovec c \<noteq> None \<Longrightarrow> ch_status c = Connected \<Longrightarrow> \<exists>c'. send_loop ev ws c = Some c' \<and> ch_inv ms c'"
proof (induction ev ws c rule: send_loop.induct)
  case (2 ev k ws c)
  obtain v m where v: "ch_iovec c = Some v" "ch_sending c = Some m" "concat v \<noteq> []" "ch_iovec_len c = length (concat v)"
    using "2.prems" by (cases "ch_sending c") (auto simp: ch_inv_def)
  let ?n = "accepted k (length (concat v))"
  let ?c1 = "c\<lparr>ch_wire := ch_wire c @ take ?n (concat v)\<rparr>"
  have n: "0 < ?n" "?n \<le> length (concat v)" using v(3) by (simp_all add: accepted_def Suc_leI)
  show ?case
  proof (cases "?n = ch_iovec_len c")
    case True
    then have w: "take ?n (concat v) = concat v" using v(4) by simp
    obtain c2 where c2: "PrepareIovec (ResetIovec (?c1\<lparr>ch_released := ch_released ?c1 @ [m]\<rparr>)) = Some c2" "ch_inv ms c2" "ch_status c2 = Connected"
      using next_message_inv [OF "2.prems"(1) v(1,2) "2.prems"(3)] w by auto
    show ?thesis
    proof (cases "ch_iovec c2 = None")
      case False
      then obtain c' where "send_loop ev ws c2 = Some c'" "ch_inv ms c'"
        using "2.IH"(1) [OF _ v(1,2) refl refl True c2(1)] c2(2,3) v by auto
      then show ?thesis using v(1,2) True c2(1) False by (auto simp: Let_def)
    qed (use v(1,2) True c2(1,2) in \<open>simp add: Let_def\<close>)
  next
    case False
    then have lt: "?n < length (concat v)" using n(2) v(4) by simp
    then obtain v' where v': "forward_iovec ?n v = Some v'" "concat v' = drop ?n (concat v)" using forward_iovec_ok by blast
    let ?c2 = "?c1\<lparr>ch_iovec := Some v', ch_iovec_len := ch_iovec_len c - ?n\<rparr>"
    have f: "ForwardIovec ?n ?c1 = Some ?c2" using v(1) v'(1) by (simp add: ForwardIovec_def)
    have w: "take ?n (concat v) @ drop ?n (concat v) @ q = concat v @ q" for q by (simp flip: append_assoc)
    have "ch_inv ms ?c2" using "2.prems" v v'(2) lt by (simp add: ch_inv_def ch_pending_def ch_unsent_def w)
    then obtain c' where "send_loop ev ws ?c2 = Some c'" "ch_inv ms c'"
      using "2.IH"(2) [OF _ v(1,2) refl refl False f] "2.prems"(3) v by auto
    then show ?thesis using v(1,2) False f by (simp add: Let_def)
  qed
next
  case (5 ev ws c)
  then show ?case using RealClose_inv [of ms c] by auto
qed auto

lemma TrySend_inv:
  assumes "ch_inv ms c" and "ch_status c = Connected"
  shows "\<exists>c'. TrySend ev ws c = Some c' \<and> ch_inv ms c'"
proof (cases "ch_iovec c")
  case None
  then obtain c1 where c1: "PrepareIovec c = Some c1" "ch_inv ms c1" "ch_status c1 = Connected"
    using PrepareIovec_inv assms by blast
  then show ?thesis using None send_loop_inv [of ms c1 ev ws] by (auto simp: TrySend_def)
next
  case (Some v)
  then show ?thesis using send_loop_inv assms by (auto simp: TrySend_def)
qed

lemma SendMsg_inv:
  assumes inv: "ch_inv ms c" and m: "msg_bytes m \<noteq> []"
  shows "\<exists>c'. SendMsg ws m c = Some c' \<and> ch_inv (ms @ [m]) c'"
proof -
  consider "ch_status c = Closed" | "ch_status c \<noteq> Closed" "ch_sending c \<noteq> None" | "ch_status c \<noteq> Closed" "ch_sending c = None" by blast
  then show ?thesis
  proof cases
    assume "ch_status c = Closed"
    then show ?thesis using inv by (auto simp: SendMsg_def ch_inv_def)
  next
    assume s: "ch_status c \<noteq> Closed" "ch_sending c \<noteq> None"
    then obtain x where x: "ch_sending c = Some x" by blast
    have "ch_inv (ms @ [m]) (c\<lparr>ch_queue := ch_queue c @ [m]\<rparr>)"
      using inv s(1) x m by (cases "ch_iovec c") (auto simp: ch_inv_def ch_pending_def ch_unsent_def simp flip: append_assoc)
    then show ?thesis using s by (auto simp: SendMsg_def)
  next
    assume s: "ch_status c \<noteq> Closed" "ch_sending c = None"
    let ?c = "c\<lparr>ch_sending := Some m\<rparr>"
    have inv': "ch_inv (ms @ [m]) ?c" using inv s m by (auto simp: ch_inv_def ch_pending_def ch_unsent_def)
    show ?thesis
    proof (cases "ch_status c = Connected")
      case True
      then show ?thesis using TrySend_inv [OF inv', of False ws] s by (simp add: SendMsg_def)
    qed (use inv' s in \<open>simp add: SendMsg_def\<close>)
  qed
qed

lemma OnWrite_inv:
  assumes inv: "ch_inv ms c"
  shows "\<exists>c'. OnWrite err ws c = Some c' \<and> ch_inv ms c'"
proof (cases "ch_status c")
  case Connecting
  then have "ch_inv ms (c\<lparr>ch_status := Connected\<rparr>)"
    using inv by (cases "ch_iovec c") (auto simp: ch_inv_def ch_pending_def ch_unsent_def)
  then have "ch_inv ms (notify OnOpened (c\<lparr>ch_status := Connected\<rparr>))" by simp
  from TrySend_inv [OF this, of True ws] RealClose_inv [OF inv] Connecting show ?thesis
    by (auto simp: OnWrite_def notify_def)
qed (use TrySend_inv inv in \<open>auto simp: OnWrite_def\<close>)

lemma channel_run_inv:
  "ch_inv ms c \<Longrightarrow> \<forall>m \<in> set (concat (map op_msgs ops)). msg_bytes m \<noteq> [] \<Longrightarrow>
     \<exists>c'. channel_run ops c = Some c' \<and> ch_inv (ms @ concat (map op_msgs ops)) c'"
proof (induction ops arbitrary: ms c)
  case (Cons x ops)
  have "\<exists>c1. channel_step x c = Some c1 \<and> ch_inv (ms @ op_msgs x) c1"
    using Cons.prems SendMsg_inv [of ms c] OnWrite_inv [of ms c] by (cases x) auto
  then obtain c1 where "channel_step x c = Some c1" "ch_inv (ms @ op_msgs x) c1" by blast
  with Cons.IH [of "ms @ op_msgs x" c1] Cons.prems(2) show ?case by auto
qed simp

text \<open>
  C12. Channel: on a new connection, whatever parts of the offered data the kernel accepts and whenever
  the socket becomes writable, the calls never touch a missing message or a block behind the last
  one; the bytes on the wire followed by those still held back are the submitted messages in order,
  and a message is released only after all before it. After an error the wire holds a prefix.
\<close>

theorem channel_sends_in_order:
  assumes "ch_status c \<noteq> Closed" and "ch_fd c" "ch_wire c = []" "ch_released c = []" "ch_pending c = []" "ch_iovec c = None"
    and "\<forall>m \<in> set (concat (map op_msgs ops)). msg_bytes m \<noteq> []"
  shows "\<exists>c'. channel_run ops c = Some c' \<and>
    (let ms = concat (map op_msgs ops) in
     prefix (ch_wire c') (concat (map msg_bytes ms)) \<and>
     (ch_status c' \<noteq> Closed \<longrightarrow> ch_wire c' @ ch_unsent c' = concat (map msg_bytes ms) \<and> ch_released c' @ ch_pending c' = ms))"
proof -
  have "ch_inv [] c" using assms(1-6) by (auto simp: ch_inv_def ch_pending_def ch_unsent_def split: option.splits)
  from channel_run_inv [OF this assms(7)] obtain c' where c': "channel_run ops c = Some c'" "ch_inv (concat (map op_msgs ops)) c'" by auto
  moreover from c'(2) have "prefix (ch_wire c') (concat (map msg_bytes (concat (map op_msgs ops))))"
    unfolding ch_inv_def prefix_def by (metis (no_types))
  ultimately show ?thesis by (auto simp: ch_inv_def Let_def)
qed

theorem channel_sends_in_order_witness:
  "\<exists>c'. channel_run [Send [Sent 0, Again] [[1, 2], [3]], Send [] [[4]], Writable False [Interrupted, Sent 1, Sent 0]]
      (ch_Connect ConnectOk StreamSocketChannel) = Some c' \<and> ch_wire c' = [1, 2, 3, 4] \<and>
    ch_wire c' @ ch_unsent c' = [1, 2, 3, 4]"
proof -
  let ?ops = "[Send [Sent 0, Again] [[1, 2], [3]], Send [] [[4]], Writable False [Interrupted, Sent 1, Sent 0]]"
  let ?c = "ch_Connect ConnectOk StreamSocketChannel"
  have c: "ch_status ?c \<noteq> Closed" "ch_fd ?c" "ch_wire ?c = []" "ch_released ?c = []" "ch_pending ?c = []" "ch_iovec ?c = None"
    by (simp_all add: ch_Connect_def StreamSocketChannel_def notify_def ch_pending_def)
  have "\<forall>m \<in> set (concat (map op_msgs ?ops)). msg_bytes m \<noteq> []" by (simp add: msg_bytes_def)
  from channel_sends_in_order [OF c this] obtain c' where c': "channel_run ?ops ?c = Some c'"
    "ch_status c' \<noteq> Closed \<longrightarrow> ch_wire c' @ ch_unsent c' = concat (map msg_bytes (concat (map op_msgs ?ops)))" by (auto simp: Let_def)
  have "channel_run ?ops ?c = Some \<lparr>ch_fd = True, ch_status = Connected, ch_queue = [], ch_sending = None, ch_iovec = None, ch_iovec_len = 0,
      ch_wire = [1, 2, 3, 4], ch_released = [[[1, 2], [3]], [[4]]], ch_notices = [OpenedTask]\<rparr>"
    by (simp add: ch_Connect_def StreamSocketChannel_def notify_def SendMsg_def TrySend_def PrepareIovec_def ResetIovec_def
        ForwardIovec_def OnWrite_def accepted_def msg_bytes_def Let_def)
  with c' show ?thesis by (simp add: msg_bytes_def)
qed

text \<open>
  Channel: when a connection is closed while a message is being sent, the entries of that message
  stay in place. The next message on the reopened connection is released as sent although not one of
  its bytes was sent: the kernel gets the rest of the old message instead (whatever its memory, which
  was given back, then holds).
\<close>

theorem reconnect_sends_stale_bytes:
  assumes "ch_status c \<noteq> Closed" and "ch_fd c" and "ch_iovec c = Some v" and "concat v \<noteq> []" and "ch_iovec_len c = length (concat v)"
  shows "\<exists>c'. SendMsg [Sent (length (concat v) - 1)] m (ch_Connect ConnectOk (ch_Close False c)) = Some c' \<and>
    ch_wire c' = concat v \<and> ch_released c' = ch_released c @ [m] \<and> ch_pending c' = [] \<and> ch_unsent c' = [] \<and> ch_status c' = Connected"
proof -
  define w where "w = concat v"
  have n: "accepted (length w - Suc 0) (length w) = length w"
    using assms(4) by (cases w) (simp_all add: accepted_def w_def)
  show ?thesis using assms
    by (simp add: w_def [symmetric] ch_Close_def RealClose_def RemoveSentFailMsg_def ch_Connect_def notify_def SendMsg_def TrySend_def n Let_def
        ResetIovec_def PrepareIovec_def ch_pending_def ch_unsent_def)
qed

theorem reconnect_sends_stale_bytes_witness:
  "\<exists>c c'. SendMsg [Sent 0] [[1, 2, 3]] (ch_Connect ConnectOk StreamSocketChannel) = Some c \<and>
    SendMsg [Sent 1] [[7, 8]] (ch_Connect ConnectOk (ch_Close False c)) = Some c' \<and>
    ch_wire c' = [2, 3] \<and> ch_released c' = [[[7, 8]]]"
proof -
  obtain c where c: "SendMsg [Sent 0] [[1, 2, 3]] (ch_Connect ConnectOk StreamSocketChannel) = Some c"
    "ch_status c \<noteq> Closed" "ch_fd c" "ch_iovec c = Some [[2, 3]]" "ch_iovec_len c = 2" "ch_released c = []"
    by (simp add: ch_Connect_def StreamSocketChannel_def notify_def SendMsg_def TrySend_def PrepareIovec_def ForwardIovec_def
        accepted_def msg_bytes_def Let_def)
  then show ?thesis using reconnect_sends_stale_bytes [of c "[[2, 3]]" "[[7, 8]]"] by auto
qed

subsection \<open>Channels that are closed and opened again\<close>

text \<open>
  What holds over several connections. Entries may be left over from a closed connection, so that a
  connection opened again has entries but no message until one is submitted (\<open>ch_reusable\<close>); while it
  is used, entries belong to a message (\<open>ch_safe\<close>).
\<close>

definition ch_reusable :: "channel \<Rightarrow> bool" where
  "ch_reusable c \<longleftrightarrow> (ch_fd c \<longleftrightarrow> ch_status c \<noteq> Closed) \<and> (\<forall>m \<in> set (ch_pending c). msg_bytes m \<noteq> []) \<and>
     (ch_sending c = None \<longrightarrow> ch_queue c = []) \<and> (ch_status c = Closed \<longrightarrow> ch_sending c = None) \<and>
     (\<forall>v. ch_iovec c = Some v \<longrightarrow> concat v \<noteq> [] \<and> ch_iovec_len c = length (concat v))"

definition ch_safe :: "channel \<Rightarrow> bool" where
  "ch_safe c \<longleftrightarrow> ch_reusable c \<and> (ch_status c \<noteq> Closed \<and> ch_iovec c \<noteq> None \<longrightarrow> ch_sending c \<noteq> None)"

lemma ch_safe_notices [simp]:
  "ch_safe (c\<lparr>ch_notices := ns\<rparr>) = ch_safe c" "ch_reusable (c\<lparr>ch_notices := ns\<rparr>) = ch_reusable c"
  "ch_safe (notify n c) = ch_safe c" "ch_reusable (notify n c) = ch_reusable c"
  by (simp_all add: ch_safe_def ch_reusable_def ch_pending_def notify_def)

lemma ch_safe_reusable [simp]: "ch_safe c \<Longrightarrow> ch_reusable c"
  by (simp add: ch_safe_def)

lemma StreamSocketChannel_safe [simp]: "ch_safe StreamSocketChannel"
  by (simp add: ch_safe_def ch_reusable_def ch_pending_def StreamSocketChannel_def)

lemma RealClose_safe: "ch_reusable c \<Longrightarrow> ch_safe (RealClose b c) \<and> ch_status (RealClose b c) = Closed"
  by (cases "ch_fd c") (simp_all add: RealClose_def RemoveSentFailMsg_def ch_safe_def ch_reusable_def ch_pending_def Let_def notify_def)

lemma ch_Close_safe: "ch_reusable c \<Longrightarrow> ch_safe (ch_Close b c) \<and> ch_status (ch_Close b c) = Closed"
  using RealClose_safe [of c False] by (simp add: ch_Close_def Let_def notify_def ch_safe_def ch_reusable_def ch_pending_def)

lemma ch_Connect_reusable: "ch_safe c \<Longrightarrow> ch_reusable (ch_Connect res c)"
proof (cases res)
  case ConnectFails
  assume "ch_safe c"
  then show ?thesis using ConnectFails
    by (cases "ch_status c = Closed")
      (simp_all add: ch_Connect_def RealClose_def RemoveSentFailMsg_def ch_safe_def ch_reusable_def ch_pending_def Let_def notify_def)
qed (simp_all add: ch_Connect_def ch_safe_def ch_reusable_def ch_pending_def notify_def)

lemma PrepareIovec_safe:
  assumes "ch_reusable c" and "ch_iovec c = None" and "ch_status c = Connected"
  shows "\<exists>c'. PrepareIovec c = Some c' \<and> ch_safe c' \<and> ch_status c' = Connected \<and> ch_notices c' = ch_notices c"
proof (cases "ch_sending c")
  case None
  then show ?thesis using assms by (simp add: PrepareIovec_def ch_safe_def ch_reusable_def)
next
  case (Some m)
  then have "msg_bytes m \<noteq> []" using assms by (simp add: ch_reusable_def ch_pending_def)
  then show ?thesis using assms Some by (simp add: PrepareIovec_def ch_safe_def ch_reusable_def ch_pending_def msg_bytes_def)
qed

lemma next_message_safe:
  assumes "ch_safe c" "ch_status c = Connected"
  shows "\<exists>c'. PrepareIovec (ResetIovec (c\<lparr>ch_wire := w, ch_released := ms\<rparr>)) = Some c' \<and> ch_safe c' \<and> ch_status c' = Connected \<and>
    ch_notices c' = ch_notices c"
proof (cases "ch_queue c")
  case Nil
  then show ?thesis using assms by (simp add: PrepareIovec_def ResetIovec_def ch_safe_def ch_reusable_def ch_pending_def)
next
  case (Cons m q)
  then have "msg_bytes m \<noteq> []" using assms by (simp add: ch_safe_def ch_reusable_def ch_pending_def)
  moreover from this have "m \<noteq> []" by (auto simp: msg_bytes_def)
  ultimately show ?thesis using assms Cons
    by (cases "ch_sending c") (simp_all add: PrepareIovec_def ResetIovec_def ch_safe_def ch_reusable_def ch_pending_def msg_bytes_def)
qed

text \<open>A sending round keeps the channel safe, reports at most a failure, and reports it at once only in the event loop.\<close>

definition sent_safely :: "bool \<Rightarrow> notice list \<Rightarrow> channel cxx \<Rightarrow> bool" where
  "sent_safely eventloop ns r \<longleftrightarrow> (\<exists>c. r = Some c \<and> ch_safe c \<and>
     (ch_notices c = ns \<or> ch_notices c = ns @ [if eventloop then OnClosed else ClosedTask] \<and> ch_status c = Closed))"

lemma sent_safelyI: "r = Some c \<Longrightarrow> ch_safe c \<Longrightarrow> ch_notices c = ns \<Longrightarrow> sent_safely ev ns r"
  by (simp add: sent_safely_def)

lemma send_loop_safe:
  "ch_safe c \<Longrightarrow> ch_iovec c \<noteq> None \<Longrightarrow> ch_status c = Connected \<Longrightarrow> sent_safely ev (ch_notices c) (send_loop ev ws c)"
proof (induction ev ws c rule: send_loop.induct)
  case (2 ev k ws c)
  obtain v m where v: "ch_iovec c = Some v" "ch_sending c = Some m" "concat v \<noteq> []" "ch_iovec_len c = length (concat v)"
    using "2.prems" by (cases "ch_sending c") (auto simp: ch_safe_def ch_reusable_def)
  let ?n = "accepted k (length (concat v))"
  let ?c1 = "c\<lparr>ch_wire := ch_wire c @ take ?n (concat v)\<rparr>"
  have n: "?n \<le> length (concat v)" using v(3) by (simp add: accepted_def Suc_leI)
  show ?case
  proof (cases "?n = ch_iovec_len c")
    case True
    obtain c2 where c2: "PrepareIovec (ResetIovec (?c1\<lparr>ch_released := ch_released ?c1 @ [m]\<rparr>)) = Some c2" "ch_safe c2"
      "ch_status c2 = Connected" "ch_notices c2 = ch_notices c"
      using next_message_safe [OF "2.prems"(1,3)] by auto
    show ?thesis
    proof (cases "ch_iovec c2 = None")
      case False
      then have "sent_safely ev (ch_notices c2) (send_loop ev ws c2)"
        using "2.IH"(1) [OF _ v(1,2) refl refl True c2(1)] c2(2,3) v by auto
      then show ?thesis using v(1,2) True c2(1,4) False by (auto simp: Let_def)
    qed (use v(1,2) True c2 in \<open>simp add: Let_def sent_safely_def\<close>)
  next
    case False
    then have lt: "?n < length (concat v)" using n v(4) by simp
    then obtain v' where v': "forward_iovec ?n v = Some v'" "concat v' = drop ?n (concat v)" using forward_iovec_ok by blast
    let ?c2 = "?c1\<lparr>ch_iovec := Some v', ch_iovec_len := ch_iovec_len c - ?n\<rparr>"
    have f: "ForwardIovec ?n ?c1 = Some ?c2" using v(1) v'(1) by (simp add: ForwardIovec_def)
    have "concat v' \<noteq> []" "length (concat v') = length (concat v) - ?n" using v'(2) lt by simp_all
    then have "ch_safe ?c2" using "2.prems" v by (simp add: ch_safe_def ch_reusable_def ch_pending_def del: concat_eq_Nil_conv)
    then have "sent_safely ev (ch_notices ?c2) (send_loop ev ws ?c2)"
      using "2.IH"(2) [OF _ v(1,2) refl refl False f] "2.prems"(3) v by auto
    then show ?thesis using v(1,2) False f by (simp add: Let_def)
  qed
next
  case (5 ev ws c)
  have "ch_fd c" using 5 by (simp add: ch_safe_def ch_reusable_def)
  then have "ch_notices (RealClose b c) = ch_notices c @ (if b then [OnClosed] else [])" for b
    by (simp add: RealClose_def RemoveSentFailMsg_def notify_def Let_def)
  then show ?case using RealClose_safe [of c ev] RealClose_safe [of c False] 5(1)
    by (cases ev; simp add: sent_safely_def) (simp add: notify_def)
qed (simp_all add: sent_safely_def)

lemma TrySend_safe:
  assumes "ch_safe c" and "ch_status c = Connected"
  shows "sent_safely ev (ch_notices c) (TrySend ev ws c)"
proof (cases "ch_iovec c")
  case None
  then obtain c1 where c1: "PrepareIovec c = Some c1" "ch_safe c1" "ch_status c1 = Connected" "ch_notices c1 = ch_notices c"
    using PrepareIovec_safe assms by (metis ch_safe_reusable)
  then show ?thesis using None send_loop_safe [of c1 ev ws] by (auto simp: TrySend_def sent_safely_def)
next
  case (Some v)
  then show ?thesis using send_loop_safe assms by (auto simp: TrySend_def)
qed

lemma SendMsg_safe:
  assumes c: "ch_reusable c" and m: "msg_bytes m \<noteq> []"
  shows "sent_safely False (ch_notices c) (SendMsg ws m c)"
proof -
  consider "ch_status c = Closed" | "ch_status c \<noteq> Closed" "ch_sending c \<noteq> None" | "ch_status c \<noteq> Closed" "ch_sending c = None" by blast
  then show ?thesis
  proof cases
    assume "ch_status c = Closed"
    then show ?thesis using c by (auto simp: SendMsg_def sent_safely_def ch_safe_def)
  next
    assume "ch_status c \<noteq> Closed" "ch_sending c \<noteq> None"
    then show ?thesis using c m by (auto simp: SendMsg_def sent_safely_def ch_safe_def ch_reusable_def ch_pending_def)
  next
    assume s: "ch_status c \<noteq> Closed" "ch_sending c = None"
    let ?c = "c\<lparr>ch_sending := Some m\<rparr>"
    have "ch_safe ?c" using c m s by (simp add: ch_safe_def ch_reusable_def ch_pending_def)
    then show ?thesis using TrySend_safe [of ?c False ws] s by (auto simp: SendMsg_def sent_safely_def Let_def)
  qed
qed

lemma OnWrite_safe:
  assumes "ch_safe c"
  shows "\<exists>c'. OnWrite err ws c = Some c' \<and> ch_safe c' \<and> set (ch_notices c') \<subseteq> set (ch_notices c) \<union> {OnOpened, OnClosed}"
proof (cases "ch_status c")
  case Connecting
  let ?c = "notify OnOpened (c\<lparr>ch_status := Connected\<rparr>)"
  have "ch_safe ?c" "ch_status ?c = Connected" using assms Connecting by (simp_all add: ch_safe_def ch_reusable_def ch_pending_def notify_def)
  from TrySend_safe [OF this, of True ws] obtain c' where "TrySend True ws ?c = Some c'" "ch_safe c'"
    "set (ch_notices c') \<subseteq> set (ch_notices c) \<union> {OnOpened, OnClosed}"
    unfolding sent_safely_def by (fastforce simp: notify_def)
  moreover have "set (ch_notices (RealClose True c)) \<subseteq> set (ch_notices c) \<union> {OnOpened, OnClosed}"
    by (auto simp: RealClose_def RemoveSentFailMsg_def notify_def Let_def)
  ultimately show ?thesis using RealClose_safe [of c True] assms Connecting by (simp add: OnWrite_def)
next
  case Connected
  then show ?thesis using TrySend_safe [OF assms, of True ws] by (auto simp: OnWrite_def sent_safely_def)
qed (use assms in \<open>auto simp: OnWrite_def\<close>)

lemma ch_Connect_notices: "set (ch_notices (ch_Connect res c)) \<subseteq> set (ch_notices c) \<union> {OpenedTask, ClosedTask}"
  by (cases res) (auto simp: ch_Connect_def notify_def RealClose_def RemoveSentFailMsg_def Let_def)

end
