(* ===== verification/Reactor.thy ===== *)
theory Reactor
  imports Prelude
begin

text \<open>
  Timers and tasks of the event loop, class \<open>Reactor\<close> of \<open>libsrc/blitz2/include/blitz2/reactor.h\<close> and
  \<open>libsrc/blitz2/src/reactor.cc\<close>.

  A timer holds what its callback is bound to; when a timer is due is decided outside (libevent). The
  state a callback works on contains the reactor: \<open>get\<close> and \<open>upd\<close> select and change it there, and a
  callback can end the process with a fault. The contract of the timers is the locale \<open>timer_store\<close>.
\<close>

record 'cb timer =
  tw_callback :: 'cb
  tw_timeout :: nat
  tw_removed :: bool
  tw_repeat :: bool

record ('cb, 'task) reactor =
  rc_timers :: "u32 \<rightharpoonup> 'cb timer"
  rc_timer_id :: u32
  rc_tasks :: "'task list"

definition Reactor_new :: "('cb, 'task) reactor" where
  "Reactor_new = \<lparr>rc_timers = Map.empty, rc_timer_id = 0, rc_tasks = []\<rparr>"

definition RemoveAllEventSource :: "('cb, 'task) reactor \<Rightarrow> ('cb, 'task) reactor" where
  "RemoveAllEventSource r = r\<lparr>rc_timers := Map.empty, rc_timer_id := 0, rc_tasks := []\<rparr>"

definition PostTask :: "'task \<Rightarrow> ('cb, 'task) reactor \<Rightarrow> ('cb, 'task) reactor" where
  "PostTask t r = r\<lparr>rc_tasks := rc_tasks r @ [t]\<rparr>"

definition AddTimer :: "nat \<Rightarrow> 'cb \<Rightarrow> bool \<Rightarrow> ('cb, 'task) reactor \<Rightarrow> u32 \<times> ('cb, 'task) reactor" where
  "AddTimer timeout callback need_repeat r =
     (let i = rc_timer_id r + 1 in
      (i, r\<lparr>rc_timer_id := i,
            rc_timers := (rc_timers r)(i \<mapsto> \<lparr>tw_callback = callback, tw_timeout = timeout, tw_removed = False, tw_repeat = need_repeat\<rparr>)\<rparr>))"

definition RemoveTimer :: "u32 \<Rightarrow> ('cb, 'task) reactor \<Rightarrow> int \<times> ('cb, 'task) reactor" where
  "RemoveTimer i r =
     (case rc_timers r i of
        None \<Rightarrow> (1, r)
      | Some t \<Rightarrow> (0, r\<lparr>rc_timers := (rc_timers r)(i \<mapsto> t\<lparr>tw_removed := True\<rparr>)\<rparr>))"

definition erase_timer :: "u32 \<Rightarrow> ('cb, 'task) reactor \<Rightarrow> ('cb, 'task) reactor" where
  "erase_timer i r = r\<lparr>rc_timers := (rc_timers r)(i := None)\<rparr>"

text \<open>Handlers either end in a new state or end the process with a fault.\<close>

definition andthen :: "'e + 's \<Rightarrow> ('s \<Rightarrow> 'e + 't) \<Rightarrow> 'e + 't" where
  "andthen x f = (case x of Inl e \<Rightarrow> Inl e | Inr s \<Rightarrow> f s)"

definition HandleTimerEvent ::
    "('s \<Rightarrow> ('cb, 'task) reactor) \<Rightarrow> ((('cb, 'task) reactor \<Rightarrow> ('cb, 'task) reactor) \<Rightarrow> 's \<Rightarrow> 's) \<Rightarrow> ('cb \<Rightarrow> u32 \<Rightarrow> 's \<Rightarrow> 'e + 's)
       \<Rightarrow> u32 \<Rightarrow> 's \<Rightarrow> 'e + 's" where
  "HandleTimerEvent get upd invoke i s =
     (case rc_timers (get s) i of
        None \<Rightarrow> Inr s
      | Some t \<Rightarrow>
          if tw_removed t then Inr (upd (erase_timer i) s)
          else andthen (invoke (tw_callback t) i s) (\<lambda>s'. Inr (if tw_repeat t then s' else upd (erase_timer i) s')))"

text \<open>One round of the loop of \<open>HandleEvents\<close>: the task runs before it is removed.\<close>

definition HandleTask ::
    "('s \<Rightarrow> ('cb, 'task) reactor) \<Rightarrow> ((('cb, 'task) reactor \<Rightarrow> ('cb, 'task) reactor) \<Rightarrow> 's \<Rightarrow> 's) \<Rightarrow> ('task \<Rightarrow> 's \<Rightarrow> 'e + 's)
       \<Rightarrow> 's \<Rightarrow> 'e + 's" where
  "HandleTask get upd exec s =
     (case rc_tasks (get s) of
        [] \<Rightarrow> Inr s
      | t # _ \<Rightarrow> andthen (exec t s) (\<lambda>s'. Inr (upd (\<lambda>r. r\<lparr>rc_tasks := tl (rc_tasks r)\<rparr>) s')))"

lemma andthen_simps [simp]:
  "andthen (Inl e) f = Inl e"
  "andthen (Inr s) f = f s"
  by (simp_all add: andthen_def)

subsection \<open>The contract of the timers\<close>

text \<open>The callback of a timer that will still be called.\<close>

definition live :: "('cb, 'task) reactor \<Rightarrow> u32 \<rightharpoonup> 'cb" where
  "live r i = (case rc_timers r i of None \<Rightarrow> None | Some t \<Rightarrow> if tw_removed t then None else Some (tw_callback t))"

text \<open>No timer has an id above the last one issued, so that the next id is new until the ids wrap around.\<close>

definition timers_inv :: "('cb, 'task) reactor \<Rightarrow> bool" where
  "timers_inv r \<longleftrightarrow> (\<forall>i. rc_timers r i \<noteq> None \<longrightarrow> 0 < i \<and> i \<le> rc_timer_id r)"

locale timer_store =
  fixes inv :: "'r \<Rightarrow> bool" and pending :: "'r \<Rightarrow> u32 \<rightharpoonup> 'cb" and add :: "nat \<Rightarrow> 'cb \<Rightarrow> bool \<Rightarrow> 'r \<Rightarrow> u32 \<times> 'r"
    and cancel :: "u32 \<Rightarrow> 'r \<Rightarrow> 'r" and erase :: "u32 \<Rightarrow> 'r \<Rightarrow> 'r"
  assumes add_new: "inv r \<Longrightarrow> add n cb rep r = (i, r') \<Longrightarrow> i \<noteq> 0 \<Longrightarrow> inv r' \<and> pending r i = None \<and> pending r' = (pending r)(i \<mapsto> cb)"
    and cancel_pending: "inv r \<Longrightarrow> inv (cancel i r) \<and> pending (cancel i r) = (pending r)(i := None)"
    and erase_pending: "inv r \<Longrightarrow> inv (erase i r) \<and> pending (erase i r) = (pending r)(i := None)"
begin

lemma add_then_cancel:
  assumes "inv r" and "add n cb rep r = (i, r')" and "i \<noteq> 0"
  shows "pending (cancel i r') = pending r" and "pending (erase i r') = pending r"
  using add_new [OF assms] cancel_pending [of r' i] erase_pending [of r' i] by (auto simp: fun_eq_iff)

text \<open>Handling one timer after another was added keeps the new one.\<close>

lemma erase_other:
  assumes "inv r" and "pending r j = Some c" and "add n cb rep r = (i, r')" and "i \<noteq> 0"
  shows "i \<noteq> j" and "pending (erase j r') i = Some cb"
proof -
  show "i \<noteq> j" using add_new [OF assms(1,3,4)] assms(2) by auto
  then show "pending (erase j r') i = Some cb"
    using add_new [OF assms(1,3,4)] erase_pending [of r' j] by simp
qed

end

lemma next_id_new:
  fixes n i :: u32
  assumes "n + 1 \<noteq> 0" and "i \<le> n"
  shows "i < n + 1"
  using assms unatSuc [of n] by (simp add: add.commute word_less_nat_alt word_le_nat_alt)

interpretation reactor: timer_store timers_inv live AddTimer "\<lambda>i r. snd (RemoveTimer i r)" erase_timer
proof
  fix r r' :: "('cb, 'task) reactor" and n cb rep i
  assume inv: "timers_inv r" and a: "AddTimer n cb rep r = (i, r')" and i: "i \<noteq> 0"
  from a have i': "i = rc_timer_id r + 1" by (simp add: AddTimer_def Let_def)
  have new: "j < i" if "j \<le> rc_timer_id r" for j using next_id_new [of "rc_timer_id r" j] that i i' by simp
  have fresh: "rc_timers r i = None" using inv new unfolding timers_inv_def by (metis less_irrefl)
  have le: "j \<le> i" if "rc_timers r j \<noteq> None" for j using inv new [of j] that by (simp add: timers_inv_def less_imp_le)
  have pos: "rc_timers r 0 = None" using inv by (auto simp: timers_inv_def)
  have "timers_inv r'"
    unfolding timers_inv_def using a le pos i by (auto simp: AddTimer_def Let_def word_gt_0 i' [symmetric] dest: le [OF option.discI] split: if_splits)
  then show "timers_inv r' \<and> live r i = None \<and> live r' = (live r)(i \<mapsto> cb)"
    using a fresh by (auto simp: live_def AddTimer_def Let_def fun_eq_iff)
next
  fix r :: "('cb, 'task) reactor" and i
  assume "timers_inv r"
  then show "timers_inv (snd (RemoveTimer i r)) \<and> live (snd (RemoveTimer i r)) = (live r)(i := None)"
    by (auto simp: timers_inv_def RemoveTimer_def live_def fun_eq_iff split: option.splits)
  show "timers_inv (erase_timer i r) \<and> live (erase_timer i r) = (live r)(i := None)"
    using \<open>timers_inv r\<close> by (auto simp: timers_inv_def erase_timer_def live_def fun_eq_iff)
qed

end
