(* ===== verification/Half_Duplex.thy ===== *)
theory Half_Duplex
  imports Stream_Channel Reactor "HOL-Library.Multiset"
begin

text \<open>
  Queries over a set of connections that each carry one query at a time, classes \<open>QueryInfo\<close>,
  \<open>HalfDuplexConnect\<close> and \<open>HalfDuplexService\<close> of \<open>libsrc/blitz2/include/blitz2/half_duplex_service.h\<close>,
  on the channels of \<open>Stream_Channel\<close> and the timers and tasks of \<open>Reactor\<close>.

  A callback is a number. \<open>client\<close> says which queries a callback issues while it runs, \<open>net\<close> what the
  system calls answer when the query with a given timer id is issued, and \<open>now\<close> is the time at which
  an event is handled. The record also holds what the outside sees: the callbacks of all queries
  submitted, and the callbacks made with their results. A fault ends the process: undefined behaviour,
  a failed assertion or \<open>abort\<close>.
\<close>

datatype query_result = QSuccess | QTimeout | QInternal | QConnectClosed | QFailSelectService | QInvalidResp

record query_info =
  qi_outmsg :: "out_msg option"
  qi_callback :: nat
  qi_timerid :: u32
  qi_expire_time :: nat

definition QueryInfo :: query_info where
  "QueryInfo = \<lparr>qi_outmsg = None, qi_callback = 0, qi_timerid = 0, qi_expire_time = 0\<rparr>"

definition qi_Set :: "out_msg \<Rightarrow> nat \<Rightarrow> query_info \<Rightarrow> query_info" where
  "qi_Set m cb q = q\<lparr>qi_outmsg := Some m, qi_callback := cb\<rparr>"

definition qi_IsValid :: "query_info \<Rightarrow> bool" where
  "qi_IsValid q \<longleftrightarrow> qi_outmsg q \<noteq> None"

definition qi_Clear :: "query_info \<Rightarrow> query_info" where
  "qi_Clear q = q\<lparr>qi_outmsg := None, qi_timerid := 0\<rparr>"

record hd_connect =
  hc_channel :: channel
  hc_info :: query_info

definition HalfDuplexConnect :: hd_connect where
  "HalfDuplexConnect = \<lparr>hc_channel = StreamSocketChannel, hc_info = QueryInfo\<rparr>"

datatype sv_task = ConnOpened nat | ConnClosed nat | TaskCallback nat query_result

datatype fault = NullMessage | BusyConn | NoTimer | WrongTimer | BadChannel | NoConn | NoFuel

record service =
  sv_queries :: "query_info list"
  sv_idle_conns :: "nat list"
  sv_conns :: "hd_connect list"
  sv_max_conn_count :: nat
  sv_short_connect :: bool
  sv_reactor :: "(nat, sv_task) reactor"
  sv_submitted :: "nat list"
  sv_log :: "(nat \<times> query_result) list"

definition HalfDuplexService :: "nat \<Rightarrow> bool \<Rightarrow> service" where
  "HalfDuplexService max_conn short =
     \<lparr>sv_queries = [], sv_idle_conns = [], sv_conns = [], sv_max_conn_count = max_conn, sv_short_connect = short,
      sv_reactor = Reactor_new, sv_submitted = [], sv_log = []\<rparr>"

record net =
  net_connect :: "u32 \<Rightarrow> connect_result"
  net_write :: "u32 \<Rightarrow> writev_result list"

type_synonym client = "nat \<Rightarrow> query_result \<Rightarrow> (nat \<times> out_msg \<times> nat) list"

text \<open>
  An operation of the channel of connection \<open>i\<close>. It posts its tasks for this connection; what it
  reports at once stays in \<open>ch_notices\<close>.
\<close>

definition tasks_of :: "nat \<Rightarrow> notice list \<Rightarrow> sv_task list" where
  "tasks_of i ns = concat (map (\<lambda>n. case n of OpenedTask \<Rightarrow> [ConnOpened i] | ClosedTask \<Rightarrow> [ConnClosed i] | _ \<Rightarrow> []) ns)"

definition on_channel :: "(channel \<Rightarrow> channel cxx) \<Rightarrow> nat \<Rightarrow> service \<Rightarrow> fault + service" where
  "on_channel f i s =
     (if length (sv_conns s) \<le> i then Inl NoConn
      else case f ((hc_channel (sv_conns s ! i))\<lparr>ch_notices := []\<rparr>) of
        None \<Rightarrow> Inl BadChannel
      | Some ch \<Rightarrow> Inr (s\<lparr>sv_conns := (sv_conns s)[i := (sv_conns s ! i)\<lparr>hc_channel := ch\<rparr>],
                          sv_reactor := fold PostTask (tasks_of i (ch_notices ch)) (sv_reactor s)\<rparr>))"

definition set_info :: "nat \<Rightarrow> (query_info \<Rightarrow> query_info) \<Rightarrow> service \<Rightarrow> service" where
  "set_info i f s = s\<lparr>sv_conns := (sv_conns s)[i := (sv_conns s ! i)\<lparr>hc_info := f (hc_info (sv_conns s ! i))\<rparr>]\<rparr>"

definition hc_Query :: "net \<Rightarrow> nat \<Rightarrow> nat \<Rightarrow> out_msg \<Rightarrow> nat \<Rightarrow> service \<Rightarrow> fault + service" where
  "hc_Query net i callback outmsg timeout s =
     (if length (sv_conns s) \<le> i then Inl NoConn
      else if qi_IsValid (hc_info (sv_conns s ! i)) then Inl BusyConn
      else let (timerid, r) = AddTimer timeout i False (sv_reactor s) in
        if timerid = 0 then Inl NoTimer
        else on_channel (SendMsg (net_write net timerid) outmsg) i
          (set_info i (\<lambda>q. (qi_Set outmsg callback q)\<lparr>qi_timerid := timerid\<rparr>) (s\<lparr>sv_reactor := r\<rparr>)))"

text \<open>The answer of the network is the one for the timer id that is issued next.\<close>

definition next_timer :: "service \<Rightarrow> u32" where
  "next_timer s = rc_timer_id (sv_reactor s) + 1"

definition hc_Connect :: "net \<Rightarrow> nat \<Rightarrow> service \<Rightarrow> fault + service" where
  "hc_Connect net i s = on_channel (\<lambda>c. Some (ch_Connect (net_connect net (next_timer s)) c)) i s"

definition GetIdleConn :: "net \<Rightarrow> service \<Rightarrow> fault + (nat option \<times> service)" where
  "GetIdleConn net s =
     (case sv_idle_conns s of
        [] \<Rightarrow>
          if length (sv_conns s) < sv_max_conn_count s then
            andthen (on_channel (\<lambda>c. Some (ch_Connect_addr False (net_connect net (next_timer s)) c)) (length (sv_conns s))
                (s\<lparr>sv_conns := sv_conns s @ [HalfDuplexConnect]\<rparr>))
              (\<lambda>s'. Inr (Some (length (sv_conns s)), s'))
          else Inr (None, s)
      | i # is \<Rightarrow> andthen (hc_Connect net i (s\<lparr>sv_idle_conns := is\<rparr>)) (\<lambda>s'. Inr (Some i, s')))"

definition ReturnConn :: "nat \<Rightarrow> service \<Rightarrow> service" where
  "ReturnConn i s = s\<lparr>sv_idle_conns := sv_idle_conns s @ [i]\<rparr>"

definition sv_Query :: "net \<Rightarrow> nat \<Rightarrow> nat \<Rightarrow> out_msg \<Rightarrow> nat \<Rightarrow> service \<Rightarrow> fault + service" where
  "sv_Query net now callback outmsg timeout s0 =
     (let s = s0\<lparr>sv_submitted := sv_submitted s0 @ [callback]\<rparr> in
      andthen (GetIdleConn net s) (\<lambda>(conn, s1). case conn of
        None \<Rightarrow> Inr (s1\<lparr>sv_queries := sv_queries s1 @ [(qi_Set outmsg callback QueryInfo)\<lparr>qi_expire_time := now + timeout\<rparr>]\<rparr>)
      | Some i \<Rightarrow> hc_Query net i callback outmsg timeout s1))"

definition QueryWithExpire :: "net \<Rightarrow> nat \<Rightarrow> nat \<Rightarrow> out_msg \<Rightarrow> nat \<Rightarrow> service \<Rightarrow> fault + service" where
  "QueryWithExpire net now callback outmsg expire s =
     (if now < expire then sv_Query net now callback outmsg ((expire - now) mod 2 ^ 32) s
      else Inr (s\<lparr>sv_submitted := sv_submitted s @ [callback],
                  sv_reactor := PostTask (TaskCallback callback QTimeout) (sv_reactor s)\<rparr>))"

text \<open>A callback is made; it may issue further queries.\<close>

primrec issue :: "net \<Rightarrow> nat \<Rightarrow> (nat \<times> out_msg \<times> nat) list \<Rightarrow> service \<Rightarrow> fault + service" where
  "issue net now [] s = Inr s"
| "issue net now (x # xs) s = andthen (sv_Query net now (fst x) (fst (snd x)) (snd (snd x)) s) (issue net now xs)"

definition ProcessMsg :: "client \<Rightarrow> net \<Rightarrow> nat \<Rightarrow> nat \<Rightarrow> query_result \<Rightarrow> service \<Rightarrow> fault + service" where
  "ProcessMsg client net now callback res s = issue net now (client callback res) (s\<lparr>sv_log := sv_log s @ [(callback, res)]\<rparr>)"

text \<open>
  The loop of \<open>TryQuery\<close>. A callback can keep it running by issuing queries that are expired already,
  so it has fuel: one round more than there are queries in the queue.
\<close>

definition pop_query :: "service \<Rightarrow> service" where
  "pop_query s = s\<lparr>sv_queries := tl (sv_queries s)\<rparr>"

primrec try_query :: "nat \<Rightarrow> client \<Rightarrow> net \<Rightarrow> nat \<Rightarrow> nat \<Rightarrow> service \<Rightarrow> fault + service" where
  "try_query 0 client net now i s = Inl NoFuel"
| "try_query (Suc n) client net now i s =
     (case sv_queries s of
        [] \<Rightarrow> Inr (ReturnConn i s)
      | q # _ \<Rightarrow> (case qi_outmsg q of
          None \<Rightarrow> Inl NullMessage
        | Some m \<Rightarrow>
            if qi_expire_time q \<le> now then
              andthen (ProcessMsg client net now (qi_callback q) QTimeout s) (\<lambda>s'. try_query n client net now i (pop_query s'))
            else
              andthen (hc_Connect net i s) (\<lambda>s1.
              andthen (hc_Query net i (qi_callback q) m ((qi_expire_time q - now) mod 2 ^ 32) s1) (\<lambda>s2. Inr (pop_query s2)))))"

definition TryQuery :: "client \<Rightarrow> net \<Rightarrow> nat \<Rightarrow> nat \<Rightarrow> service \<Rightarrow> fault + service" where
  "TryQuery client net now i s = try_query (Suc (length (sv_queries s))) client net now i s"

definition OnConnectQueryFinished :: "client \<Rightarrow> net \<Rightarrow> nat \<Rightarrow> nat \<Rightarrow> service \<Rightarrow> fault + service" where
  "OnConnectQueryFinished client net now i s =
     andthen (if sv_short_connect s then on_channel (\<lambda>c. Some (ch_Close False c)) i s else Inr s) (TryQuery client net now i)"

definition sv_RemoveTimer :: "u32 \<Rightarrow> service \<Rightarrow> service" where
  "sv_RemoveTimer t s = s\<lparr>sv_reactor := snd (RemoveTimer t (sv_reactor s))\<rparr>"

definition hc_OnMsgArrived :: "client \<Rightarrow> net \<Rightarrow> nat \<Rightarrow> nat \<Rightarrow> service \<Rightarrow> fault + service" where
  "hc_OnMsgArrived client net now i s =
     (let q = hc_info (sv_conns s ! i) in
      if \<not> qi_IsValid q then Inl NullMessage
      else if qi_timerid q = 0 then Inl WrongTimer
      else andthen (ProcessMsg client net now (qi_callback q) QSuccess (sv_RemoveTimer (qi_timerid q) s)) (\<lambda>s1.
        OnConnectQueryFinished client net now i (set_info i qi_Clear s1)))"

definition hc_OnClosed :: "client \<Rightarrow> net \<Rightarrow> nat \<Rightarrow> nat \<Rightarrow> service \<Rightarrow> fault + service" where
  "hc_OnClosed client net now i s =
     (let q = hc_info (sv_conns s ! i) in
      if \<not> qi_IsValid q then Inr s
      else andthen (ProcessMsg client net now (qi_callback q) QConnectClosed s) (\<lambda>s1.
        TryQuery client net now i (set_info i qi_Clear (sv_RemoveTimer (qi_timerid q) s1))))"

definition hc_OnTimeout :: "client \<Rightarrow> net \<Rightarrow> nat \<Rightarrow> nat \<Rightarrow> u32 \<Rightarrow> service \<Rightarrow> fault + service" where
  "hc_OnTimeout client net now i t s =
     (let q = hc_info (sv_conns s ! i) in
      if t \<noteq> qi_timerid q then Inl WrongTimer
      else if \<not> qi_IsValid q then Inl NullMessage
      else andthen (ProcessMsg client net now (qi_callback q) QTimeout s) (\<lambda>s1.
        andthen (on_channel (\<lambda>c. Some (ch_Close False c)) i (set_info i qi_Clear s1)) (OnConnectQueryFinished client net now i)))"

text \<open>What the event loop calls.\<close>

definition channel_event :: "client \<Rightarrow> net \<Rightarrow> nat \<Rightarrow> (channel \<Rightarrow> channel cxx) \<Rightarrow> nat \<Rightarrow> service \<Rightarrow> fault + service" where
  "channel_event client net now f i s =
     andthen (on_channel f i s) (\<lambda>s1.
       if OnClosed \<in> set (ch_notices (hc_channel (sv_conns s1 ! i))) then hc_OnClosed client net now i s1 else Inr s1)"

definition upd_reactor :: "((nat, sv_task) reactor \<Rightarrow> (nat, sv_task) reactor) \<Rightarrow> service \<Rightarrow> service" where
  "upd_reactor f s = s\<lparr>sv_reactor := f (sv_reactor s)\<rparr>"

primrec exec_task :: "client \<Rightarrow> net \<Rightarrow> nat \<Rightarrow> sv_task \<Rightarrow> service \<Rightarrow> fault + service" where
  "exec_task client net now (ConnOpened i) s = Inr s"
| "exec_task client net now (ConnClosed i) s = hc_OnClosed client net now i s"
| "exec_task client net now (TaskCallback cb res) s = ProcessMsg client net now cb res s"

datatype sv_event =
    Submit nat out_msg nat | SubmitExpire nat out_msg nat | Arrives nat | Breaks nat | Ready nat bool "writev_result list"
  | Fires u32 | RunTask

primrec handle :: "client \<Rightarrow> net \<Rightarrow> nat \<Rightarrow> sv_event \<Rightarrow> service \<Rightarrow> fault + service" where
  "handle client net now (Submit cb m timeout) s = sv_Query net now cb m timeout s"
| "handle client net now (SubmitExpire cb m expire) s = QueryWithExpire net now cb m expire s"
| "handle client net now (Arrives i) s = hc_OnMsgArrived client net now i s"
| "handle client net now (Breaks i) s = channel_event client net now (\<lambda>c. Some (RealClose True c)) i s"
| "handle client net now (Ready i err ws) s = channel_event client net now (OnWrite err ws) i s"
| "handle client net now (Fires t) s = HandleTimerEvent sv_reactor upd_reactor (\<lambda>i t. hc_OnTimeout client net now i t) t s"
| "handle client net now RunTask s = HandleTask sv_reactor upd_reactor (exec_task client net now) s"

text \<open>
  Which events can happen: submitted messages are not empty, and the network reports on sockets that
  are open. A server may send a message at any time, also to a connection that waits for none.
\<close>

fun enabled :: "sv_event \<Rightarrow> service \<Rightarrow> bool" where
  "enabled (Submit cb m timeout) s = (msg_bytes m \<noteq> [])"
| "enabled (SubmitExpire cb m expire) s = (msg_bytes m \<noteq> [])"
| "enabled (Arrives i) s = (i < length (sv_conns s) \<and> ch_fd (hc_channel (sv_conns s ! i)))"
| "enabled (Breaks i) s = (i < length (sv_conns s) \<and> ch_fd (hc_channel (sv_conns s ! i)))"
| "enabled (Ready i err ws) s = (i < length (sv_conns s) \<and> ch_fd (hc_channel (sv_conns s ! i)))"
| "enabled _ s = True"

inductive service_run :: "client \<Rightarrow> net \<Rightarrow> nat \<Rightarrow> bool \<Rightarrow> service \<Rightarrow> bool" for client net max_conn short where
  start: "service_run client net max_conn short (HalfDuplexService max_conn short)"
| event: "service_run client net max_conn short s \<Longrightarrow> enabled e s \<Longrightarrow> handle client net now e s = Inr s' \<Longrightarrow> service_run client net max_conn short s'"

subsection \<open>The invariant\<close>

text \<open>
  While an event is handled, \<open>X\<close> holds the connection whose query has just ended and that has not been
  given back, \<open>Y\<close> the timer that is being handled, and the first \<open>k\<close> tasks and \<open>l\<close> queries of the
  queues are being processed but not removed yet.
\<close>

abbreviation busy :: "service \<Rightarrow> nat \<Rightarrow> bool" where
  "busy s j \<equiv> qi_IsValid (hc_info (sv_conns s ! j))"

definition conns_ok :: "nat set \<Rightarrow> service \<Rightarrow> bool" where
  "conns_ok X s \<longleftrightarrow> distinct (sv_idle_conns s) \<and> X \<subseteq> {..<length (sv_conns s)} \<and> length (sv_conns s) \<le> sv_max_conn_count s \<and>
     (\<forall>j. j \<in> set (sv_idle_conns s) \<longleftrightarrow> j < length (sv_conns s) \<and> j \<notin> X \<and> \<not> busy s j) \<and>
     (sv_queries s \<noteq> [] \<longrightarrow> sv_idle_conns s = [] \<and> sv_max_conn_count s \<le> length (sv_conns s))"

definition no_repeat :: "('cb, 'task) reactor \<Rightarrow> bool" where
  "no_repeat r \<longleftrightarrow> (\<forall>t w. rc_timers r t = Some w \<longrightarrow> \<not> tw_repeat w)"

lemma no_repeat_tasks [simp]: "no_repeat (r\<lparr>rc_tasks := ts\<rparr>) = no_repeat r"
  by (simp add: no_repeat_def)

definition timers_ok :: "nat set \<Rightarrow> u32 set \<Rightarrow> service \<Rightarrow> bool" where
  "timers_ok X Y s \<longleftrightarrow> timers_inv (sv_reactor s) \<and> no_repeat (sv_reactor s) \<and> (\<forall>t \<in> Y. t \<le> rc_timer_id (sv_reactor s)) \<and>
     (\<forall>j < length (sv_conns s). j \<notin> X \<and> busy s j \<longrightarrow>
        live (sv_reactor s) (qi_timerid (hc_info (sv_conns s ! j))) = Some j \<and> qi_timerid (hc_info (sv_conns s ! j)) \<notin> Y) \<and>
     (\<forall>t j. live (sv_reactor s) t = Some j \<and> t \<notin> Y \<longrightarrow>
        j < length (sv_conns s) \<and> j \<notin> X \<and> busy s j \<and> qi_timerid (hc_info (sv_conns s ! j)) = t)"

definition channels_ok :: "nat set \<Rightarrow> service \<Rightarrow> bool" where
  "channels_ok X s \<longleftrightarrow> (\<forall>j < length (sv_conns s). ch_reusable (hc_channel (sv_conns s ! j)) \<and>
     (j \<notin> X \<longrightarrow> ch_safe (hc_channel (sv_conns s ! j))))"

primrec task_ids :: "sv_task \<Rightarrow> nat list" where
  "task_ids (ConnOpened i) = []"
| "task_ids (ConnClosed i) = []"
| "task_ids (TaskCallback cb res) = [cb]"

primrec task_conn :: "sv_task \<Rightarrow> nat option" where
  "task_conn (ConnOpened i) = Some i"
| "task_conn (ConnClosed i) = Some i"
| "task_conn (TaskCallback cb res) = None"

definition queues_ok :: "nat \<Rightarrow> nat \<Rightarrow> service \<Rightarrow> bool" where
  "queues_ok k l s \<longleftrightarrow> k \<le> length (rc_tasks (sv_reactor s)) \<and> l \<le> length (sv_queries s) \<and>
     (\<forall>q \<in> set (sv_queries s). \<exists>m. qi_outmsg q = Some m \<and> msg_bytes m \<noteq> []) \<and>
     (\<forall>t \<in> set (rc_tasks (sv_reactor s)). \<forall>i. task_conn t = Some i \<longrightarrow> i < length (sv_conns s))"

definition sv_inv :: "nat set \<Rightarrow> u32 set \<Rightarrow> nat \<Rightarrow> nat \<Rightarrow> service \<Rightarrow> bool" where
  "sv_inv X Y k l s \<longleftrightarrow> conns_ok X s \<and> timers_ok X Y s \<and> channels_ok X s \<and> queues_ok k l s"

text \<open>The queries that are not called back: in flight, queued, or with a posted task. Each submitted one is among them or called back.\<close>

definition in_flight :: "nat set \<Rightarrow> service \<Rightarrow> nat multiset" where
  "in_flight X s = image_mset (\<lambda>j. qi_callback (hc_info (sv_conns s ! j))) (mset_set {j. j < length (sv_conns s) \<and> j \<notin> X \<and> busy s j})"

definition held :: "nat set \<Rightarrow> nat \<Rightarrow> nat \<Rightarrow> service \<Rightarrow> nat multiset" where
  "held X k l s = mset (map fst (sv_log s)) + in_flight X s + mset (map qi_callback (drop l (sv_queries s))) +
     mset (concat (map task_ids (drop k (rc_tasks (sv_reactor s)))))"

definition balanced :: "nat multiset \<Rightarrow> nat set \<Rightarrow> nat \<Rightarrow> nat \<Rightarrow> service \<Rightarrow> bool" where
  "balanced d X k l s \<longleftrightarrow> mset (sv_submitted s) = d + held X k l s"

text \<open>What handlers leave alone.\<close>

definition same_conns :: "nat set \<Rightarrow> service \<Rightarrow> service \<Rightarrow> bool" where
  "same_conns X s s' \<longleftrightarrow> length (sv_conns s) \<le> length (sv_conns s') \<and> (\<forall>j \<in> X. sv_conns s' ! j = sv_conns s ! j) \<and>
     sv_short_connect s' = sv_short_connect s \<and> sv_max_conn_count s' = sv_max_conn_count s"

lemma same_conns_refl [simp]: "same_conns X s s"
  by (simp add: same_conns_def)

lemma same_conns_trans: "same_conns X s s' \<Longrightarrow> same_conns X s' s'' \<Longrightarrow> same_conns X s s''"
  by (auto simp: same_conns_def)

lemma fold_PostTask: "fold PostTask ts r = r\<lparr>rc_tasks := rc_tasks r @ ts\<rparr>"
  by (induction ts arbitrary: r) (simp_all add: PostTask_def)

lemma live_tasks [simp]: "live (r\<lparr>rc_tasks := ts\<rparr>) = live r" "timers_inv (r\<lparr>rc_tasks := ts\<rparr>) = timers_inv r"
  by (simp_all add: live_def timers_inv_def fun_eq_iff)

lemma tasks_of_ids [simp]: "concat (map task_ids (tasks_of i ns)) = []"
  by (induction ns) (simp_all add: tasks_of_def split: notice.splits)

lemma tasks_of_conn: "t \<in> set (tasks_of i ns) \<Longrightarrow> task_conn t = Some i"
  by (induction ns) (auto simp: tasks_of_def split: notice.splits)

lemma on_channel_inv:
  assumes inv: "conns_ok X s" "timers_ok X Y s" "channels_ok (insert i X) s" "queues_ok k l s"
    and bal: "balanced d X k l s" and i: "i < length (sv_conns s)"
    and f: "f ((hc_channel (sv_conns s ! i))\<lparr>ch_notices := []\<rparr>) = Some c" and c: "ch_reusable c" "i \<notin> X \<Longrightarrow> ch_safe c"
  shows "\<exists>s'. on_channel f i s = Inr s' \<and> sv_inv X Y k l s' \<and> balanced d X k l s' \<and> same_conns (X - {i}) s s' \<and>
    hc_channel (sv_conns s' ! i) = c \<and> hc_info (sv_conns s' ! i) = hc_info (sv_conns s ! i) \<and> length (sv_conns s') = length (sv_conns s) \<and>
    sv_queries s' = sv_queries s \<and> sv_idle_conns s' = sv_idle_conns s \<and>
    rc_timer_id (sv_reactor s') = rc_timer_id (sv_reactor s)"
proof -
  let ?s = "s\<lparr>sv_conns := (sv_conns s)[i := (sv_conns s ! i)\<lparr>hc_channel := c\<rparr>], sv_reactor := fold PostTask (tasks_of i (ch_notices c)) (sv_reactor s)\<rparr>"
  have info: "hc_info (sv_conns ?s ! j) = hc_info (sv_conns s ! j)" for j using i by (cases "j = i") simp_all
  have conns: "conns_ok X ?s = conns_ok X s" by (simp add: conns_ok_def info [simplified])
  have timers: "timers_ok X Y ?s = timers_ok X Y s" by (simp add: timers_ok_def info [simplified] fold_PostTask)
  have chans: "channels_ok X ?s" using inv(3) c i by (auto simp: channels_ok_def nth_list_update)
  have queues: "queues_ok k l ?s" using inv(4) i tasks_of_conn by (fastforce simp: queues_ok_def fold_PostTask)
  have "in_flight X ?s = in_flight X s" by (simp add: in_flight_def info [simplified])
  then have "balanced d X k l ?s" using bal inv(4) by (simp add: balanced_def held_def fold_PostTask queues_ok_def)
  then show ?thesis using i f inv conns timers chans queues info
    by (simp add: on_channel_def sv_inv_def same_conns_def fold_PostTask)
qed

lemma image_mset_set_cong: "(\<And>j. j \<in> A \<Longrightarrow> f j = g j) \<Longrightarrow> image_mset f (mset_set A) = image_mset g (mset_set A)"
  by (cases "finite A") (auto intro: image_mset_cong)

lemma live_timer:
  "timers_ok X Y s \<Longrightarrow> live (sv_reactor s) t = Some j \<Longrightarrow> t \<notin> Y \<Longrightarrow>
     j < length (sv_conns s) \<and> j \<notin> X \<and> busy s j \<and> qi_timerid (hc_info (sv_conns s ! j)) = t"
  unfolding timers_ok_def by blast

lemma channels_ok_insert: "channels_ok X s \<Longrightarrow> channels_ok (insert i X) s"
  by (auto simp: channels_ok_def)

lemma AddTimer_facts:
  assumes "timers_ok X Y s" and "AddTimer timeout i False (sv_reactor s) = (t, r)" and "t \<noteq> 0"
  shows "timers_inv r" "live r = (live (sv_reactor s))(t \<mapsto> i)" "live (sv_reactor s) t = None" "t \<notin> Y" "\<forall>t \<in> Y. t \<le> rc_timer_id r"
    "rc_tasks r = rc_tasks (sv_reactor s)" "no_repeat r"
proof -
  have t: "t = rc_timer_id (sv_reactor s) + 1" "rc_timer_id r = t" using assms(2) by (auto simp: AddTimer_def Let_def)
  have "y < t" if "y \<in> Y" for y using next_id_new [of "rc_timer_id (sv_reactor s)" y] assms(1,3) that t by (auto simp: timers_ok_def)
  then show "t \<notin> Y" "\<forall>t \<in> Y. t \<le> rc_timer_id r" using t by (auto simp: less_imp_le)
  show "timers_inv r" "live r = (live (sv_reactor s))(t \<mapsto> i)" "live (sv_reactor s) t = None"
    using reactor.add_new [of "sv_reactor s" timeout i False t r] assms by (simp_all add: timers_ok_def)
  show "rc_tasks r = rc_tasks (sv_reactor s)" using assms(2) by (auto simp: AddTimer_def Let_def)
  show "no_repeat r" using assms(1,2) by (auto simp: AddTimer_def Let_def no_repeat_def timers_ok_def split: if_splits)
qed

text \<open>Starting a query on a connection that has none.\<close>

lemma start_query_inv:
  assumes inv: "sv_inv X Y k l s" and bal: "balanced (add_mset cb d) X k l s" and i: "i \<in> X" "\<not> busy s i"
    and add: "AddTimer timeout i False (sv_reactor s) = (t, r)" "t \<noteq> 0"
    and s': "s' = set_info i (\<lambda>q. (qi_Set m cb q)\<lparr>qi_timerid := t\<rparr>) (s\<lparr>sv_reactor := r\<rparr>)"
  shows "conns_ok (X - {i}) s'" "timers_ok (X - {i}) Y s'" "channels_ok (insert i (X - {i})) s'" "queues_ok k l s'" "balanced d (X - {i}) k l s'"
    "same_conns (X - {i}) s s'" "sv_queries s' = sv_queries s" "i < length (sv_conns s')" "hc_channel (sv_conns s' ! i) = hc_channel (sv_conns s ! i)"
proof -
  have len: "i < length (sv_conns s)" using inv i(1) by (auto simp: sv_inv_def conns_ok_def)
  have r: "timers_inv r" "live r = (live (sv_reactor s))(t \<mapsto> i)" "live (sv_reactor s) t = None" "t \<notin> Y" "\<forall>t \<in> Y. t \<le> rc_timer_id r"
    "rc_tasks r = rc_tasks (sv_reactor s)" "no_repeat r"
    using AddTimer_facts [OF conjunct1 [OF conjunct2 [OF inv [unfolded sv_inv_def]]] add] by simp_all
  have conns: "sv_conns s' = (sv_conns s)[i := (sv_conns s ! i)\<lparr>hc_info := (qi_Set m cb (hc_info (sv_conns s ! i)))\<lparr>qi_timerid := t\<rparr>\<rparr>]"
    by (simp add: s' set_info_def)
  then have at_i: "busy s' i" "qi_callback (hc_info (sv_conns s' ! i)) = cb" "qi_timerid (hc_info (sv_conns s' ! i)) = t"
    using len by (simp_all add: qi_IsValid_def qi_Set_def)
  have other: "sv_conns s' ! j = sv_conns s ! j" if "j \<noteq> i" for j using conns that by simp
  have l: "length (sv_conns s') = length (sv_conns s)" using conns by simp
  have rest: "sv_idle_conns s' = sv_idle_conns s" "sv_queries s' = sv_queries s" "sv_max_conn_count s' = sv_max_conn_count s" "sv_reactor s' = r"
    "sv_log s' = sv_log s" "sv_submitted s' = sv_submitted s" "sv_short_connect s' = sv_short_connect s"
    by (simp_all add: s' set_info_def)
  have B: "busy s' j = (j = i \<or> busy s j)" for j using at_i(1) other [of j] by (cases "j = i") simp_all
  show "conns_ok (X - {i}) s'"
    using inv i unfolding sv_inv_def conns_ok_def rest l B by auto
  have C: "ch_reusable (hc_channel (sv_conns s ! j)) \<and> (j \<notin> X \<longrightarrow> ch_safe (hc_channel (sv_conns s ! j)))" if "j < length (sv_conns s)" for j
    using inv that by (simp add: sv_inv_def channels_ok_def)
  show ch: "hc_channel (sv_conns s' ! i) = hc_channel (sv_conns s ! i)" using conns len by simp
  then show "channels_ok (insert i (X - {i})) s'" using C other i len by (auto simp: channels_ok_def l) (metis i(1))+
  have T: "live (sv_reactor s) (qi_timerid (hc_info (sv_conns s ! j))) = Some j" "qi_timerid (hc_info (sv_conns s ! j)) \<notin> Y"
    if "j < length (sv_conns s)" "j \<notin> X" "busy s j" for j
    using inv that by (simp_all add: sv_inv_def timers_ok_def)
  have T': "j < length (sv_conns s) \<and> j \<notin> X \<and> busy s j \<and> qi_timerid (hc_info (sv_conns s ! j)) = u"
    if "live (sv_reactor s) u = Some j" "u \<notin> Y" for u j
    using live_timer [of X Y s u j] inv that by (simp add: sv_inv_def)
  have "live r (qi_timerid (hc_info (sv_conns s' ! j))) = Some j \<and> qi_timerid (hc_info (sv_conns s' ! j)) \<notin> Y"
    if "j < length (sv_conns s)" "j \<notin> X - {i}" "busy s' j" for j
  proof (cases "j = i")
    case False
    then show ?thesis using T [of j] that other [of j] r(2,3) by auto
  qed (use at_i r in simp)
  moreover have "j < length (sv_conns s) \<and> j \<notin> X - {i} \<and> busy s' j \<and> qi_timerid (hc_info (sv_conns s' ! j)) = u"
    if "live r u = Some j" "u \<notin> Y" for u j
  proof (cases "u = t")
    case False
    then have "live (sv_reactor s) u = Some j" using that r(2) by simp
    from T' [OF this that(2)] i(1) have "j \<noteq> i" "j < length (sv_conns s)" "j \<notin> X" "busy s j" "qi_timerid (hc_info (sv_conns s ! j)) = u" by auto
    then show ?thesis using other [of j] by simp
  qed (use that r(2) at_i len in auto)
  ultimately show "timers_ok (X - {i}) Y s'" using r(1,5,7) unfolding timers_ok_def rest l by blast
  show "queues_ok k l s'" using inv unfolding sv_inv_def queues_ok_def rest l by (simp add: r(6))
  have "{j. j < length (sv_conns s') \<and> j \<notin> X - {i} \<and> busy s' j} = insert i {j. j < length (sv_conns s) \<and> j \<notin> X \<and> busy s j}"
    using i(1) len unfolding l B by auto
  moreover have "image_mset (\<lambda>j. qi_callback (hc_info (sv_conns s' ! j))) (mset_set {j. j < length (sv_conns s) \<and> j \<notin> X \<and> busy s j}) = in_flight X s"
    unfolding in_flight_def using i(1) other by (intro image_mset_set_cong) (metis (no_types, lifting) mem_Collect_eq)
  ultimately have "in_flight (X - {i}) s' = add_mset cb (in_flight X s)" using i(1) at_i(2) by (simp add: in_flight_def [of "X - {i}"])
  then show "balanced d (X - {i}) k l s'" using bal unfolding balanced_def held_def rest by (simp add: r(6))
  show "same_conns (X - {i}) s s'" using other by (simp add: same_conns_def rest l)
  show "sv_queries s' = sv_queries s" "i < length (sv_conns s')" using rest len l by simp_all
qed

text \<open>The outcomes of a handler: the timer ids are used up, or the new state is good.\<close>

definition goes :: "(service \<Rightarrow> bool) \<Rightarrow> fault + service \<Rightarrow> bool" where
  "goes P r \<longleftrightarrow> r = Inl NoTimer \<or> (\<exists>s. r = Inr s \<and> P s)"

lemma goes_simps [simp]: "goes P (Inr s) = P s" "goes P (Inl e) = (e = NoTimer)"
  by (simp_all add: goes_def)

lemma goes_mono: "goes P r \<Longrightarrow> (\<And>s. P s \<Longrightarrow> Q s) \<Longrightarrow> goes Q r"
  by (auto simp: goes_def)

lemma goes_andthen: "goes P r \<Longrightarrow> (\<And>s. P s \<Longrightarrow> goes Q (f s)) \<Longrightarrow> goes Q (andthen r f)"
  by (cases r) (simp_all add: goes_def)

definition settled :: "nat multiset \<Rightarrow> nat set \<Rightarrow> u32 set \<Rightarrow> nat \<Rightarrow> nat \<Rightarrow> service \<Rightarrow> bool" where
  "settled d X Y k l s \<longleftrightarrow> sv_inv X Y k l s \<and> balanced d X k l s"

lemma hc_Query_settled:
  assumes s: "settled (add_mset cb d) X Y k l s" and i: "i \<in> X" "\<not> busy s i" and m: "msg_bytes m \<noteq> []"
  shows "goes (\<lambda>s'. settled d (X - {i}) Y k l s' \<and> same_conns (X - {i}) s s' \<and> sv_queries s' = sv_queries s) (hc_Query net i cb m timeout s)"
proof -
  have inv: "sv_inv X Y k l s" "balanced (add_mset cb d) X k l s" using s by (simp_all add: settled_def)
  have len: "i < length (sv_conns s)" using inv i(1) by (auto simp: sv_inv_def conns_ok_def)
  obtain t r where add: "AddTimer timeout i False (sv_reactor s) = (t, r)" by (rule prod.exhaust)
  show ?thesis
  proof (cases "t = 0")
    case False
    let ?s = "set_info i (\<lambda>q. (qi_Set m cb q)\<lparr>qi_timerid := t\<rparr>) (s\<lparr>sv_reactor := r\<rparr>)"
    note a = start_query_inv [OF inv i add False refl, of m]
    have "ch_reusable (hc_channel (sv_conns ?s ! i))" using a(3,8) by (simp add: channels_ok_def)
    then have "sent_safely False [] (SendMsg (net_write net t) m ((hc_channel (sv_conns ?s ! i))\<lparr>ch_notices := []\<rparr>))"
      using SendMsg_safe [of "(hc_channel (sv_conns ?s ! i))\<lparr>ch_notices := []\<rparr>" m] m by simp
    then obtain c where c: "SendMsg (net_write net t) m ((hc_channel (sv_conns ?s ! i))\<lparr>ch_notices := []\<rparr>) = Some c" "ch_safe c"
      by (auto simp: sent_safely_def)
    from on_channel_inv [where f = "SendMsg (net_write net t) m", OF a(1-4,5,8) c(1)] c(2) obtain s' where
      s': "on_channel (SendMsg (net_write net t) m) i ?s = Inr s'" "sv_inv (X - {i}) Y k l s'" "balanced d (X - {i}) k l s'"
        "same_conns (X - {i} - {i}) ?s s'" "sv_queries s' = sv_queries ?s" by auto
    then have "same_conns (X - {i}) s s'" using same_conns_trans [OF a(6)] by simp
    then show ?thesis using len i(2) add False s' a(7) by (simp add: hc_Query_def settled_def)
  qed (use len i(2) add in \<open>simp add: hc_Query_def\<close>)
qed

lemma channel_settled:
  assumes s: "settled d X Y k l s" and i: "i < length (sv_conns s)"
    and f: "f ((hc_channel (sv_conns s ! i))\<lparr>ch_notices := []\<rparr>) = Some c" "ch_reusable c" "i \<notin> X \<Longrightarrow> ch_safe c"
  shows "\<exists>s'. on_channel f i s = Inr s' \<and> settled d X Y k l s' \<and> same_conns (X - {i}) s s' \<and>
    hc_channel (sv_conns s' ! i) = c \<and> hc_info (sv_conns s' ! i) = hc_info (sv_conns s ! i) \<and> length (sv_conns s') = length (sv_conns s) \<and>
    sv_queries s' = sv_queries s \<and> sv_idle_conns s' = sv_idle_conns s"
  using on_channel_inv [where f = f and i = i and c = c and s = s and X = X and Y = Y and k = k and l = l and d = d] s f i
  by (auto simp: settled_def sv_inv_def channels_ok_insert)

lemma Connect_settled:
  assumes s: "settled d X Y k l s" and i: "i \<in> X" "ch_safe (hc_channel (sv_conns s ! i))"
  shows "\<exists>s'. hc_Connect net i s = Inr s' \<and> settled d X Y k l s' \<and> same_conns (X - {i}) s s' \<and>
    hc_info (sv_conns s' ! i) = hc_info (sv_conns s ! i) \<and> sv_queries s' = sv_queries s \<and> length (sv_conns s') = length (sv_conns s)"
proof -
  have "i < length (sv_conns s)" using s i(1) by (auto simp: settled_def sv_inv_def conns_ok_def)
  moreover have "ch_reusable (ch_Connect (net_connect net (next_timer s)) ((hc_channel (sv_conns s ! i))\<lparr>ch_notices := []\<rparr>))"
    using i(2) by (simp add: ch_Connect_reusable)
  ultimately show ?thesis
    using channel_settled [OF s, of i "\<lambda>c. Some (ch_Connect (net_connect net (next_timer s)) c)"] i(1) unfolding hc_Connect_def by blast
qed

text \<open>A connection taken from the idle ones, or a new one.\<close>

lemma take_idle:
  assumes s: "settled d X Y k l s" and idle: "sv_idle_conns s = i # is"
  shows "settled d (insert i X) Y k l (s\<lparr>sv_idle_conns := is\<rparr>)" "i \<notin> X" "\<not> busy s i" "sv_queries s = []" "i < length (sv_conns s)"
proof -
  have D: "distinct (i # is)" "\<And>j. j \<in> set (i # is) \<longleftrightarrow> j < length (sv_conns s) \<and> j \<notin> X \<and> \<not> busy s j" "sv_queries s = []"
    using s idle by (auto simp: settled_def sv_inv_def conns_ok_def)
  show i: "i \<notin> X" "\<not> busy s i" "sv_queries s = []" "i < length (sv_conns s)" using D(2) [of i] D(3) by auto
  have "{j. j < length (sv_conns s) \<and> j \<notin> insert i X \<and> busy s j} = {j. j < length (sv_conns s) \<and> j \<notin> X \<and> busy s j}" using i by auto
  then have "balanced d (insert i X) k l (s\<lparr>sv_idle_conns := is\<rparr>)"
    using s by (simp add: settled_def balanced_def held_def in_flight_def)
  moreover have "conns_ok (insert i X) (s\<lparr>sv_idle_conns := is\<rparr>)"
    using s D i by (auto simp: settled_def sv_inv_def conns_ok_def)
  moreover have "timers_ok (insert i X) Y (s\<lparr>sv_idle_conns := is\<rparr>)"
    using s i by (auto simp: settled_def sv_inv_def timers_ok_def)
  moreover have "channels_ok (insert i X) (s\<lparr>sv_idle_conns := is\<rparr>)" "queues_ok k l (s\<lparr>sv_idle_conns := is\<rparr>)"
    using s by (auto simp: settled_def sv_inv_def channels_ok_def queues_ok_def)
  ultimately show "settled d (insert i X) Y k l (s\<lparr>sv_idle_conns := is\<rparr>)" by (simp add: settled_def sv_inv_def)
qed

lemma new_conn:
  assumes s: "settled d X Y k l s" and idle: "sv_idle_conns s = []" and lt: "length (sv_conns s) < sv_max_conn_count s"
    and s': "s' = s\<lparr>sv_conns := sv_conns s @ [HalfDuplexConnect]\<rparr>"
  shows "settled d (insert (length (sv_conns s)) X) Y k l s'" "length (sv_conns s) \<notin> X" "\<not> busy s' (length (sv_conns s))" "sv_queries s = []"
    "same_conns X s s'" "ch_safe (hc_channel (sv_conns s' ! length (sv_conns s)))"
proof -
  let ?n = "length (sv_conns s)"
  have X: "X \<subseteq> {..<?n}" "sv_queries s = []" and full: "\<And>j. j < ?n \<Longrightarrow> j \<notin> X \<Longrightarrow> busy s j"
    using s lt idle by (auto simp: settled_def sv_inv_def conns_ok_def)
  show n: "?n \<notin> X" "sv_queries s = []" using X by auto
  have new: "sv_conns s' ! ?n = HalfDuplexConnect" "length (sv_conns s') = Suc ?n" and old: "\<And>j. j < ?n \<Longrightarrow> sv_conns s' ! j = sv_conns s ! j"
    using s' by (simp_all add: nth_append)
  show b: "\<not> busy s' ?n" "ch_safe (hc_channel (sv_conns s' ! ?n))" using new by (simp_all add: HalfDuplexConnect_def QueryInfo_def qi_IsValid_def)
  show "same_conns X s s'" using X old s' by (auto simp: same_conns_def)
  have rest: "sv_idle_conns s' = sv_idle_conns s" "sv_queries s' = sv_queries s" "sv_max_conn_count s' = sv_max_conn_count s"
    "sv_reactor s' = sv_reactor s" "sv_log s' = sv_log s" "sv_submitted s' = sv_submitted s"
    by (simp_all add: s')
  have set: "{j. j < length (sv_conns s') \<and> j \<notin> insert ?n X \<and> busy s' j} = {j. j < ?n \<and> j \<notin> X \<and> busy s j}"
    using new old by (auto simp: less_Suc_eq)
  have "image_mset (\<lambda>j. qi_callback (hc_info (sv_conns s' ! j))) (mset_set {j. j < ?n \<and> j \<notin> X \<and> busy s j}) = in_flight X s"
    unfolding in_flight_def using old by (intro image_mset_set_cong) simp
  then have "in_flight (insert ?n X) s' = in_flight X s" unfolding in_flight_def [of "insert ?n X"] set by simp
  then have "balanced d (insert ?n X) k l s'" using s by (simp add: settled_def balanced_def held_def rest)
  moreover have "conns_ok (insert ?n X) s'"
    using X lt idle full old new unfolding conns_ok_def rest by (auto simp: less_Suc_eq)
  moreover have "timers_ok (insert ?n X) Y s'"
    using s old new(2) unfolding settled_def sv_inv_def timers_ok_def rest by (auto simp: less_Suc_eq)
  moreover have "channels_ok (insert ?n X) s'"
    using s old new b(2) by (auto simp: settled_def sv_inv_def channels_ok_def less_Suc_eq)
  moreover have "queues_ok k l s'"
    using s new(2) unfolding settled_def sv_inv_def queues_ok_def rest by (auto simp: less_Suc_eq)
  ultimately show "settled d (insert ?n X) Y k l s'" by (simp add: settled_def sv_inv_def)
qed

lemma GetIdleConn_settled:
  assumes s: "settled d X Y k l s"
  shows "(sv_idle_conns s = [] \<and> sv_max_conn_count s \<le> length (sv_conns s) \<and> GetIdleConn net s = Inr (None, s)) \<or>
    (\<exists>i s'. GetIdleConn net s = Inr (Some i, s') \<and> settled d (insert i X) Y k l s' \<and> i \<notin> X \<and> \<not> busy s' i \<and> same_conns X s s' \<and>
       sv_queries s = [] \<and> sv_queries s' = [])"
proof (cases "sv_idle_conns s")
  case Nil
  show ?thesis
  proof (cases "length (sv_conns s) < sv_max_conn_count s")
    case True
    let ?n = "length (sv_conns s)" and ?s = "s\<lparr>sv_conns := sv_conns s @ [HalfDuplexConnect]\<rparr>"
    let ?f = "\<lambda>c. ch_Connect_addr False (net_connect net (next_timer s)) c"
    note n = new_conn [OF s Nil True refl]
    have "ch_reusable (?f ((hc_channel (sv_conns ?s ! ?n))\<lparr>ch_notices := []\<rparr>))"
      using n(6) RealClose_safe by (simp add: ch_Connect_addr_def ch_Connect_reusable)
    then obtain s' where s': "on_channel (\<lambda>c. Some (?f c)) ?n ?s = Inr s'" "settled d (insert ?n X) Y k l s'" "same_conns (insert ?n X - {?n}) ?s s'"
      "hc_info (sv_conns s' ! ?n) = hc_info (sv_conns ?s ! ?n)" "sv_queries s' = sv_queries ?s"
      using channel_settled [OF n(1), of ?n "\<lambda>c. Some (?f c)"] by auto
    then have "same_conns X s s'" using same_conns_trans [OF n(5), of s'] n(2) by simp
    moreover have "\<not> busy s' ?n" using s'(4) n(3) by simp
    ultimately show ?thesis using Nil True s'(1,2,5) n(2,4) by (simp add: GetIdleConn_def)
  qed (use Nil in \<open>simp add: GetIdleConn_def\<close>)
next
  case (Cons i rest)
  note i = take_idle [OF s Cons]
  have safe: "ch_safe (hc_channel (sv_conns s ! i))" using s i(2,5) by (simp add: settled_def sv_inv_def channels_ok_def)
  from Connect_settled [OF i(1), of i net] safe obtain s' where
    s': "hc_Connect net i (s\<lparr>sv_idle_conns := rest\<rparr>) = Inr s'" "settled d (insert i X) Y k l s'"
      "same_conns (insert i X - {i}) (s\<lparr>sv_idle_conns := rest\<rparr>) s'" "hc_info (sv_conns s' ! i) = hc_info (sv_conns s ! i)"
      "sv_queries s' = sv_queries s" by auto
  have "same_conns X s s'" using s'(3) i(2) by (simp add: same_conns_def)
  moreover have "\<not> busy s' i" using s'(4) i(3) by simp
  ultimately show ?thesis using Cons s'(1,2,5) i(2,4) by (simp add: GetIdleConn_def)
qed

text \<open>Queries: the new one is started or queued behind the others.\<close>

definition queued_behind :: "nat \<Rightarrow> service \<Rightarrow> service \<Rightarrow> bool" where
  "queued_behind now s s' \<longleftrightarrow> (\<exists>new. sv_queries s' = sv_queries s @ new \<and> (\<forall>q \<in> set new. now < qi_expire_time q))"

lemma queued_behind_refl [simp]: "queued_behind now s s"
  by (simp add: queued_behind_def)

lemma queued_behind_trans: "queued_behind now s s' \<Longrightarrow> queued_behind now s' s'' \<Longrightarrow> queued_behind now s s''"
  unfolding queued_behind_def by (metis Un_iff append_assoc set_append)

lemma sv_Query_settled:
  assumes s: "settled d X Y k l s" and m: "msg_bytes m \<noteq> []"
  shows "goes (\<lambda>s'. settled d X Y k l s' \<and> same_conns X s s' \<and> (0 < timeout \<longrightarrow> queued_behind now s s')) (sv_Query net now cb m timeout s)"
proof -
  let ?s = "s\<lparr>sv_submitted := sv_submitted s @ [cb]\<rparr>"
  have "settled (add_mset cb d) X Y k l ?s"
    using s by (simp add: settled_def sv_inv_def balanced_def held_def in_flight_def conns_ok_def timers_ok_def channels_ok_def queues_ok_def)
  from GetIdleConn_settled [OF this, of net] show ?thesis
  proof (elim disjE exE conjE)
    assume g: "sv_idle_conns ?s = []" "sv_max_conn_count ?s \<le> length (sv_conns ?s)" "GetIdleConn net ?s = Inr (None, ?s)"
    let ?q = "(qi_Set m cb QueryInfo)\<lparr>qi_expire_time := now + timeout\<rparr>"
    let ?s' = "?s\<lparr>sv_queries := sv_queries ?s @ [?q]\<rparr>"
    have "settled d X Y k l ?s'"
      using s g m by (auto simp: settled_def sv_inv_def balanced_def held_def in_flight_def conns_ok_def timers_ok_def channels_ok_def queues_ok_def qi_Set_def)
    moreover have "same_conns X s ?s'" "0 < timeout \<longrightarrow> queued_behind now s ?s'" by (simp_all add: same_conns_def queued_behind_def)
    ultimately show ?thesis using g(3) by (simp add: sv_Query_def)
  next
    fix i s'
    assume g: "GetIdleConn net ?s = Inr (Some i, s')" "settled (add_mset cb d) (insert i X) Y k l s'" "i \<notin> X" "\<not> busy s' i" "same_conns X ?s s'"
      "sv_queries ?s = []" "sv_queries s' = []"
    have sc: "same_conns X s s'" using g(5) by (simp add: same_conns_def)
    have "insert i X - {i} = X" using g(3) by simp
    with hc_Query_settled [OF g(2) _ g(4) m, of net timeout]
    have "goes (\<lambda>s''. settled d X Y k l s'' \<and> same_conns X s' s'' \<and> sv_queries s'' = sv_queries s') (hc_Query net i cb m timeout s')" by simp
    then have "goes (\<lambda>s''. settled d X Y k l s'' \<and> same_conns X s s'' \<and> (0 < timeout \<longrightarrow> queued_behind now s s'')) (hc_Query net i cb m timeout s')"
      by (rule goes_mono) (use sc g(6,7) in \<open>auto simp: queued_behind_def intro: same_conns_trans\<close>)
    then show ?thesis using g(1) by (simp add: sv_Query_def)
  qed
qed

definition issues_ok :: "(nat \<times> out_msg \<times> nat) list \<Rightarrow> bool" where
  "issues_ok xs \<longleftrightarrow> (\<forall>(cb, m, timeout) \<in> set xs. msg_bytes m \<noteq> [] \<and> 0 < timeout)"

lemma issue_settled:
  "settled d X Y k l s \<Longrightarrow> issues_ok xs \<Longrightarrow> goes (\<lambda>s'. settled d X Y k l s' \<and> same_conns X s s' \<and> queued_behind now s s') (issue net now xs s)"
proof (induction xs arbitrary: s)
  case (Cons x xs)
  obtain cb m timeout where x: "x = (cb, m, timeout)" by (rule prod_cases3)
  have "goes (\<lambda>s'. settled d X Y k l s' \<and> same_conns X s s' \<and> queued_behind now s s') (sv_Query net now cb m timeout s)"
    using sv_Query_settled [OF Cons.prems(1), of m timeout now net cb] Cons.prems(2) x by (auto simp: issues_ok_def elim: goes_mono)
  then have "goes (\<lambda>s'. settled d X Y k l s' \<and> same_conns X s s' \<and> queued_behind now s s')
      (andthen (sv_Query net now cb m timeout s) (issue net now xs))"
  proof (rule goes_andthen)
    fix s1 assume s1: "settled d X Y k l s1 \<and> same_conns X s s1 \<and> queued_behind now s s1"
    have "goes (\<lambda>s'. settled d X Y k l s' \<and> same_conns X s1 s' \<and> queued_behind now s1 s') (issue net now xs s1)"
      using Cons.IH [of s1] s1 Cons.prems(2) by (simp add: issues_ok_def)
    then show "goes (\<lambda>s'. settled d X Y k l s' \<and> same_conns X s s' \<and> queued_behind now s s') (issue net now xs s1)"
      by (rule goes_mono) (use s1 in \<open>auto intro: same_conns_trans queued_behind_trans\<close>)
  qed
  then show ?case using x by simp
qed simp

definition client_ok :: "client \<Rightarrow> bool" where
  "client_ok client \<longleftrightarrow> (\<forall>cb res. issues_ok (client cb res))"

lemma ProcessMsg_settled:
  assumes "settled (add_mset cb d) X Y k l s" and "client_ok client"
  shows "goes (\<lambda>s'. settled d X Y k l s' \<and> same_conns X s s' \<and> queued_behind now s s') (ProcessMsg client net now cb res s)"
proof -
  let ?s = "s\<lparr>sv_log := sv_log s @ [(cb, res)]\<rparr>"
  have "settled d X Y k l ?s"
    using assms(1) by (simp add: settled_def sv_inv_def balanced_def held_def in_flight_def conns_ok_def timers_ok_def channels_ok_def queues_ok_def)
  from issue_settled [OF this, of "client cb res" now net] show ?thesis
    using assms(2) by (simp add: ProcessMsg_def client_ok_def same_conns_def queued_behind_def)
qed

lemma front_query:
  assumes "settled d X Y k 0 s" and "sv_queries s = q # qs"
  shows "settled (add_mset (qi_callback q) d) X Y k (Suc 0) s"
  using assms by (simp add: settled_def sv_inv_def balanced_def held_def queues_ok_def)

lemma pop_query_settled: "settled d X Y k (Suc 0) s \<Longrightarrow> settled d X Y k 0 (pop_query s)"
  by (cases "sv_queries s")
    (auto simp: settled_def sv_inv_def balanced_def held_def in_flight_def conns_ok_def timers_ok_def channels_ok_def queues_ok_def pop_query_def)

lemma ReturnConn_settled:
  assumes s: "settled d X Y k l s" and i: "i \<in> X" "\<not> busy s i" "ch_safe (hc_channel (sv_conns s ! i))" and q: "sv_queries s = []"
  shows "settled d (X - {i}) Y k l (ReturnConn i s)"
proof -
  have b: "busy s j \<Longrightarrow> j \<noteq> i" for j using i(2) by auto
  have "{j. j < length (sv_conns s) \<and> j \<notin> X - {i} \<and> busy s j} = {j. j < length (sv_conns s) \<and> j \<notin> X \<and> busy s j}" using i by auto
  then have "balanced d (X - {i}) k l (ReturnConn i s)" using s by (simp add: settled_def balanced_def held_def in_flight_def ReturnConn_def)
  moreover have "conns_ok (X - {i}) (ReturnConn i s)" using s i q by (auto simp: settled_def sv_inv_def conns_ok_def ReturnConn_def)
  moreover have "timers_ok (X - {i}) Y (ReturnConn i s)" using s b by (auto simp: settled_def sv_inv_def timers_ok_def ReturnConn_def)
  moreover have "channels_ok (X - {i}) (ReturnConn i s)" "queues_ok k l (ReturnConn i s)"
    using s i(3) by (auto simp: settled_def sv_inv_def channels_ok_def queues_ok_def ReturnConn_def)
  ultimately show ?thesis by (simp add: settled_def sv_inv_def)
qed

lemma try_query_settled:
  assumes client: "client_ok client" and "settled d X Y k 0 s" and "i \<in> X" "\<not> busy s i" "ch_safe (hc_channel (sv_conns s ! i))"
    and "length (filter (\<lambda>q. qi_expire_time q \<le> now) (sv_queries s)) < n"
  shows "goes (settled d (X - {i}) Y k 0) (try_query n client net now i s)"
  using assms(2-)
proof (induction n arbitrary: s)
  case (Suc n)
  show ?case
  proof (cases "sv_queries s")
    case (Cons q qs)
    then obtain m where m: "qi_outmsg q = Some m" "msg_bytes m \<noteq> []" using Suc.prems(1) by (auto simp: settled_def sv_inv_def queues_ok_def)
    note front = front_query [OF Suc.prems(1) Cons]
    show ?thesis
    proof (cases "qi_expire_time q \<le> now")
      case True
      have "goes (settled d (X - {i}) Y k 0) (andthen (ProcessMsg client net now (qi_callback q) QTimeout s) (\<lambda>s'. try_query n client net now i (pop_query s')))"
      proof (rule goes_andthen [OF ProcessMsg_settled [OF front client]])
        fix s1 assume s1: "settled d X Y k (Suc 0) s1 \<and> same_conns X s s1 \<and> queued_behind now s s1"
        then obtain new where new: "sv_queries s1 = q # qs @ new" "\<forall>q \<in> set new. now < qi_expire_time q" using Cons by (auto simp: queued_behind_def)
        then have "filter (\<lambda>q. qi_expire_time q \<le> now) new = []" by (auto simp: filter_empty_conv)
        then have "length (filter (\<lambda>q. qi_expire_time q \<le> now) (sv_queries (pop_query s1))) < n"
          using Suc.prems(5) Cons True new(1) by (simp add: pop_query_def)
        moreover have "sv_conns (pop_query s1) ! i = sv_conns s ! i" using s1 Suc.prems(2) by (simp add: pop_query_def same_conns_def)
        ultimately show "goes (settled d (X - {i}) Y k 0) (try_query n client net now i (pop_query s1))"
          using Suc.IH [of "pop_query s1"] pop_query_settled [of d X Y k s1] s1 Suc.prems(2-4) by simp
      qed
      then show ?thesis using Cons m(1) True by simp
    next
      case False
      from Connect_settled [OF front Suc.prems(2,4), of net] obtain s1 where s1: "hc_Connect net i s = Inr s1"
        "settled (add_mset (qi_callback q) d) X Y k (Suc 0) s1" "hc_info (sv_conns s1 ! i) = hc_info (sv_conns s ! i)" by blast
      let ?t = "(qi_expire_time q - now) mod 2 ^ 32"
      have "\<not> busy s1 i" using s1(3) Suc.prems(3) by simp
      from goes_andthen [OF hc_Query_settled [OF s1(2) Suc.prems(2) this m(2), of net ?t], of "settled d (X - {i}) Y k 0" "\<lambda>s2. Inr (pop_query s2)"]
      show ?thesis using Cons m(1) False s1(1) pop_query_settled by simp
    qed
  qed (use ReturnConn_settled [OF Suc.prems(1-4)] in simp)
qed simp

lemma TryQuery_settled:
  assumes "client_ok client" "settled d X Y k 0 s" "i \<in> X" "\<not> busy s i" "ch_safe (hc_channel (sv_conns s ! i))"
  shows "goes (settled d (X - {i}) Y k 0) (TryQuery client net now i s)"
  unfolding TryQuery_def by (rule try_query_settled [OF assms]) (simp add: less_Suc_eq_le)

lemma Close_settled:
  assumes s: "settled d X Y k l s" and i: "i \<in> X"
  shows "\<exists>s'. on_channel (\<lambda>c. Some (ch_Close False c)) i s = Inr s' \<and> settled d X Y k l s' \<and> same_conns (X - {i}) s s' \<and>
    ch_safe (hc_channel (sv_conns s' ! i)) \<and> hc_info (sv_conns s' ! i) = hc_info (sv_conns s ! i)"
proof -
  have "i < length (sv_conns s)" using s i by (auto simp: settled_def sv_inv_def conns_ok_def)
  moreover from this have "ch_safe (ch_Close False ((hc_channel (sv_conns s ! i))\<lparr>ch_notices := []\<rparr>))"
    using s ch_Close_safe by (simp add: settled_def sv_inv_def channels_ok_def)
  ultimately show ?thesis using channel_settled [OF s, of i "\<lambda>c. Some (ch_Close False c)"] by (metis ch_safe_reusable)
qed

lemma OnConnectQueryFinished_settled:
  assumes client: "client_ok client" and s: "settled d X Y k 0 s" and i: "i \<in> X" "\<not> busy s i" "ch_safe (hc_channel (sv_conns s ! i))"
  shows "goes (settled d (X - {i}) Y k 0) (OnConnectQueryFinished client net now i s)"
proof (cases "sv_short_connect s")
  case True
  obtain s' where s': "on_channel (\<lambda>c. Some (ch_Close False c)) i s = Inr s'" "settled d X Y k 0 s'" "ch_safe (hc_channel (sv_conns s' ! i))"
    "hc_info (sv_conns s' ! i) = hc_info (sv_conns s ! i)" using Close_settled [OF s i(1)] by blast
  then have "\<not> busy s' i" using i(2) by simp
  then show ?thesis using True s'(1) TryQuery_settled [OF client s'(2) i(1) _ s'(3)] by (simp add: OnConnectQueryFinished_def)
qed (use TryQuery_settled [OF client s i] in \<open>simp add: OnConnectQueryFinished_def\<close>)

text \<open>The end of a query on connection \<open>i\<close>: its timer becomes the one that is handled.\<close>

lemma end_query:
  assumes s: "settled d X Y k l s" and i: "i < length (sv_conns s)" "i \<notin> X" "busy s i"
  shows "settled (add_mset (qi_callback (hc_info (sv_conns s ! i))) d) (insert i X) (insert (qi_timerid (hc_info (sv_conns s ! i))) Y) k l s"
proof -
  let ?t = "qi_timerid (hc_info (sv_conns s ! i))"
  have t: "live (sv_reactor s) ?t = Some i" "timers_inv (sv_reactor s)" using s i by (simp_all add: settled_def sv_inv_def timers_ok_def)
  then have "rc_timers (sv_reactor s) ?t \<noteq> None" by (auto simp: live_def split: option.splits)
  then have le: "?t \<le> rc_timer_id (sv_reactor s)" using t(2) by (simp add: timers_inv_def)
  have "{j. j < length (sv_conns s) \<and> j \<notin> X \<and> busy s j} = insert i {j. j < length (sv_conns s) \<and> j \<notin> insert i X \<and> busy s j}" using i by auto
  then have "in_flight X s = add_mset (qi_callback (hc_info (sv_conns s ! i))) (in_flight (insert i X) s)" by (simp add: in_flight_def)
  then have "balanced (add_mset (qi_callback (hc_info (sv_conns s ! i))) d) (insert i X) k l s" using s by (simp add: settled_def balanced_def held_def)
  moreover have "conns_ok (insert i X) s" using s i by (auto simp: settled_def sv_inv_def conns_ok_def)
  moreover have T: "timers_ok X Y s" using s by (simp add: settled_def sv_inv_def)
  have "timers_ok (insert i X) (insert ?t Y) s"
    unfolding timers_ok_def
  proof (intro conjI allI impI)
    fix j assume j: "j < length (sv_conns s)" "j \<notin> insert i X \<and> busy s j"
    then have l: "live (sv_reactor s) (qi_timerid (hc_info (sv_conns s ! j))) = Some j" "qi_timerid (hc_info (sv_conns s ! j)) \<notin> Y"
      using T by (simp_all add: timers_ok_def)
    then show "live (sv_reactor s) (qi_timerid (hc_info (sv_conns s ! j))) = Some j" by simp
    show "qi_timerid (hc_info (sv_conns s ! j)) \<notin> insert ?t Y" using l j(2) t(1) by auto
  next
    fix u j assume u: "live (sv_reactor s) u = Some j \<and> u \<notin> insert ?t Y"
    then have l: "j < length (sv_conns s) \<and> j \<notin> X \<and> busy s j \<and> qi_timerid (hc_info (sv_conns s ! j)) = u"
      using live_timer [OF T, of u j] by simp
    then show "j < length (sv_conns s)" "j \<notin> insert i X" "busy s j" "qi_timerid (hc_info (sv_conns s ! j)) = u" using u by auto
  qed (use T le t(2) in \<open>simp_all add: timers_ok_def\<close>)
  with calculation show ?thesis using s by (simp add: settled_def sv_inv_def channels_ok_insert)
qed

lemma drop_timer:
  assumes s: "settled d X (insert t Y) k l s" and r: "timers_inv r" "live r = (live (sv_reactor s))(t := None)"
    "rc_timer_id r = rc_timer_id (sv_reactor s)" "rc_tasks r = rc_tasks (sv_reactor s)" "no_repeat r"
  shows "settled d X Y k l (s\<lparr>sv_reactor := r\<rparr>)"
  using s r by (auto simp: settled_def sv_inv_def balanced_def held_def in_flight_def conns_ok_def timers_ok_def channels_ok_def queues_ok_def)

lemma sv_RemoveTimer_settled:
  assumes s: "settled d X (insert t Y) k l s"
  shows "settled d X Y k l (sv_RemoveTimer t s)"
  unfolding sv_RemoveTimer_def
  by (rule drop_timer [OF s]) (use reactor.cancel_pending [of "sv_reactor s" t] s in
    \<open>auto simp: settled_def sv_inv_def timers_ok_def RemoveTimer_def no_repeat_def split: option.splits if_splits\<close>)

lemma erase_timer_settled:
  assumes s: "settled d X (insert t Y) k l s"
  shows "settled d X Y k l (upd_reactor (erase_timer t) s)"
  unfolding upd_reactor_def
  by (rule drop_timer [OF s]) (use reactor.erase_pending [of "sv_reactor s" t] s in
    \<open>auto simp: settled_def sv_inv_def timers_ok_def erase_timer_def no_repeat_def split: if_splits\<close>)

lemma clear_settled:
  assumes s: "settled d X Y k l s" and i: "i \<in> X"
  shows "settled d X Y k l (set_info i qi_Clear s)" "\<not> busy (set_info i qi_Clear s) i" "hc_channel (sv_conns (set_info i qi_Clear s) ! i) = hc_channel (sv_conns s ! i)"
proof -
  have len: "i < length (sv_conns s)" using s i by (auto simp: settled_def sv_inv_def conns_ok_def)
  then show "\<not> busy (set_info i qi_Clear s) i" "hc_channel (sv_conns (set_info i qi_Clear s) ! i) = hc_channel (sv_conns s ! i)"
    by (simp_all add: set_info_def qi_Clear_def qi_IsValid_def)
  let ?s = "set_info i qi_Clear s"
  have other: "sv_conns ?s ! j = sv_conns s ! j" if "j \<notin> X" for j using that i by (cases "j = i") (simp_all add: set_info_def)
  have chan: "hc_channel (sv_conns ?s ! j) = hc_channel (sv_conns s ! j)" for j using len by (cases "j = i") (simp_all add: set_info_def)
  have rest: "sv_idle_conns ?s = sv_idle_conns s" "sv_queries ?s = sv_queries s" "sv_max_conn_count ?s = sv_max_conn_count s" "sv_reactor ?s = sv_reactor s"
    "sv_log ?s = sv_log s" "sv_submitted ?s = sv_submitted s" "length (sv_conns ?s) = length (sv_conns s)"
    by (simp_all add: set_info_def)
  have set: "{j. j < length (sv_conns s) \<and> j \<notin> X \<and> busy ?s j} = {j. j < length (sv_conns s) \<and> j \<notin> X \<and> busy s j}" using other by auto
  have "in_flight X ?s = in_flight X s" unfolding in_flight_def rest set using other by (intro image_mset_set_cong) auto
  then have "balanced d X k l ?s" using s by (simp add: settled_def balanced_def held_def rest)
  moreover have "conns_ok X ?s" using s unfolding settled_def sv_inv_def conns_ok_def rest by (simp add: other cong: conj_cong)
  moreover have "timers_ok X Y ?s" using s unfolding settled_def sv_inv_def timers_ok_def rest by (simp add: other cong: conj_cong)
  moreover have "channels_ok X ?s" using s unfolding settled_def sv_inv_def channels_ok_def rest chan by blast
  moreover have "queues_ok k l ?s" using s unfolding settled_def sv_inv_def queues_ok_def rest by blast
  ultimately show "settled d X Y k l ?s" by (simp add: settled_def sv_inv_def)
qed

subsection \<open>The handlers keep the invariant\<close>

lemma safe_channel: "settled d X Y k l s \<Longrightarrow> i < length (sv_conns s) \<Longrightarrow> i \<notin> X \<Longrightarrow> ch_safe (hc_channel (sv_conns s ! i))"
  by (simp add: settled_def sv_inv_def channels_ok_def)

lemma timer_positive:
  assumes "settled d X Y k l s" and "i < length (sv_conns s)" "i \<notin> X" "busy s i"
  shows "qi_timerid (hc_info (sv_conns s ! i)) \<noteq> 0"
proof -
  have "live (sv_reactor s) (qi_timerid (hc_info (sv_conns s ! i))) = Some i" "timers_inv (sv_reactor s)"
    using assms by (simp_all add: settled_def sv_inv_def timers_ok_def)
  then show ?thesis by (auto simp: live_def timers_inv_def split: option.splits)
qed

lemma hc_OnMsgArrived_settled:
  assumes client: "client_ok client" and s: "settled d {} Y k 0 s" and i: "i < length (sv_conns s)" "busy s i"
  shows "goes (settled d {} Y k 0) (hc_OnMsgArrived client net now i s)"
proof -
  let ?q = "hc_info (sv_conns s ! i)" and ?s = "sv_RemoveTimer (qi_timerid (hc_info (sv_conns s ! i))) s"
  have e: "settled (add_mset (qi_callback ?q) d) {i} Y k 0 ?s" using sv_RemoveTimer_settled end_query [OF s i(1) _ i(2)] by simp
  have "goes (settled d {} Y k 0) (andthen (ProcessMsg client net now (qi_callback ?q) QSuccess ?s) (\<lambda>s1. OnConnectQueryFinished client net now i (set_info i qi_Clear s1)))"
  proof (rule goes_andthen [OF ProcessMsg_settled [OF e client]])
    fix s1 assume s1: "settled d {i} Y k 0 s1 \<and> same_conns {i} ?s s1 \<and> queued_behind now ?s s1"
    then have "ch_safe (hc_channel (sv_conns s1 ! i))" using safe_channel [OF s i(1)] by (simp add: same_conns_def sv_RemoveTimer_def)
    then show "goes (settled d {} Y k 0) (OnConnectQueryFinished client net now i (set_info i qi_Clear s1))"
      using OnConnectQueryFinished_settled [OF client clear_settled(1) [of d "{i}" Y k 0 s1 i], of i net now] clear_settled(2,3) [of d "{i}" Y k 0 s1 i] s1
      by simp
  qed
  then show ?thesis using i timer_positive [OF s i(1) _ i(2)] by (simp add: hc_OnMsgArrived_def Let_def)
qed

lemma hc_OnClosed_settled:
  assumes client: "client_ok client" and s: "settled d {} Y k 0 s" and i: "i < length (sv_conns s)"
  shows "goes (settled d {} Y k 0) (hc_OnClosed client net now i s)"
proof (cases "busy s i")
  case True
  let ?q = "hc_info (sv_conns s ! i)"
  let ?f = "\<lambda>s1. TryQuery client net now i (set_info i qi_Clear (sv_RemoveTimer (qi_timerid ?q) s1))"
  have e: "settled (add_mset (qi_callback ?q) d) {i} (insert (qi_timerid ?q) Y) k 0 s" using end_query [OF s i(1) _ True] by simp
  have "goes (settled d {} Y k 0) (andthen (ProcessMsg client net now (qi_callback ?q) QConnectClosed s) ?f)"
  proof (rule goes_andthen [OF ProcessMsg_settled [OF e client]])
    fix s1 assume s1: "settled d {i} (insert (qi_timerid ?q) Y) k 0 s1 \<and> same_conns {i} s s1 \<and> queued_behind now s s1"
    let ?s1 = "sv_RemoveTimer (qi_timerid ?q) s1"
    have s2: "settled d {i} Y k 0 ?s1" using s1 sv_RemoveTimer_settled by blast
    have "ch_safe (hc_channel (sv_conns ?s1 ! i))" using s1 safe_channel [OF s i(1)] by (simp add: same_conns_def sv_RemoveTimer_def)
    then show "goes (settled d {} Y k 0) (?f s1)"
      using TryQuery_settled [OF client clear_settled(1) [OF s2, of i], of i net now] clear_settled(2,3) [OF s2, of i] by simp
  qed
  then show ?thesis using True by (simp add: hc_OnClosed_def Let_def)
qed (use s in \<open>simp add: hc_OnClosed_def\<close>)

lemma hc_OnTimeout_settled:
  assumes client: "client_ok client" and s: "settled d {} Y k 0 s" and t: "live (sv_reactor s) t = Some i" "t \<notin> Y"
  shows "goes (settled d {} (insert t Y) k 0) (hc_OnTimeout client net now i t s)"
proof -
  let ?q = "hc_info (sv_conns s ! i)"
  have i: "i < length (sv_conns s)" "busy s i" "qi_timerid ?q = t"
    using live_timer [of "{}" Y s t i] s t by (simp_all add: settled_def sv_inv_def)
  let ?f = "\<lambda>s1. andthen (on_channel (\<lambda>c. Some (ch_Close False c)) i (set_info i qi_Clear s1)) (OnConnectQueryFinished client net now i)"
  have e: "settled (add_mset (qi_callback ?q) d) {i} (insert t Y) k 0 s" using end_query [OF s i(1) _ i(2)] i(3) by simp
  have "goes (settled d {} (insert t Y) k 0) (andthen (ProcessMsg client net now (qi_callback ?q) QTimeout s) ?f)"
  proof (rule goes_andthen [OF ProcessMsg_settled [OF e client]])
    fix s1 assume s1: "settled d {i} (insert t Y) k 0 s1 \<and> same_conns {i} s s1 \<and> queued_behind now s s1"
    let ?s1 = "set_info i qi_Clear s1"
    have c: "settled d {i} (insert t Y) k 0 ?s1" "\<not> busy ?s1 i" using clear_settled [of d "{i}" "insert t Y" k 0 s1 i] s1 by simp_all
    obtain s2 where s2: "on_channel (\<lambda>c. Some (ch_Close False c)) i ?s1 = Inr s2" "settled d {i} (insert t Y) k 0 s2"
      "ch_safe (hc_channel (sv_conns s2 ! i))" "hc_info (sv_conns s2 ! i) = hc_info (sv_conns ?s1 ! i)" using Close_settled [OF c(1), of i] by auto
    then have "\<not> busy s2 i" using c(2) by simp
    then show "goes (settled d {} (insert t Y) k 0) (?f s1)"
      using OnConnectQueryFinished_settled [OF client s2(2) _ _ s2(3), of net now] s2(1) by simp
  qed
  then show ?thesis using i by (simp add: hc_OnTimeout_def Let_def)
qed

lemma channel_event_settled:
  assumes client: "client_ok client" and s: "settled d {} Y k 0 s" and i: "i < length (sv_conns s)"
    and f: "f ((hc_channel (sv_conns s ! i))\<lparr>ch_notices := []\<rparr>) = Some c" "ch_safe c"
  shows "goes (settled d {} Y k 0) (channel_event client net now f i s)"
proof -
  obtain s' where s': "on_channel f i s = Inr s'" "settled d {} Y k 0 s'" "length (sv_conns s') = length (sv_conns s)"
    using channel_settled [OF s i, of f c] f by auto
  then show ?thesis using hc_OnClosed_settled [OF client s'(2)] i by (simp add: channel_event_def)
qed

lemma run_task_settled:
  assumes client: "client_ok client" and s: "settled d {} Y 0 0 s"
  shows "goes (settled d {} Y 0 0) (HandleTask sv_reactor upd_reactor (exec_task client net now) s)"
proof (cases "rc_tasks (sv_reactor s)")
  case (Cons t ts)
  have k: "settled (mset (task_ids t) + d) {} Y (Suc 0) 0 s"
    using s Cons by (simp add: settled_def sv_inv_def balanced_def held_def queues_ok_def)
  have "goes (settled d {} Y (Suc 0) 0) (exec_task client net now t s)"
  proof (cases t)
    case (ConnClosed i)
    then have "i < length (sv_conns s)" using s Cons by (simp add: settled_def sv_inv_def queues_ok_def)
    then show ?thesis using ConnClosed hc_OnClosed_settled [OF client, of d Y "Suc 0" s i] k by simp
  next
    case (TaskCallback cb res)
    then have "goes (\<lambda>s'. settled d {} Y (Suc 0) 0 s' \<and> same_conns {} s s' \<and> queued_behind now s s') (exec_task client net now t s)"
      using ProcessMsg_settled [OF _ client, of cb d "{}" Y "Suc 0" 0 s now net res] k by simp
    then show ?thesis by (rule goes_mono) simp
  qed (use k in simp)
  then have "goes (settled d {} Y 0 0) (andthen (exec_task client net now t s) (\<lambda>s'. Inr (upd_reactor (\<lambda>r. r\<lparr>rc_tasks := tl (rc_tasks r)\<rparr>) s')))"
  proof (rule goes_andthen)
    fix s' assume "settled d {} Y (Suc 0) 0 s'"
    then show "goes (settled d {} Y 0 0) (Inr (upd_reactor (\<lambda>r. r\<lparr>rc_tasks := tl (rc_tasks r)\<rparr>) s'))"
      by (cases "rc_tasks (sv_reactor s')")
        (auto simp: settled_def sv_inv_def balanced_def held_def in_flight_def conns_ok_def timers_ok_def channels_ok_def queues_ok_def upd_reactor_def)
  qed
  then show ?thesis using Cons by (simp add: HandleTask_def)
qed (use s in \<open>simp add: HandleTask_def\<close>)

lemma fires_settled:
  assumes client: "client_ok client" and s: "settled d {} {} 0 0 s"
  shows "goes (settled d {} {} 0 0) (HandleTimerEvent sv_reactor upd_reactor (\<lambda>i t. hc_OnTimeout client net now i t) t s)"
proof (cases "rc_timers (sv_reactor s) t")
  case (Some w)
  show ?thesis
  proof (cases "tw_removed w")
    case True
    have "live (sv_reactor s) t = None" using Some True by (simp add: live_def)
    then have "settled d {} {t} 0 0 s" using s Some by (auto simp: settled_def sv_inv_def timers_ok_def timers_inv_def)
    then show ?thesis using Some True erase_timer_settled [of d "{}" t "{}" 0 0 s] by (simp add: HandleTimerEvent_def)
  next
    case False
    then have "live (sv_reactor s) t = Some (tw_callback w)" using Some by (simp add: live_def)
    from hc_OnTimeout_settled [OF client s this, of net now]
    have "goes (settled d {} {t} 0 0) (hc_OnTimeout client net now (tw_callback w) t s)" by simp
    then have "goes (settled d {} {} 0 0) (andthen (hc_OnTimeout client net now (tw_callback w) t s) (\<lambda>s'. Inr (upd_reactor (erase_timer t) s')))"
      by (rule goes_andthen) (simp add: erase_timer_settled)
    moreover have "\<not> tw_repeat w" using s Some by (auto simp: settled_def sv_inv_def timers_ok_def no_repeat_def)
    ultimately show ?thesis using Some False by (simp add: HandleTimerEvent_def)
  qed
qed (use s in \<open>simp add: HandleTimerEvent_def\<close>)

lemma start_settled: "settled {#} {} {} 0 0 (HalfDuplexService max_conn short)"
  by (simp add: settled_def sv_inv_def balanced_def held_def in_flight_def conns_ok_def timers_ok_def channels_ok_def queues_ok_def
      HalfDuplexService_def Reactor_new_def timers_inv_def no_repeat_def live_def)

lemma handle_settled:
  assumes client: "client_ok client" and s: "settled {#} {} {} 0 0 s" and e: "enabled e s"
    and b: "\<And>i. e = Arrives i \<Longrightarrow> busy s i"
  shows "goes (settled {#} {} {} 0 0) (handle client net now e s)"
proof (cases e)
  case (Submit cb m timeout)
  then show ?thesis using sv_Query_settled [OF s, of m timeout now net cb] e by (auto elim: goes_mono)
next
  case (SubmitExpire cb m expire)
  then have m: "msg_bytes m \<noteq> []" using e by simp
  have "settled {#} {} {} 0 0 (s\<lparr>sv_submitted := sv_submitted s @ [cb], sv_reactor := PostTask (TaskCallback cb QTimeout) (sv_reactor s)\<rparr>)"
    using s by (auto simp: settled_def sv_inv_def balanced_def held_def in_flight_def conns_ok_def timers_ok_def channels_ok_def queues_ok_def PostTask_def)
  then show ?thesis using sv_Query_settled [OF s m, of "(expire - now) mod 2 ^ 32" now net cb] SubmitExpire
    by (auto simp: QueryWithExpire_def elim: goes_mono)
next
  case (Arrives i)
  then show ?thesis using hc_OnMsgArrived_settled [OF client s] e b by simp
next
  case (Breaks i)
  then have i: "i < length (sv_conns s)" using e by simp
  have "ch_safe (RealClose True ((hc_channel (sv_conns s ! i))\<lparr>ch_notices := []\<rparr>))" using RealClose_safe safe_channel [OF s i] by simp
  then show ?thesis using channel_event_settled [OF client s i, of "\<lambda>c. Some (RealClose True c)"] Breaks by simp
next
  case (Ready i err ws)
  then have i: "i < length (sv_conns s)" using e by simp
  obtain c where "OnWrite err ws ((hc_channel (sv_conns s ! i))\<lparr>ch_notices := []\<rparr>) = Some c" "ch_safe c"
    using OnWrite_safe [of "(hc_channel (sv_conns s ! i))\<lparr>ch_notices := []\<rparr>" err ws] safe_channel [OF s i] by auto
  then show ?thesis using channel_event_settled [OF client s i, of "OnWrite err ws" c] Ready by simp
qed (use fires_settled [OF client s] run_task_settled [OF client s] in simp_all)

text \<open>An answer on a connection without a query: \<open>OnMsgArrived\<close> reads the log id of a null message.\<close>

lemma arrival_without_query: "\<not> busy s i \<Longrightarrow> handle client net now (Arrives i) s = Inl NullMessage"
  by (simp add: hc_OnMsgArrived_def)

lemma service_run_settled: "service_run client net max_conn short s \<Longrightarrow> client_ok client \<Longrightarrow> settled {#} {} {} 0 0 s"
proof (induction rule: service_run.induct)
  case (event s e now s')
  have "busy s i" if "e = Arrives i" for i
    using event.hyps(3) arrival_without_query [of s i client net now] that by auto
  then show ?case using event handle_settled [of client s e net now] by simp
qed (simp add: start_settled)


lemmas service_simps =
  HalfDuplexService_def Reactor_new_def sv_Query_def GetIdleConn_def hc_Connect_def on_channel_def hc_Query_def AddTimer_def set_info_def
  next_timer_def HalfDuplexConnect_def StreamSocketChannel_def QueryInfo_def qi_Set_def qi_IsValid_def qi_Clear_def ch_Connect_addr_def ch_Connect_def
  notify_def tasks_of_def PostTask_def SendMsg_def TrySend_def PrepareIovec_def ForwardIovec_def ResetIovec_def accepted_def msg_bytes_def
  HandleTimerEvent_def hc_OnTimeout_def ProcessMsg_def ch_Close_def RealClose_def RemoveSentFailMsg_def OnConnectQueryFinished_def TryQuery_def
  pop_query_def upd_reactor_def erase_timer_def HandleTask_def hc_OnClosed_def sv_RemoveTimer_def RemoveTimer_def ReturnConn_def
  hc_OnMsgArrived_def channel_event_def Let_def

definition quiet :: client where
  "quiet cb res = []"

definition plain_net :: net where
  "plain_net = \<lparr>net_connect = \<lambda>_. ConnectOk, net_write = \<lambda>_. [Sent 0]\<rparr>"

definition sample_service :: service where
  "sample_service =
     \<lparr>sv_queries = [], sv_idle_conns = [],
      sv_conns = [\<lparr>hc_channel = \<lparr>ch_fd = True, ch_status = Connected, ch_queue = [], ch_sending = None, ch_iovec = None, ch_iovec_len = 0,
          ch_wire = [7], ch_released = [[[7]]], ch_notices = []\<rparr>,
        hc_info = \<lparr>qi_outmsg = Some [[7]], qi_callback = 4, qi_timerid = 1, qi_expire_time = 0\<rparr>\<rparr>],
      sv_max_conn_count = 1, sv_short_connect = False,
      sv_reactor = \<lparr>rc_timers = [1 \<mapsto> \<lparr>tw_callback = 0, tw_timeout = 5, tw_removed = False, tw_repeat = False\<rparr>], rc_timer_id = 1, rc_tasks = [ConnOpened 0]\<rparr>,
      sv_submitted = [4], sv_log = []\<rparr>"

lemma sample_run: "service_run quiet plain_net 1 False sample_service"
  by (rule service_run.event [OF service_run.start, of "Submit 4 [[7]] 5" _ _ _ _ 0])
    (simp_all add: service_simps plain_net_def sample_service_def)

lemma quiet_ok: "client_ok quiet"
  by (simp add: client_ok_def issues_ok_def quiet_def)





lemma distinct_if_counts: "(\<And>x. count (mset xs) x \<le> 1) \<Longrightarrow> distinct xs"
proof (induction xs)
  case (Cons a xs)
  have "count (mset xs) x \<le> 1" for x using order.trans [OF _ Cons.prems [of x], of "count (mset xs) x"] by simp
  moreover have "count (mset xs) a = 0" using Cons.prems [of a] by simp
  ultimately show ?case using Cons.IH by (simp add: count_eq_zero_iff)
qed simp

text \<open>The queries that wait: on a connection, in the queue, or for a posted task.\<close>

definition waiting :: "service \<Rightarrow> nat multiset" where
  "waiting s = in_flight {} s + mset (map qi_callback (sv_queries s)) + mset (concat (map task_ids (rc_tasks (sv_reactor s))))"

text \<open>
  C13. Query service: every submitted query waits in exactly one place or has been called back, exactly
  once; queries with different callbacks are never called back twice.
\<close>

theorem each_query_called_back_once:
  assumes "service_run client net max_conn short s" and "client_ok client"
  shows "mset (sv_submitted s) = mset (map fst (sv_log s)) + waiting s \<and>
    (distinct (sv_submitted s) \<longrightarrow> distinct (map fst (sv_log s)) \<and> set_mset (waiting s) \<inter> set (map fst (sv_log s)) = {})"
proof -
  have bal: "mset (sv_submitted s) = mset (map fst (sv_log s)) + waiting s"
    using service_run_settled [OF assms] by (simp add: settled_def balanced_def held_def waiting_def)
  moreover have "distinct (map fst (sv_log s)) \<and> set_mset (waiting s) \<inter> set (map fst (sv_log s)) = {}" if d: "distinct (sv_submitted s)"
  proof
    have c: "count (mset (sv_submitted s)) x \<le> 1" for x using d by (simp add: distinct_count_atmost_1)
    have "count (mset (map fst (sv_log s))) x \<le> 1" for x using c [of x] bal by simp
    then show "distinct (map fst (sv_log s))" by (rule distinct_if_counts)
    show "set_mset (waiting s) \<inter> set (map fst (sv_log s)) = {}"
    proof (rule ccontr)
      assume "set_mset (waiting s) \<inter> set (map fst (sv_log s)) \<noteq> {}"
      then obtain x where "x \<in># waiting s" "x \<in># mset (map fst (sv_log s))" by auto
      then have "0 < count (waiting s) x" "0 < count (mset (map fst (sv_log s))) x" unfolding count_greater_zero_iff by blast+
      then have "2 \<le> count (mset (sv_submitted s)) x" unfolding bal by (simp del: count_greater_zero_iff mset_map)
      with c [of x] show False by simp
    qed
  qed
  ultimately show ?thesis by blast
qed

theorem each_query_called_back_once_witness:
  "service_run quiet plain_net 1 False sample_service \<and> sv_submitted sample_service = [4] \<and> waiting sample_service = {#4#}"
proof -
  have "sv_submitted sample_service = [4]" "sv_log sample_service = []" by (simp_all add: sample_service_def)
  then show ?thesis using each_query_called_back_once [OF sample_run quiet_ok] sample_run by simp
qed

text \<open>
  C33. Query service: there are never more connections than allowed; the idle ones are exactly those
  without a query, each listed once; each query on a connection has its own running timer. While a
  query is queued, all connections exist and all of them are busy.
\<close>

theorem service_connections:
  assumes "service_run client net max_conn short s" and "client_ok client"
  shows "length (sv_conns s) \<le> sv_max_conn_count s \<and> distinct (sv_idle_conns s) \<and>
    set (sv_idle_conns s) = {i. i < length (sv_conns s) \<and> \<not> busy s i} \<and>
    (\<forall>i < length (sv_conns s). busy s i \<longrightarrow> live (sv_reactor s) (qi_timerid (hc_info (sv_conns s ! i))) = Some i) \<and>
    (sv_queries s \<noteq> [] \<longrightarrow> length (sv_conns s) = sv_max_conn_count s \<and> (\<forall>i < sv_max_conn_count s. busy s i))"
proof -
  have c: "conns_ok {} s" and t: "timers_ok {} {} s" using service_run_settled [OF assms] by (simp_all add: settled_def sv_inv_def)
  from c have "length (sv_conns s) \<le> sv_max_conn_count s" "distinct (sv_idle_conns s)"
    and i: "set (sv_idle_conns s) = {i. i < length (sv_conns s) \<and> \<not> busy s i}"
    and q: "sv_queries s \<noteq> [] \<Longrightarrow> sv_idle_conns s = [] \<and> length (sv_conns s) = sv_max_conn_count s"
    by (auto simp: conns_ok_def)
  moreover from t have "\<forall>i < length (sv_conns s). busy s i \<longrightarrow> live (sv_reactor s) (qi_timerid (hc_info (sv_conns s ! i))) = Some i"
    by (simp add: timers_ok_def)
  moreover have "length (sv_conns s) = sv_max_conn_count s \<and> (\<forall>i < sv_max_conn_count s. busy s i)" if "sv_queries s \<noteq> []"
    using i q [OF that] by auto
  ultimately show ?thesis by blast
qed

theorem service_connections_witness:
  "service_run quiet plain_net 1 False sample_service \<and> live (sv_reactor sample_service) 1 = Some 0 \<and> sv_idle_conns sample_service = []"
  using service_connections [OF sample_run quiet_ok] sample_run by (simp add: sample_service_def qi_IsValid_def)

text \<open>A run of several events, each with its time.\<close>

primrec handle_all :: "client \<Rightarrow> net \<Rightarrow> (nat \<times> sv_event) list \<Rightarrow> service \<Rightarrow> fault + service" where
  "handle_all client net [] s = Inr s"
| "handle_all client net (x # xs) s = andthen (handle client net (fst x) (snd x) s) (handle_all client net xs)"

text \<open>
  Query service: if a query times out while its message is partly sent and another query is
  queued, the rest of the first message is sent on the new connection, and the message of the second
  query, which counts as sent, never reaches the server.
\<close>

theorem query_after_timeout_not_sent:
  assumes "m \<noteq> []" and "m2 \<noteq> []" and "0 < timeout"
    and "net_connect net = (\<lambda>_. ConnectOk)" and "net_write net 1 = [Sent 0]" and "net_write net 2 = [Sent (length m - 1)]"
  shows "\<exists>s. handle_all quiet net [(0, Submit 1 [a # m] 5), (0, Submit 2 [m2] timeout), (0, Fires 1)] (HalfDuplexService 1 False) = Inr s \<and>
    waiting s = {#2#} \<and> sv_log s = [(1, QTimeout)] \<and>
    ch_wire (hc_channel (sv_conns s ! 0)) = m \<and> ch_released (hc_channel (sv_conns s ! 0)) = [[m2]] \<and> ch_unsent (hc_channel (sv_conns s ! 0)) = []"
proof -
  let ?c = "\<lparr>ch_fd = True, ch_status = Connected, ch_queue = [], ch_sending = Some [a # m], ch_iovec = Some [m], ch_iovec_len = length m,
     ch_wire = [a], ch_released = [], ch_notices = []\<rparr>"
  let ?q = "\<lparr>qi_outmsg = Some [a # m], qi_callback = 1, qi_timerid = 1, qi_expire_time = 0\<rparr>"
  let ?r = "\<lparr>rc_timers = [1 \<mapsto> \<lparr>tw_callback = 0, tw_timeout = 5, tw_removed = False, tw_repeat = False\<rparr>], rc_timer_id = 1, rc_tasks = [ConnOpened 0]\<rparr>"
  let ?s1 = "\<lparr>sv_queries = [], sv_idle_conns = [], sv_conns = [\<lparr>hc_channel = ?c, hc_info = ?q\<rparr>], sv_max_conn_count = 1, sv_short_connect = False,
     sv_reactor = ?r, sv_submitted = [1], sv_log = []\<rparr>"
  have 1: "handle quiet net 0 (Submit 1 [a # m] 5) (HalfDuplexService 1 False) = Inr ?s1"
    using assms by (simp add: service_simps)
  let ?s2 = "?s1\<lparr>sv_queries := [\<lparr>qi_outmsg = Some [m2], qi_callback = 2, qi_timerid = 0, qi_expire_time = timeout\<rparr>], sv_submitted := [1, 2]\<rparr>"
  have 2: "handle quiet net 0 (Submit 2 [m2] timeout) ?s1 = Inr ?s2" by (simp add: service_simps)
  let ?c' = "\<lparr>ch_fd = True, ch_status = Connected, ch_queue = [], ch_sending = None, ch_iovec = None, ch_iovec_len = 0,
     ch_wire = m, ch_released = [[m2]], ch_notices = []\<rparr>"
  let ?q' = "\<lparr>qi_outmsg = Some [m2], qi_callback = 2, qi_timerid = 2, qi_expire_time = 0\<rparr>"
  have n: "Suc ((length m - Suc 0) mod length m) = length m" using assms(1) by (cases m) simp_all
  have "\<exists>r. handle quiet net 0 (Fires 1) ?s2 = Inr \<lparr>sv_queries = [], sv_idle_conns = [], sv_conns = [\<lparr>hc_channel = ?c', hc_info = ?q'\<rparr>],
     sv_max_conn_count = 1, sv_short_connect = False, sv_reactor = r, sv_submitted = [1, 2], sv_log = [(1, QTimeout)]\<rparr> \<and>
     concat (map task_ids (rc_tasks r)) = []"
    using assms n by (simp add: service_simps quiet_def)
  then obtain r where 3: "handle quiet net 0 (Fires 1) ?s2 = Inr \<lparr>sv_queries = [], sv_idle_conns = [], sv_conns = [\<lparr>hc_channel = ?c', hc_info = ?q'\<rparr>],
     sv_max_conn_count = 1, sv_short_connect = False, sv_reactor = r, sv_submitted = [1, 2], sv_log = [(1, QTimeout)]\<rparr>"
    "concat (map task_ids (rc_tasks r)) = []" by blast
  have "{j :: nat. j < 1} = {0}" by auto
  then show ?thesis using 1 2 3 by (simp add: waiting_def in_flight_def qi_IsValid_def ch_unsent_def cong: conj_cong)
qed

theorem query_after_timeout_not_sent_witness:
  "\<exists>net s. handle_all quiet net [(0, Submit 1 [[10, 11, 12]] 5), (0, Submit 2 [[20, 21]] 9), (0, Fires 1)] (HalfDuplexService 1 False) = Inr s \<and>
    waiting s = {#2#} \<and> ch_wire (hc_channel (sv_conns s ! 0)) = [11, 12] \<and> ch_released (hc_channel (sv_conns s ! 0)) = [[[20, 21]]]"
  using query_after_timeout_not_sent [of "[11, 12]" "[20, 21]" 9
      "\<lparr>net_connect = \<lambda>_. ConnectOk, net_write = \<lambda>t. if t = 1 then [Sent 0] else [Sent 1]\<rparr>" 10]
  by auto

text \<open>
  Query service: when a connection attempt fails, its end is only posted as a task. If the query
  times out before the task runs, the connection is opened again for the next query, and the task ends
  that one: it is called back as closed although the connection is open, the connection is given back as
  idle, and the answer that then arrives is handled without a query.
\<close>

theorem stale_close_ends_next_query:
  assumes "msg_bytes m1 \<noteq> []" and "msg_bytes m2 \<noteq> []" and "0 < timeout"
    and "net_connect net 1 = ConnectFails" and "net_connect net 2 = ConnectOk" and "net_write net 2 = []"
  shows "\<exists>s. handle_all quiet net [(0, Submit 1 m1 5), (0, Submit 2 m2 timeout), (0, Fires 1), (0, RunTask)] (HalfDuplexService 1 False) = Inr s \<and>
    sv_log s = [(1, QTimeout), (2, QConnectClosed)] \<and> ch_status (hc_channel (sv_conns s ! 0)) = Connected \<and> sv_idle_conns s = [0] \<and>
    handle quiet net now (Arrives 0) s = Inl NullMessage"
  using assms by (simp add: service_simps quiet_def)

theorem stale_close_ends_next_query_witness:
  "\<exists>net s. handle_all quiet net [(0, Submit 1 [[1]] 5), (0, Submit 2 [[2]] 9), (0, Fires 1), (0, RunTask)] (HalfDuplexService 1 False) = Inr s \<and>
    sv_log s = [(1, QTimeout), (2, QConnectClosed)] \<and> ch_status (hc_channel (sv_conns s ! 0)) = Connected"
  using stale_close_ends_next_query [of "[[1]]" "[[2]]" 9 "\<lparr>net_connect = \<lambda>t. if t = 1 then ConnectFails else ConnectOk, net_write = \<lambda>_. []\<rparr>" 0]
  by (auto simp: msg_bytes_def)

end
