(* ===== verification/Http_Request.thy ===== *)
theory Http_Request
  imports Msg_Decoder
begin

text \<open>
  HTTP requests, classes \<open>HttpRequest\<close> and \<open>HttpReqDecoder\<close> of
  \<open>libsrc/blitz2/include/blitz2/http/http_common.h\<close> and \<open>libsrc/blitz2/src/http/http_common.cc\<close>.

  A byte is a \<open>char\<close>. A pointer into a text that ends at \<open>end\<close> is the rest of that text; behind the
  end it is the empty list. The header buffer is a list of its full size, in which the positions are
  indexes; a C string is what precedes the next zero byte.
\<close>

subsection \<open>Text\<close>

definition to_lower :: "char \<Rightarrow> char" where
  "to_lower c = (let n = (of_char c :: nat) in if 65 \<le> n \<and> n \<le> 90 then char_of (n + 32) else c)"

text \<open>\<open>strncasecmp\<close> of a C string with a literal of \<open>n\<close> characters is 0.\<close>

definition strncasecmp_eq :: "string \<Rightarrow> string \<Rightarrow> bool" where
  "strncasecmp_eq s lit \<longleftrightarrow> map to_lower (take (length lit) s) = map to_lower lit"

text \<open>The C string at a position; \<open>None\<close>: there is no zero byte up to the end of the block.\<close>

definition cstring_at :: "string \<Rightarrow> nat \<Rightarrow> string cxx" where
  "cstring_at b p = (if NUL \<in> set (drop p b) then Some (takeWhile (\<lambda>c. c \<noteq> NUL) (drop p b)) else None)"

definition before :: "string \<Rightarrow> string \<Rightarrow> string" where
  "before s rest = take (length s - length rest) s"

subsection \<open>The URI\<close>

fun GetPath :: "string \<Rightarrow> string" where
  "GetPath [] = []"
| "GetPath (c # s) = (if c = CHR ''?'' \<or> c = CHR ''#'' then c # s else GetPath s)"

fun SearchChar :: "char \<Rightarrow> string \<Rightarrow> string" where
  "SearchChar x [] = []"
| "SearchChar x (c # s) = (if c = x then c # s else SearchChar x s)"

definition HexVal :: "char \<Rightarrow> int" where
  "HexVal c = (let s = int (of_char c) in
     if 48 \<le> s \<and> s \<le> 57 then s - 48 else if 97 \<le> s \<and> s \<le> 102 then s - 97 + 10 else if 65 \<le> s \<and> s \<le> 70 then s - 65 + 10 else -1)"

text \<open>\<open>Url::Parse\<close>; the members keep their values where the code does not assign them.\<close>

record url =
  url_protocol :: string
  url_host :: string
  url_uri :: string

fun strstr :: "string \<Rightarrow> string \<Rightarrow> string option" where
  "strstr s [] = (if s = [] then Some [] else None)"
| "strstr s (c # t) = (if take (length s) (c # t) = s then Some (c # t) else strstr s t)"

definition Url_Parse :: "string \<Rightarrow> url \<Rightarrow> int \<times> url" where
  "Url_Parse t u =
     (case strstr ''://'' t of
        None \<Rightarrow> (-1, u)
      | Some rest \<Rightarrow>
          let u1 = u\<lparr>url_protocol := before t rest\<rparr>; host = drop 3 rest; uri = SearchChar (CHR ''/'') host in
          if uri = [] then (0, u1\<lparr>url_uri := ''/''\<rparr>) else (0, u1\<lparr>url_host := before host uri, url_uri := uri\<rparr>))"

text \<open>
  \<open>e\<close> is the character at \<open>end\<close>, which is read if an escape has only one digit. Shifting a negative
  number is undefined.
\<close>

function ParseValue :: "char \<Rightarrow> string \<Rightarrow> string \<Rightarrow> (string \<times> string) cxx" where
  "ParseValue e [] v = Some ([], v)"
| "ParseValue e (c # s) v =
     (if c = CHR ''&'' then Some (c # s, v)
      else if c = CHR ''%'' then
        if 2 \<le> length (c # s) then
          let h = HexVal (s ! 0); l = HexVal ((s @ [e]) ! 1) in
          if h < 0 then None else ParseValue e (drop 2 s) (v @ [char_of (or (push_bit 4 h) l)])
        else Some ([], v)
      else ParseValue e s (v @ [c]))"
  by pat_completeness auto
termination by (relation "measure (\<lambda>(e, s, v). length s)") auto

lemma ParseValue_length: "ParseValue e s v = Some (rest, v') \<Longrightarrow> length rest \<le> length s"
proof (induction e s v arbitrary: rest v' rule: ParseValue.induct)
  case (2 e c s v)
  show ?case
  proof (cases "c = CHR ''&'' \<or> c = CHR ''%'' \<and> \<not> 2 \<le> length (c # s)")
    case False
    then show ?thesis using "2.IH" "2.prems" by (fastforce simp: Let_def split: if_splits)
  qed (use "2.prems" in auto)
qed simp

lemma SearchChar_length: "length (SearchChar x s) \<le> length s"
  by (induction s) auto

type_synonym params = "string \<rightharpoonup> string list"

definition GetParam_push :: "string \<Rightarrow> string \<Rightarrow> params \<Rightarrow> params" where
  "GetParam_push name v ps = ps(name \<mapsto> (case ps name of None \<Rightarrow> [] | Some vs \<Rightarrow> vs) @ [v])"

function parse_params :: "char \<Rightarrow> string \<Rightarrow> params \<Rightarrow> params cxx" where
  "parse_params e u ps =
     (if u = [] then Some ps
      else let rest = SearchChar (CHR ''='') u in
        case ParseValue e (tl rest) [] of
          None \<Rightarrow> None
        | Some (rest', v) \<Rightarrow> parse_params e (tl rest') (GetParam_push (before u rest) v ps))"
  by pat_completeness auto
termination
proof (relation "measure (\<lambda>(e, u, ps). length u)")
  fix e ps x x2 and u rest rest' v :: string
  assume a: "u \<noteq> []" "rest = SearchChar (CHR ''='') u" "ParseValue e (tl rest) [] = Some x2" "(rest', v) = x2"
  then have "length rest' \<le> length (tl rest)" using ParseValue_length by metis
  moreover have "length rest \<le> length u" using a(2) SearchChar_length by metis
  ultimately have "length (tl rest') < length u" using a(1) by (cases u; cases rest) auto
  then show "((e, tl rest', GetParam_push (before u rest) v ps), (e, u, ps)) \<in> measure (\<lambda>(e, u, ps). length u)" by simp
qed simp

declare parse_params.simps [simp del]

datatype http_method = kGet | kPost

record http_request =
  rq_version_minor :: int
  rq_content :: string
  rq_headers :: "string \<rightharpoonup> string"
  rq_method :: "http_method option"
  rq_path :: string
  rq_anchor :: string
  rq_params :: params

definition HttpRequest :: http_request where
  "HttpRequest = \<lparr>rq_version_minor = 1, rq_content = [], rq_headers = Map.empty, rq_method = None, rq_path = [], rq_anchor = [], rq_params = Map.empty\<rparr>"

text \<open>For both methods.\<close>

definition get_method_string :: "http_request \<Rightarrow> string" where
  "get_method_string r = (case rq_method r of Some kGet \<Rightarrow> ''GET'' | Some kPost \<Rightarrow> ''GET'' | None \<Rightarrow> [])"

definition SetHeader :: "string \<Rightarrow> string \<Rightarrow> http_request \<Rightarrow> http_request" where
  "SetHeader key val r = r\<lparr>rq_headers := (rq_headers r)(key \<mapsto> val)\<rparr>"

definition ParseUri :: "char \<Rightarrow> string \<Rightarrow> http_request \<Rightarrow> http_request cxx" where
  "ParseUri e u r =
     (let uri = GetPath u; r1 = r\<lparr>rq_path := before u uri\<rparr> in
      if uri = [] then Some r1
      else
        let (uri', r2) =
          if hd uri = CHR ''#'' then
            let a = tl uri; q = SearchChar (CHR ''?'') a in (q, r1\<lparr>rq_anchor := before a q\<rparr>)
          else (uri, r1)
        in map_option (\<lambda>ps. r2\<lparr>rq_params := ps\<rparr>) (parse_params e (tl uri') (rq_params r2)))"

subsection \<open>Escaped parameters\<close>

text \<open>The specification: every byte of a value as an escape with two digits.\<close>

definition hex_char :: "nat \<Rightarrow> char" where
  "hex_char n = (if n < 10 then char_of (48 + n) else char_of (65 + (n - 10)))"

definition escape :: "string \<Rightarrow> string" where
  "escape v = concat (map (\<lambda>c. [CHR ''%'', hex_char (of_char c div 16), hex_char (of_char c mod 16)]) v)"

fun query_string :: "(string \<times> string) list \<Rightarrow> string" where
  "query_string [] = []"
| "query_string [(n, v)] = n @ ''='' @ escape v"
| "query_string ((n, v) # x # xs) = n @ ''='' @ escape v @ ''&'' @ query_string (x # xs)"

lemma HexVal_hex_char: "n < 16 \<Longrightarrow> HexVal (hex_char n) = int n"
  by (auto simp: HexVal_def hex_char_def of_char_of Let_def)

lemma hex_pair: "char_of (or (push_bit 4 (int (of_char c div 16))) (int (of_char c mod 16))) = c"
proof -
  have "or (push_bit 4 (drop_bit 4 k)) (take_bit 4 k) = k" for k :: int by (auto simp: bit_eq_iff bit_simps)
  from this [of "int (of_char c)"]
  have "or (push_bit 4 (int (of_char c div 16))) (int (of_char c mod 16)) = int (of_char c)"
    by (simp add: drop_bit_eq_div take_bit_eq_mod zdiv_int zmod_int)
  moreover have "char_of (int (of_char c)) = c" by (metis char_of_char of_nat_of_char)
  ultimately show ?thesis by simp
qed

lemma ParseValue_escape: "ParseValue e (escape v @ rest) w = ParseValue e rest (w @ v)"
proof (induction v arbitrary: w)
  case (Cons c v)
  have "HexVal (hex_char (of_char c div 16)) = int (of_char c div 16)" "HexVal (hex_char (of_char c mod 16)) = int (of_char c mod 16)"
    by (rule HexVal_hex_char, simp add: div_less_iff_less_mult)+
  then have "ParseValue e (escape (c # v) @ rest) w = ParseValue e (escape v @ rest) (w @ [c])"
    by (simp add: escape_def Let_def hex_pair)
  then show ?case using Cons by simp
qed (simp add: escape_def)

lemma SearchChar_found: "x \<notin> set s \<Longrightarrow> SearchChar x (s @ x # t) = x # t"
  by (induction s) auto

lemma SearchChar_missing: "x \<notin> set s \<Longrightarrow> SearchChar x s = []"
  by (induction s) auto

lemma GetPath_found: "CHR ''?'' \<notin> set s \<Longrightarrow> CHR ''#'' \<notin> set s \<Longrightarrow> GetPath (s @ t) = GetPath t"
  by (induction s) auto

lemma before_append [simp]: "before (s @ t) t = s" "before s [] = s"
  by (simp_all add: before_def)

lemma parse_params_name:
  assumes "CHR ''='' \<notin> set n"
  shows "parse_params e (n @ CHR ''='' # s) ps =
    (case ParseValue e s [] of None \<Rightarrow> None | Some (rest, v) \<Rightarrow> parse_params e (tl rest) (GetParam_push n v ps))"
  by (subst parse_params.simps) (auto simp: Let_def SearchChar_found [OF assms] split: option.splits)

lemma parse_params_query_string:
  "\<forall>(n, v) \<in> set xs. CHR ''='' \<notin> set n \<Longrightarrow>
     parse_params e (query_string xs) ps = Some (fold (\<lambda>(n, v). GetParam_push n v) xs ps)"
proof (induction xs arbitrary: ps rule: query_string.induct)
  case 1
  then show ?case by (simp add: parse_params.simps)
next
  case (2 n v)
  then show ?case using parse_params_name [of n e "escape v"] ParseValue_escape [of e v "[]" "[]"] by (simp add: parse_params.simps [of e "[]"])
next
  case (3 n v x xs)
  then show ?case using parse_params_name [of n e "escape v @ CHR ''&'' # query_string (x # xs)"]
      ParseValue_escape [of e v "CHR ''&'' # query_string (x # xs)" "[]"] by simp
qed

lemma fold_GetParam_push:
  "fold (\<lambda>(n, v). GetParam_push n v) xs ps n =
     (if n \<in> fst ` set xs \<or> ps n \<noteq> None then Some ((case ps n of None \<Rightarrow> [] | Some vs \<Rightarrow> vs) @ map snd (filter (\<lambda>x. fst x = n) xs)) else None)"
proof (induction xs arbitrary: ps)
  case (Cons x xs)
  obtain m v where x: "x = (m, v)" by (rule prod.exhaust)
  show ?case using Cons [of "GetParam_push m v ps"] x by (auto simp: GetParam_push_def split: option.splits)
qed auto

lemma strstr_found: "CHR '':'' \<notin> set p \<Longrightarrow> strstr ''://'' (p @ ''://'' @ t) = Some (''://'' @ t)"
  by (induction p) auto

text \<open>A URL is split into its parts; without a path the host is left out.\<close>

lemma Url_Parse_parts:
  assumes "CHR '':'' \<notin> set p" and "CHR ''/'' \<notin> set h"
  shows "Url_Parse (p @ ''://'' @ h @ CHR ''/'' # t) u = (0, \<lparr>url_protocol = p, url_host = h, url_uri = CHR ''/'' # t\<rparr>)"
    and "Url_Parse (p @ ''://'' @ h) u = (0, u\<lparr>url_protocol := p, url_uri := ''/''\<rparr>)"
proof -
  have "before (p @ ''://'' @ s) (''://'' @ s) = p" for s by (simp add: before_def)
  then show "Url_Parse (p @ ''://'' @ h @ CHR ''/'' # t) u = (0, \<lparr>url_protocol = p, url_host = h, url_uri = CHR ''/'' # t\<rparr>)"
    "Url_Parse (p @ ''://'' @ h) u = (0, u\<lparr>url_protocol := p, url_uri := ''/''\<rparr>)"
    using strstr_found [OF assms(1)] SearchChar_found [OF assms(2)] SearchChar_missing [OF assms(2)] before_append(1) [of h "CHR ''/'' # t"]
    by (simp_all add: Url_Parse_def Let_def)
qed

text \<open>
  C34. HTTP: a path followed by parameters whose values are escaped byte by byte is parsed back: the
  path, and under each name its values in order.
\<close>

theorem ParseUri_query_string:
  assumes "CHR ''?'' \<notin> set pth" "CHR ''#'' \<notin> set pth" and "\<forall>(n, v) \<in> set xs. CHR ''='' \<notin> set n"
  shows "\<exists>r. ParseUri e (pth @ ''?'' @ query_string xs) HttpRequest = Some r \<and> rq_path r = pth \<and>
    (\<forall>n. rq_params r n = (if n \<in> fst ` set xs then Some (map snd (filter (\<lambda>x. fst x = n) xs)) else None))"
  using assms by (auto simp: ParseUri_def GetPath_found Let_def parse_params_query_string HttpRequest_def fold_GetParam_push)

theorem ParseUri_query_string_witness:
  "\<exists>r. ParseUri (CHR '' '') (''/pic?'' @ query_string [(''id'', ''7''), (''t'', ''a&b''), (''id'', ''x'')]) HttpRequest = Some r \<and>
     rq_path r = ''/pic'' \<and> rq_params r ''id'' = Some [''7'', ''x''] \<and> rq_params r ''t'' = Some [''a&b'']"
  using ParseUri_query_string [of "''/pic''" "[(''id'', ''7''), (''t'', ''a&b''), (''id'', ''x'')]" "CHR '' ''"] by auto

subsection \<open>The decoder\<close>

datatype http_status = kFirstLine | kHeader | kBody

record http_req_decoder =
  hq_request :: "http_request option"
  hq_status :: http_status
  hq_max_header_size :: nat
  hq_header :: "string option"
  hq_header_length :: nat
  hq_line_start :: nat
  hq_line_end :: int
  hq_parse_pos :: nat
  hq_body :: "string option"
  hq_body_length :: nat
  hq_body_read :: nat

definition hq_Reset :: "http_req_decoder \<Rightarrow> http_req_decoder" where
  "hq_Reset d = d\<lparr>hq_header_length := 0, hq_status := kFirstLine, hq_line_start := 0, hq_line_end := 0, hq_parse_pos := 0,
     hq_body := None, hq_body_length := 0, hq_body_read := 0, hq_request := None\<rparr>"

definition HttpReqDecoder :: http_req_decoder where
  "HttpReqDecoder = \<lparr>hq_request = None, hq_status = kFirstLine, hq_max_header_size = 4096, hq_header = None, hq_header_length = 0,
     hq_line_start = 0, hq_line_end = 0, hq_parse_pos = 0, hq_body = None, hq_body_length = 0, hq_body_read = 0\<rparr>"

text \<open>\<open>Init\<close> releases what a former use has left; the new block is uninitialised.\<close>

definition hq_Init :: "nat \<Rightarrow> string \<Rightarrow> http_req_decoder \<Rightarrow> http_req_decoder" where
  "hq_Init max_header_size junk d = (hq_Reset d)\<lparr>hq_max_header_size := max_header_size, hq_header := Some junk\<rparr>"

text \<open>The block that is offered: the header from a position on, or the body.\<close>

definition hq_GetBuffer :: "http_req_decoder \<Rightarrow> int \<times> (nat \<times> nat) option \<times> http_req_decoder" where
  "hq_GetBuffer d0 =
     (let d = (if hq_request d0 = None then d0\<lparr>hq_request := Some HttpRequest\<rparr> else d0) in
      case hq_status d of
        kBody \<Rightarrow> (0, Some (hq_body_length d - hq_body_read d, hq_body_length d - hq_body_read d), d)
      | _ \<Rightarrow>
          if hq_header d = None \<or> hq_max_header_size d \<le> hq_header_length d then (-1, None, d)
          else (0, Some (hq_header_length d, hq_max_header_size d - hq_header_length d), d))"

definition hq_recv :: "nat \<Rightarrow> string \<Rightarrow> http_req_decoder \<Rightarrow> http_req_decoder cxx" where
  "hq_recv off c d =
     (if hq_status d = kBody then map_option (\<lambda>b. d\<lparr>hq_body := Some b\<rparr>) (recv_into (hq_body d) off c)
      else map_option (\<lambda>b. d\<lparr>hq_header := Some b\<rparr>) (recv_into (hq_header d) off c))"

text \<open>The next end of a line in the first \<open>n\<close> characters, from \<open>p\<close> on; without one, where the next search starts.\<close>

function search_eol :: "string \<Rightarrow> nat \<Rightarrow> nat \<Rightarrow> bool \<times> nat" where
  "search_eol b n p =
     (if p < n \<and> b ! p \<noteq> CR then search_eol b n (p + 1)
      else if p < n \<and> p + 1 < n then if b ! (p + 1) = LF then (True, p) else search_eol b n (p + 2)
      else (False, p))"
  by pat_completeness auto
termination by (relation "measure (\<lambda>(b, n, p). n - p)") auto

declare search_eol.simps [simp del]

definition hq_ReadBody :: "http_req_decoder \<Rightarrow> int" where
  "hq_ReadBody d = (if hq_body_read d = hq_body_length d then 1 else if hq_body_length d < hq_body_read d then -1 else 0)"

text \<open>One header line; \<open>Inl\<close>: the line is refused.\<close>

definition header_line :: "string \<Rightarrow> http_request \<Rightarrow> (int + http_request \<times> nat)" where
  "header_line line r =
     (let v = SearchChar (CHR '':'') line in
      if v = [] then Inl (-1)
      else
        let name = before line v; v1 = tl v; value = (if v1 \<noteq> [] \<and> hd v1 = CHR '' '' then tl v1 else v1)
        in Inr (if strncasecmp_eq name ''content-length'' then r else SetHeader name value r, length name))"

lemma search_eol_bounds: "search_eol b n p = (True, q) \<Longrightarrow> p \<le> q \<and> q + 1 < n"
proof (induction b n p arbitrary: q rule: search_eol.induct)
  case (1 b n p)
  consider "p < n" "b ! p \<noteq> CR" | "p < n" "b ! p = CR" "p + 1 < n" "b ! (p + 1) \<noteq> LF" | "p < n" "b ! p = CR" "p + 1 < n" "b ! (p + 1) = LF" | "\<not> p + 1 < n" "\<not> (p < n \<and> b ! p \<noteq> CR)"
    by linarith
  then show ?case
  proof cases
    case 1
    then show ?thesis using "1.IH"(1) [of q] "1.prems" search_eol.simps [of b n p] by simp
  next
    case 2
    then show ?thesis using "1.IH"(2) [of q] "1.prems" search_eol.simps [of b n p] by simp
  qed (use "1.prems" search_eol.simps [of b n p] in \<open>auto split: if_splits\<close>)
qed

text \<open>
  The loop over the header lines. The body is read only if the request has a content already, which it
  never has; its block is filled before it is reported.
\<close>

definition start_body :: "string \<Rightarrow> http_request \<Rightarrow> http_req_decoder \<Rightarrow> (int \<times> http_req_decoder) cxx" where
  "start_body b r d =
     (if 0 < length (rq_content r) then
        let n = length (rq_content r); left = cells b (hq_parse_pos d) (hq_header_length d) in
        if n < length left then None
        else
          let d1 = d\<lparr>hq_body_length := n, hq_body := Some (overwrite (replicate n NUL) 0 left), hq_body_read := length left\<rparr>
          in Some (hq_ReadBody d1, d1)
      else Some (1, d))"

function hq_ParseHeader :: "http_req_decoder \<Rightarrow> (int \<times> http_req_decoder) cxx" where
  "hq_ParseHeader d =
     (case (hq_header d, hq_request d) of
        (Some b, Some r) \<Rightarrow>
          (case search_eol b (hq_header_length d) (hq_parse_pos d) of
             (False, p) \<Rightarrow> Some (0, d\<lparr>hq_parse_pos := p\<rparr>)
           | (True, p) \<Rightarrow>
               let d1 = d\<lparr>hq_line_end := int p, hq_parse_pos := p + 2, hq_line_start := p + 2\<rparr> in
               if p = hq_line_start d then start_body b r (d1\<lparr>hq_status := kBody\<rparr>)
               else (case cstring_at (b[p := NUL]) (hq_line_start d) of
                   None \<Rightarrow> None
                 | Some line \<Rightarrow> (case header_line line r of
                     Inl e \<Rightarrow> Some (e, d1\<lparr>hq_header := Some (b[p := NUL])\<rparr>)
                   | Inr (r', k) \<Rightarrow>
                       hq_ParseHeader (d1\<lparr>hq_request := Some r', hq_header := Some (b[p := NUL, hq_line_start d + k := NUL])\<rparr>))))
      | _ \<Rightarrow> None)"
  by pat_completeness auto
termination
  by (relation "measure (\<lambda>d. hq_header_length d - hq_parse_pos d)") (auto dest!: search_eol_bounds [OF sym])

declare hq_ParseHeader.simps [simp del]

definition hq_ParseFirstLine :: "http_req_decoder \<Rightarrow> (int \<times> http_req_decoder) cxx" where
  "hq_ParseFirstLine d =
     (case (hq_header d, hq_request d) of
        (Some b, Some r) \<Rightarrow>
          (case search_eol b (hq_header_length d) (hq_parse_pos d) of
             (False, p) \<Rightarrow> Some (0, d\<lparr>hq_parse_pos := p\<rparr>)
           | (True, p) \<Rightarrow>
               if length b \<le> hq_line_start d + p then None
               else
                 let b' = b[hq_line_start d + p := NUL];
                   d1 = d\<lparr>hq_header := Some b', hq_parse_pos := p + 2, hq_line_start := p + 2, hq_line_end := -1\<rparr> in
                 (case cstring_at b' (hq_line_start d) of
                    None \<Rightarrow> None
                  | Some line \<Rightarrow>
                      let get = strncasecmp_eq line ''GET ''; post = strncasecmp_eq line ''POST '' in
                      if \<not> get \<and> \<not> post then Some (-1, d1)
                      else
                        let uri = drop (if get then 4 else 5) line; version = SearchChar (CHR '' '') uri;
                          r1 = r\<lparr>rq_method := Some (if get then kGet else kPost)\<rparr> in
                        if version = [] then Some (-1, d1\<lparr>hq_request := Some r1\<rparr>)
                        else (case ParseUri (hd version) (before uri version) r1 of
                            None \<Rightarrow> None
                          | Some r2 \<Rightarrow>
                              hq_ParseHeader (d1\<lparr>hq_request := Some (r2\<lparr>rq_version_minor := if b' ! (p - 1) = CHR ''0'' then 0 else 1\<rparr>)\<rparr>))))
      | _ \<Rightarrow> None)"

definition hq_Feed :: "http_req_decoder \<Rightarrow> nat \<Rightarrow> (int \<times> http_req_decoder \<times> http_request list) cxx" where
  "hq_Feed d len =
     (let res = (case hq_status d of
          kFirstLine \<Rightarrow> hq_ParseFirstLine (d\<lparr>hq_header_length := hq_header_length d + len\<rparr>)
        | kHeader \<Rightarrow> hq_ParseHeader (d\<lparr>hq_header_length := hq_header_length d + len\<rparr>)
        | kBody \<Rightarrow> (let d1 = d\<lparr>hq_body_read := hq_body_read d + len\<rparr> in Some (hq_ReadBody d1, d1)))
      in case res of
        None \<Rightarrow> None
      | Some (ret, d1) \<Rightarrow>
          if ret = 0 then Some (0, d1, [])
          else if ret = 1 then
            (case hq_request d1 of
               None \<Rightarrow> None
             | Some r \<Rightarrow> Some (0, hq_Reset d1,
                 [if 0 < length (rq_content r) then r\<lparr>rq_content := case hq_body d1 of None \<Rightarrow> [] | Some c \<Rightarrow> c\<rparr> else r]))
          else Some (-1, hq_Reset d1, []))"

definition HttpReq_read :: "string \<Rightarrow> http_req_decoder \<Rightarrow> (http_request list \<times> (int + http_req_decoder)) cxx" where
  "HttpReq_read = Channel_read hq_GetBuffer hq_recv hq_Feed"

subsection \<open>A request that arrives in one piece\<close>

definition header_text :: "(string \<times> string) list \<Rightarrow> string" where
  "header_text hs = concat (map (\<lambda>(n, v). n @ '': '' @ v @ [CR, LF]) hs)"

definition plain_text :: "string \<Rightarrow> bool" where
  "plain_text s \<longleftrightarrow> CR \<notin> set s \<and> NUL \<notin> set s"

definition header_ok :: "string \<times> string \<Rightarrow> bool" where
  "header_ok = (\<lambda>(n, v). plain_text n \<and> plain_text v \<and> CHR '':'' \<notin> set n \<and> \<not> strncasecmp_eq n ''content-length'')"

lemma drop_eq_Cons: "drop p b = x # xs \<Longrightarrow> p < length b \<and> b ! p = x \<and> drop (Suc p) b = xs"
  by (metis Cons_nth_drop_Suc drop_all leI list.discI list.inject)

lemma drop_after: "drop p b = s @ t \<Longrightarrow> drop (p + length s) b = t"
  by (metis add.commute append_eq_conv_conj drop_drop)

lemma search_eol_line:
  assumes "drop p b = s @ CR # LF # rest" and "CR \<notin> set s" and "p + length s + 2 \<le> n"
  shows "search_eol b n p = (True, p + length s)"
  using assms
proof (induction s arbitrary: p)
  case Nil
  then have "b ! p = CR" "b ! Suc p = LF" using drop_eq_Cons [of p b] drop_eq_Cons [of "Suc p" b] by auto
  then show ?case using Nil by (simp add: search_eol.simps)
next
  case (Cons c s)
  then have "b ! p = c" "drop (p + 1) b = s @ CR # LF # rest" using drop_eq_Cons [of p b] by auto
  moreover have "c \<noteq> CR" using Cons.prems(2) by auto
  ultimately show ?case using Cons.IH [of "p + 1"] Cons.prems by (subst search_eol.simps) simp
qed

lemma cstring_terminated:
  assumes "drop p b = s @ c # rest" and "NUL \<notin> set s"
  shows "cstring_at (b[p + length s := NUL]) p = Some s"
proof -
  have "drop p (b[p + length s := NUL]) = s @ NUL # rest" using assms(1) by (simp add: drop_update_swap)
  then show ?thesis using assms(2) by (simp add: cstring_at_def takeWhile_append)
qed

lemma header_line_ok:
  assumes "header_ok (n, v)"
  shows "header_line (n @ '': '' @ v) r = Inr (SetHeader n v r, length n)"
  using assms by (simp add: header_line_def Let_def header_ok_def SearchChar_found [of _ n "CHR '' '' # v"])

lemma header_text_Cons: "header_text ((n, v) # hs) = (n @ '': '' @ v) @ CR # LF # header_text hs"
  by (simp add: header_text_def)

text \<open>The decoder in front of the rest \<open>t\<close> of its buffer, at the start of a line.\<close>

definition hq_at :: "http_request \<Rightarrow> nat \<Rightarrow> string \<Rightarrow> http_req_decoder \<Rightarrow> bool" where
  "hq_at r p t d \<longleftrightarrow> hq_request d = Some r \<and> hq_status d = kFirstLine \<and> hq_line_start d = p \<and> hq_parse_pos d = p \<and>
     (\<exists>b. hq_header d = Some b \<and> drop p b = t \<and> length b = hq_max_header_size d)"

lemma hq_ParseHeader_lines:
  assumes "hq_at r p (header_text hs @ t) d" and "p + length (header_text hs) \<le> hq_header_length d" and "\<forall>h \<in> set hs. header_ok h"
  shows "\<exists>d'. hq_ParseHeader d = hq_ParseHeader d' \<and> hq_at (fold (\<lambda>(n, v). SetHeader n v) hs r) (p + length (header_text hs)) t d' \<and>
    hq_header_length d' = hq_header_length d \<and> hq_max_header_size d' = hq_max_header_size d"
  using assms
proof (induction hs arbitrary: d p r)
  case Nil
  then show ?case by (auto simp: header_text_def)
next
  case (Cons h hs)
  obtain n v where h: "h = (n, v)" by (rule prod.exhaust)
  let ?l = "n @ '': '' @ v"
  obtain b where b: "hq_header d = Some b" "drop p b = header_text (h # hs) @ t" "length b = hq_max_header_size d"
    and at: "hq_request d = Some r" "hq_status d = kFirstLine" "hq_line_start d = p" "hq_parse_pos d = p"
    using Cons.prems(1) by (auto simp: hq_at_def)
  have ok: "header_ok (n, v)" using Cons.prems(3) h by simp
  have dr: "drop p b = ?l @ CR # LF # header_text hs @ t" using b(2) h header_text_Cons by simp
  have len: "length (header_text (h # hs)) = length ?l + 2 + length (header_text hs)" using h header_text_Cons by simp
  have eol: "search_eol b (hq_header_length d) p = (True, p + length ?l)"
    using search_eol_line [OF dr] ok Cons.prems(2) len by (simp add: header_ok_def plain_text_def CR_def)
  have line: "cstring_at (b[p + length ?l := NUL]) p = Some ?l"
    using cstring_terminated [OF dr] ok by (simp add: header_ok_def plain_text_def NUL_def)
  let ?b = "b[p + length ?l := NUL, p + length n := NUL]"
  let ?d = "d\<lparr>hq_line_end := int (p + length ?l), hq_parse_pos := p + length ?l + 2, hq_line_start := p + length ?l + 2,
     hq_request := Some (SetHeader n v r), hq_header := Some ?b\<rparr>"
  have step: "hq_ParseHeader d = hq_ParseHeader ?d"
    using b(1) at eol line header_line_ok [OF ok, of r] by (subst hq_ParseHeader.simps) (simp add: Let_def)
  have "drop (p + length (?l @ [CR, LF])) b = header_text hs @ t" by (rule drop_after) (simp add: dr)
  then have "hq_at (SetHeader n v r) (p + length ?l + 2) (header_text hs @ t) ?d" using at b(3) by (simp add: hq_at_def)
  from Cons.IH [OF this] Cons.prems(2,3) len
  obtain d' where d': "hq_ParseHeader ?d = hq_ParseHeader d'"
    "hq_at (fold (\<lambda>(n, v). SetHeader n v) hs (SetHeader n v r)) (p + length ?l + 2 + length (header_text hs)) t d'"
    "hq_header_length d' = hq_header_length ?d" "hq_max_header_size d' = hq_max_header_size ?d" by auto
  have pos: "p + length ?l + 2 + length (header_text hs) = p + length (header_text (h # hs))" using len by simp
  have "hq_at (fold (\<lambda>(n, v). SetHeader n v) (h # hs) r) (p + length (header_text (h # hs))) t d'" using d'(2) unfolding pos by (simp add: h)
  then show ?case using step d'(1,3,4) by (intro exI [of _ d']) simp
qed

lemma hq_ParseHeader_end:
  assumes "hq_at r p (CR # LF # t) d" and "p + 2 \<le> hq_header_length d" and "rq_content r = []"
  shows "\<exists>d'. hq_ParseHeader d = Some (1, d') \<and> hq_request d' = Some r \<and> hq_max_header_size d' = hq_max_header_size d \<and>
    (\<exists>b. hq_header d' = Some b \<and> length b = hq_max_header_size d)"
proof -
  obtain b where b: "hq_header d = Some b" "drop p b = CR # LF # t" "length b = hq_max_header_size d" using assms(1) by (auto simp: hq_at_def)
  then have "search_eol b (hq_header_length d) p = (True, p)" using search_eol_line [of p b "[]" t] assms(2) by simp
  then show ?thesis using assms(1,3) b by (subst hq_ParseHeader.simps) (simp add: start_body_def Let_def hq_at_def)
qed

primrec method_text :: "http_method \<Rightarrow> string" where
  "method_text kGet = ''GET ''"
| "method_text kPost = ''POST ''"

definition request_line :: "http_method \<Rightarrow> string \<Rightarrow> int \<Rightarrow> string" where
  "request_line m uri minor = method_text m @ uri @ '' HTTP/1.'' @ (if minor = 0 then ''0'' else ''1'')"

definition request_text :: "http_method \<Rightarrow> string \<Rightarrow> int \<Rightarrow> (string \<times> string) list \<Rightarrow> string" where
  "request_text m uri minor hs = request_line m uri minor @ CR # LF # header_text hs @ [CR, LF]"

definition hq_ready :: "nat \<Rightarrow> http_req_decoder \<Rightarrow> bool" where
  "hq_ready M d \<longleftrightarrow> hq_request d = None \<and> hq_status d = kFirstLine \<and> hq_max_header_size d = M \<and>
     (\<exists>b. hq_header d = Some b \<and> length b = M) \<and> hq_header_length d = 0 \<and> hq_line_start d = 0 \<and> hq_parse_pos d = 0"

lemma hq_Init_ready: "length junk = M \<Longrightarrow> hq_ready M (hq_Init M junk d)"
  by (simp add: hq_ready_def hq_Init_def hq_Reset_def)

lemma request_line_method:
  "strncasecmp_eq (request_line m uri minor) ''GET '' = (m = kGet)" "m = kPost \<Longrightarrow> strncasecmp_eq (request_line m uri minor) ''POST ''"
  by (cases m; simp add: request_line_def strncasecmp_eq_def to_lower_def Let_def)+

lemma hq_ParseFirstLine_request:
  assumes d: "hq_at q 0 (request_line m uri minor @ CR # LF # t) d" and len: "length (request_line m uri minor) + 2 \<le> hq_header_length d"
    and uri: "plain_text uri" "CHR '' '' \<notin> set uri" and r: "ParseUri (CHR '' '') uri (q\<lparr>rq_method := Some m\<rparr>) = Some r" and minor: "minor \<in> {0, 1}"
  shows "\<exists>d'. hq_ParseFirstLine d = hq_ParseHeader d' \<and> hq_at (r\<lparr>rq_version_minor := minor\<rparr>) (length (request_line m uri minor) + 2) t d' \<and>
    hq_header_length d' = hq_header_length d \<and> hq_max_header_size d' = hq_max_header_size d"
proof -
  let ?l = "request_line m uri minor"
  obtain b where h: "hq_header d = Some b" "length b = hq_max_header_size d" and b: "b = ?l @ CR # LF # t" using d by (auto simp: hq_at_def)
  have plain: "CR \<notin> set ?l" "NUL \<notin> set ?l"
    using uri(1) by (cases m; auto simp: request_line_def plain_text_def CR_def NUL_def)+
  have eol: "search_eol b (hq_header_length d) 0 = (True, length ?l)" using search_eol_line [of 0 b ?l] b plain(1) len by simp
  have line: "cstring_at (b[length ?l := NUL]) 0 = Some ?l" using cstring_terminated [of 0 b ?l] b plain(2) by simp
  have u: "drop (if m = kGet then 4 else 5) ?l = uri @ CHR '' '' # ''HTTP/1.'' @ (if minor = 0 then ''0'' else ''1'')"
    by (cases m) (simp_all add: request_line_def)
  have last: "b[length ?l := NUL] ! (length ?l - 1) = (if minor = 0 then CHR ''0'' else CHR ''1'')"
  proof -
    define x where "x = method_text m @ uri @ '' HTTP/1.''"
    have "?l = x @ [if minor = 0 then CHR ''0'' else CHR ''1'']" by (simp add: x_def request_line_def)
    then show ?thesis using b by (simp add: nth_append)
  qed
  let ?d = "d\<lparr>hq_header := Some (b[length ?l := NUL]), hq_parse_pos := length ?l + 2, hq_line_start := length ?l + 2, hq_line_end := -1,
     hq_request := Some (r\<lparr>rq_version_minor := minor\<rparr>)\<rparr>"
  have "hq_ParseFirstLine d = hq_ParseHeader ?d"
    using d h eol line u last r SearchChar_found [OF uri(2)] request_line_method minor b by (cases m) (auto simp: hq_ParseFirstLine_def Let_def hq_at_def)
  moreover have "hq_at (r\<lparr>rq_version_minor := minor\<rparr>) (length ?l + 2) t ?d" using d h b by (simp add: hq_at_def)
  ultimately show ?thesis by (intro exI [of _ ?d]) simp
qed

text \<open>Receiving into a ready decoder.\<close>

lemma HttpReq_read_first:
  assumes d: "hq_ready M d" and c: "c \<noteq> []" "length c \<le> M"
  shows "\<exists>d1 t. hq_at HttpRequest 0 (c @ t) d1 \<and> hq_header_length d1 = length c \<and> hq_max_header_size d1 = M \<and>
    HttpReq_read c d = (case hq_ParseFirstLine d1 of None \<Rightarrow> None
      | Some (ret, d2) \<Rightarrow>
          if ret = 0 then Some ([], Inr d2)
          else if ret = 1 then
            (case hq_request d2 of None \<Rightarrow> None
             | Some r \<Rightarrow> Some ([if 0 < length (rq_content r) then r\<lparr>rq_content := case hq_body d2 of None \<Rightarrow> [] | Some c \<Rightarrow> c\<rparr> else r], Inr (hq_Reset d2)))
          else Some ([], Inl (-1)))"
proof -
  obtain b where b: "hq_header d = Some b" "length b = M" using d by (auto simp: hq_ready_def)
  let ?d1 = "d\<lparr>hq_request := Some HttpRequest\<rparr>" and ?d2 = "d\<lparr>hq_request := Some HttpRequest, hq_header := Some (overwrite b 0 c)\<rparr>"
  have get: "hq_GetBuffer d = (0, Some (0, M), ?d1)" using d b c by (cases c) (auto simp: hq_GetBuffer_def hq_ready_def Let_def)
  have recv: "hq_recv 0 c ?d1 = Some ?d2" using d b c by (simp add: hq_recv_def hq_ready_def recv_into_def)
  have "hq_at HttpRequest 0 (c @ drop (length c) b) (?d2\<lparr>hq_header_length := length c\<rparr>)"
    using d b c(2) by (simp add: hq_at_def hq_ready_def overwrite_def)
  moreover have "HttpReq_read c d = map_option (\<lambda>(ret, d3, msgs). (msgs, if ret < 0 then Inl (-1) else Inr d3)) (hq_Feed ?d2 (length c))"
    unfolding HttpReq_read_def by (rule Channel_read_fits [where get = hq_GetBuffer and recv = hq_recv and d = d, OF get c recv])
  moreover have "hq_status d = kFirstLine" "hq_header_length d = 0" "hq_max_header_size d = M" using d by (simp_all add: hq_ready_def)
  ultimately show ?thesis
    by (intro exI [of _ "?d2\<lparr>hq_header_length := length c\<rparr>"] exI [of _ "drop (length c) b"])
      (auto simp: hq_Feed_def Let_def split: option.splits prod.splits)
qed

lemma fold_SetHeader_content: "rq_content (fold (\<lambda>(n, v). SetHeader n v) hs q) = rq_content q"
  by (induction hs arbitrary: q) (auto simp: SetHeader_def)

lemma ParseUri_content: "ParseUri e u q = Some r \<Longrightarrow> rq_content r = rq_content q"
  by (auto simp: ParseUri_def Let_def split: if_splits)

text \<open>
  C15. HTTP: a request that arrives in one piece is reported with its method, its URI as \<open>ParseUri\<close>
  splits it, its version and its headers, and the decoder is ready for the next one. What follows it
  in the same piece is dropped. The request has no content-length header (\<open>header_ok\<close>): the code
  recognises that one and drops it.
\<close>

theorem HttpReqDecoder_reports_request:
  assumes d: "hq_ready M d" and len: "length (request_text m uri minor hs @ rest) \<le> M"
    and uri: "plain_text uri" "CHR '' '' \<notin> set uri" and r: "ParseUri (CHR '' '') uri (HttpRequest\<lparr>rq_method := Some m\<rparr>) = Some r"
    and hs: "\<forall>h \<in> set hs. header_ok h" and minor: "minor \<in> {0, 1}"
  shows "\<exists>d'. HttpReq_read (request_text m uri minor hs @ rest) d =
      Some ([fold (\<lambda>(n, v). SetHeader n v) hs (r\<lparr>rq_version_minor := minor\<rparr>)], Inr d') \<and> hq_ready M d'"
proof -
  let ?c = "request_text m uri minor hs @ rest" and ?l = "request_line m uri minor" and ?r = "fold (\<lambda>(n, v). SetHeader n v) hs (r\<lparr>rq_version_minor := minor\<rparr>)"
  obtain d1 t where d1: "hq_at HttpRequest 0 (?c @ t) d1" "hq_header_length d1 = length ?c" "hq_max_header_size d1 = M"
    and read: "HttpReq_read ?c d = (case hq_ParseFirstLine d1 of None \<Rightarrow> None
      | Some (ret, d2) \<Rightarrow>
          if ret = 0 then Some ([], Inr d2)
          else if ret = 1 then
            (case hq_request d2 of None \<Rightarrow> None
             | Some r \<Rightarrow> Some ([if 0 < length (rq_content r) then r\<lparr>rq_content := case hq_body d2 of None \<Rightarrow> [] | Some c \<Rightarrow> c\<rparr> else r], Inr (hq_Reset d2)))
          else Some ([], Inl (-1)))"
    using HttpReq_read_first [OF d, of ?c] len by (auto simp: request_text_def)
  have c: "?c @ t = ?l @ CR # LF # header_text hs @ CR # LF # rest @ t" by (simp add: request_text_def)
  obtain d2 where d2: "hq_ParseFirstLine d1 = hq_ParseHeader d2"
    "hq_at (r\<lparr>rq_version_minor := minor\<rparr>) (length ?l + 2) (header_text hs @ CR # LF # rest @ t) d2" "hq_header_length d2 = length ?c" "hq_max_header_size d2 = M"
    using hq_ParseFirstLine_request [OF d1(1) [unfolded c] _ uri r minor] d1(2,3) by (auto simp: request_text_def)
  obtain d3 where d3: "hq_ParseHeader d2 = hq_ParseHeader d3" "hq_at ?r (length ?l + 2 + length (header_text hs)) (CR # LF # rest @ t) d3"
    "hq_header_length d3 = length ?c" "hq_max_header_size d3 = M"
    using hq_ParseHeader_lines [OF d2(2) _ hs] d2(3,4) by (auto simp: request_text_def)
  have content: "rq_content ?r = []" using ParseUri_content [OF r] by (simp add: fold_SetHeader_content HttpRequest_def)
  then obtain d4 where d4: "hq_ParseHeader d3 = Some (1, d4)" "hq_request d4 = Some ?r" "hq_max_header_size d4 = M" "\<exists>b. hq_header d4 = Some b \<and> length b = M"
    using hq_ParseHeader_end [OF d3(2)] d3(3,4) by (auto simp: request_text_def)
  have "hq_ready M (hq_Reset d4)" using d4(3,4) by (simp add: hq_ready_def hq_Reset_def)
  then show ?thesis using read d2(1) d3(1) d4(1,2) content by simp
qed

theorem HttpReqDecoder_reports_request_witness:
  "\<exists>d' r. HttpReq_read (request_text kGet ''/a?k=%41'' 1 [(''Host'', ''x'')] @ ''next'') (hq_Init 64 (replicate 64 NUL) HttpReqDecoder) = Some ([r], Inr d') \<and>
     hq_ready 64 d' \<and> rq_headers r ''Host'' = Some ''x'' \<and> rq_path r = ''/a'' \<and> rq_version_minor r = 1"
proof -
  let ?d = "hq_Init 64 (replicate 64 NUL) HttpReqDecoder" and ?uri = "''/a?k=%41''" and ?hs = "[(''Host'', ''x'')]"
  let ?r = "HttpRequest\<lparr>rq_method := Some kGet, rq_path := ''/a'', rq_params := [''k'' \<mapsto> [[char_of (65 :: int)]]]\<rparr>"
  have d: "hq_ready 64 ?d" by (simp add: hq_Init_ready)
  have len: "length (request_text kGet ?uri 1 ?hs @ ''next'') \<le> 64" by (simp add: request_text_def request_line_def header_text_def)
  have uri: "plain_text ?uri" "CHR '' '' \<notin> set ?uri" by (simp_all add: plain_text_def CR_def NUL_def)
  have hs: "\<forall>h \<in> set ?hs. header_ok h" by (simp add: header_ok_def plain_text_def CR_def NUL_def strncasecmp_eq_def to_lower_def Let_def)
  have r: "ParseUri (CHR '' '') ?uri (HttpRequest\<lparr>rq_method := Some kGet\<rparr>) = Some ?r"
    by (simp add: ParseUri_def Let_def parse_params.simps before_def GetParam_push_def HttpRequest_def HexVal_def push_bit_eq_mult)
  from HttpReqDecoder_reports_request [OF d len uri r hs] show ?thesis by (auto simp: SetHeader_def)
qed

text \<open>
  The decoder never leaves the state for the first line: when the header continues in a second piece,
  the next header line is taken for the first line of a request.
\<close>

lemma search_eol_none:
  "p \<le> n \<Longrightarrow> n \<le> length b \<Longrightarrow> CR \<notin> set (take (n - p) (drop p b)) \<Longrightarrow> search_eol b n p = (False, n)"
proof (induction "n - p" arbitrary: p)
  case 0
  then show ?case by (simp add: search_eol.simps)
next
  case (Suc k)
  then have lt: "p < n" "p < length b" by simp_all
  have "drop p b = b ! p # drop (p + 1) b" using Cons_nth_drop_Suc [OF lt(2)] by simp
  moreover have "n - p = Suc (n - (p + 1))" using lt by simp
  ultimately have "take (n - p) (drop p b) = b ! p # take (n - (p + 1)) (drop (p + 1) b)" by (metis take_Suc_Cons)
  then have "b ! p \<noteq> CR" "CR \<notin> set (take (n - (p + 1)) (drop (p + 1) b))" using Suc.prems(3) by auto
  then show ?case using Suc.hyps(1) [of "p + 1"] Suc.hyps(2) Suc.prems(2) lt by (subst search_eol.simps) simp
qed

lemma strncasecmp_line:
  assumes "CR \<notin> set (map to_lower lit)"
  shows "strncasecmp_eq (l @ CR # t) lit = strncasecmp_eq l lit"
proof (cases "length lit \<le> length l")
  case False
  have "to_lower CR = CR" by (simp add: to_lower_def CR_def)
  moreover obtain k where "length lit - length l = Suc k" using False by (metis Suc_diff_Suc not_le)
  then have "take (length lit) (l @ CR # t) = take (length lit) l @ CR # take k t" by simp
  ultimately have "CR \<in> set (map to_lower (take (length lit) (l @ CR # t)))" by simp
  then have "\<not> strncasecmp_eq (l @ CR # t) lit" using assms unfolding strncasecmp_eq_def by metis
  moreover have "\<not> strncasecmp_eq l lit" using False by (auto simp: strncasecmp_eq_def dest: arg_cong [where f = length])
  ultimately show ?thesis by simp
qed (simp add: strncasecmp_eq_def)

lemma hq_ParseFirstLine_refuses:
  assumes d: "hq_header d = Some b" "hq_request d = Some q" "hq_parse_pos d \<le> hq_header_length d"
    and l: "drop (hq_line_start d) b = l @ CR # LF # t" "plain_text l"
    and pos: "hq_line_start d \<le> hq_parse_pos d" "hq_parse_pos d \<le> hq_line_start d + length l"
    and len: "hq_line_start d + length l + 2 \<le> hq_header_length d"
    and no: "\<not> strncasecmp_eq l ''GET ''" "\<not> strncasecmp_eq l ''POST ''"
  shows "if hq_line_start d + (hq_line_start d + length l) < length b then \<exists>d'. hq_ParseFirstLine d = Some (-1, d')
    else hq_ParseFirstLine d = None"
proof -
  let ?s = "hq_line_start d"
  define k where "k = hq_parse_pos d - ?s"
  have k: "hq_parse_pos d = ?s + k" "k \<le> length l" using pos by (simp_all add: k_def)
  have "drop (?s + k) b = drop k (drop ?s b)" by (simp add: add.commute)
  then have "drop (hq_parse_pos d) b = drop k l @ CR # LF # t" using l(1) k by simp
  from search_eol_line [OF this, of "hq_header_length d"] l(2) len k
  have eol: "search_eol b (hq_header_length d) (hq_parse_pos d) = (True, ?s + length l)"
    by (auto simp: plain_text_def dest: in_set_dropD)
  let ?p = "?s + length l"
  show ?thesis
  proof (cases "length b \<le> ?s + ?p")
    case False
    let ?b = "b[?s + ?p := NUL]"
    have "drop ?s ?b = (l @ CR # LF # t)[?p := NUL]" using l(1) by (simp add: drop_update_swap)
    also have "\<dots> = l @ (CR # LF # t)[?s := NUL]" by (simp add: list_update_append)
    finally have dr: "drop ?s ?b = l @ (CR # LF # t)[?s := NUL]" .
    have nul: "NUL \<in> set (drop ?s ?b)"
    proof -
      have "length b - ?s = length l + length (CR # LF # t)" using arg_cong [OF l(1), of length] by simp
      then have "?s < length (CR # LF # t)" using False by simp
      then show ?thesis unfolding dr by (metis set_update_memI UnI2 set_append)
    qed
    obtain c t' where ct: "(CR # LF # t)[?s := NUL] = c # t'" "c = CR \<or> c = NUL" by (cases ?s) auto
    obtain x where x: "cstring_at ?b ?s = Some x" "x = l \<or> (\<exists>u. x = l @ CR # u)"
      using nul dr ct l(2) by (auto simp: cstring_at_def plain_text_def takeWhile_append CR_def NUL_def)
    have "CR \<notin> set (map to_lower ''GET '')" "CR \<notin> set (map to_lower ''POST '')" by code_simp+
    then have "\<not> strncasecmp_eq x ''GET ''" "\<not> strncasecmp_eq x ''POST ''"
      using x(2) no strncasecmp_line [of "''GET ''" l] strncasecmp_line [of "''POST ''" l] by auto
    then show ?thesis using d eol False x(1) by (simp add: hq_ParseFirstLine_def Let_def)
  qed (use d eol in \<open>simp add: hq_ParseFirstLine_def\<close>)
qed

text \<open>
  C22. HTTP: a request arrives in two pieces, the first of which ends inside the header, behind the
  request line, and the second of which completes the header line cut there (a line that does not itself
  begin with GET or POST). Then the first piece is stored and the second is answered with an error, which
  closes the connection, because the rest of the header is parsed as a request line. This holds if the
  zero byte for the end of that line, written at twice its start plus its length, is inside the header
  buffer; if not, it is written behind the buffer, which is undefined.
\<close>

theorem HttpReqDecoder_split_refused:
  assumes d: "hq_ready M d" and uri: "plain_text uri" "CHR '' '' \<notin> set uri" and minor: "minor \<in> {0, 1}"
    and r: "ParseUri (CHR '' '') uri (HttpRequest\<lparr>rq_method := Some m\<rparr>) = Some r" and hs: "\<forall>h \<in> set hs. header_ok h"
    and c1: "c1 = request_line m uri minor @ CR # LF # header_text hs @ l1" and c2: "c2 = l2 @ CR # LF # t" and len: "length (c1 @ c2) \<le> M"
    and l: "plain_text (l1 @ l2)" "\<not> strncasecmp_eq (l1 @ l2) ''GET ''" "\<not> strncasecmp_eq (l1 @ l2) ''POST ''"
  shows "\<exists>d'. HttpReq_read c1 d = Some ([], Inr d') \<and> HttpReq_read c2 d' =
    (if 2 * (length c1 - length l1) + length (l1 @ l2) < M then Some ([], Inl (-1)) else None)"
proof -
  let ?l = "request_line m uri minor" and ?r = "fold (\<lambda>(n, v). SetHeader n v) hs (r\<lparr>rq_version_minor := minor\<rparr>)"
  let ?p = "length ?l + 2 + length (header_text hs)"
  obtain d1 u where d1: "hq_at HttpRequest 0 (c1 @ u) d1" "hq_header_length d1 = length c1" "hq_max_header_size d1 = M"
    and read: "HttpReq_read c1 d = (case hq_ParseFirstLine d1 of None \<Rightarrow> None
      | Some (ret, d2) \<Rightarrow>
          if ret = 0 then Some ([], Inr d2)
          else if ret = 1 then
            (case hq_request d2 of None \<Rightarrow> None
             | Some r \<Rightarrow> Some ([if 0 < length (rq_content r) then r\<lparr>rq_content := case hq_body d2 of None \<Rightarrow> [] | Some c \<Rightarrow> c\<rparr> else r], Inr (hq_Reset d2)))
          else Some ([], Inl (-1)))"
    using HttpReq_read_first [OF d, of c1] len c1 by auto
  have c: "c1 @ u = ?l @ CR # LF # header_text hs @ l1 @ u" by (simp add: c1)
  obtain d2 where d2: "hq_ParseFirstLine d1 = hq_ParseHeader d2"
    "hq_at (r\<lparr>rq_version_minor := minor\<rparr>) (length ?l + 2) (header_text hs @ l1 @ u) d2" "hq_header_length d2 = length c1" "hq_max_header_size d2 = M"
    using hq_ParseFirstLine_request [OF d1(1) [unfolded c] _ uri r minor] d1(2,3) c1 by auto
  obtain d3 where d3: "hq_ParseHeader d2 = hq_ParseHeader d3" "hq_at ?r ?p (l1 @ u) d3" "hq_header_length d3 = length c1" "hq_max_header_size d3 = M"
    using hq_ParseHeader_lines [OF d2(2) _ hs] d2(3,4) c1 by auto
  obtain b where b: "hq_header d3 = Some b" "drop ?p b = l1 @ u" "length b = M" using d3(2,4) by (auto simp: hq_at_def)
  have n: "length c1 = ?p + length l1" by (simp add: c1)
  have "search_eol b (length c1) ?p = (False, length c1)"
    by (rule search_eol_none) (use b(2,3) len l(1) n in \<open>simp_all add: plain_text_def\<close>)
  then have s1: "hq_ParseHeader d3 = Some (0, d3\<lparr>hq_parse_pos := length c1\<rparr>)"
    using b(1) d3(2,3) by (subst hq_ParseHeader.simps) (simp add: hq_at_def)
  let ?d4 = "d3\<lparr>hq_parse_pos := length c1\<rparr>"
  have first: "HttpReq_read c1 d = Some ([], Inr ?d4)" using read d2(1) d3(1) s1 by simp
  let ?d5 = "?d4\<lparr>hq_header := Some (overwrite b (length c1) c2)\<rparr>"
  have c2': "c2 \<noteq> []" "length c2 \<le> M - length c1" "length c1 < M" using c2 len by simp_all
  have get: "hq_GetBuffer ?d4 = (0, Some (length c1, M - length c1), ?d4)" using d3 b c2'(3) by (simp add: hq_GetBuffer_def Let_def hq_at_def)
  have recv: "hq_recv (length c1) c2 ?d4 = Some ?d5" using d3(2) b len by (simp add: hq_recv_def hq_at_def recv_into_def)
  have second: "HttpReq_read c2 ?d4 = map_option (\<lambda>(ret, d3, msgs). (msgs, if ret < 0 then Inl (-1) else Inr d3)) (hq_Feed ?d5 (length c2))"
    unfolding HttpReq_read_def by (rule Channel_read_fits [where get = hq_GetBuffer and recv = hq_recv and d = ?d4, OF get c2'(1,2) recv])
  let ?d6 = "?d5\<lparr>hq_header_length := length (c1 @ c2)\<rparr>"
  have dt: "drop ?p (take (length c1) b) = l1" unfolding n using b(2) by (simp add: drop_take)
  have "?p \<le> length (take (length c1) b)" using n len b(3) by simp
  then have "drop ?p (overwrite b (length c1) c2) = drop ?p (take (length c1) b) @ c2 @ drop (length c1 + length c2) b"
    unfolding overwrite_def by simp
  then have "drop ?p (overwrite b (length c1) c2) = (l1 @ l2) @ CR # LF # t @ drop (length (c1 @ c2)) b" unfolding dt c2 by simp
  moreover have "length (overwrite b (length c1) c2) = M" using b(3) len by (simp add: overwrite_def)
  ultimately have "if ?p + (?p + length (l1 @ l2)) < M then \<exists>d'. hq_ParseFirstLine ?d6 = Some (-1, d') else hq_ParseFirstLine ?d6 = None"
    using hq_ParseFirstLine_refuses [of ?d6 "overwrite b (length c1) c2" ?r "l1 @ l2"] d3(2) n c2 l by (simp add: hq_at_def)
  then have "HttpReq_read c2 ?d4 = (if ?p + (?p + length (l1 @ l2)) < M then Some ([], Inl (-1)) else None)"
    using second d3(2,3) by (auto simp: hq_Feed_def hq_at_def Let_def split: if_splits)
  then have "HttpReq_read c2 ?d4 = (if 2 * (length c1 - length l1) + length (l1 @ l2) < M then Some ([], Inl (-1)) else None)"
    unfolding n by (simp add: mult_2 add.assoc)
  with first show ?thesis by blast
qed

text \<open>The host header cut in two, with a buffer of 64 bytes and with one of 32.\<close>

theorem HttpReqDecoder_split_refused_witness:
  "(\<exists>d'. HttpReq_read (''GET / HTTP/1.1'' @ [CR, LF] @ ''Ho'') (hq_Init 64 (replicate 64 NUL) HttpReqDecoder) = Some ([], Inr d') \<and>
     HttpReq_read (''st: x'' @ [CR, LF, CR, LF]) d' = Some ([], Inl (-1))) \<and>
   (\<exists>d'. HttpReq_read (''GET / HTTP/1.1'' @ [CR, LF] @ ''Ho'') (hq_Init 32 (replicate 32 NUL) HttpReqDecoder) = Some ([], Inr d') \<and>
     HttpReq_read (''st: x'' @ [CR, LF, CR, LF]) d' = None)"
proof -
  let ?c1 = "''GET / HTTP/1.1'' @ [CR, LF] @ ''Ho''" and ?c2 = "''st: x'' @ [CR, LF, CR, LF]"
  have uri: "plain_text ''/''" "CHR '' '' \<notin> set ''/''" by (simp_all add: plain_text_def CR_def NUL_def)
  have r: "ParseUri (CHR '' '') ''/'' (HttpRequest\<lparr>rq_method := Some kGet\<rparr>) = Some (HttpRequest\<lparr>rq_method := Some kGet, rq_path := ''/''\<rparr>)"
    by (simp add: ParseUri_def Let_def)
  have c1: "?c1 = request_line kGet ''/'' 1 @ CR # LF # header_text [] @ ''Ho''"
    by (simp add: request_line_def header_text_def)
  have c2: "?c2 = ''st: x'' @ CR # LF # [CR, LF]" by simp
  have l: "plain_text (''Ho'' @ ''st: x'')" "\<not> strncasecmp_eq (''Ho'' @ ''st: x'') ''GET ''" "\<not> strncasecmp_eq (''Ho'' @ ''st: x'') ''POST ''"
    by (simp_all add: plain_text_def CR_def NUL_def strncasecmp_eq_def to_lower_def Let_def)
  have "\<exists>d'. HttpReq_read ?c1 (hq_Init M (replicate M NUL) HttpReqDecoder) = Some ([], Inr d') \<and>
      HttpReq_read ?c2 d' = (if 39 < M then Some ([], Inl (-1)) else None)" if "32 \<le> M" for M
    using HttpReqDecoder_split_refused [OF hq_Init_ready [of "replicate M NUL" M HttpReqDecoder] uri _ r _ c1 c2 _ l] that by simp
  from this [of 64] this [of 32] show ?thesis by simp
qed

end
