(* ===== verification/Http_Response.thy ===== *)
theory Http_Response
  imports Http_Request Text_Numbers
begin

text \<open>
  HTTP responses, classes \<open>HttpResponse\<close> and \<open>HttpRespDecoder\<close> of
  \<open>libsrc/blitz2/include/blitz2/http/http_common.h\<close> and \<open>libsrc/blitz2/src/http/http_common.cc\<close>, the
  \<open>BufferWriter\<close> of \<open>libsrc/blitz2/include/blitz2/buffer_writer.h\<close> that prints them, and the answers
  of \<open>SimpleHttpServer\<close> (\<open>libsrc/blitz2/src/http/http_server.cc\<close>).

  The order in which \<open>unordered_map\<close> lists the headers is an argument. Of the block for a body the
  part that has been filled is kept.
\<close>

subsection \<open>The writer\<close>

record buffer_writer2 =
  w2_data :: string
  w2_capacity :: nat

definition w2_new :: buffer_writer2 where
  "w2_new = \<lparr>w2_data = [], w2_capacity = 0\<rparr>"

text \<open>\<open>Alloc\<close> drops what a smaller block holds.\<close>

definition w2_Reserve :: "nat \<Rightarrow> buffer_writer2 \<Rightarrow> buffer_writer2" where
  "w2_Reserve n w = (if n \<le> w2_capacity w then w else w\<lparr>w2_data := [], w2_capacity := n\<rparr>)"

definition w2_Extend :: "nat \<Rightarrow> buffer_writer2 \<Rightarrow> buffer_writer2" where
  "w2_Extend len w = (if length (w2_data w) + len < w2_capacity w then w else w\<lparr>w2_capacity := length (w2_data w) + len\<rparr>)"

definition w2_WriteData :: "string \<Rightarrow> buffer_writer2 \<Rightarrow> buffer_writer2 cxx" where
  "w2_WriteData s w =
     (let w1 = w2_Extend (length s) w in
      if length (w2_data w1) + length s \<le> w2_capacity w1 then Some (w1\<lparr>w2_data := w2_data w1 @ s\<rparr>) else None)"

function print_digits :: "nat \<Rightarrow> string \<Rightarrow> string" where
  "print_digits v acc = (let acc' = char_of (48 + v mod 10) # acc in if v div 10 \<noteq> 0 then print_digits (v div 10) acc' else acc')"
  by pat_completeness auto
termination by (relation "measure fst") auto

declare print_digits.simps [simp del]

definition w2_PrintInt :: "int \<Rightarrow> char \<Rightarrow> buffer_writer2 \<Rightarrow> buffer_writer2 cxx" where
  "w2_PrintInt v e w =
     (let s = print_digits (nat \<bar>v\<bar>) [e]; s' = (if v < 0 then CHR ''-'' # s else s) in
      if 32 < length s' then None else w2_WriteData s' w)"

subsection \<open>Printing a response\<close>

record http_response =
  rs_version_minor :: int
  rs_content :: string
  rs_headers :: "string \<rightharpoonup> string"
  rs_code :: int

definition HttpResponse :: http_response where
  "HttpResponse = \<lparr>rs_version_minor = 1, rs_content = [], rs_headers = Map.empty, rs_code = 200\<rparr>"

definition GetCodeStr :: "int \<Rightarrow> string" where
  "GetCodeStr code = (if code = 200 then ''OK'' else if code = 404 then ''Not Found'' else ''Internal Server Error'')"

text \<open>\<open>sprintf\<close> into an array of 32 characters.\<close>

definition resp_first_line :: "http_response \<Rightarrow> string" where
  "resp_first_line r = ''HTTP/1.'' @ int_text (rs_version_minor r) @ '' '' @ int_text (rs_code r) @ '' '' @ GetCodeStr (rs_code r) @ [CR, LF]"

primrec w2_write_all :: "string list \<Rightarrow> buffer_writer2 \<Rightarrow> buffer_writer2 cxx" where
  "w2_write_all [] w = Some w"
| "w2_write_all (s # ss) w = (case w2_WriteData s w of None \<Rightarrow> None | Some w' \<Rightarrow> w2_write_all ss w')"

definition CreateOutMsg :: "(string \<times> string) list \<Rightarrow> http_response \<Rightarrow> string cxx" where
  "CreateOutMsg hs r =
     (if 32 \<le> length (resp_first_line r) then None
      else
        let n = length (rs_content r); w0 = w2_Reserve (n + 1024) w2_new in
        case w2_write_all (resp_first_line r # concat (map (\<lambda>(k, v). [k, '': '', v, [CR, LF]]) hs)) w0 of
          None \<Rightarrow> None
        | Some w1 \<Rightarrow>
            (case (if 0 < n then
                (case w2_WriteData ''Content-Length: '' w1 of
                   None \<Rightarrow> None
                 | Some w2 \<Rightarrow> (case w2_PrintInt (int n) CR w2 of None \<Rightarrow> None | Some w3 \<Rightarrow> w2_WriteData [LF] w3))
              else Some w1) of
               None \<Rightarrow> None
             | Some w4 \<Rightarrow> map_option w2_data (w2_write_all (if 0 < n then [[CR, LF], rs_content r] else [[CR, LF]]) w4)))"

lemma print_digits_decimal: "print_digits v acc = decimal v @ acc"
proof (induction v acc rule: print_digits.induct)
  case (1 v acc)
  show ?case
  proof (cases "v < 10")
    case True
    then show ?thesis by (subst print_digits.simps, subst decimal.simps) simp
  next
    case False
    then have "v div 10 \<noteq> 0" by simp
    then show ?thesis using 1 [OF refl] False by (subst print_digits.simps, subst decimal.simps) (simp add: Let_def)
  qed
qed

lemma w2_WriteData_ok: "\<exists>c. w2_WriteData s w = Some \<lparr>w2_data = w2_data w @ s, w2_capacity = c\<rparr>"
  by (cases w) (simp add: w2_WriteData_def w2_Extend_def Let_def)

lemma w2_write_all_ok: "\<exists>c. w2_write_all ss w = Some \<lparr>w2_data = w2_data w @ concat ss, w2_capacity = c\<rparr>"
proof (induction ss arbitrary: w)
  case Nil
  show ?case by (cases w) simp
next
  case (Cons s ss)
  obtain c where "w2_WriteData s w = Some \<lparr>w2_data = w2_data w @ s, w2_capacity = c\<rparr>" using w2_WriteData_ok by blast
  then show ?case using Cons [of "\<lparr>w2_data = w2_data w @ s, w2_capacity = c\<rparr>"] by simp
qed

lemma length_decimal: "n < 10 ^ k \<Longrightarrow> 0 < k \<Longrightarrow> length (decimal n) \<le> k"
proof (induction n arbitrary: k rule: decimal.induct)
  case (1 n)
  show ?case
  proof (cases "n < 10")
    case False
    then obtain j where j: "k = Suc j" "0 < j" using "1.prems" by (cases k; cases "k - 1") auto
    then have "n div 10 < 10 ^ j" using "1.prems"(1) by simp
    then show ?thesis using "1.IH" [OF False, of j] j False by (subst decimal.simps) simp
  qed (use "1.prems" in \<open>subst decimal.simps, simp\<close>)
qed

definition content_header :: "string \<Rightarrow> string" where
  "content_header c = (if c = [] then [] else ''Content-Length: '' @ decimal (length c) @ [CR, LF])"

lemma CreateOutMsg_text:
  assumes "length (resp_first_line r) < 32" and "length (rs_content r) < 2 ^ 31"
  shows "CreateOutMsg hs r = Some (resp_first_line r @ header_text hs @ content_header (rs_content r) @ [CR, LF] @ rs_content r)"
proof -
  let ?n = "length (rs_content r)"
  have d: "length (decimal ?n) \<le> 30" using length_decimal [of ?n 30] assms(2) by simp
  have h: "concat (concat (map (\<lambda>(k, v). [k, '': '', v, [CR, LF]]) hs)) = header_text hs"
    by (induction hs) (auto simp: header_text_def)
  obtain c where 1: "w2_write_all (resp_first_line r # concat (map (\<lambda>(k, v). [k, '': '', v, [CR, LF]]) hs)) (w2_Reserve (?n + 1024) w2_new) =
      Some \<lparr>w2_data = resp_first_line r @ header_text hs, w2_capacity = c\<rparr>" (is "_ = Some ?w")
    using w2_write_all_ok [of "resp_first_line r # concat (map (\<lambda>(k, v). [k, '': '', v, [CR, LF]]) hs)" "w2_Reserve (?n + 1024) w2_new"] h
    by (auto simp: w2_Reserve_def w2_new_def)
  obtain c2 where 2: "w2_WriteData ''Content-Length: '' ?w = Some \<lparr>w2_data = w2_data ?w @ ''Content-Length: '', w2_capacity = c2\<rparr>" (is "_ = Some ?w2")
    using w2_WriteData_ok by blast
  obtain c3 where 3: "w2_PrintInt (int ?n) CR ?w2 = Some \<lparr>w2_data = w2_data ?w2 @ decimal ?n @ [CR], w2_capacity = c3\<rparr>" (is "_ = Some ?w3")
    using w2_WriteData_ok [of "decimal ?n @ [CR]" ?w2] d by (auto simp: w2_PrintInt_def print_digits_decimal)
  obtain c4 where 4: "w2_WriteData [LF] ?w3 = Some \<lparr>w2_data = w2_data ?w3 @ [LF], w2_capacity = c4\<rparr>" using w2_WriteData_ok by blast
  show ?thesis
  proof (cases "rs_content r = []")
    case True
    then show ?thesis using assms(1) 1 w2_write_all_ok [of "[[CR, LF]]" ?w] by (auto simp: CreateOutMsg_def Let_def content_header_def)
  next
    case False
    then show ?thesis using assms(1) 1 2 3 4 w2_write_all_ok [of "[[CR, LF], rs_content r]" "\<lparr>w2_data = w2_data ?w3 @ [LF], w2_capacity = c4\<rparr>"]
      by (auto simp: CreateOutMsg_def Let_def content_header_def)
  qed
qed

lemma length_decimal3: "100 \<le> n \<Longrightarrow> n < 1000 \<Longrightarrow> length (decimal n) = 3"
  using decimal.simps [of n] decimal.simps [of "n div 10"] decimal.simps [of "n div 10 div 10"] by (simp add: div_less_iff_less_mult)

lemma length_resp_first_line:
  assumes "rs_version_minor r \<in> {0, 1}" and "100 \<le> rs_code r" "rs_code r < 1000"
  shows "length (resp_first_line r) = 15 + length (GetCodeStr (rs_code r))"
proof -
  have "length (int_text (rs_code r)) = 3" using length_decimal3 [of "nat (rs_code r)"] assms(2,3) by (simp add: int_text_def)
  moreover have "length (int_text (rs_version_minor r)) = 1" using assms(1) by (auto simp: int_text_def decimal.simps [of 0] decimal.simps [of "Suc 0"])
  ultimately show ?thesis by (simp add: resp_first_line_def)
qed

text \<open>
  C35. HTTP: printing a response writes the first line, the headers, the length and the content if
  the code is 200 or 404; for every other code of three digits \<open>sprintf\<close> writes beyond the array of
  32 characters that holds the first line.
\<close>

theorem CreateOutMsg_defined:
  assumes "rs_version_minor r \<in> {0, 1}" and "100 \<le> rs_code r" "rs_code r < 1000" and "length (rs_content r) < 2 ^ 31"
  shows "CreateOutMsg hs r =
    (if rs_code r \<in> {200, 404} then Some (resp_first_line r @ header_text hs @ content_header (rs_content r) @ [CR, LF] @ rs_content r) else None)"
proof -
  have len: "length (resp_first_line r) = 15 + length (GetCodeStr (rs_code r))" by (rule length_resp_first_line [OF assms(1-3)])
  show ?thesis
  proof (cases "rs_code r \<in> {200, 404}")
    case True
    then have "length (resp_first_line r) < 32" using len by (auto simp: GetCodeStr_def)
    then show ?thesis using CreateOutMsg_text [OF _ assms(4)] True by simp
  next
    case False
    then have "32 \<le> length (resp_first_line r)" using len by (auto simp: GetCodeStr_def)
    then show ?thesis using False by (simp add: CreateOutMsg_def)
  qed
qed

theorem CreateOutMsg_defined_witness:
  "CreateOutMsg [] (HttpResponse\<lparr>rs_code := 500\<rparr>) = None \<and>
   CreateOutMsg [(''A'', ''b'')] (HttpResponse\<lparr>rs_content := ''hi''\<rparr>) = Some (''HTTP/1.1 200 OK'' @ [CR, LF] @ ''A: b'' @ [CR, LF] @ ''Content-Length: 2'' @ [CR, LF, CR, LF] @ ''hi'')"
proof -
  have "CreateOutMsg [] (HttpResponse\<lparr>rs_code := 500\<rparr>) = None"
    using CreateOutMsg_defined [of "HttpResponse\<lparr>rs_code := 500\<rparr>" "[]"] by (simp add: HttpResponse_def)
  moreover have "CreateOutMsg [(''A'', ''b'')] (HttpResponse\<lparr>rs_content := ''hi''\<rparr>) =
      Some (''HTTP/1.1 200 OK'' @ [CR, LF] @ ''A: b'' @ [CR, LF] @ ''Content-Length: 2'' @ [CR, LF, CR, LF] @ ''hi'')"
    using CreateOutMsg_defined [of "HttpResponse\<lparr>rs_content := ''hi''\<rparr>" "[(''A'', ''b'')]"]
    by (simp add: HttpResponse_def resp_first_line_def int_text_def decimal.simps GetCodeStr_def content_header_def header_text_def char_of_def bit_0)
  ultimately show ?thesis by simp
qed

subsection \<open>The decoder\<close>

datatype resp_status = rFirstLine | rHeader | rBody | rChunkSize | rChunkData | rChunkTrailer

record http_resp_decoder =
  hp_response :: "http_response option"
  hp_status :: resp_status
  hp_body :: "string option"
  hp_body_length :: nat
  hp_buf :: "string option"
  hp_buf_capacity :: nat
  hp_buf_length :: nat
  hp_line_start :: nat
  hp_line_end :: int
  hp_parse_pos :: nat
  hp_chunk_size :: int
  hp_chunk_left :: int

definition hp_Reset :: "http_resp_decoder \<Rightarrow> http_resp_decoder" where
  "hp_Reset d = d\<lparr>hp_status := rFirstLine, hp_body_length := 0, hp_body := map_option (\<lambda>_. []) (hp_body d), hp_buf_length := 0, hp_line_start := 0,
     hp_line_end := 0, hp_parse_pos := 0, hp_chunk_size := 0, hp_chunk_left := 0\<rparr>"

definition HttpRespDecoder :: http_resp_decoder where
  "HttpRespDecoder = \<lparr>hp_response = None, hp_status = rFirstLine, hp_body = None, hp_body_length = 0, hp_buf = None, hp_buf_capacity = 0,
     hp_buf_length = 0, hp_line_start = 0, hp_line_end = 0, hp_parse_pos = 0, hp_chunk_size = 0, hp_chunk_left = 0\<rparr>"

text \<open>
  \<open>body_read_\<close> is the length of the part of the body that is kept. Blocks are allocated with the
  contents \<open>junk n\<close>. While chunks are read the buffer is replaced by a larger one when it may not
  hold the next chunk.
\<close>

definition hp_body_read :: "http_resp_decoder \<Rightarrow> nat" where
  "hp_body_read d = (case hp_body d of None \<Rightarrow> 0 | Some b \<Rightarrow> length b)"

definition grow_buf :: "(nat \<Rightarrow> string) \<Rightarrow> http_resp_decoder \<Rightarrow> http_resp_decoder cxx" where
  "grow_buf junk d =
     (let need = max (hp_chunk_left d + 64 + hp_chunk_size d) (64 * 1024); left = int (hp_buf_capacity d) - int (hp_buf_length d) in
      if left < need then
        (case hp_buf d of
           None \<Rightarrow> None
         | Some b \<Rightarrow>
             let keep = cells b (hp_line_start d) (hp_buf_length d) in
             if need < int (length keep) \<or> hp_buf_length d < hp_parse_pos d then None
             else Some (d\<lparr>hp_buf := Some (overwrite (junk (nat need)) 0 keep), hp_buf_capacity := nat need,
               hp_parse_pos := hp_buf_length d - hp_parse_pos d, hp_buf_length := hp_buf_length d - hp_line_start d, hp_line_start := 0\<rparr>))
      else Some d)"

definition hp_prepare :: "(nat \<Rightarrow> string) \<Rightarrow> http_resp_decoder \<Rightarrow> http_resp_decoder" where
  "hp_prepare junk d =
     (let d1 = (if hp_buf d = None then d\<lparr>hp_buf_capacity := 4096, hp_buf := Some (junk 4096)\<rparr> else d)
      in if hp_response d1 = None then d1\<lparr>hp_response := Some HttpResponse\<rparr> else d1)"

definition hp_GetBuffer :: "(nat \<Rightarrow> string) \<Rightarrow> http_resp_decoder \<Rightarrow> (int \<times> (nat \<times> nat) option \<times> http_resp_decoder) cxx" where
  "hp_GetBuffer junk d0 =
     (let d = hp_prepare junk d0 in
      if hp_status d = rFirstLine \<or> hp_status d = rHeader then Some (0, Some (hp_buf_length d, hp_buf_capacity d - hp_buf_length d), d)
      else if hp_status d = rBody then Some (0, Some (hp_body_read d, hp_body_length d - hp_body_read d), d)
      else map_option (\<lambda>d'. (0, Some (hp_buf_length d', hp_buf_capacity d' - hp_buf_length d'), d')) (grow_buf junk d))"

definition hp_recv :: "nat \<Rightarrow> string \<Rightarrow> http_resp_decoder \<Rightarrow> http_resp_decoder cxx" where
  "hp_recv off c d =
     (if hp_status d = rBody then
        (case hp_body d of None \<Rightarrow> None
         | Some b \<Rightarrow> if off = length b \<and> off + length c \<le> hp_body_length d then Some (d\<lparr>hp_body := Some (b @ c)\<rparr>) else None)
      else map_option (\<lambda>b. d\<lparr>hp_buf := Some b\<rparr>) (recv_into (hp_buf d) off c))"

definition AppendBody :: "string \<Rightarrow> http_resp_decoder \<Rightarrow> http_resp_decoder" where
  "AppendBody s d =
     (case hp_body d of
        None \<Rightarrow> d\<lparr>hp_body_length := 4 * length s, hp_body := Some s\<rparr>
      | Some b \<Rightarrow>
          d\<lparr>hp_body := Some (b @ s),
            hp_body_length := if hp_body_length d < length b + length s then hp_body_length d + length s + 4096 else hp_body_length d\<rparr>)"

definition hp_ReadBody :: "http_resp_decoder \<Rightarrow> int" where
  "hp_ReadBody d = (if hp_body_read d = hp_body_length d then 1 else if hp_body_length d < hp_body_read d then -1 else 0)"

text \<open>
  The chunks. After the data of a chunk two characters are skipped; \<open>Inr\<close>: the next size follows.
  With fewer than two characters left the last one is moved to the front.
\<close>

definition ReadChunkTrailer :: "string \<Rightarrow> http_resp_decoder \<Rightarrow> (int \<times> http_resp_decoder) + http_resp_decoder" where
  "ReadChunkTrailer b d =
     (let left = hp_buf_length d - hp_parse_pos d in
      if 2 \<le> left then
        if hp_chunk_size d = 0 then Inl (if 2 < left then -1 else 1, d)
        else Inr (d\<lparr>hp_parse_pos := hp_parse_pos d + 2, hp_line_start := hp_parse_pos d + 2, hp_status := rChunkSize\<rparr>)
      else Inl (0, d\<lparr>hp_buf := Some (b[0 := b ! (hp_buf_length d - 1)]), hp_buf_length := 1, hp_parse_pos := 0, hp_line_start := 0\<rparr>))"

definition chunk_data :: "http_resp_decoder \<Rightarrow> ((int \<times> http_resp_decoder) + http_resp_decoder) cxx" where
  "chunk_data d =
     (case hp_buf d of
        None \<Rightarrow> None
      | Some b \<Rightarrow>
          let left = hp_buf_length d - hp_parse_pos d in
          if hp_chunk_left d < 0 then None
          else if hp_chunk_left d \<le> int left then
            let n = nat (hp_chunk_left d); d1 = AppendBody (cells b (hp_parse_pos d) (hp_parse_pos d + n)) d
            in Some (ReadChunkTrailer b (d1\<lparr>hp_parse_pos := hp_parse_pos d + n, hp_chunk_left := 0, hp_status := rChunkTrailer\<rparr>))
          else
            let d1 = AppendBody (cells b (hp_parse_pos d) (hp_buf_length d)) d
            in Some (Inl (0, d1\<lparr>hp_chunk_left := hp_chunk_left d - int left, hp_parse_pos := 0, hp_buf_length := 0, hp_line_start := 0\<rparr>)))"

lemma AppendBody_fields [simp]:
  "hp_buf_length (AppendBody s d) = hp_buf_length d" "hp_parse_pos (AppendBody s d) = hp_parse_pos d" "hp_buf (AppendBody s d) = hp_buf d"
  "hp_chunk_size (AppendBody s d) = hp_chunk_size d" "hp_response (AppendBody s d) = hp_response d" "hp_buf_capacity (AppendBody s d) = hp_buf_capacity d"
  "hp_chunk_left (AppendBody s d) = hp_chunk_left d" "hp_line_start (AppendBody s d) = hp_line_start d"
  by (simp_all add: AppendBody_def split: option.splits)

lemma chunk_data_advances:
  "chunk_data d = Some (Inr d') \<Longrightarrow> hp_buf_length d' = hp_buf_length d \<and> hp_parse_pos d + 2 \<le> hp_parse_pos d' \<and> hp_parse_pos d' \<le> hp_buf_length d"
  by (auto simp: chunk_data_def ReadChunkTrailer_def Let_def split: option.splits if_splits)

function ReadChunkSize :: "http_resp_decoder \<Rightarrow> (int \<times> http_resp_decoder) cxx" where
  "ReadChunkSize d =
     (case hp_buf d of
        None \<Rightarrow> None
      | Some b \<Rightarrow>
          (case search_eol b (hp_buf_length d) (hp_parse_pos d) of
             (False, p) \<Rightarrow> Some (0, d\<lparr>hp_parse_pos := p\<rparr>)
           | (True, p) \<Rightarrow>
               let size = sint (word_of_int (strtol16 (drop (hp_line_start d) b)) :: u32) in
               (case chunk_data (d\<lparr>hp_line_end := int p, hp_parse_pos := p + 2, hp_chunk_size := size, hp_chunk_left := size, hp_status := rChunkData\<rparr>) of
                  None \<Rightarrow> None
                | Some (Inl res) \<Rightarrow> Some res
                | Some (Inr d') \<Rightarrow> ReadChunkSize d')))"
  by pat_completeness auto
termination
  by (relation "measure (\<lambda>d. hp_buf_length d - hp_parse_pos d)") (auto dest!: search_eol_bounds [OF sym] chunk_data_advances)

declare ReadChunkSize.simps [simp del]

definition ReadChunkData :: "http_resp_decoder \<Rightarrow> (int \<times> http_resp_decoder) cxx" where
  "ReadChunkData d = (case chunk_data d of None \<Rightarrow> None | Some (Inl res) \<Rightarrow> Some res | Some (Inr d') \<Rightarrow> ReadChunkSize d')"

text \<open>The end of the header. A missing length is a null pointer.\<close>

definition hp_end_header :: "string \<Rightarrow> http_response \<Rightarrow> http_resp_decoder \<Rightarrow> (int \<times> http_resp_decoder) cxx" where
  "hp_end_header b r d =
     (if rs_headers r ''Transfer-Encoding'' = Some ''chunked'' then ReadChunkSize (d\<lparr>hp_status := rChunkSize\<rparr>)
      else (case rs_headers r ''Content-Length'' of
          None \<Rightarrow> None
        | Some v \<Rightarrow> (case atoi v of
            None \<Rightarrow> None
          | Some n \<Rightarrow>
              if 0 < n then
                let left = cells b (hp_parse_pos d) (hp_buf_length d) in
                if nat n < length left then None
                else let d1 = d\<lparr>hp_body := Some left, hp_body_length := nat n, hp_status := rBody\<rparr> in Some (hp_ReadBody d1, d1)
              else Some (1, d))))"

definition resp_header_line :: "string \<Rightarrow> http_response \<Rightarrow> (int + http_response \<times> nat)" where
  "resp_header_line line r =
     (let v = SearchChar (CHR '':'') line in
      if v = [] then Inl (-1)
      else
        let name = before line v; v1 = tl v; val = (if v1 \<noteq> [] \<and> hd v1 = CHR '' '' then tl v1 else v1)
        in Inr (r\<lparr>rs_headers := (rs_headers r)(name \<mapsto> val)\<rparr>, length name))"

function hp_ParseHeader :: "http_resp_decoder \<Rightarrow> (int \<times> http_resp_decoder) cxx" where
  "hp_ParseHeader d =
     (case (hp_buf d, hp_response d) of
        (Some b, Some r) \<Rightarrow>
          (case search_eol b (hp_buf_length d) (hp_parse_pos d) of
             (False, p) \<Rightarrow> Some (0, d\<lparr>hp_parse_pos := p\<rparr>)
           | (True, p) \<Rightarrow>
               let d1 = d\<lparr>hp_line_end := int p, hp_parse_pos := p + 2, hp_line_start := p + 2\<rparr> in
               if p = hp_line_start d then hp_end_header b r d1
               else (case cstring_at (b[p := NUL]) (hp_line_start d) of
                   None \<Rightarrow> None
                 | Some line \<Rightarrow> (case resp_header_line line r of
                     Inl e \<Rightarrow> Some (e, d1\<lparr>hp_buf := Some (b[p := NUL])\<rparr>)
                   | Inr (r', k) \<Rightarrow>
                       hp_ParseHeader (d1\<lparr>hp_response := Some r', hp_buf := Some (b[p := NUL, hp_line_start d + k := NUL])\<rparr>))))
      | _ \<Rightarrow> None)"
  by pat_completeness auto
termination
  by (relation "measure (\<lambda>d. hp_buf_length d - hp_parse_pos d)") (auto dest!: search_eol_bounds [OF sym])

declare hp_ParseHeader.simps [simp del]

definition hp_ParseFirstLine :: "http_resp_decoder \<Rightarrow> (int \<times> http_resp_decoder) cxx" where
  "hp_ParseFirstLine d =
     (case (hp_buf d, hp_response d) of
        (Some b, Some r) \<Rightarrow>
          (case search_eol b (hp_buf_length d) (hp_parse_pos d) of
             (False, p) \<Rightarrow> Some (0, d\<lparr>hp_parse_pos := p\<rparr>)
           | (True, p) \<Rightarrow>
               if length b \<le> hp_line_start d + p then None
               else
                 let b' = b[hp_line_start d + p := NUL];
                   d1 = d\<lparr>hp_buf := Some b', hp_parse_pos := p + 2, hp_line_start := p + 2, hp_line_end := -1\<rparr> in
                 (case cstring_at b' (hp_line_start d) of
                    None \<Rightarrow> None
                  | Some line \<Rightarrow>
                      if \<not> strncasecmp_eq line ''HTTP/1.'' then Some (-1, d1)
                      else
                        let v = (line @ [NUL]) ! 7 in
                        if v \<noteq> CHR ''1'' \<and> v \<noteq> CHR ''0'' then Some (-1, d1)
                        else (case cstring_at b' (hp_line_start d + 9) of
                            None \<Rightarrow> None
                          | Some pcode \<Rightarrow> (case atoi pcode of
                              None \<Rightarrow> None
                            | Some code \<Rightarrow>
                                hp_ParseHeader (d1\<lparr>hp_response := Some (r\<lparr>rs_version_minor := if v = CHR ''1'' then 1 else 0, rs_code := code\<rparr>)\<rparr>)))))
      | _ \<Rightarrow> None)"

definition hp_Feed :: "http_resp_decoder \<Rightarrow> nat \<Rightarrow> (int \<times> http_resp_decoder \<times> http_response list) cxx" where
  "hp_Feed d len =
     (let d1 = d\<lparr>hp_buf_length := hp_buf_length d + len\<rparr>;
        res = (case hp_status d of
            rFirstLine \<Rightarrow> hp_ParseFirstLine d1
          | rHeader \<Rightarrow> hp_ParseHeader d1
          | rBody \<Rightarrow> Some (hp_ReadBody d, d)
          | rChunkSize \<Rightarrow> ReadChunkSize d1
          | rChunkData \<Rightarrow> ReadChunkData d1
          | rChunkTrailer \<Rightarrow> ReadChunkData d1)
      in case res of
        None \<Rightarrow> None
      | Some (ret, d2) \<Rightarrow>
          if ret = 0 then Some (0, d2, [])
          else if ret = 1 then
            (case hp_response d2 of
               None \<Rightarrow> None
             | Some r \<Rightarrow>
                 let attach = (0 < hp_body_read d2 \<and> hp_body d2 \<noteq> None);
                   r' = (if attach then r\<lparr>rs_content := case hp_body d2 of None \<Rightarrow> [] | Some c \<Rightarrow> c\<rparr> else r);
                   d3 = (if attach then d2\<lparr>hp_body := None\<rparr> else d2)
                 in Some (0, hp_Reset (d3\<lparr>hp_response := None\<rparr>), [r']))
          else Some (-1, hp_Reset (d2\<lparr>hp_response := None\<rparr>), []))"

text \<open>One round of the connection, as \<open>Channel_read\<close>, for a decoder whose \<open>GetBuffer\<close> may be undefined.\<close>

definition HttpResp_read :: "(nat \<Rightarrow> string) \<Rightarrow> string \<Rightarrow> http_resp_decoder \<Rightarrow> (http_response list \<times> (int + http_resp_decoder)) cxx" where
  "HttpResp_read junk c d =
     (case hp_GetBuffer junk d of
        None \<Rightarrow> None
      | Some g \<Rightarrow> Channel_read (\<lambda>_. g) hp_recv hp_Feed c d)"

subsection \<open>Responses in pieces\<close>

primrec resp_run :: "(nat \<Rightarrow> string) \<Rightarrow> string list \<Rightarrow> http_resp_decoder \<Rightarrow> (http_response list \<times> (int + http_resp_decoder)) cxx" where
  "resp_run junk [] d = Some ([], Inr d)"
| "resp_run junk (c # cs) d =
     (case HttpResp_read junk c d of
        None \<Rightarrow> None
      | Some (ms, Inl e) \<Rightarrow> Some (ms, Inl e)
      | Some (ms, Inr d') \<Rightarrow> map_option (\<lambda>(ms', res). (ms @ ms', res)) (resp_run junk cs d'))"

definition set_header :: "string \<times> string \<Rightarrow> http_response \<Rightarrow> http_response" where
  "set_header h r = r\<lparr>rs_headers := (rs_headers r)(fst h \<mapsto> snd h)\<rparr>"

definition resp_header_ok :: "string \<times> string \<Rightarrow> bool" where
  "resp_header_ok h \<longleftrightarrow> plain_text (fst h) \<and> plain_text (snd h) \<and> CHR '':'' \<notin> set (fst h)"

definition hp_at :: "http_response \<Rightarrow> nat \<Rightarrow> string \<Rightarrow> http_resp_decoder \<Rightarrow> bool" where
  "hp_at r p t d \<longleftrightarrow> hp_response d = Some r \<and> hp_status d = rFirstLine \<and> hp_line_start d = p \<and> hp_parse_pos d = p \<and>
     (\<exists>b. hp_buf d = Some b \<and> drop p b = t \<and> length b = hp_buf_capacity d)"

definition hp_ready :: "http_resp_decoder \<Rightarrow> bool" where
  "hp_ready d \<longleftrightarrow> hp_response d = None \<and> hp_status d = rFirstLine \<and> hp_buf_length d = 0 \<and> hp_line_start d = 0 \<and> hp_parse_pos d = 0 \<and>
     (hp_body d = None \<or> hp_body d = Some []) \<and> (\<forall>b. hp_buf d = Some b \<longrightarrow> length b = hp_buf_capacity d \<and> 4096 \<le> length b)"

lemma resp_header_line_ok:
  assumes "resp_header_ok (n, v)"
  shows "resp_header_line (n @ '': '' @ v) r = Inr (set_header (n, v) r, length n)"
  using assms by (simp add: resp_header_line_def Let_def resp_header_ok_def set_header_def SearchChar_found [of _ n "CHR '' '' # v"])

lemma hp_ParseHeader_lines:
  assumes "hp_at r p (header_text hs @ t) d" and "p + length (header_text hs) \<le> hp_buf_length d" and "\<forall>h \<in> set hs. resp_header_ok h"
  shows "\<exists>d'. hp_ParseHeader d = hp_ParseHeader d' \<and> hp_at (fold set_header hs r) (p + length (header_text hs)) t d' \<and>
    hp_buf_length d' = hp_buf_length d \<and> hp_buf_capacity d' = hp_buf_capacity d \<and> hp_body d' = hp_body d"
  using assms
proof (induction hs arbitrary: d p r)
  case Nil
  then show ?case by (auto simp: header_text_def)
next
  case (Cons h hs)
  obtain n v where h: "h = (n, v)" by (rule prod.exhaust)
  let ?l = "n @ '': '' @ v"
  obtain b where b: "hp_buf d = Some b" "drop p b = header_text (h # hs) @ t" "length b = hp_buf_capacity d"
    and at: "hp_response d = Some r" "hp_status d = rFirstLine" "hp_line_start d = p" "hp_parse_pos d = p"
    using Cons.prems(1) by (auto simp: hp_at_def)
  have ok: "resp_header_ok (n, v)" using Cons.prems(3) h by simp
  have dr: "drop p b = ?l @ CR # LF # header_text hs @ t" using b(2) h header_text_Cons by simp
  have len: "length (header_text (h # hs)) = length ?l + 2 + length (header_text hs)" using h header_text_Cons by simp
  have eol: "search_eol b (hp_buf_length d) p = (True, p + length ?l)"
    using search_eol_line [OF dr] ok Cons.prems(2) len by (simp add: resp_header_ok_def plain_text_def CR_def)
  have line: "cstring_at (b[p + length ?l := NUL]) p = Some ?l"
    using cstring_terminated [OF dr] ok by (simp add: resp_header_ok_def plain_text_def NUL_def)
  let ?b = "b[p + length ?l := NUL, p + length n := NUL]"
  let ?d = "d\<lparr>hp_line_end := int (p + length ?l), hp_parse_pos := p + length ?l + 2, hp_line_start := p + length ?l + 2,
     hp_response := Some (set_header (n, v) r), hp_buf := Some ?b\<rparr>"
  have step: "hp_ParseHeader d = hp_ParseHeader ?d"
    using b(1) at eol line resp_header_line_ok [OF ok, of r] by (subst hp_ParseHeader.simps) (simp add: Let_def)
  have "drop (p + length (?l @ [CR, LF])) b = header_text hs @ t" by (rule drop_after) (simp add: dr)
  then have "hp_at (set_header (n, v) r) (p + length ?l + 2) (header_text hs @ t) ?d" using at b(3) by (simp add: hp_at_def)
  from Cons.IH [OF this] Cons.prems(2,3) len
  obtain d' where d': "hp_ParseHeader ?d = hp_ParseHeader d'"
    "hp_at (fold set_header hs (set_header (n, v) r)) (p + length ?l + 2 + length (header_text hs)) t d'"
    "hp_buf_length d' = hp_buf_length ?d" "hp_buf_capacity d' = hp_buf_capacity ?d" "hp_body d' = hp_body ?d" by auto
  have pos: "p + length ?l + 2 + length (header_text hs) = p + length (header_text (h # hs))" using len by simp
  have "hp_at (fold set_header (h # hs) r) (p + length (header_text (h # hs))) t d'" using d'(2) unfolding pos by (simp add: h)
  then show ?case using step d'(1,3,4,5) by (intro exI [of _ d']) simp
qed

lemma hp_ParseFirstLine_response:
  assumes d: "hp_at q 0 (resp_first_line r @ t) d" and len: "length (resp_first_line r) \<le> hp_buf_length d"
    and r: "rs_version_minor r \<in> {0, 1}" "rs_code r \<in> {200, 404}"
  shows "\<exists>d'. hp_ParseFirstLine d = hp_ParseHeader d' \<and>
    hp_at (q\<lparr>rs_version_minor := rs_version_minor r, rs_code := rs_code r\<rparr>) (length (resp_first_line r)) t d' \<and>
    hp_buf_length d' = hp_buf_length d \<and> hp_buf_capacity d' = hp_buf_capacity d \<and> hp_body d' = hp_body d"
proof -
  define l where "l = ''HTTP/1.'' @ int_text (rs_version_minor r) @ '' '' @ int_text (rs_code r) @ '' '' @ GetCodeStr (rs_code r)"
  have fl: "resp_first_line r = l @ [CR, LF]" by (simp add: l_def resp_first_line_def)
  obtain b where h: "hp_buf d = Some b" "length b = hp_buf_capacity d" and b: "b = l @ CR # LF # t" using d fl by (auto simp: hp_at_def)
  have v: "int_text (rs_version_minor r) = [if rs_version_minor r = 1 then CHR ''1'' else CHR ''0'']"
    using r(1) by (auto simp: int_text_def decimal.simps char_of_def bit_0)
  have cd: "int_text (rs_code r) = decimal (nat (rs_code r))" using r(2) by (auto simp: int_text_def)
  have digits: "is_digit c \<Longrightarrow> c \<noteq> CR \<and> c \<noteq> NUL" for c by (auto simp: is_digit_def CR_def NUL_def)
  have "CR \<notin> set (decimal n) \<and> NUL \<notin> set (decimal n)" for n using decimal_digits [of n] digits by blast
  then have plain: "CR \<notin> set l" "NUL \<notin> set l"
    using r(2) by (auto simp: l_def v cd GetCodeStr_def CR_def NUL_def)
  have eol: "search_eol b (hp_buf_length d) 0 = (True, length l)" using search_eol_line [of 0 b l] b plain(1) len fl by simp
  have line: "cstring_at (b[length l := NUL]) 0 = Some l" using cstring_terminated [of 0 b l] b plain(2) by simp
  have v7: "(l @ [NUL]) ! 7 = (if rs_version_minor r = 1 then CHR ''1'' else CHR ''0'')" by (simp add: l_def v)
  have l9: "drop 9 l = decimal (nat (rs_code r)) @ '' '' @ GetCodeStr (rs_code r)" by (simp add: l_def v cd)
  have len9: "9 \<le> length l" by (simp add: l_def v)
  have "drop 9 b = drop 9 l @ CR # LF # t" using b len9 by simp
  from cstring_terminated [OF this] plain(2) len9 have p9: "cstring_at (b[length l := NUL]) 9 = Some (drop 9 l)"
    by (auto dest: in_set_dropD)
  have code: "atoi (drop 9 l) = Some (rs_code r)"
    unfolding l9 using atoi_decimal [of "nat (rs_code r)" "'' '' @ GetCodeStr (rs_code r)"] r(2) by (auto simp: is_digit_def)
  have http: "strncasecmp_eq l ''HTTP/1.''" by (simp add: strncasecmp_eq_def l_def)
  let ?d = "d\<lparr>hp_buf := Some (b[length l := NUL]), hp_parse_pos := length l + 2, hp_line_start := length l + 2, hp_line_end := -1,
     hp_response := Some (q\<lparr>rs_version_minor := rs_version_minor r, rs_code := rs_code r\<rparr>)\<rparr>"
  have "hp_ParseFirstLine d = hp_ParseHeader ?d"
    using d h eol line v7 p9 code http r(1) b by (auto simp: hp_ParseFirstLine_def Let_def hp_at_def)
  moreover have "hp_at (q\<lparr>rs_version_minor := rs_version_minor r, rs_code := rs_code r\<rparr>) (length (resp_first_line r)) t ?d"
    using d h b fl by (simp add: hp_at_def)
  ultimately show ?thesis by (intro exI [of _ ?d]) simp
qed

text \<open>What happens after a round: nothing yet, a response, or an error.\<close>

definition hp_after :: "(int \<times> http_resp_decoder) cxx \<Rightarrow> (http_response list \<times> (int + http_resp_decoder)) cxx" where
  "hp_after res =
     (case res of
        None \<Rightarrow> None
      | Some (ret, d2) \<Rightarrow>
          if ret = 0 then Some ([], Inr d2)
          else if ret = 1 then
            (case hp_response d2 of
               None \<Rightarrow> None
             | Some r \<Rightarrow>
                 let attach = (0 < hp_body_read d2 \<and> hp_body d2 \<noteq> None);
                   r' = (if attach then r\<lparr>rs_content := case hp_body d2 of None \<Rightarrow> [] | Some c \<Rightarrow> c\<rparr> else r);
                   d3 = (if attach then d2\<lparr>hp_body := None\<rparr> else d2)
                 in Some ([r'], Inr (hp_Reset (d3\<lparr>hp_response := None\<rparr>))))
          else Some ([], Inl (-1)))"

lemma HttpResp_read_first:
  assumes d: "hp_ready d" and junk: "\<And>n. length (junk n) = n" and c: "c \<noteq> []" "length c \<le> 4096"
  shows "\<exists>d1 t. hp_at HttpResponse 0 (c @ t) d1 \<and> hp_buf_length d1 = length c \<and> 4096 \<le> hp_buf_capacity d1 \<and> hp_body d1 = hp_body d \<and>
    HttpResp_read junk c d = hp_after (hp_ParseFirstLine d1)"
proof -
  define d1 where "d1 = hp_prepare junk d"
  obtain b where b: "hp_buf d1 = Some b" "length b = hp_buf_capacity d1" "4096 \<le> length b"
    using d junk by (cases "hp_buf d") (auto simp: d1_def hp_prepare_def hp_ready_def Let_def)
  have f: "hp_response d1 = Some HttpResponse" "hp_status d1 = rFirstLine" "hp_buf_length d1 = 0" "hp_line_start d1 = 0" "hp_parse_pos d1 = 0" "hp_body d1 = hp_body d"
    using d by (auto simp: d1_def hp_prepare_def hp_ready_def Let_def)
  let ?d2 = "d1\<lparr>hp_buf := Some (overwrite b 0 c)\<rparr>"
  have get: "hp_GetBuffer junk d = Some (0, Some (0, length b), d1)" using f(2,3) b(2) by (simp add: hp_GetBuffer_def Let_def d1_def)
  have recv: "hp_recv 0 c d1 = Some ?d2" using f(2) b c(2) by (simp add: hp_recv_def recv_into_def)
  have at: "hp_at HttpResponse 0 (c @ drop (length c) b) (?d2\<lparr>hp_buf_length := length c\<rparr>)" using f b c(2) by (simp add: hp_at_def overwrite_def)
  have "HttpResp_read junk c d = map_option (\<lambda>(ret, d3, msgs). (msgs, if ret < 0 then Inl (-1) else Inr d3)) (hp_Feed ?d2 (length c))"
    using get Channel_read_fits [where get = "\<lambda>_. (0, Some (0, length b), d1)" and recv = hp_recv and feed = hp_Feed and d = d, OF refl c(1) _ recv] b(3) c(2)
    by (simp add: HttpResp_read_def)
  also have "\<dots> = hp_after (hp_ParseFirstLine (?d2\<lparr>hp_buf_length := length c\<rparr>))"
    using f(2,3) by (auto simp: hp_Feed_def hp_after_def Let_def split: option.splits prod.splits)
  finally show ?thesis using at f(6) b by (intro exI [of _ "?d2\<lparr>hp_buf_length := length c\<rparr>"] exI [of _ "drop (length c) b"]) simp
qed

lemma hp_ParseHeader_blank:
  assumes "hp_at r p (CR # LF # t) d" and "p + 2 \<le> hp_buf_length d"
  shows "\<exists>b. hp_buf d = Some b \<and> drop p b = CR # LF # t \<and> hp_ParseHeader d = hp_end_header b r (d\<lparr>hp_line_end := int p, hp_parse_pos := p + 2, hp_line_start := p + 2\<rparr>)"
proof -
  obtain b where b: "hp_buf d = Some b" "drop p b = CR # LF # t" using assms(1) by (auto simp: hp_at_def)
  then have "search_eol b (hp_buf_length d) p = (True, p)" using search_eol_line [of p b "[]" t] assms(2) by simp
  then show ?thesis using assms(1) b by (subst hp_ParseHeader.simps) (simp add: hp_at_def)
qed

text \<open>While the body is read.\<close>

definition hp_in_body :: "http_response \<Rightarrow> string \<Rightarrow> nat \<Rightarrow> http_resp_decoder \<Rightarrow> bool" where
  "hp_in_body r x n d \<longleftrightarrow> hp_response d = Some r \<and> hp_status d = rBody \<and> hp_body d = Some x \<and> hp_body_length d = n \<and> length x \<le> n \<and>
     (\<exists>b. hp_buf d = Some b \<and> length b = hp_buf_capacity d \<and> 4096 \<le> length b)"

lemma hp_after_body:
  assumes "hp_in_body r x n d" and "0 < n"
  shows "if length x = n then \<exists>d'. hp_after (Some (hp_ReadBody d, d)) = Some ([r\<lparr>rs_content := x\<rparr>], Inr d') \<and> hp_ready d'
    else hp_after (Some (hp_ReadBody d, d)) = Some ([], Inr d)"
  using assms by (auto simp: hp_in_body_def hp_ReadBody_def hp_body_read_def hp_after_def Let_def hp_ready_def hp_Reset_def)

lemma resp_run_body:
  assumes "hp_in_body r x n d" and "\<forall>c \<in> set cs. c \<noteq> []" and "length x < n" and "length x + length (concat cs) = n"
  shows "\<exists>d'. resp_run junk cs d = Some ([r\<lparr>rs_content := x @ concat cs\<rparr>], Inr d') \<and> hp_ready d'"
  using assms
proof (induction cs arbitrary: d x)
  case (Cons c cs)
  let ?d = "d\<lparr>hp_body := Some (x @ c)\<rparr>"
  have c: "c \<noteq> []" "length c \<le> n - length x" using Cons.prems by auto
  have prep: "hp_prepare junk d = d" using Cons.prems(1) by (auto simp: hp_in_body_def hp_prepare_def Let_def)
  have get: "hp_GetBuffer junk d = Some (0, Some (length x, n - length x), d)"
    using Cons.prems(1) prep by (auto simp: hp_GetBuffer_def hp_in_body_def hp_body_read_def)
  have recv: "hp_recv (length x) c d = Some ?d" using Cons.prems(1,3) c(2) by (auto simp: hp_recv_def hp_in_body_def)
  have in_b: "hp_in_body r (x @ c) n ?d" using Cons.prems(1,3) c(2) by (auto simp: hp_in_body_def)
  have "HttpResp_read junk c d = map_option (\<lambda>(ret, d3, msgs). (msgs, if ret < 0 then Inl (-1) else Inr d3)) (hp_Feed ?d (length c))"
    using get Channel_read_fits [where get = "\<lambda>_. (0, Some (length x, n - length x), d)" and recv = hp_recv and feed = hp_Feed and d = d, OF refl c recv]
    by (simp add: HttpResp_read_def)
  also have "\<dots> = hp_after (Some (hp_ReadBody ?d, ?d))"
    using in_b by (auto simp: hp_Feed_def hp_after_def Let_def hp_in_body_def split: option.splits prod.splits)
  finally have read: "HttpResp_read junk c d = hp_after (Some (hp_ReadBody ?d, ?d))" .
  show ?case
  proof (cases "length (x @ c) = n")
    case True
    then have "length (concat cs) = 0" using Cons.prems(4) unfolding concat.simps length_append by linarith
    then have "cs = []" using Cons.prems(2) by (cases cs) auto
    then show ?thesis using hp_after_body [OF in_b] True read Cons.prems(3) by auto
  next
    case False
    then have "length (x @ c) < n" using c(2) Cons.prems(3) by simp
    from Cons.IH [OF in_b _ this] Cons.prems(2,4) obtain d' where
      d': "resp_run junk cs ?d = Some ([r\<lparr>rs_content := (x @ c) @ concat cs\<rparr>], Inr d')" "hp_ready d'" by auto
    then show ?thesis using hp_after_body [OF in_b] False read Cons.prems(3) by auto
  qed
qed simp

lemma fold_set_header: "rs_headers (fold set_header hs r) n = (case map_of (rev hs) n of None \<Rightarrow> rs_headers r n | Some v \<Rightarrow> Some v)"
  by (induction hs arbitrary: r) (auto simp: set_header_def map_add_def split: option.splits)

definition response_head :: "(string \<times> string) list \<Rightarrow> http_response \<Rightarrow> string" where
  "response_head hs r = resp_first_line r @ header_text hs @ content_header (rs_content r) @ [CR, LF]"

text \<open>The headers as the decoder sees them.\<close>

definition sent_headers :: "(string \<times> string) list \<Rightarrow> http_response \<Rightarrow> (string \<times> string) list" where
  "sent_headers hs r = hs @ (if rs_content r = [] then [] else [(''Content-Length'', decimal (length (rs_content r)))])"

lemma response_head_headers: "response_head hs r = resp_first_line r @ header_text (sent_headers hs r) @ [CR, LF]"
  by (simp add: response_head_def sent_headers_def content_header_def header_text_def)

lemma sent_headers_ok: "\<forall>h \<in> set hs. resp_header_ok h \<Longrightarrow> \<forall>h \<in> set (sent_headers hs r). resp_header_ok h"
proof -
  have "is_digit c \<Longrightarrow> c \<noteq> CR \<and> c \<noteq> NUL" for c by (auto simp: is_digit_def CR_def NUL_def)
  then have "plain_text (decimal n)" for n using decimal_digits [of n] by (auto simp: plain_text_def)
  moreover have "plain_text ''Content-Length''" by (simp add: plain_text_def CR_def NUL_def)
  ultimately show "\<forall>h \<in> set hs. resp_header_ok h \<Longrightarrow> \<forall>h \<in> set (sent_headers hs r). resp_header_ok h"
    by (auto simp: sent_headers_def resp_header_ok_def)
qed

text \<open>The header of a printed response, up to the blank line.\<close>

lemma HttpResp_read_head:
  assumes d: "hp_ready d" and junk: "\<And>n. length (junk n) = n" and r: "rs_version_minor r \<in> {0, 1}" "rs_code r \<in> {200, 404}"
    and hs: "\<forall>h \<in> set hs. resp_header_ok h" and c: "c = response_head hs r @ x" "length c \<le> 4096"
  shows "\<exists>d' b t. hp_buf d' = Some b \<and> length b = hp_buf_capacity d' \<and> 4096 \<le> length b \<and> drop (hp_parse_pos d') b = x @ t \<and>
    hp_parse_pos d' + length x = hp_buf_length d' \<and> hp_line_start d' = hp_parse_pos d' \<and> hp_body d' = hp_body d \<and>
    (let q = fold set_header (sent_headers hs r) (HttpResponse\<lparr>rs_version_minor := rs_version_minor r, rs_code := rs_code r\<rparr>) in
     hp_response d' = Some q \<and> HttpResp_read junk c d = hp_after (hp_end_header b q d'))"
proof -
  let ?q0 = "HttpResponse\<lparr>rs_version_minor := rs_version_minor r, rs_code := rs_code r\<rparr>" and ?hs = "sent_headers hs r"
  have c': "c = resp_first_line r @ header_text ?hs @ CR # LF # x" using c(1) response_head_headers by simp
  obtain d1 t where d1: "hp_at HttpResponse 0 (c @ t) d1" "hp_buf_length d1 = length c" "4096 \<le> hp_buf_capacity d1" "hp_body d1 = hp_body d"
    "HttpResp_read junk c d = hp_after (hp_ParseFirstLine d1)"
    using HttpResp_read_first [OF d junk, of c] c' c(2) by (auto simp: resp_first_line_def)
  have ct: "c @ t = resp_first_line r @ header_text ?hs @ CR # LF # x @ t" using c' by simp
  obtain d2 where d2: "hp_ParseFirstLine d1 = hp_ParseHeader d2" "hp_at ?q0 (length (resp_first_line r)) (header_text ?hs @ CR # LF # x @ t) d2"
    "hp_buf_length d2 = length c" "hp_buf_capacity d2 = hp_buf_capacity d1" "hp_body d2 = hp_body d"
    using hp_ParseFirstLine_response [OF d1(1) [unfolded ct] _ r] d1(2,4) c' by auto
  obtain d3 where d3: "hp_ParseHeader d2 = hp_ParseHeader d3" "hp_at (fold set_header ?hs ?q0) (length (resp_first_line r) + length (header_text ?hs)) (CR # LF # x @ t) d3"
    "hp_buf_length d3 = length c" "hp_buf_capacity d3 = hp_buf_capacity d1" "hp_body d3 = hp_body d"
    using hp_ParseHeader_lines [OF d2(2) _ sent_headers_ok [OF hs]] d2(3,4,5) c' by auto
  let ?p = "length (resp_first_line r) + length (header_text ?hs)"
  obtain b where b: "hp_buf d3 = Some b" "drop ?p b = CR # LF # x @ t"
    "hp_ParseHeader d3 = hp_end_header b (fold set_header ?hs ?q0) (d3\<lparr>hp_line_end := int ?p, hp_parse_pos := ?p + 2, hp_line_start := ?p + 2\<rparr>)"
    using hp_ParseHeader_blank [OF d3(2)] d3(3) c' by auto
  have cap: "length b = hp_buf_capacity d3" "hp_response d3 = Some (fold set_header ?hs ?q0)" using d3(2) b(1) by (auto simp: hp_at_def)
  have dr: "drop (?p + 2) b = x @ t" using drop_after [of ?p b "[CR, LF]" "x @ t"] b(2) by simp
  have len: "?p + 2 + length x = length c" by (simp add: c')
  show ?thesis
    by (rule exI [of _ "d3\<lparr>hp_line_end := int ?p, hp_parse_pos := ?p + 2, hp_line_start := ?p + 2\<rparr>"], rule exI [of _ b], rule exI [of _ t])
      (use b(1) cap dr len d3(3,4,5) d1(3,5) d2(1) d3(1) b(3) in \<open>simp add: Let_def\<close>)
qed

text \<open>
  C14. HTTP: a response with content (and a length of less than 2 GB, code 200 or 404, not chunked) that
  \<open>CreateOutMsg\<close> has printed is decoded to the same version, code and content, and to its headers
  with Content-Length added, whatever the pieces of its content, if the first piece holds the whole
  header and is at most 4096 bytes long. For a printed response without content the decoder is
  undefined, see \<open>HttpResponse_without_content\<close>.
\<close>

theorem HttpResponse_roundtrip:
  assumes d: "hp_ready d" and junk: "\<And>n. length (junk n) = n" and r: "rs_version_minor r \<in> {0, 1}" "rs_code r \<in> {200, 404}"
    and hs: "\<forall>h \<in> set hs. resp_header_ok h" "(''Transfer-Encoding'', ''chunked'') \<notin> set hs"
    and content: "rs_content r \<noteq> []" "length (rs_content r) < 2 ^ 31"
    and c: "CreateOutMsg hs r = Some (c @ concat cs)" "length (response_head hs r) \<le> length c" "length c \<le> 4096" "\<forall>c \<in> set cs. c \<noteq> []"
  shows "\<exists>d' q. resp_run junk (c # cs) d = Some ([q], Inr d') \<and> hp_ready d' \<and> rs_version_minor q = rs_version_minor r \<and> rs_code q = rs_code r \<and>
    rs_content q = rs_content r \<and> rs_headers q = (map_of (rev hs))(''Content-Length'' \<mapsto> decimal (length (rs_content r)))"
proof -
  let ?n = "length (rs_content r)" and ?q = "fold set_header (sent_headers hs r) (HttpResponse\<lparr>rs_version_minor := rs_version_minor r, rs_code := rs_code r\<rparr>)"
  have "length (resp_first_line r) < 32" using length_resp_first_line [OF r(1)] r(2) by (auto simp: GetCodeStr_def)
  from CreateOutMsg_text [OF this content(2), of hs] c(1) have all: "c @ concat cs = response_head hs r @ rs_content r" by (simp add: response_head_def)
  then obtain x where x: "c = response_head hs r @ x" "rs_content r = x @ concat cs"
    using c(2) by (metis append_eq_append_conv_if append_take_drop_id)
  obtain d' b t where d': "hp_buf d' = Some b" "length b = hp_buf_capacity d'" "4096 \<le> length b" "drop (hp_parse_pos d') b = x @ t"
    "hp_parse_pos d' + length x = hp_buf_length d'" "hp_body d' = hp_body d" "hp_response d' = Some ?q" "HttpResp_read junk c d = hp_after (hp_end_header b ?q d')"
    using HttpResp_read_head [OF d junk r hs(1) x(1) c(3)] by (auto simp: Let_def)
  have hdr: "rs_headers ?q = (map_of (rev hs))(''Content-Length'' \<mapsto> decimal ?n)"
    using content(1) by (auto simp: fun_eq_iff set_header_def fold_set_header sent_headers_def HttpResponse_def split: option.splits)
  then have te: "rs_headers ?q ''Transfer-Encoding'' \<noteq> Some ''chunked''"
    using hs(2) by (auto dest!: map_of_SomeD)
  have n: "atoi (decimal ?n) = Some (int ?n)" using atoi_decimal [of ?n "[]"] content(2) by simp
  have left: "cells b (hp_parse_pos d') (hp_buf_length d') = x" using d'(4,5) by (simp flip: d'(5))
  have n0: "0 < ?n" and le: "length x \<le> ?n" using content(1) x(2) by simp_all
  let ?d = "d'\<lparr>hp_body := Some x, hp_body_length := ?n, hp_status := rBody\<rparr>"
  have "hp_end_header b ?q d' = Some (hp_ReadBody ?d, ?d)"
    using te hdr n left le n0 by (simp add: hp_end_header_def Let_def del: length_greater_0_conv)
  then have read: "HttpResp_read junk c d = hp_after (Some (hp_ReadBody ?d, ?d))" using d'(8) by simp
  have in_b: "hp_in_body ?q x ?n ?d" using d' x(2) by (simp add: hp_in_body_def)
  have "\<exists>d''. resp_run junk (c # cs) d = Some ([?q\<lparr>rs_content := rs_content r\<rparr>], Inr d'') \<and> hp_ready d''"
  proof (cases "length x = ?n")
    case True
    then have "length (concat cs) = 0" using arg_cong [OF x(2), of length] unfolding length_append by linarith
    then have cs: "cs = []" using c(4) by (cases cs) auto
    obtain d'' where d'': "hp_after (Some (hp_ReadBody ?d, ?d)) = Some ([?q\<lparr>rs_content := x\<rparr>], Inr d'')" "hp_ready d''"
      using hp_after_body [OF in_b n0] unfolding if_P [OF True] by blast
    moreover have "x = rs_content r" using x(2) cs by simp
    ultimately show ?thesis unfolding cs by (simp add: read)
  next
    case False
    then have lt: "length x < ?n" "length x + length (concat cs) = ?n" using arg_cong [OF x(2), of length] unfolding length_append by linarith+
    from resp_run_body [OF in_b c(4) lt] obtain d'' where "resp_run junk cs ?d = Some ([?q\<lparr>rs_content := x @ concat cs\<rparr>], Inr d'')" "hp_ready d''" by blast
    moreover have "hp_after (Some (hp_ReadBody ?d, ?d)) = Some ([], Inr ?d)" using hp_after_body [OF in_b n0] unfolding if_not_P [OF False] .
    ultimately show ?thesis by (simp add: read x(2))
  qed
  moreover have "rs_version_minor (fold set_header hs q) = rs_version_minor q" "rs_code (fold set_header hs q) = rs_code q" for hs q
    by (induction hs arbitrary: q) (simp_all add: set_header_def)
  ultimately show ?thesis using hdr by auto
qed

lemma HttpRespDecoder_ready: "hp_ready HttpRespDecoder"
  by (simp add: hp_ready_def HttpRespDecoder_def)

theorem HttpResponse_roundtrip_witness:
  "\<exists>c d' q. CreateOutMsg [(''A'', ''b'')] (HttpResponse\<lparr>rs_content := ''hello''\<rparr>) = Some (c @ ''l'' @ ''lo'') \<and>
     resp_run (\<lambda>n. replicate n NUL) [c, ''l'', ''lo''] HttpRespDecoder = Some ([q], Inr d') \<and> rs_code q = 200 \<and> rs_content q = ''hello'' \<and> rs_headers q ''A'' = Some ''b''"
proof -
  let ?r = "HttpResponse\<lparr>rs_content := ''hello''\<rparr>" and ?hs = "[(''A'', ''b'')]"
  let ?c = "response_head ?hs ?r @ ''he''"
  have r: "rs_version_minor ?r \<in> {0, 1}" "rs_code ?r \<in> {200, 404}" by (simp_all add: HttpResponse_def)
  have len: "length (resp_first_line ?r) < 32" using length_resp_first_line [OF r(1)] by (simp add: HttpResponse_def GetCodeStr_def)
  have c: "CreateOutMsg ?hs ?r = Some (?c @ concat [''l'', ''lo''])" using CreateOutMsg_text [OF len, of ?hs] by (simp add: response_head_def)
  have "length (decimal (Suc (Suc (Suc (Suc (Suc 0)))))) \<le> 1" by (rule length_decimal) simp_all
  then have le: "length ?c \<le> 4096" using len by (simp add: response_head_def content_header_def header_text_def)
  have hs: "\<forall>h \<in> set ?hs. resp_header_ok h" by (simp add: resp_header_ok_def plain_text_def CR_def NUL_def)
  have "\<exists>d' q. resp_run (\<lambda>n. replicate n NUL) (?c # [''l'', ''lo'']) HttpRespDecoder = Some ([q], Inr d') \<and> hp_ready d' \<and>
      rs_version_minor q = rs_version_minor ?r \<and> rs_code q = rs_code ?r \<and> rs_content q = rs_content ?r \<and>
      rs_headers q = (map_of (rev ?hs))(''Content-Length'' \<mapsto> decimal (length (rs_content ?r)))"
    by (rule HttpResponse_roundtrip [OF HttpRespDecoder_ready _ r hs _ _ _ c _ le]) simp_all
  then show ?thesis using c by (intro exI [of _ ?c]) (auto simp: HttpResponse_def)
qed

text \<open>
  HTTP: a printed response without content has no length, and the decoder follows a null pointer
  at the end of its header.
\<close>

theorem HttpResponse_without_content:
  assumes d: "hp_ready d" and junk: "\<And>n. length (junk n) = n" and r: "rs_version_minor r \<in> {0, 1}" "rs_code r \<in> {200, 404}" "rs_content r = []"
    and hs: "\<forall>h \<in> set hs. resp_header_ok h" "''Content-Length'' \<notin> fst ` set hs" "''Transfer-Encoding'' \<notin> fst ` set hs"
    and len: "length (response_head hs r) \<le> 4096"
  shows "CreateOutMsg hs r = Some (response_head hs r) \<and> HttpResp_read junk (response_head hs r) d = None"
proof -
  let ?q = "fold set_header (sent_headers hs r) (HttpResponse\<lparr>rs_version_minor := rs_version_minor r, rs_code := rs_code r\<rparr>)"
  have "length (resp_first_line r) < 32" using length_resp_first_line [OF r(1)] r(2) by (auto simp: GetCodeStr_def)
  from CreateOutMsg_text [OF this, of hs] have "CreateOutMsg hs r = Some (response_head hs r)" using r(3) by (simp add: response_head_def)
  moreover obtain d' b where "HttpResp_read junk (response_head hs r) d = hp_after (hp_end_header b ?q d')"
    using HttpResp_read_head [OF d junk r(1,2) hs(1), of "response_head hs r" "[]"] len by (auto simp: Let_def)
  moreover have "rs_headers ?q ''Content-Length'' = None" "rs_headers ?q ''Transfer-Encoding'' = None"
    using hs(2,3) r(3) by (auto simp: fold_set_header sent_headers_def HttpResponse_def map_of_eq_None_iff split: option.splits dest!: map_of_SomeD)
  ultimately show ?thesis by (simp add: hp_end_header_def hp_after_def)
qed

theorem HttpResponse_without_content_witness:
  "HttpResp_read (\<lambda>n. replicate n NUL) (response_head [] HttpResponse) HttpRespDecoder = None"
proof -
  have r: "rs_version_minor HttpResponse \<in> {0, 1}" "rs_code HttpResponse \<in> {200, 404}" "rs_content HttpResponse = []" by (simp_all add: HttpResponse_def)
  have "length (response_head [] HttpResponse) \<le> 4096"
    using length_resp_first_line [OF r(1)] by (simp add: response_head_def HttpResponse_def GetCodeStr_def header_text_def content_header_def)
  then show ?thesis using HttpResponse_without_content [OF HttpRespDecoder_ready _ r, of "\<lambda>n. replicate n NUL" "[]"] by simp
qed

subsection \<open>Responses in chunks\<close>

definition chunk_text :: "string list \<Rightarrow> string" where
  "chunk_text xs = concat (map (\<lambda>x. hexadecimal (length x) @ CR # LF # x @ [CR, LF]) xs) @ ''0'' @ [CR, LF, CR, LF]"

lemma chunk_text_Cons: "chunk_text (x # xs) = hexadecimal (length x) @ CR # LF # x @ CR # LF # chunk_text xs"
  by (simp add: chunk_text_def)

lemma hex_no_CR: "CR \<notin> set (hexadecimal n)"
proof -
  have "hex_digit_value CR = None" by (simp add: hex_digit_value_def CR_def)
  then show ?thesis using hexadecimal_digits [of n] by auto
qed

definition body_so_far :: "http_resp_decoder \<Rightarrow> string" where
  "body_so_far d = (case hp_body d of None \<Rightarrow> [] | Some b \<Rightarrow> b)"

lemma AppendBody_body: "hp_body (AppendBody s d) = Some (body_so_far d @ s)"
  by (simp add: AppendBody_def body_so_far_def split: option.splits)

lemma sint_small: "n < 2 ^ 31 \<Longrightarrow> sint (word_of_int (int n) :: u32) = int n"
  by (rule int_of_int32) simp_all

text \<open>One line with a size.\<close>

lemma ReadChunkSize_line:
  assumes b: "hp_buf d = Some b" "drop (hp_parse_pos d) b = hexadecimal n @ CR # LF # t" "hp_line_start d = hp_parse_pos d"
    and n: "n < 2 ^ 31" "hp_parse_pos d + length (hexadecimal n) + 2 \<le> hp_buf_length d"
  shows "ReadChunkSize d =
    (case chunk_data (d\<lparr>hp_line_end := int (hp_parse_pos d + length (hexadecimal n)), hp_parse_pos := hp_parse_pos d + length (hexadecimal n) + 2,
        hp_chunk_size := int n, hp_chunk_left := int n, hp_status := rChunkData\<rparr>) of
       None \<Rightarrow> None | Some (Inl res) \<Rightarrow> Some res | Some (Inr d') \<Rightarrow> ReadChunkSize d')"
proof -
  have "strtol16 (hexadecimal n @ CR # LF # t) = int n"
    using strtol16_hexadecimal [of n CR "LF # t"] n(1) by (simp add: hex_digit_value_def CR_def)
  then have "sint (word_of_int (strtol16 (drop (hp_line_start d) b)) :: u32) = int n" using b(2,3) sint_small n(1) by simp
  moreover have "search_eol b (hp_buf_length d) (hp_parse_pos d) = (True, hp_parse_pos d + length (hexadecimal n))"
    by (rule search_eol_line [OF b(2) hex_no_CR n(2)])
  ultimately show ?thesis using b(1) by (subst ReadChunkSize.simps) (simp add: Let_def)
qed

lemma ReadChunkSize_chunks:
  assumes "hp_buf d = Some b" and "drop (hp_parse_pos d) b = chunk_text xs @ t" and "hp_line_start d = hp_parse_pos d"
    and "hp_parse_pos d + length (chunk_text xs) = hp_buf_length d" and "\<forall>x \<in> set xs. x \<noteq> [] \<and> length x < 2 ^ 31"
  shows "\<exists>d'. ReadChunkSize d = Some (1, d') \<and> hp_body d' = Some (body_so_far d @ concat xs) \<and> hp_response d' = hp_response d \<and>
    hp_buf d' = Some b \<and> hp_buf_capacity d' = hp_buf_capacity d"
  using assms
proof (induction xs arbitrary: d)
  case Nil
  have 0: "hexadecimal 0 = ''0''" by (subst hexadecimal.simps) (simp add: char_of_def bit_0)
  have "drop (hp_parse_pos d) b = hexadecimal 0 @ CR # LF # CR # LF # t" using Nil.prems(2) by (simp add: chunk_text_def 0)
  from ReadChunkSize_line [OF Nil.prems(1) this Nil.prems(3)] Nil.prems(4)
  have "ReadChunkSize d = (case chunk_data (d\<lparr>hp_line_end := int (hp_parse_pos d + 1), hp_parse_pos := hp_parse_pos d + 3,
        hp_chunk_size := 0, hp_chunk_left := 0, hp_status := rChunkData\<rparr>) of
       None \<Rightarrow> None | Some (Inl res) \<Rightarrow> Some res | Some (Inr d') \<Rightarrow> ReadChunkSize d')" by (simp add: 0 chunk_text_def numeral_3_eq_3)
  moreover have "chunk_data (d\<lparr>hp_line_end := int (hp_parse_pos d + 1), hp_parse_pos := hp_parse_pos d + 3,
        hp_chunk_size := 0, hp_chunk_left := 0, hp_status := rChunkData\<rparr>) =
      Some (Inl (1, (AppendBody [] (d\<lparr>hp_line_end := int (hp_parse_pos d + 1), hp_parse_pos := hp_parse_pos d + 3,
        hp_chunk_size := 0, hp_chunk_left := 0, hp_status := rChunkData\<rparr>))\<lparr>hp_parse_pos := hp_parse_pos d + 3, hp_chunk_left := 0, hp_status := rChunkTrailer\<rparr>))"
  proof -
    have "hp_buf_length d = hp_parse_pos d + 5" using Nil.prems(4) by (simp add: chunk_text_def)
    then show ?thesis using Nil.prems(1) by (simp add: chunk_data_def ReadChunkTrailer_def Let_def)
  qed
  ultimately show ?case using Nil.prems(1) by (simp add: AppendBody_body body_so_far_def)
next
  case (Cons x xs)
  let ?h = "hexadecimal (length x)" and ?p = "hp_parse_pos d" and ?n = "length x"
  have x: "x \<noteq> []" "?n < 2 ^ 31" using Cons.prems(5) by auto
  have dr: "drop ?p b = ?h @ CR # LF # x @ CR # LF # chunk_text xs @ t" using Cons.prems(2) chunk_text_Cons by simp
  have len: "?p + length ?h + 2 + ?n + 2 + length (chunk_text xs) = hp_buf_length d" using Cons.prems(4) chunk_text_Cons by simp
  let ?d1 = "d\<lparr>hp_line_end := int (?p + length ?h), hp_parse_pos := ?p + length ?h + 2, hp_chunk_size := int ?n, hp_chunk_left := int ?n, hp_status := rChunkData\<rparr>"
  have d1: "drop (?p + length ?h + 2) b = x @ CR # LF # chunk_text xs @ t" using drop_after [of ?p b "?h @ [CR, LF]" "x @ CR # LF # chunk_text xs @ t"] dr by simp
  have d2: "drop (?p + length ?h + 2 + ?n + 2) b = chunk_text xs @ t" using d1 drop_after [of "?p + length ?h + 2" b "x @ [CR, LF]" "chunk_text xs @ t"] by simp
  let ?d2 = "(AppendBody x ?d1)\<lparr>hp_parse_pos := ?p + length ?h + 2 + ?n + 2, hp_chunk_left := 0, hp_status := rChunkSize, hp_line_start := ?p + length ?h + 2 + ?n + 2\<rparr>"
  have "chunk_data ?d1 = Some (Inr ?d2)"
    using Cons.prems(1) d1 len [symmetric] x(1) by (simp add: chunk_data_def ReadChunkTrailer_def Let_def)
  with ReadChunkSize_line [OF Cons.prems(1) dr Cons.prems(3) x(2)] len have step: "ReadChunkSize d = ReadChunkSize ?d2" by simp
  have "\<exists>d'. ReadChunkSize ?d2 = Some (1, d') \<and> hp_body d' = Some (body_so_far ?d2 @ concat xs) \<and> hp_response d' = hp_response ?d2 \<and>
      hp_buf d' = Some b \<and> hp_buf_capacity d' = hp_buf_capacity ?d2"
    by (rule Cons.IH) (use Cons.prems(1,5) d2 len in simp_all)
  moreover have "body_so_far ?d2 = body_so_far d @ x" by (simp add: body_so_far_def AppendBody_body)
  ultimately show ?case using step by simp
qed

text \<open>
  HTTP: a response in chunks that arrives in one piece is decoded to the concatenation of its
  chunks.
\<close>

theorem HttpResponse_chunked:
  assumes d: "hp_ready d" and junk: "\<And>n. length (junk n) = n" and r: "rs_version_minor r \<in> {0, 1}" "rs_code r \<in> {200, 404}" "rs_content r = []"
    and hs: "\<forall>h \<in> set hs. resp_header_ok h" "map_of (rev hs) ''Transfer-Encoding'' = Some ''chunked''"
    and len: "length (response_head hs r @ chunk_text xs) \<le> 4096" and xs: "\<forall>x \<in> set xs. x \<noteq> []"
  shows "\<exists>d' q. HttpResp_read junk (response_head hs r @ chunk_text xs) d = Some ([q], Inr d') \<and> hp_ready d' \<and>
    rs_code q = rs_code r \<and> rs_content q = concat xs \<and> rs_headers q = map_of (rev hs)"
proof -
  let ?q = "fold set_header (sent_headers hs r) (HttpResponse\<lparr>rs_version_minor := rs_version_minor r, rs_code := rs_code r\<rparr>)"
  let ?c = "response_head hs r @ chunk_text xs"
  obtain d' b t where d': "hp_buf d' = Some b" "length b = hp_buf_capacity d'" "4096 \<le> length b" "drop (hp_parse_pos d') b = chunk_text xs @ t"
    "hp_parse_pos d' + length (chunk_text xs) = hp_buf_length d'" "hp_line_start d' = hp_parse_pos d'" "hp_body d' = hp_body d" "hp_response d' = Some ?q"
    "HttpResp_read junk ?c d = hp_after (hp_end_header b ?q d')"
    using HttpResp_read_head [OF d junk r(1,2) hs(1) refl len] by (auto simp: Let_def)
  have hdr: "rs_headers ?q = map_of (rev hs)"
    using r(3) by (auto simp: fun_eq_iff fold_set_header sent_headers_def HttpResponse_def split: option.splits)
  have "length x \<le> length (chunk_text xs)" if "x \<in> set xs" for x
    using that by (induction xs) (auto simp: chunk_text_def)
  then have small: "\<forall>x \<in> set xs. x \<noteq> [] \<and> length x < 2 ^ 31" using xs len by fastforce
  let ?d = "d'\<lparr>hp_status := rChunkSize\<rparr>"
  have "body_so_far ?d = []" using d d'(7) by (auto simp: body_so_far_def hp_ready_def)
  then obtain e where e: "ReadChunkSize ?d = Some (1, e)" "hp_body e = Some (concat xs)" "hp_response e = Some ?q" "hp_buf e = Some b" "hp_buf_capacity e = hp_buf_capacity d'"
    using ReadChunkSize_chunks [of ?d b xs t] d' small by auto
  have end_h: "hp_end_header b ?q d' = Some (1, e)" using hdr hs(2) e(1) by (simp add: hp_end_header_def)
  have q: "rs_code ?q = rs_code r" "rs_content ?q = []"
  proof -
    have "rs_code (fold set_header hs q) = rs_code q \<and> rs_content (fold set_header hs q) = rs_content q" for hs q
      by (induction hs arbitrary: q) (simp_all add: set_header_def)
    then show "rs_code ?q = rs_code r" "rs_content ?q = []" by (simp_all add: HttpResponse_def)
  qed
  have rest: "hp_ready (hp_Reset (e\<lparr>hp_body := x, hp_response := None\<rparr>))" "hp_ready (hp_Reset (e\<lparr>hp_response := None\<rparr>))" for x
    using e(2,4,5) d'(2,3) by (auto simp: hp_ready_def hp_Reset_def)
  show ?thesis
  proof (cases "concat xs = []")
    case True
    then show ?thesis using d'(9) end_h e(2,3) rest(2) hdr q by (simp add: hp_after_def hp_body_read_def Let_def)
  next
    case False
    then show ?thesis using d'(9) end_h e(2,3) rest(1) [of None] hdr q by (simp add: hp_after_def hp_body_read_def Let_def del: concat_eq_Nil_conv)
  qed
qed

theorem HttpResponse_chunked_witness:
  "\<exists>d' q. HttpResp_read (\<lambda>n. replicate n NUL) (response_head [(''Transfer-Encoding'', ''chunked'')] HttpResponse @ chunk_text [''ab'', ''c'']) HttpRespDecoder =
     Some ([q], Inr d') \<and> rs_content q = ''abc''"
proof -
  let ?hs = "[(''Transfer-Encoding'', ''chunked'')]"
  have r: "rs_version_minor HttpResponse \<in> {0, 1}" "rs_code HttpResponse \<in> {200, 404}" "rs_content HttpResponse = []" by (simp_all add: HttpResponse_def)
  have h: "hexadecimal 1 = [char_of (49 :: nat)]" "hexadecimal 2 = [char_of (50 :: nat)]" by (subst hexadecimal.simps, simp)+
  have len: "length (response_head ?hs HttpResponse @ chunk_text [''ab'', ''c'']) \<le> 4096"
    using length_resp_first_line [OF r(1)] h
    by (simp add: response_head_def HttpResponse_def GetCodeStr_def header_text_def content_header_def chunk_text_def numeral_2_eq_2)
  have hs: "\<forall>h \<in> set ?hs. resp_header_ok h" "map_of (rev ?hs) ''Transfer-Encoding'' = Some ''chunked''"
    by (simp_all add: resp_header_ok_def plain_text_def CR_def NUL_def)
  have "\<exists>d' q. HttpResp_read (\<lambda>n. replicate n NUL) (response_head ?hs HttpResponse @ chunk_text [''ab'', ''c'']) HttpRespDecoder = Some ([q], Inr d') \<and> hp_ready d' \<and>
      rs_code q = rs_code HttpResponse \<and> rs_content q = concat [''ab'', ''c''] \<and> rs_headers q = map_of (rev ?hs)"
    by (rule HttpResponse_chunked [OF HttpRespDecoder_ready _ r hs len]) simp_all
  then show ?thesis by auto
qed

subsection \<open>The server\<close>

record 'h http_server =
  hs_handlers :: "string \<rightharpoonup> 'h"
  hs_default_handler :: "'h option"

definition RegisterHandler :: "string \<Rightarrow> 'h \<Rightarrow> 'h http_server \<Rightarrow> int \<times> 'h http_server" where
  "RegisterHandler p h s = (if hs_handlers s p \<noteq> None then (1, s) else (0, s\<lparr>hs_handlers := (hs_handlers s)(p \<mapsto> h)\<rparr>))"

definition UnregisterHandler :: "string \<Rightarrow> 'h http_server \<Rightarrow> 'h http_server" where
  "UnregisterHandler p s = s\<lparr>hs_handlers := (hs_handlers s)(p := None)\<rparr>"

definition GetHandler :: "string \<Rightarrow> 'h http_server \<Rightarrow> 'h option" where
  "GetHandler p s = hs_handlers s p"

text \<open>The server calls a handler or sends a text.\<close>

datatype 'h reaction = Calls 'h http_request | Sends string

definition SendErrorResp :: "int \<Rightarrow> string \<Rightarrow> 'h reaction cxx" where
  "SendErrorResp code str = map_option Sends (CreateOutMsg [] (HttpResponse\<lparr>rs_code := code, rs_content := str\<rparr>))"

definition http_OnMsgArrived :: "'h http_server \<Rightarrow> http_request \<Rightarrow> 'h reaction cxx" where
  "http_OnMsgArrived s req =
     (case GetHandler (rq_path req) s of
        Some h \<Rightarrow> Some (Calls h req)
      | None \<Rightarrow> (case hs_default_handler s of
          Some h \<Rightarrow> Some (Calls h req)
        | None \<Rightarrow> map_option Sends (CreateOutMsg [] (HttpResponse\<lparr>rs_code := 404, rs_content := ''Wrong Uri!!'', rs_version_minor := rq_version_minor req\<rparr>))))"

lemma http_OnMsgArrived_registered:
  "hs_handlers s p = None \<Longrightarrow> rq_path req = p \<Longrightarrow> http_OnMsgArrived (snd (RegisterHandler p h s)) req = Some (Calls h req)"
  by (simp add: http_OnMsgArrived_def RegisterHandler_def GetHandler_def)

lemma http_OnMsgArrived_unknown:
  assumes "hs_handlers s (rq_path req) = None" "hs_default_handler s = None" and "rq_version_minor req \<in> {0, 1}"
  shows "http_OnMsgArrived s req = Some (Sends (response_head [] (HttpResponse\<lparr>rs_code := 404, rs_content := ''Wrong Uri!!'', rs_version_minor := rq_version_minor req\<rparr>) @ ''Wrong Uri!!''))"
proof -
  let ?r = "HttpResponse\<lparr>rs_code := 404, rs_content := ''Wrong Uri!!'', rs_version_minor := rq_version_minor req\<rparr>"
  have "length (resp_first_line ?r) < 32" using length_resp_first_line [of ?r] assms(3) by (auto simp: GetCodeStr_def)
  then show ?thesis using CreateOutMsg_text [of ?r "[]"] assms(1,2) by (simp add: http_OnMsgArrived_def GetHandler_def response_head_def)
qed

text \<open>An answer with a code for which the first line does not fit its array.\<close>

lemma SendErrorResp_overflow:
  assumes "100 \<le> code" "code < 1000" "code \<notin> {200, 404}"
  shows "SendErrorResp code str = None"
proof -
  have "32 \<le> length (resp_first_line (HttpResponse\<lparr>rs_code := code, rs_content := str\<rparr>))"
    using length_resp_first_line [of "HttpResponse\<lparr>rs_code := code, rs_content := str\<rparr>"] assms by (auto simp: GetCodeStr_def HttpResponse_def)
  then show ?thesis by (simp add: SendErrorResp_def CreateOutMsg_def)
qed

end
