(* ===== verification/Quantizer.thy ===== *)
theory Quantizer
  imports Searcher "HOL-Library.Signed_Division"
begin

text \<open>
  From descriptors to visual words: \<open>bof_core/src/knn_quantizer.cc\<close> and \<open>gmm_quantizer.cc\<close> assign
  each descriptor of a picture to a word of the vocabulary and collect, per word, the number of
  descriptors, their Hamming codes and the angles of their key points; \<open>idf_weighter.cc\<close> scales
  the number by the weight of the word. The nearest-neighbour search (FLANN) and the mixture model
  (OpenCV) are arguments; matrices are lists of rows of floats.
\<close>

subsection \<open>Truncation of a float\<close>

text \<open>The conversion of a \<open>float\<close> to \<open>int\<close> drops the fraction; a value outside the type is undefined.\<close>

definition f32_to_int :: "f32 \<Rightarrow> int cxx" where
  "f32_to_int x =
     (let e = f32_mag x div 2 ^ 23; m = f32_mag x mod 2 ^ 23 + 2 ^ 23;
        v = (if e < 127 then 0 else if e < 150 then m div 2 ^ nat (150 - e) else m * 2 ^ nat (e - 150));
        k = (if bit x 31 then - v else v)
      in if e = 255 \<or> k < - (2 ^ 31) \<or> 2 ^ 31 \<le> k then None else Some k)"

subsection \<open>The quantisers\<close>

datatype QuantizerFlag = QUANTIZER_FLAG_NONE | QUANTIZER_FLAG_HE

text \<open>The one index of the process: the vocabulary and whether the search tree was built.\<close>

record flann_instance =
  fi_vocabulary :: "f32 list list"
  fi_inited :: bool

definition FlannIndexInstance :: flann_instance where
  "FlannIndexInstance = \<lparr>fi_vocabulary = [], fi_inited = False\<rparr>"

definition Flann_Init :: "f32 list list \<Rightarrow> flann_instance \<Rightarrow> int \<times> flann_instance" where
  "Flann_Init voc fi =
     (if voc = [] then (-1, fi\<lparr>fi_vocabulary := voc\<rparr>) else (0, \<lparr>fi_vocabulary = voc, fi_inited = True\<rparr>))"

text \<open>\<open>kq_index\<close> is the vocabulary behind the search tree, \<open>None\<close> the null pointer.\<close>

record knn_quantizer =
  kq_nndr :: f32
  kq_index :: "f32 list list option"
  kq_p_mat :: "f32 list list"
  kq_median_mat :: "f32 list list"

definition KnnQuantizer_new :: knn_quantizer where
  "KnnQuantizer_new = \<lparr>kq_nndr = 0x3F19999A, kq_index = None, kq_p_mat = [], kq_median_mat = []\<rparr>"

text \<open>The matrices in the files; \<open>None\<close>: the path is empty.\<close>

definition Knn_Init ::
    "f32 list list \<Rightarrow> f32 list list option \<Rightarrow> f32 list list option \<Rightarrow> flann_instance \<Rightarrow> knn_quantizer \<Rightarrow> int \<times> flann_instance \<times> knn_quantizer" where
  "Knn_Init voc p med fi q =
     (let fi' = (if fi_inited fi then fi else snd (Flann_Init voc fi));
        q1 = q\<lparr>kq_index := if fi_inited fi' then Some (fi_vocabulary fi') else None\<rparr>;
        q2 = (case p of None \<Rightarrow> q1 | Some m \<Rightarrow> q1\<lparr>kq_p_mat := m\<rparr>);
        q3 = (case med of None \<Rightarrow> q2 | Some m \<Rightarrow> q2\<lparr>kq_median_mat := m\<rparr>)
      in (0, fi', q3))"

definition Knn_GetVocabularySize :: "flann_instance \<Rightarrow> int" where
  "Knn_GetVocabularySize fi = int (length (fi_vocabulary fi))"

text \<open>
  The search returns the two nearest words with their distances; the nearest one is taken if it is
  clearly nearer than the second.
\<close>

type_synonym knn_search = "f32 list list \<Rightarrow> f32 list \<Rightarrow> (int \<times> f32) \<times> (int \<times> f32)"

definition nndr_ok :: "f32_ops \<Rightarrow> knn_quantizer \<Rightarrow> (int \<times> f32) \<times> (int \<times> f32) \<Rightarrow> bool" where
  "nndr_ok ops q r = f32_le (snd (fst r)) (f_mul ops (kq_nndr q) (snd (snd r)))"

definition Knn_Compute_line :: "f32_ops \<Rightarrow> knn_search \<Rightarrow> knn_quantizer \<Rightarrow> f32 list \<Rightarrow> int cxx" where
  "Knn_Compute_line ops search q line =
     (case kq_index q of
        None \<Rightarrow> None
      | Some voc \<Rightarrow> let r = search voc line in Some (if nndr_ok ops q r then fst (fst r) else -1))"

definition angle_text :: "int \<Rightarrow> string" where
  "angle_text angle =
     [char_of (angle sdiv 100 + 48), char_of ((angle smod 100) sdiv 10 + 48), char_of (angle smod 10 + 48)]"

text \<open>Code and angle of the descriptor \<open>i\<close>, found to be of word \<open>w\<close>; \<open>detect\<close> are the angles of the key points.\<close>

definition row_angle :: "f32 list \<Rightarrow> nat \<Rightarrow> string cxx" where
  "row_angle detect i =
     (if detect = [] then Some []
      else if i < length detect then map_option angle_text (f32_to_int (detect ! i)) else None)"

definition row_code :: "f32_ops \<Rightarrow> f32 list list \<Rightarrow> f32 list list \<Rightarrow> int \<Rightarrow> f32 list \<Rightarrow> string cxx" where
  "row_code ops p_mat median_mat w row =
     (if 0 \<le> w \<and> nat w < length median_mat
      then map_option snd (HammingCoder ops HammingEmbedding row p_mat (median_mat ! nat w)) else None)"

definition add_one :: "f32_ops \<Rightarrow> BOFQuantizeResult \<Rightarrow> BOFQuantizeResult" where
  "add_one ops v = v\<lparr>q_weight := f_add ops (q_weight v) f32_one\<rparr>"

definition add_texts :: "string \<Rightarrow> string \<Rightarrow> BOFQuantizeResult \<Rightarrow> BOFQuantizeResult" where
  "add_texts code angle v = v\<lparr>word_info := [word_info v ! 0 @ code, word_info v ! 1 @ angle]\<rparr>"

definition knn_row ::
    "f32_ops \<Rightarrow> knn_search \<Rightarrow> knn_quantizer \<Rightarrow> f32 list list \<Rightarrow> QuantizerFlag \<Rightarrow> f32 list \<Rightarrow> nat \<Rightarrow> f32 list
       \<Rightarrow> BOFQuantizeResultMap \<Rightarrow> BOFQuantizeResultMap cxx" where
  "knn_row ops search q voc flag detect i row result =
     (let r = search voc row; w = fst (fst r) in
      if nndr_ok ops q r then
        let (v, m) = map_at result w; v1 = add_one ops v in
        (case flag of
           QUANTIZER_FLAG_HE \<Rightarrow>
             (case row_angle detect i of
                None \<Rightarrow> None
              | Some a \<Rightarrow> (case row_code ops (kq_p_mat q) (kq_median_mat q) w row of
                  None \<Rightarrow> None
                | Some he \<Rightarrow> Some (map_insert w (add_texts he a v1) m)))
         | QUANTIZER_FLAG_NONE \<Rightarrow> Some (map_insert w v1 m))
      else Some result)"

primrec knn_rows ::
    "f32_ops \<Rightarrow> knn_search \<Rightarrow> knn_quantizer \<Rightarrow> f32 list list \<Rightarrow> QuantizerFlag \<Rightarrow> f32 list \<Rightarrow> nat \<Rightarrow> f32 list list
       \<Rightarrow> BOFQuantizeResultMap \<Rightarrow> BOFQuantizeResultMap cxx" where
  "knn_rows ops search q voc flag detect i [] result = Some result"
| "knn_rows ops search q voc flag detect i (row # rows) result =
     (case knn_row ops search q voc flag detect i row result of
        None \<Rightarrow> None
      | Some result' \<Rightarrow> knn_rows ops search q voc flag detect (Suc i) rows result')"

definition Knn_Compute ::
    "f32_ops \<Rightarrow> knn_search \<Rightarrow> knn_quantizer \<Rightarrow> f32 list list \<Rightarrow> f32 list \<Rightarrow> QuantizerFlag \<Rightarrow> (int \<times> BOFQuantizeResultMap) cxx" where
  "Knn_Compute ops search q descriptors detect flag =
     (case kq_index q of
        None \<Rightarrow> None
      | Some voc \<Rightarrow> map_option (Pair 0) (knn_rows ops search q voc flag detect 0 descriptors []))"

text \<open>The mixture model assigns a word to every descriptor and adds to the result it is given.\<close>

record gmm_quantizer =
  gq_p_mat :: "f32 list list"
  gq_median_mat :: "f32 list list"

definition gmm_row ::
    "f32_ops \<Rightarrow> (f32 list \<Rightarrow> int) \<Rightarrow> gmm_quantizer \<Rightarrow> QuantizerFlag \<Rightarrow> f32 list \<Rightarrow> BOFQuantizeResultMap \<Rightarrow> BOFQuantizeResultMap cxx" where
  "gmm_row ops predict q flag row result =
     (let w = predict row; (v, m) = map_at result w; v1 = add_one ops v in
      case flag of
        QUANTIZER_FLAG_HE \<Rightarrow>
          (case row_code ops (gq_p_mat q) (gq_median_mat q) w row of
             None \<Rightarrow> None
           | Some he \<Rightarrow> Some (map_insert w (add_texts he [] v1) m))
      | QUANTIZER_FLAG_NONE \<Rightarrow> Some (map_insert w v1 m))"

primrec Gmm_Compute ::
    "f32_ops \<Rightarrow> (f32 list \<Rightarrow> int) \<Rightarrow> gmm_quantizer \<Rightarrow> QuantizerFlag \<Rightarrow> f32 list list \<Rightarrow> BOFQuantizeResultMap \<Rightarrow> (int \<times> BOFQuantizeResultMap) cxx" where
  "Gmm_Compute ops predict q flag [] result = Some (0, result)"
| "Gmm_Compute ops predict q flag (row # rows) result =
     (case gmm_row ops predict q flag row result of None \<Rightarrow> None | Some result' \<Rightarrow> Gmm_Compute ops predict q flag rows result')"

subsection \<open>The weights of the words\<close>

text \<open>The pairs that can be read from the weight file; \<open>None\<close>: it cannot be opened.\<close>

record idf_weighter =
  iw_words_number :: int
  iw_word_weight :: "f32 list"

definition SetWordsNum :: "int \<Rightarrow> idf_weighter \<Rightarrow> idf_weighter" where
  "SetWordsNum K iw = iw\<lparr>iw_words_number := K\<rparr>"

primrec idf_read :: "(int \<times> f32) list \<Rightarrow> f32 list \<Rightarrow> f32 list cxx" where
  "idf_read [] m = Some m"
| "idf_read (p # ps) m =
     (if 0 \<le> fst p \<and> nat (fst p) < length m then idf_read ps (m[nat (fst p) := snd p]) else None)"

definition IDF_Init :: "(int \<times> f32) list option \<Rightarrow> idf_weighter \<Rightarrow> (int \<times> idf_weighter) cxx" where
  "IDF_Init file iw =
     (case file of
        None \<Rightarrow> Some (-1, iw)
      | Some ps \<Rightarrow>
          if iw_words_number iw < 0 then None
          else map_option (\<lambda>m. (0, iw\<lparr>iw_word_weight := m\<rparr>)) (idf_read ps (replicate (nat (iw_words_number iw)) f32_zero)))"

definition Weighting :: "f32_ops \<Rightarrow> idf_weighter \<Rightarrow> int \<Rightarrow> f32 \<Rightarrow> int option \<Rightarrow> (int \<times> f32) cxx" where
  "Weighting ops iw word_id w ctxt =
     (case ctxt of
        None \<Rightarrow> Some (-1, w)
      | Some feature_number \<Rightarrow>
          if iw_words_number iw \<le> word_id then Some (-1, w)
          else if word_id < 0 \<or> length (iw_word_weight iw) \<le> nat word_id then None
          else let weight = iw_word_weight iw ! nat word_id in
            Some (0, f_mul ops w (if feature_number \<le> 0 then weight else f_div ops weight (f_of_int ops feature_number))))"

text \<open>\<open>CommonSearch::Process\<close> weights every word of the query; it ignores the result code.\<close>

primrec weight_query :: "f32_ops \<Rightarrow> idf_weighter \<Rightarrow> int \<Rightarrow> BOFQuantizeResultMap \<Rightarrow> BOFQuantizeResultMap cxx" where
  "weight_query ops iw rows [] = Some []"
| "weight_query ops iw rows (e # m) =
     (case (Weighting ops iw (fst e) (q_weight (snd e)) (Some rows), weight_query ops iw rows m) of
        (Some (_, w), Some m') \<Rightarrow> Some ((fst e, (snd e)\<lparr>q_weight := w\<rparr>) # m')
      | _ \<Rightarrow> None)"

subsection \<open>The registry of prototypes\<close>

text \<open>
  \<open>ObjectSelector<T>\<close>: the instance (\<open>None\<close>: not created) with its prototypes by name; a pointer in the
  map is \<open>None\<close> after it was released. \<open>name_of\<close> and \<open>clone\<close> are the virtual functions of the objects.
\<close>

type_synonym 'a selector = "(string \<rightharpoonup> 'a option) option"

definition Selector_GetInstance :: "'a selector \<Rightarrow> string \<rightharpoonup> 'a option" where
  "Selector_GetInstance s = (case s of None \<Rightarrow> Map.empty | Some m \<Rightarrow> m)"

definition AddObject :: "('a \<Rightarrow> string) \<Rightarrow> 'a \<Rightarrow> 'a selector \<Rightarrow> 'a selector" where
  "AddObject name_of x s =
     (let m = Selector_GetInstance s in Some (if m (name_of x) = None then m(name_of x \<mapsto> Some x) else m))"

definition GenerateObject :: "('a \<Rightarrow> 'a) \<Rightarrow> string \<Rightarrow> 'a selector \<Rightarrow> 'a option cxx" where
  "GenerateObject clone obj_name s =
     (case Selector_GetInstance s obj_name of
        None \<Rightarrow> Some None
      | Some None \<Rightarrow> None
      | Some (Some x) \<Rightarrow> Some (Some (clone x)))"

definition ReleaseSelfObjects :: "'a selector \<Rightarrow> 'a selector" where
  "ReleaseSelfObjects s = Some (\<lambda>n. map_option (\<lambda>_. None) (Selector_GetInstance s n))"

definition Selector_Finalize :: "'a selector \<Rightarrow> 'a selector" where
  "Selector_Finalize s = None"

text \<open>\<open>CreateObjectFactory\<close> adds the prototypes one after the other; the first of a name stays.\<close>

definition create_factory :: "('a \<Rightarrow> string) \<Rightarrow> 'a list \<Rightarrow> 'a selector \<Rightarrow> 'a selector" where
  "create_factory name_of xs s = fold (AddObject name_of) xs s"

definition destroy_factory :: "'a selector \<Rightarrow> 'a selector" where
  "destroy_factory s = Selector_Finalize (ReleaseSelfObjects s)"

lemma create_factory_lookup:
  "Selector_GetInstance (create_factory name_of xs s) n =
     (case Selector_GetInstance s n of Some y \<Rightarrow> Some y | None \<Rightarrow> map_option Some (find (\<lambda>x. name_of x = n) xs))"
proof (induction xs arbitrary: s)
  case (Cons x xs)
  show ?case using Cons.IH [of "AddObject name_of x s"]
    by (auto simp: create_factory_def AddObject_def Selector_GetInstance_def [of "Some _"] Let_def split: option.splits)
qed (auto simp: create_factory_def split: option.splits)

text \<open>A name is served with a clone of its first prototype, an unknown name with the null pointer; after the end the registry is empty again.\<close>

lemma GenerateObject_factory:
  "GenerateObject clone n (create_factory name_of xs None) = Some (map_option clone (find (\<lambda>x. name_of x = n) xs))"
  "GenerateObject clone n (destroy_factory s) = Some None"
  by (auto simp: GenerateObject_def create_factory_lookup destroy_factory_def Selector_Finalize_def Selector_GetInstance_def [of None] split: option.splits)

subsection \<open>What the weighter stores\<close>

lemma idf_read_weights:
  "\<forall>p \<in> set ps. 0 \<le> fst p \<and> nat (fst p) < length m \<Longrightarrow>
     \<exists>m'. idf_read ps m = Some m' \<and> length m' = length m \<and>
       (\<forall>w < length m. m' ! w = (case map_of (rev ps) (int w) of None \<Rightarrow> m ! w | Some x \<Rightarrow> x))"
proof (induction ps arbitrary: m)
  case (Cons p ps)
  obtain m' where m': "idf_read ps (m[nat (fst p) := snd p]) = Some m'" "length m' = length m"
    "\<forall>w < length m. m' ! w = (case map_of (rev ps) (int w) of None \<Rightarrow> m[nat (fst p) := snd p] ! w | Some x \<Rightarrow> x)"
    using Cons.IH [of "m[nat (fst p) := snd p]"] Cons.prems by auto
  have "w = nat (fst p) \<longleftrightarrow> int w = fst p" for w using Cons.prems by auto
  then show ?case using m' Cons.prems by (auto simp: nth_list_update map_add_def split: option.splits)
qed simp

lemma IDF_Init_Weighting:
  assumes "\<forall>p \<in> set ps. 0 \<le> fst p \<and> fst p < K" and "0 \<le> w" "w < K"
  shows "\<exists>iw'. IDF_Init (Some ps) (SetWordsNum K iw) = Some (0, iw') \<and>
    Weighting ops iw' w x (Some n) = Some (0, f_mul ops x (let v = (case map_of (rev ps) w of None \<Rightarrow> f32_zero | Some v \<Rightarrow> v) in
      if n \<le> 0 then v else f_div ops v (f_of_int ops n)))"
proof -
  obtain m where m: "idf_read ps (replicate (nat K) f32_zero) = Some m" "length m = nat K"
    "\<forall>w < nat K. m ! w = (case map_of (rev ps) (int w) of None \<Rightarrow> f32_zero | Some x \<Rightarrow> x)"
    using idf_read_weights [of ps "replicate (nat K) f32_zero"] assms by (auto cong: option.case_cong)
  then show ?thesis using assms(2,3) by (auto simp: IDF_Init_def SetWordsNum_def Weighting_def Let_def)
qed

lemma weight_query_keeps:
  "weight_query ops iw n m = Some m' \<Longrightarrow> map fst m' = map fst m \<and> map (word_info \<circ> snd) m' = map (word_info \<circ> snd) m"
  by (induction m arbitrary: m') (auto split: option.splits)

subsection \<open>What the quantiser collects\<close>

lemma map_of_map_insert [simp]: "map_of (map_insert k v m) = (map_of m)(k \<mapsto> v)"
  by (induction k v m rule: map_insert.induct) (auto simp: fun_eq_iff)

lemma set_map_insert: "fst ` set (map_insert k v m) = insert k (fst ` set m)"
  by (induction k v m rule: map_insert.induct) auto

lemma map_insert_sorted: "sorted_wrt (<) (map fst m) \<Longrightarrow> sorted_wrt (<) (map fst (map_insert k v m))"
proof (induction k v m rule: map_insert.induct)
  case (2 k v j u m)
  then show ?case using set_map_insert [of k v m] by (auto simp flip: set_map)
qed simp

lemma map_at_cases:
  assumes "map_at m k = (v, m')"
  shows "v = (case map_of m k of None \<Rightarrow> BOFQuantizeResult_new | Some u \<Rightarrow> u)" "map_of (map_insert k x m') = (map_of m)(k \<mapsto> x)"
    "sorted_wrt (<) (map fst m) \<Longrightarrow> sorted_wrt (<) (map fst (map_insert k x m'))"
  using assms by (auto simp: map_at_def map_insert_sorted split: option.splits)

text \<open>The descriptors of a word and what they contribute.\<close>

definition row_of_word :: "f32_ops \<Rightarrow> knn_search \<Rightarrow> knn_quantizer \<Rightarrow> f32 list list \<Rightarrow> int \<Rightarrow> f32 list \<Rightarrow> bool" where
  "row_of_word ops search q voc w row \<longleftrightarrow> nndr_ok ops q (search voc row) \<and> fst (fst (search voc row)) = w"

definition word_rows :: "f32_ops \<Rightarrow> knn_search \<Rightarrow> knn_quantizer \<Rightarrow> f32 list list \<Rightarrow> f32 list list \<Rightarrow> int \<Rightarrow> nat list" where
  "word_rows ops search q voc rows w = filter (\<lambda>i. row_of_word ops search q voc w (rows ! i)) [0..<length rows]"

definition collected :: "f32_ops \<Rightarrow> (nat \<Rightarrow> string) \<Rightarrow> (nat \<Rightarrow> string) \<Rightarrow> nat list \<Rightarrow> BOFQuantizeResult" where
  "collected ops code angle is =
     \<lparr>q_weight = ((\<lambda>x. f_add ops x f32_one) ^^ length is) f32_zero, word_info = [concat (map code is), concat (map angle is)]\<rparr>"

lemma collected_Nil: "collected ops code angle [] = BOFQuantizeResult_new"
  by (simp add: collected_def BOFQuantizeResult_new_def)

lemma collected_snoc: "collected ops code angle (is @ [i]) = add_texts (code i) (angle i) (add_one ops (collected ops code angle is))"
  by (simp add: collected_def add_texts_def add_one_def)

lemma word_rows_snoc:
  "word_rows ops search q voc (rows @ [row]) w =
     word_rows ops search q voc rows w @ (if row_of_word ops search q voc w row then [length rows] else [])"
  by (auto simp: word_rows_def nth_append intro!: filter_cong)

lemma knn_rows_snoc:
  "knn_rows ops search q voc flag detect i (rows @ [row]) m =
     (case knn_rows ops search q voc flag detect i rows m of None \<Rightarrow> None
      | Some m' \<Rightarrow> knn_row ops search q voc flag detect (i + length rows) row m')"
  by (induction rows arbitrary: i m) (auto split: option.splits)

text \<open>The texts of the accepted descriptors are defined.\<close>

definition rows_ok :: "f32_ops \<Rightarrow> knn_search \<Rightarrow> knn_quantizer \<Rightarrow> f32 list list \<Rightarrow> f32 list \<Rightarrow> f32 list list \<Rightarrow> (nat \<Rightarrow> string) \<Rightarrow> (nat \<Rightarrow> string) \<Rightarrow> bool" where
  "rows_ok ops search q voc detect rows code angle \<longleftrightarrow>
     (\<forall>i < length rows. \<forall>w. row_of_word ops search q voc w (rows ! i) \<longrightarrow>
        row_code ops (kq_p_mat q) (kq_median_mat q) w (rows ! i) = Some (code i) \<and> row_angle detect i = Some (angle i))"

lemma knn_row_collects:
  assumes ok: "rows_ok ops search q voc detect (rows @ [row]) code angle" and m: "sorted_wrt (<) (map fst m)"
    and mo: "\<And>w. map_of m w = (let is = word_rows ops search q voc rows w in if is = [] then None else Some (collected ops code angle is))"
  shows "\<exists>m'. knn_row ops search q voc QUANTIZER_FLAG_HE detect (length rows) row m = Some m' \<and> sorted_wrt (<) (map fst m') \<and>
    (\<forall>w. map_of m' w = (let is = word_rows ops search q voc (rows @ [row]) w in if is = [] then None else Some (collected ops code angle is)))"
proof -
  let ?r = "search voc row" and ?c = "code (length rows)" and ?a = "angle (length rows)"
  let ?w = "fst (fst ?r)"
  show ?thesis
  proof (cases "nndr_ok ops q ?r")
    case True
    then have w: "row_of_word ops search q voc x row \<longleftrightarrow> x = ?w" for x by (auto simp: row_of_word_def)
    have texts: "row_code ops (kq_p_mat q) (kq_median_mat q) ?w row = Some ?c" "row_angle detect (length rows) = Some ?a"
      using ok w by (auto simp: rows_ok_def dest!: spec [of _ "length rows"])
    obtain v m' where at: "map_at m ?w = (v, m')" by (cases "map_at m ?w")
    note at_facts = map_at_cases [OF at]
    have v: "v = collected ops code angle (word_rows ops search q voc rows ?w)"
      using at_facts(1) mo [of ?w] by (simp add: Let_def collected_Nil split: if_splits)
    have "knn_row ops search q voc QUANTIZER_FLAG_HE detect (length rows) row m = Some (map_insert ?w (add_texts ?c ?a (add_one ops v)) m')"
      using True texts at by (simp add: knn_row_def Let_def)
    then show ?thesis using at_facts(2,3) m mo v by (auto simp: word_rows_snoc w collected_snoc Let_def)
  next
    case False
    then show ?thesis using m mo by (auto simp: knn_row_def word_rows_snoc row_of_word_def Let_def)
  qed
qed

lemma knn_rows_collect:
  assumes "rows_ok ops search q voc detect rows code angle"
  shows "\<exists>m. knn_rows ops search q voc QUANTIZER_FLAG_HE detect 0 rows [] = Some m \<and> sorted_wrt (<) (map fst m) \<and>
    (\<forall>w. map_of m w = (let is = word_rows ops search q voc rows w in if is = [] then None else Some (collected ops code angle is)))"
  using assms
proof (induction rows rule: rev_induct)
  case Nil
  then show ?case by (simp add: word_rows_def)
next
  case (snoc row rows)
  have "rows_ok ops search q voc detect rows code angle"
    using snoc.prems unfolding rows_ok_def by (metis less_SucI length_append_singleton nth_append)
  then obtain m where m: "knn_rows ops search q voc QUANTIZER_FLAG_HE detect 0 rows [] = Some m" "sorted_wrt (<) (map fst m)"
    "\<And>w. map_of m w = (let is = word_rows ops search q voc rows w in if is = [] then None else Some (collected ops code angle is))"
    using snoc.IH by auto
  show ?case using knn_row_collects [OF snoc.prems m(2,3)] m(1) by (auto simp: knn_rows_snoc)
qed

text \<open>The matrices fit and the words found have a row of medians.\<close>

definition quantizer_fits :: "f32_ops \<Rightarrow> knn_search \<Rightarrow> knn_quantizer \<Rightarrow> f32 list list \<Rightarrow> f32 list list \<Rightarrow> bool" where
  "quantizer_fits ops search q voc rows \<longleftrightarrow>
     64 \<le> length (kq_p_mat q) \<and> (\<forall>row \<in> set rows. \<forall>p \<in> set (kq_p_mat q). length p \<le> length row) \<and>
     (\<forall>med \<in> set (kq_median_mat q). 64 \<le> length med) \<and>
     (\<forall>row \<in> set rows. \<forall>w. row_of_word ops search q voc w row \<longrightarrow> 0 \<le> w \<and> nat w < length (kq_median_mat q))"

definition word_code :: "f32_ops \<Rightarrow> knn_search \<Rightarrow> knn_quantizer \<Rightarrow> f32 list list \<Rightarrow> f32 list \<Rightarrow> string" where
  "word_code ops search q voc row = the (row_code ops (kq_p_mat q) (kq_median_mat q) (fst (fst (search voc row))) row)"

lemma row_code_fits:
  assumes "quantizer_fits ops search q voc rows" and "row \<in> set rows" and "row_of_word ops search q voc w row"
  shows "row_code ops (kq_p_mat q) (kq_median_mat q) w row = Some (word_code ops search q voc row) \<and> length (word_code ops search q voc row) = 16"
proof -
  let ?med = "kq_median_mat q ! nat w"
  have w: "0 \<le> w" "nat w < length (kq_median_mat q)" "fst (fst (search voc row)) = w" and med: "64 \<le> length ?med"
    using assms by (auto simp: quantizer_fits_def row_of_word_def)
  have proj: "he_project ops 64 row (kq_p_mat q) = Some (map (\<lambda>p. he_dot ops p row) (take 64 (kq_p_mat q)))"
    using assms by (auto simp: he_project_def quantizer_fits_def dest!: in_set_takeD)
  have "length (kq_p_mat q) \<ge> 64" using assms(1) by (simp add: quantizer_fits_def)
  then show ?thesis
    using w med proj by (simp add: row_code_def word_code_def HammingCoder_def HammingEmbedding_def coder_loop_nibbles length_nibbles)
qed

lemma length_angle_text: "length (angle_text a) = 3"
  by (simp add: angle_text_def)

lemma schar_digit: "0 \<le> k \<Longrightarrow> k < 10 \<Longrightarrow> schar (char_of (k + 48)) = k + 48"
proof -
  assume k: "0 \<le> k" "k < 10"
  have "int (of_char (char_of (k + 48) :: char)) = k + 48" using k by (simp add: of_nat_of_char of_char_of)
  then show ?thesis unfolding schar_def using k by simp
qed

text \<open>Three digits of an angle at their place in the text.\<close>

lemma angle_digits_text:
  assumes "0 \<le> a" "a < 1000" and u: "length u = 3 * j"
  shows "angle_digits (u @ angle_text a @ v) j = Some (word_of_int a)"
proof -
  let ?h = "a div 100" and ?z = "(a mod 100) div 10" and ?e = "a mod 10"
  have s: "a smod 100 = a mod 100" "a smod 10 = a mod 10" "a sdiv 100 = ?h" "(a smod 100) sdiv 10 = ?z"
    using assms(1) by (simp_all add: signed_modulo_int_def signed_divide_int_def sgn_if)
  have r: "0 \<le> ?h" "?h < 10" "0 \<le> ?z" "?z < 10" "0 \<le> ?e" "?e < 10" using assms by auto
  have "a mod 100 mod 10 = a mod 10" by (rule mod_mod_cancel) simp
  then have split: "(a div 100) * 100 + ((a mod 100) div 10) * 10 + a mod 10 = a"
    using mod_div_mult_eq [of "a mod 100" 10] div_mult_mod_eq [of a 100] by linarith
  have nth: "(u @ angle_text a @ v) ! (3 * j + k) = angle_text a ! k" if "k < 3" for k
    using that u by (simp add: nth_append length_angle_text)
  have "angle_char (u @ angle_text a @ v) (3 * j) = Some (?h + 48)" "angle_char (u @ angle_text a @ v) (3 * j + 1) = Some (?z + 48)"
    "angle_char (u @ angle_text a @ v) (3 * j + 2) = Some (?e + 48)"
    using nth [of 0] nth [of 1] nth [of 2] u r
    by (simp_all add: angle_char_def length_angle_text) (simp_all add: angle_text_def s schar_digit)
  then have "angle_digits (u @ angle_text a @ v) j =
      Some (word_of_int (?h * 100) + word_of_int (?z * 10) + word_of_int ?e)" by (simp add: angle_digits_def)
  also have "word_of_int (?h * 100) + word_of_int (?z * 10) + word_of_int ?e = (word_of_int (?h * 100 + ?z * 10 + ?e) :: u32)"
    by (simp only: of_int_add)
  finally show ?thesis using split by simp
qed

lemma he_word_shift: "length x = 16 \<Longrightarrow> he_word (u @ x @ v) (length u) = he_word x 0"
  unfolding he_word_def by (rule foldl_cong) (auto simp: nth_append)

lemma Knn_Compute_collects:
  assumes "kq_index q = Some voc" and "quantizer_fits ops search q voc rows"
    and "length rows \<le> length detect" and "\<forall>i < length rows. f32_to_int (detect ! i) = Some (ang i)"
  shows "\<exists>m. Knn_Compute ops search q rows detect QUANTIZER_FLAG_HE = Some (0, m) \<and> sorted_wrt (<) (map fst m) \<and>
    (\<forall>w. map_of m w = (let is = word_rows ops search q voc rows w in
       if is = [] then None
       else Some (collected ops (\<lambda>i. word_code ops search q voc (rows ! i)) (\<lambda>i. angle_text (ang i)) is)))"
proof -
  have "rows_ok ops search q voc detect rows (\<lambda>i. word_code ops search q voc (rows ! i)) (\<lambda>i. angle_text (ang i))"
    using row_code_fits [OF assms(2)] assms(3,4) by (force simp: rows_ok_def row_angle_def)
  from knn_rows_collect [OF this] show ?thesis using assms(1) by (auto simp: Knn_Compute_def)
qed

text \<open>
  C16. Quantiser: with matrices that fit and key points with convertible angles, \<open>Compute\<close> returns the
  words in increasing order; a word is there if and only if a descriptor was assigned to it, with one
  unit of weight, the code and the angle of each of its descriptors, in the order of the descriptors.
\<close>

theorem Knn_Compute_words:
  assumes "kq_index q = Some voc" and "quantizer_fits ops search q voc rows"
    and "length rows \<le> length detect" and "\<forall>i < length rows. f32_to_int (detect ! i) = Some (ang i)"
  shows "\<exists>m. Knn_Compute ops search q rows detect QUANTIZER_FLAG_HE = Some (0, m) \<and> sorted_wrt (<) (map fst m) \<and>
    (\<forall>w. map_of m w = (let is = word_rows ops search q voc rows w in
       if is = [] then None
       else Some (collected ops (\<lambda>i. word_code ops search q voc (rows ! i)) (\<lambda>i. angle_text (ang i)) is)))"
  by (rule Knn_Compute_collects [OF assms])

text \<open>The texts of a word are read back as its signatures and angles.\<close>

lemma concat_map_nth_split:
  assumes "j < length is" and "\<forall>i \<in> set is. length (f i) = n"
  obtains u v where "concat (map f is) = u @ f (is ! j) @ v" "length u = j * n"
  using concat_split_nth [of j "map f is" n] assms by auto

lemma convert_item_collected:
  assumes code: "\<forall>i \<in> set is. length (code i) = 16" and ang: "\<forall>i \<in> set is. 0 \<le> ang i \<and> ang i < 1000" and n: "length is < 2 ^ 15"
  shows "convert_item \<lparr>bi_pic_id = pic, bi_bof_info = collected ops code (\<lambda>i. angle_text (ang i)) is\<rparr> =
    Some \<lparr>ii_pic_id = ucast pic, ii_weight = ((\<lambda>x. f_add ops x f32_one) ^^ length is) f32_zero, ii_length = word_of_nat (length is),
      ii_he = map (\<lambda>i. he_word (code i) 0) is, ii_angle = map (\<lambda>i. word_of_int (ang i)) is\<rparr>"
proof -
  let ?he = "concat (map code is)" and ?an = "concat (map (\<lambda>i. angle_text (ang i)) is)" and ?n = "length is"
  have len: "length ?he div 16 = ?n" using length_concat_same [of "map code is" 16] code by simp
  have "he_word ?he (j * 16) = he_word (code (is ! j)) 0" if "j < ?n" for j
    using concat_map_nth_split [OF that, of code 16] code he_word_shift that by (metis nth_mem)
  then have he: "map (\<lambda>j. he_word ?he (j * 16)) [0..<?n] = map (\<lambda>i. he_word (code i) 0) is"
    by (intro nth_equalityI) simp_all
  have "angle_digits ?an j = Some (word_of_int (ang (is ! j)))" if j: "j < ?n" for j
  proof -
    obtain u v where "?an = u @ angle_text (ang (is ! j)) @ v" "length u = j * 3"
      using concat_map_nth_split [OF j, of "\<lambda>i. angle_text (ang i)" 3] length_angle_text by blast
    then show ?thesis using angle_digits_text [of "ang (is ! j)" u j v] ang j by simp
  qed
  then have an: "all_some (map (angle_digits ?an) [0..<?n]) = Some (map (\<lambda>i. word_of_int (ang i)) is)"
    unfolding all_some_iff by (intro nth_equalityI) simp_all
  have "sint (word_of_nat ?n :: u16) = int ?n"
    using n by (intro sint_short) (simp_all add: unat_of_nat)
  then show ?thesis using he an len by (cases "is = []") (simp_all add: convert_item_def collected_def Let_def)
qed

text \<open>
  C36. Quantiser and index: every word of a quantised picture with fewer than \<open>2^15\<close> descriptors is
  converted to an index entry with exactly the signatures and angles of the descriptors that were
  assigned to the word.
\<close>

theorem quantised_words_convert:
  assumes q: "kq_index q = Some voc" "quantizer_fits ops search q voc rows"
    and detect: "length rows \<le> length detect" "\<forall>i < length rows. f32_to_int (detect ! i) = Some (ang i) \<and> 0 \<le> ang i \<and> ang i < 1000"
    and n: "length rows < 2 ^ 15" and m: "Knn_Compute ops search q rows detect QUANTIZER_FLAG_HE = Some (r, m)" "(w, v) \<in> set m"
  shows "let is = word_rows ops search q voc rows w in is \<noteq> [] \<and>
    convert_item \<lparr>bi_pic_id = pic, bi_bof_info = v\<rparr> =
      Some \<lparr>ii_pic_id = ucast pic, ii_weight = q_weight v, ii_length = word_of_nat (length is),
        ii_he = map (\<lambda>i. he_word (word_code ops search q voc (rows ! i)) 0) is, ii_angle = map (\<lambda>i. word_of_int (ang i)) is\<rparr>"
proof -
  let ?is = "word_rows ops search q voc rows w" and ?code = "\<lambda>i. word_code ops search q voc (rows ! i)"
  have "\<forall>i < length rows. f32_to_int (detect ! i) = Some (ang i)" using detect(2) by blast
  from Knn_Compute_collects [OF q detect(1) this] m(1) have m': "sorted_wrt (<) (map fst m)"
    "map_of m w = (if ?is = [] then None else Some (collected ops ?code (\<lambda>i. angle_text (ang i)) ?is))"
    by (auto simp: Let_def)
  have "distinct (map fst m)" using m'(1) strict_sorted_iff by blast
  then have v: "?is \<noteq> []" "v = collected ops ?code (\<lambda>i. angle_text (ang i)) ?is" using m(2) m'(2) by (auto split: if_splits)
  have mem: "i < length rows \<and> row_of_word ops search q voc w (rows ! i)" if "i \<in> set ?is" for i using that by (auto simp: word_rows_def)
  have "length ?is \<le> length rows" using length_filter_le [of _ "[0..<length rows]"] by (simp add: word_rows_def)
  moreover have "\<forall>i \<in> set ?is. length (?code i) = 16" using row_code_fits [OF q(2)] mem nth_mem by blast
  ultimately have "convert_item \<lparr>bi_pic_id = pic, bi_bof_info = v\<rparr> = Some \<lparr>ii_pic_id = ucast pic,
      ii_weight = ((\<lambda>x. f_add ops x f32_one) ^^ length ?is) f32_zero, ii_length = word_of_nat (length ?is),
      ii_he = map (\<lambda>i. he_word (?code i) 0) ?is, ii_angle = map (\<lambda>i. word_of_int (ang i)) ?is\<rparr>"
    unfolding v(2) using detect(2) mem n by (intro convert_item_collected) auto
  then show ?thesis using v by (simp add: Let_def collected_def)
qed

text \<open>Without a vocabulary \<open>Init\<close> still reports success; the quantiser is unusable.\<close>

lemma Knn_Init_without_vocabulary:
  "\<exists>fi q. Knn_Init [] p med FlannIndexInstance KnnQuantizer_new = (0, fi, q) \<and> Knn_Compute ops search q rows detect flag = None"
  by (auto simp: Knn_Init_def Flann_Init_def FlannIndexInstance_def KnnQuantizer_new_def Knn_Compute_def Let_def split: option.splits)

text \<open>Without key points a word has codes but no angles, and the text \<open>+\<close> that is indexed then cannot be converted.\<close>

lemma convert_item_without_angles:
  assumes "16 \<le> length he" "length he div 16 < 2 ^ 15"
  shows "convert_item \<lparr>bi_pic_id = pic, bi_bof_info = \<lparr>q_weight = w, word_info = [he, ''+'']\<rparr>\<rparr> = None"
proof -
  have "sint (word_of_nat (length he div 16) :: u16) = int (length he div 16)"
    using assms by (intro sint_short) (simp_all add: unat_of_nat)
  moreover have "all_some (map (angle_digits ''+'') [0..<length he div 16]) = None"
    using assms(1) by (cases "length he div 16") (simp_all add: angle_digits_def angle_char_def upt_rec [of 0])
  ultimately show ?thesis using assms(1) by (simp add: convert_item_def Let_def div_eq_0_iff)
qed

text \<open>A run with two descriptors of word 1, at angles 45 and 300.\<close>

definition demo_search :: knn_search where
  "demo_search voc row = ((1, f32_zero), (0, f32_zero))"

definition demo_knn :: knn_quantizer where
  "demo_knn = \<lparr>kq_nndr = 0x3F19999A, kq_index = Some [[f32_zero], [f32_one]], kq_p_mat = replicate 64 [f32_one], kq_median_mat = replicate 2 (replicate 64 f32_zero)\<rparr>"

definition demo_rows :: "f32 list list" where "demo_rows = [[f32_zero], [f32_one]]"
definition demo_detect :: "f32 list" where "demo_detect = [0x42340000, 0x43960000]"

lemma demo_index: "kq_index demo_knn = Some demo_rows"
  by (simp add: demo_knn_def demo_rows_def)

lemma demo_knn_fits: "quantizer_fits demo_ops demo_search demo_knn voc demo_rows"
  by (auto simp: quantizer_fits_def demo_knn_def row_of_word_def demo_search_def demo_rows_def)

lemma demo_word_rows: "word_rows demo_ops demo_search demo_knn voc demo_rows 1 = [0, 1]"
  by (simp add: word_rows_def row_of_word_def nndr_ok_def demo_search_def demo_knn_def demo_ops_def f32_le_def f32_nan_def f32_key_def f32_mag_def demo_rows_def upt_rec)

lemma demo_angles:
  "length demo_rows \<le> length demo_detect"
  "\<forall>i < length demo_rows. f32_to_int (demo_detect ! i) = Some ([45, 300] ! i) \<and> 0 \<le> [45, 300 :: int] ! i \<and> [45, 300 :: int] ! i < 1000"
proof -
  have "f32_to_int 0x42340000 = Some 45" "f32_to_int 0x43960000 = Some 300"
    by (simp_all add: f32_to_int_def f32_mag_def Let_def)
  then show "\<forall>i < length demo_rows. f32_to_int (demo_detect ! i) = Some ([45, 300] ! i) \<and> 0 \<le> [45, 300 :: int] ! i \<and> [45, 300 :: int] ! i < 1000"
    by (auto simp: less_Suc_eq demo_rows_def demo_detect_def)
qed (simp add: demo_rows_def demo_detect_def)

lemma demo_angles_some: "\<forall>i < length demo_rows. f32_to_int (demo_detect ! i) = Some ([45, 300] ! i)"
  using demo_angles(2) by blast

theorem Knn_Compute_words_witness:
  "\<exists>m v. Knn_Compute demo_ops demo_search demo_knn demo_rows demo_detect QUANTIZER_FLAG_HE = Some (0, m) \<and>
     map_of m 1 = Some v \<and> word_info v ! 1 = ''045300''"
proof -
  obtain m where "Knn_Compute demo_ops demo_search demo_knn demo_rows demo_detect QUANTIZER_FLAG_HE = Some (0, m)"
    "map_of m 1 = Some (collected demo_ops (\<lambda>i. word_code demo_ops demo_search demo_knn demo_rows (demo_rows ! i)) (\<lambda>i. angle_text ([45, 300] ! i)) [0, 1])"
    using Knn_Compute_words [OF demo_index demo_knn_fits demo_angles(1) demo_angles_some] demo_word_rows by (auto simp: Let_def)
  moreover have "angle_text 45 = ''045''" "angle_text 300 = ''300''" by code_simp+
  ultimately show ?thesis by (auto simp: collected_def)
qed

theorem quantised_words_convert_witness:
  "\<exists>m v it. Knn_Compute demo_ops demo_search demo_knn demo_rows demo_detect QUANTIZER_FLAG_HE = Some (0, m) \<and> (1, v) \<in> set m \<and>
     convert_item \<lparr>bi_pic_id = 7, bi_bof_info = v\<rparr> = Some it \<and> ii_length it = 2 \<and> ii_angle it = [45, 300]"
proof -
  obtain m v where m: "Knn_Compute demo_ops demo_search demo_knn demo_rows demo_detect QUANTIZER_FLAG_HE = Some (0, m)" "(1, v) \<in> set m"
    using Knn_Compute_collects [OF demo_index demo_knn_fits demo_angles(1) demo_angles_some] demo_word_rows
    by (auto simp: Let_def dest!: spec [of _ 1] map_of_SomeD)
  have "length demo_rows < 2 ^ 15" by (simp add: demo_rows_def)
  from quantised_words_convert [OF demo_index demo_knn_fits demo_angles this m, of 7] m demo_word_rows show ?thesis
    by (auto simp: Let_def)
qed

end
