(* ===== verification/Indexer_Jobs.thy ===== *)
theory Indexer_Jobs
  imports Quantizer Index_Writer
begin

text \<open>
  The programs of the index build under \<open>indexer/src\<close>: \<open>mapper.cc\<close> prints one line for every word of
  every picture, \<open>reducer.cc\<close> collects the lines of a word, which arrive together, into a bucket,
  \<open>normalize_mapper.cc\<close> and \<open>normalize_reducer.cc\<close> weight the words and normalise the weights of a
  picture, and \<open>after_normalize_reducer.cc\<close> collects buckets again. Each program is a function from its
  standard input to its standard output. Sums of \<open>int\<close> do not overflow here.

  What Boost and the stream library do is an argument: \<open>jl_split_any\<close> cuts at any of several
  characters, \<open>jl_float\<close> is \<open>lexical_cast<float>\<close>, \<open>jl_show_float\<close> prints a float and
  \<open>jl_show_log10\<close> the logarithm of an integer.
\<close>

record job_lib =
  jl_boost :: boost
  jl_split_any :: "string \<Rightarrow> string \<Rightarrow> string list"
  jl_float :: "string \<Rightarrow> f32 option"
  jl_show_float :: "f32 \<Rightarrow> string"
  jl_show_log10 :: "int \<Rightarrow> string"

abbreviation TAB :: char where "TAB \<equiv> CHR 0x09"
abbreviation NL :: char where "NL \<equiv> CHR 0x0A"

text \<open>\<open>lexical_cast<int>\<close> and \<open>lexical_cast<int64_t>\<close>; an exception is \<open>None\<close>.\<close>

definition lex_int64 :: "job_lib \<Rightarrow> string \<Rightarrow> int option" where
  "lex_int64 L s = b_lexical_cast (jl_boost L) s"

definition lex_int :: "job_lib \<Rightarrow> string \<Rightarrow> int option" where
  "lex_int L s = (case lex_int64 L s of None \<Rightarrow> None | Some k \<Rightarrow> if - (2 ^ 31) \<le> k \<and> k < 2 ^ 31 then Some k else None)"

subsection \<open>Lines of the standard input\<close>

text \<open>\<open>fgets(buf, 8191, stdin)\<close> until the end of the input, and the C strings in the buffer.\<close>

definition fgets_piece :: "nat \<Rightarrow> string \<Rightarrow> string" where
  "fgets_piece n s = (let body = takeWhile (\<lambda>c. c \<noteq> NL) (take n s) in take (length body + 1) (take n s))"

lemma fgets_piece_length: "0 < n \<Longrightarrow> s \<noteq> [] \<Longrightarrow> 0 < length (fgets_piece n s)"
  by (cases s; cases n) (auto simp: fgets_piece_def)

function fgets_all :: "string \<Rightarrow> string list" where
  "fgets_all s =
     (if s = [] then []
      else let p = fgets_piece 8190 s in takeWhile (\<lambda>c. c \<noteq> CHR 0x00) p # fgets_all (drop (length p) s))"
  by pat_completeness auto
termination by (relation "measure length") (use fgets_piece_length [of 8190] in \<open>auto simp: Let_def\<close>)

declare fgets_all.simps [simp del]

lemma fgets_all_line:
  assumes "NL \<notin> set l" "CHR 0x00 \<notin> set l" "length l < 8190"
  shows "fgets_all (l @ NL # rest) = (l @ [NL]) # fgets_all rest"
proof -
  have tw: "takeWhile (\<lambda>c. c \<noteq> NL) (take 8190 (l @ NL # rest)) = l"
    using assms(1,3) by (cases "8190 - length l") (auto simp: takeWhile_append)
  then have "fgets_piece 8190 (l @ NL # rest) = l @ [NL]"
    using assms(3) by (auto simp: fgets_piece_def Let_def)
  moreover have "takeWhile (\<lambda>c. c \<noteq> CHR 0x00) (l @ [NL]) = l @ [NL]" using assms(2) by (auto simp: takeWhile_append)
  ultimately show ?thesis by (subst fgets_all.simps) (simp add: Let_def)
qed

subsection \<open>The mapper\<close>

text \<open>
  \<open>ImageQuantizer::Analyze\<close>: the picture is fetched, decoded, and its key points (by their angles) and
  descriptors are computed; the tools are arguments. The result is the code, the number of features
  and the words.
\<close>

record 'img image_tools =
  it_get :: "string \<Rightarrow> 'img option"
  it_detect :: "'img \<Rightarrow> int \<times> f32 list"
  it_extract :: "'img \<Rightarrow> f32 list \<Rightarrow> int \<times> f32 list \<times> f32 list list"
  it_descriptor :: "'img \<Rightarrow> f32 list list"

definition Analyze ::
    "f32_ops \<Rightarrow> 'img image_tools \<Rightarrow> knn_search \<Rightarrow> knn_quantizer \<Rightarrow> bool \<Rightarrow> string \<Rightarrow> QuantizerFlag \<Rightarrow> BOFQuantizeResultMap
       \<Rightarrow> (int \<times> nat \<times> BOFQuantizeResultMap) cxx" where
  "Analyze ops T search q need_extractor key flag result =
     (case it_get T key of
        None \<Rightarrow> Some (-1, 0, result)
      | Some img \<Rightarrow>
          let (ret, points) = it_detect T img in
          if ret \<noteq> 0 then Some (-2, 0, result)
          else let (ret', points', descriptors) = (if need_extractor then it_extract T img points else (0, points, it_descriptor T img)) in
            if ret' \<noteq> 0 then Some (-3, 0, result)
            else (case Knn_Compute ops search q descriptors points' flag of
                None \<Rightarrow> None
              | Some (r, m) \<Rightarrow> Some (if r \<noteq> 0 then -4 else 0, length descriptors, m)))"

definition or_plus :: "string \<Rightarrow> string" where
  "or_plus s = (if s = [] then ''+'' else s)"

text \<open>A line: word, picture, weight, codes and angles.\<close>

definition index_line :: "int \<Rightarrow> int \<Rightarrow> string \<Rightarrow> string \<Rightarrow> string \<Rightarrow> string" where
  "index_line a b qt he an = show_int a @ [TAB] @ show_int b @ [TAB] @ qt @ [TAB] @ he @ [TAB] @ an @ [NL]"

definition mapper_line :: "job_lib \<Rightarrow> f32_ops \<Rightarrow> int \<Rightarrow> nat \<Rightarrow> int \<times> BOFQuantizeResult \<Rightarrow> string" where
  "mapper_line L ops pic_id features_num e =
     index_line (fst e) pic_id (jl_show_float L (f_div ops (q_weight (snd e)) (f_of_int ops (int features_num))))
       (or_plus (word_info (snd e) ! 0)) (or_plus (word_info (snd e) ! 1))"

text \<open>The loop over the pictures; the words of the former picture are passed on to \<open>Analyze\<close>.\<close>

primrec mapper_loop ::
    "job_lib \<Rightarrow> f32_ops \<Rightarrow> (int \<times> string \<Rightarrow> BOFQuantizeResultMap \<Rightarrow> (int \<times> nat \<times> BOFQuantizeResultMap) cxx) \<Rightarrow> (int \<times> string) list
       \<Rightarrow> BOFQuantizeResultMap \<Rightarrow> string cxx" where
  "mapper_loop L ops analyze [] result = Some []"
| "mapper_loop L ops analyze (pk # pks) result =
     (case analyze pk result of
        None \<Rightarrow> None
      | Some (ret, n, m) \<Rightarrow>
          map_option (\<lambda>rest. (if ret \<noteq> 0 then [] else concat (map (mapper_line L ops (fst pk) n) m)) @ rest)
            (mapper_loop L ops analyze pks m))"

definition mapper_main ::
    "job_lib \<Rightarrow> f32_ops \<Rightarrow> 'img image_tools \<Rightarrow> knn_search \<Rightarrow> knn_quantizer \<Rightarrow> bool \<Rightarrow> (int \<times> string) list \<Rightarrow> string cxx" where
  "mapper_main L ops T search q need_extractor pics =
     map_option (\<lambda>out. out @ ''-2'' @ [TAB] @ show_int (int (length pics)) @ [NL])
       (mapper_loop L ops (\<lambda>(pic_id, key). Analyze ops T search q need_extractor key QUANTIZER_FLAG_HE) pics [])"

subsection \<open>The reducer\<close>

record reducer_state =
  rd_prev_bucket :: int
  rd_word_num :: int
  rd_file_num :: int
  rd_words_stat :: "(int \<times> int) list"
  rd_result :: "ReducerBucketResult option"
  rd_out :: string

definition reducer_start :: reducer_state where
  "reducer_start = \<lparr>rd_prev_bucket = -1, rd_word_num = 0, rd_file_num = 0, rd_words_stat = [], rd_result = None, rd_out = []\<rparr>"

text \<open>The bucket of the previous lines is printed and counted.\<close>

definition close_bucket :: "job_lib \<Rightarrow> reducer_state \<Rightarrow> reducer_state cxx" where
  "close_bucket L s =
     (case rd_result s of
        None \<Rightarrow> Some s
      | Some rb \<Rightarrow> (case PrintResult (jl_boost L) rb of
          None \<Rightarrow> None
        | Some t \<Rightarrow> Some (s\<lparr>rd_words_stat := rd_words_stat s @ [(rd_prev_bucket s, rd_word_num s)], rd_word_num := 0,
                           rd_out := rd_out s @ t, rd_result := None\<rparr>)))"

definition open_bucket :: "int \<Rightarrow> reducer_state \<Rightarrow> reducer_state" where
  "open_bucket cur s = s\<lparr>rd_result := Some (snd (ReducerBucket_Init (ReducerBucketResult_new (word_of_int cur))))\<rparr>"

definition switch_bucket :: "job_lib \<Rightarrow> int \<Rightarrow> reducer_state \<Rightarrow> reducer_state cxx" where
  "switch_bucket L cur s = (if cur = rd_prev_bucket s then Some s else map_option (open_bucket cur) (close_bucket L s))"

text \<open>
  \<open>AddLine\<close> of the fields and the new previous bucket; a number that cannot be read is an exception,
  which ends the line.
\<close>

definition add_fields :: "job_lib \<Rightarrow> int \<Rightarrow> string \<Rightarrow> string \<Rightarrow> string \<Rightarrow> string \<Rightarrow> reducer_state \<Rightarrow> reducer_state cxx" where
  "add_fields L cur pic qt he an s =
     (case (lex_int64 L pic, jl_float L qt) of
        (Some pic_id, Some q) \<Rightarrow>
          (case rd_result s of
             None \<Rightarrow> None
           | Some rb \<Rightarrow> map_option (\<lambda>(_, rb'). s\<lparr>rd_result := Some rb', rd_prev_bucket := cur\<rparr>) (AddLine rb (word_of_int pic_id) q he an))
      | _ \<Rightarrow> Some s)"

text \<open>The number of pictures is an \<open>int\<close>; its overflow is undefined.\<close>

definition reducer_line :: "job_lib \<Rightarrow> string \<Rightarrow> reducer_state \<Rightarrow> reducer_state cxx" where
  "reducer_line L buf s =
     (let fields = b_split (jl_boost L) TAB buf in
      if length fields < 2 then Some s
      else case lex_int L (fields ! 0) of
        None \<Rightarrow> Some s
      | Some cur \<Rightarrow>
          if 0 \<le> cur then
            if length fields < 5 then Some s
            else (case switch_bucket L cur s of
                None \<Rightarrow> None
              | Some s1 \<Rightarrow> add_fields L cur (fields ! 1) (fields ! 2) (fields ! 3) (fields ! 4) (s1\<lparr>rd_word_num := rd_word_num s1 + 1\<rparr>))
          else if cur = -2 then
            (case lex_int L (b_trim (jl_boost L) (fields ! 1)) of 
               None \<Rightarrow> Some s
             | Some n \<Rightarrow>
                 let k = rd_file_num s + n in
                 if - (2 ^ 31) \<le> k \<and> k < 2 ^ 31 then Some (s\<lparr>rd_file_num := k\<rparr>) else None)
          else Some s)"

primrec feed_lines :: "(string \<Rightarrow> 's \<Rightarrow> 's cxx) \<Rightarrow> string list \<Rightarrow> 's \<Rightarrow> 's cxx" where
  "feed_lines f [] s = Some s"
| "feed_lines f (l # ls) s = (case f l s of None \<Rightarrow> None | Some s' \<Rightarrow> feed_lines f ls s')"

text \<open>The last bucket, followed by an empty line, and the weights of the words.\<close>

definition last_bucket :: "job_lib \<Rightarrow> reducer_state \<Rightarrow> reducer_state cxx" where
  "last_bucket L s =
     (case rd_result s of None \<Rightarrow> Some s | Some _ \<Rightarrow> map_option (\<lambda>s'. s'\<lparr>rd_out := rd_out s' @ [NL]\<rparr>) (close_bucket L s))"

primrec idf_lines :: "job_lib \<Rightarrow> int \<Rightarrow> (int \<times> int) list \<Rightarrow> string cxx" where
  "idf_lines L file_num [] = Some []"
| "idf_lines L file_num (wc # wcs) =
     (if snd wc = 0 then None
      else map_option (\<lambda>t. ''-1'' @ [TAB] @ show_int (fst wc) @ [TAB] @ jl_show_log10 L (file_num sdiv snd wc) @ [NL] @ t) (idf_lines L file_num wcs))"

definition reducer_main :: "job_lib \<Rightarrow> string \<Rightarrow> string cxx" where
  "reducer_main L input =
     (case feed_lines (reducer_line L) (fgets_all input) reducer_start of
        None \<Rightarrow> None
      | Some s \<Rightarrow> (case last_bucket L s of
          None \<Rightarrow> None
        | Some s' \<Rightarrow> map_option (\<lambda>t. rd_out s' @ t) (idf_lines L (rd_file_num s') (rd_words_stat s'))))"

text \<open>
  The contract of the handler of one line: in a consistent state with room for what the line asks, the
  line is handled and the state stays consistent. Then every input with room for its lines is.
\<close>

locale line_job =
  fixes line :: "string \<Rightarrow> 's \<Rightarrow> 's cxx" and asks :: "string \<Rightarrow> nat" and ok :: "nat \<Rightarrow> 's \<Rightarrow> bool"
  assumes line_ok: "ok (asks l + n) s \<Longrightarrow> \<exists>s'. line l s = Some s' \<and> ok n s'"
begin

lemma lines_ok: "ok (sum_list (map asks ls) + n) s \<Longrightarrow> \<exists>s'. feed_lines line ls s = Some s' \<and> ok n s'"
proof (induction ls arbitrary: s)
  case (Cons l ls)
  then have "ok (asks l + (sum_list (map asks ls) + n)) s" by (simp add: add.assoc)
  from line_ok [OF this] obtain s1 where "line l s = Some s1" "ok (sum_list (map asks ls) + n) s1" by blast
  then show ?case using Cons.IH by simp
qed simp

end

subsection \<open>The reducer always ends well\<close>

text \<open>
  While a bucket is open it exists and at least one line was counted, so the mean per picture never
  divides by zero; a previous bucket is open.
\<close>

definition reducer_inv :: "reducer_state \<Rightarrow> bool" where
  "reducer_inv s \<longleftrightarrow>
     (case rd_result s of None \<Rightarrow> rd_word_num s = 0 \<and> rd_prev_bucket s < 0
      | Some rb \<Rightarrow> rb_bucket rb \<noteq> None \<and> 0 < rd_word_num s) \<and> (\<forall>wc \<in> set (rd_words_stat s). 0 < snd wc)"

lemma close_bucket_inv:
  assumes "reducer_inv s"
  shows "\<exists>s'. close_bucket L s = Some s' \<and> rd_result s' = None \<and> rd_word_num s' = 0 \<and> (\<forall>wc \<in> set (rd_words_stat s'). 0 < snd wc) \<and>
    rd_file_num s' = rd_file_num s"
  using assms by (auto simp: reducer_inv_def close_bucket_def PrintResult_def Let_def split: option.splits)

lemma add_fields_inv:
  assumes "rd_result s = Some rb" "rb_bucket rb \<noteq> None" "0 < rd_word_num s" "\<forall>wc \<in> set (rd_words_stat s). 0 < snd wc"
  shows "\<exists>s'. add_fields L cur pic qt he an s = Some s' \<and> reducer_inv s' \<and> rd_file_num s' = rd_file_num s"
  using assms by (auto simp: reducer_inv_def add_fields_def AddLine_def AddItem_info_def AddItem_def Let_def split: option.splits)

text \<open>The number of pictures a line announces.\<close>

definition announced :: "job_lib \<Rightarrow> string \<Rightarrow> nat" where
  "announced L buf =
     (let fields = b_split (jl_boost L) TAB buf in
      if length fields < 2 \<or> lex_int L (fields ! 0) \<noteq> Some (-2) then 0
      else case lex_int L (b_trim (jl_boost L) (fields ! 1)) of None \<Rightarrow> 0 | Some n \<Rightarrow> nat \<bar>n\<bar>)"

definition reducer_room :: "nat \<Rightarrow> reducer_state \<Rightarrow> bool" where
  "reducer_room n s \<longleftrightarrow> reducer_inv s \<and> \<bar>rd_file_num s\<bar> + int n < 2 ^ 31"

lemma reducer_line_inv [keeps]:
  assumes "reducer_room (announced L buf + n) s"
  shows "\<exists>s'. reducer_line L buf s = Some s' \<and> reducer_room n s'"
proof -
  have inv: "reducer_inv s" and room: "\<bar>rd_file_num s\<bar> + int (announced L buf + n) < 2 ^ 31" using assms by (simp_all add: reducer_room_def)
  have switch: "\<exists>s'. switch_bucket L cur s = Some s' \<and> (\<exists>rb. rd_result s' = Some rb \<and> rb_bucket rb \<noteq> None) \<and> 0 \<le> rd_word_num s' \<and>
      (\<forall>wc \<in> set (rd_words_stat s'). 0 < snd wc) \<and> rd_file_num s' = rd_file_num s" if "0 \<le> cur" for cur
    using close_bucket_inv [OF inv, of L] inv that
    by (auto simp: switch_bucket_def open_bucket_def ReducerBucket_Init_def ReducerBucketResult_new_def reducer_inv_def split: option.splits)
  have item: "\<exists>s'. (case switch_bucket L cur s of None \<Rightarrow> None
      | Some s1 \<Rightarrow> add_fields L cur p qt he an (s1\<lparr>rd_word_num := rd_word_num s1 + 1\<rparr>)) = Some s' \<and> reducer_room n s'" if cur: "0 \<le> cur" for cur p qt he an
  proof -
    obtain s1 rb where s1: "switch_bucket L cur s = Some s1" "rd_result s1 = Some rb" "rb_bucket rb \<noteq> None" "0 \<le> rd_word_num s1"
      "\<forall>wc \<in> set (rd_words_stat s1). 0 < snd wc" "rd_file_num s1 = rd_file_num s" using switch [OF cur] by blast
    then obtain s' where "add_fields L cur p qt he an (s1\<lparr>rd_word_num := rd_word_num s1 + 1\<rparr>) = Some s'" "reducer_inv s'" "rd_file_num s' = rd_file_num s"
      using add_fields_inv [of "s1\<lparr>rd_word_num := rd_word_num s1 + 1\<rparr>" rb L cur p qt he an] by auto
    then show ?thesis using s1(1) room by (simp add: reducer_room_def)
  qed
  have same: "reducer_room n s" using inv room by (simp add: reducer_room_def)
  let ?fs = "b_split (jl_boost L) TAB buf"
  have "\<exists>s'. reducer_line L buf s = Some s' \<and> reducer_room n s'"
    if "\<not> length ?fs < 2" "lex_int L (?fs ! 0) = Some (-2)" "lex_int L (b_trim (jl_boost L) (?fs ! 1)) = Some k" for k
  proof -
    have "\<bar>rd_file_num s\<bar> + (\<bar>k\<bar> + int n) < 2 ^ 31" using that room by (simp add: announced_def)
    then have "\<bar>rd_file_num s + k\<bar> + int n < 2 ^ 31" "- (2 ^ 31) \<le> rd_file_num s + k" "rd_file_num s + k < 2 ^ 31" by linarith+
    moreover have "reducer_inv (s\<lparr>rd_file_num := rd_file_num s + k\<rparr>)" using inv by (simp add: reducer_inv_def split: option.splits)
    ultimately show ?thesis using that by (simp add: reducer_line_def reducer_room_def)
  qed
  then show ?thesis using same item unfolding reducer_line_def Let_def by (auto split: option.splits)
qed

interpretation reducer_job: line_job "reducer_line L" "announced L" reducer_room for L
  by unfold_locales (rule reducer_line_inv)

lemma idf_lines_defined: "\<forall>wc \<in> set wcs. 0 < snd wc \<Longrightarrow> \<exists>t. idf_lines L n wcs = Some t"
  by (induction wcs) auto

text \<open>
  C37. Reducer: for every input, whatever its lines, the reducer ends with an output as long as the
  numbers of pictures announced in it stay within an \<open>int\<close>; no bucket is missing when a line is added
  and no word with a count of zero is divided by.
\<close>

theorem reducer_main_defined:
  assumes "sum_list (map (announced L) (fgets_all input)) < 2 ^ 31"
  shows "\<exists>out. reducer_main L input = Some out"
proof -
  have "reducer_room n reducer_start" if "n < 2 ^ 31" for n
    using that by (simp add: reducer_room_def reducer_inv_def reducer_start_def)
  from this [OF assms] have "reducer_room (sum_list (map (announced L) (fgets_all input)) + 0) reducer_start" by simp
  then obtain s where s: "feed_lines (reducer_line L) (fgets_all input) reducer_start = Some s" "reducer_inv s"
    using reducer_job.lines_ok unfolding reducer_room_def by blast
  from close_bucket_inv [OF s(2), of L] obtain s' where "last_bucket L s = Some s'" "\<forall>wc \<in> set (rd_words_stat s'). 0 < snd wc"
    using s(2) by (cases "rd_result s") (auto simp: last_bucket_def reducer_inv_def)
  then show ?thesis using s(1) idf_lines_defined by (auto simp: reducer_main_def)
qed

subsection \<open>What the reducer prints\<close>

text \<open>
  What the programs rely on: cutting at tabulators gives back the fields, and a printed number is read
  back, also after the line feed was trimmed.
\<close>

fun tabbed :: "string list \<Rightarrow> string" where
  "tabbed [] = []"
| "tabbed [x] = x"
| "tabbed (x # y # ys) = x @ TAB # tabbed (y # ys)"

definition job_reads :: "job_lib \<Rightarrow> bool" where
  "job_reads L \<longleftrightarrow>
     (\<forall>xs. xs \<noteq> [] \<longrightarrow> (\<forall>x \<in> set xs. TAB \<notin> set x) \<longrightarrow> b_split (jl_boost L) TAB (tabbed xs) = xs) \<and>
     (\<forall>k. - (2 ^ 63) \<le> k \<longrightarrow> k < 2 ^ 63 \<longrightarrow> b_lexical_cast (jl_boost L) (show_int k) = Some k \<and>
        b_lexical_cast (jl_boost L) (b_trim (jl_boost L) (show_int k @ [NL])) = Some k)"

text \<open>A line without its first number; the second one is the picture here and the word in the normalisation.\<close>

record index_entry =
  ie_id :: int
  ie_weight :: string
  ie_codes :: string
  ie_angles :: string

definition entry_line :: "int \<Rightarrow> index_entry \<Rightarrow> string" where
  "entry_line w e = index_line w (ie_id e) (ie_weight e) (ie_codes e) (ie_angles e)"

definition entry_ok :: "job_lib \<Rightarrow> int \<Rightarrow> index_entry \<Rightarrow> bool" where
  "entry_ok L w e \<longleftrightarrow> - (2 ^ 63) \<le> ie_id e \<and> ie_id e < 2 ^ 63 \<and> jl_float L (ie_weight e) \<noteq> None \<and> length (entry_line w e) \<le> 8190 \<and>
     (\<forall>c \<in> set (ie_weight e) \<union> set (ie_codes e) \<union> set (ie_angles e). c \<noteq> TAB \<and> c \<noteq> NL \<and> c \<noteq> CHR 0x00)"

text \<open>The line feed stays part of the angles.\<close>

definition entry_item :: "job_lib \<Rightarrow> index_entry \<Rightarrow> BOFIndexItem" where
  "entry_item L e = \<lparr>bi_pic_id = ucast (word_of_int (ie_id e) :: u64),
     bi_bof_info = \<lparr>q_weight = the (jl_float L (ie_weight e)), word_info = [ie_codes e, ie_angles e @ [NL]]\<rparr>\<rparr>"

type_synonym index_group = "int \<times> index_entry list"

definition group_text :: "index_group \<Rightarrow> string" where
  "group_text g = concat (map (entry_line (fst g)) (snd g))"

definition group_bucket :: "(index_entry \<Rightarrow> BOFIndexItem) \<Rightarrow> index_group \<Rightarrow> BOFIndexBucket" where
  "group_bucket item g = \<lparr>bucket_id = word_of_int (fst g), bucket_items = map item (snd g)\<rparr>"

definition group_ok :: "(int \<Rightarrow> index_entry \<Rightarrow> bool) \<Rightarrow> index_group \<Rightarrow> bool" where
  "group_ok fits g \<longleftrightarrow> 0 \<le> fst g \<and> fst g < 2 ^ 31 \<and> snd g \<noteq> [] \<and> (\<forall>e \<in> set (snd g). fits (fst g) e)"

text \<open>The state after the lines of some groups; a line becomes an item and adds \<open>k\<close> to the number of words.\<close>

definition after_groups :: "boost \<Rightarrow> (index_entry \<Rightarrow> BOFIndexItem) \<Rightarrow> int \<Rightarrow> int \<Rightarrow> index_group list \<Rightarrow> reducer_state" where
  "after_groups B item k n gs =
     (if gs = [] then reducer_start\<lparr>rd_file_num := n\<rparr>
      else \<lparr>rd_prev_bucket = fst (last gs), rd_word_num = k * int (length (snd (last gs))), rd_file_num = n,
        rd_words_stat = map (\<lambda>g. (fst g, k * int (length (snd g)))) (butlast gs),
        rd_result = Some \<lparr>rb_bucket_id = word_of_int (fst (last gs)), rb_bucket = Some (group_bucket item (last gs))\<rparr>,
        rd_out = reducer_output B (map (group_bucket item) (butlast gs))\<rparr>)"

lemma feed_lines_append:
  "feed_lines f (xs @ ys) s = (case feed_lines f xs s of None \<Rightarrow> None | Some s' \<Rightarrow> feed_lines f ys s')"
  by (induction xs arbitrary: s) (auto split: option.splits)

lemma switch_bucket_group:
  assumes "gs = [] \<or> fst (last gs) \<noteq> w" and "0 \<le> w"
  shows "switch_bucket L w (after_groups (jl_boost L) item k n gs) =
    Some \<lparr>rd_prev_bucket = (if gs = [] then -1 else fst (last gs)), rd_word_num = 0, rd_file_num = n,
      rd_words_stat = map (\<lambda>g. (fst g, k * int (length (snd g)))) gs,
      rd_result = Some \<lparr>rb_bucket_id = word_of_int w, rb_bucket = Some \<lparr>bucket_id = word_of_int w, bucket_items = []\<rparr>\<rparr>,
      rd_out = reducer_output (jl_boost L) (map (group_bucket item) gs)\<rparr>"
proof (cases gs rule: rev_cases)
  case Nil
  then show ?thesis using assms(2) by (simp add: switch_bucket_def after_groups_def reducer_start_def close_bucket_def open_bucket_def
      ReducerBucket_Init_def ReducerBucketResult_new_def BOFIndexBucket_new_def reducer_output_def)
next
  case (snoc hs g)
  then show ?thesis using assms(1) by (auto simp: switch_bucket_def after_groups_def close_bucket_def open_bucket_def PrintResult_def Let_def
      ReducerBucket_Init_def ReducerBucketResult_new_def BOFIndexBucket_new_def reducer_output_def group_bucket_def)
qed

text \<open>
  Lines that arrive group by group, all lines of a group having the same first number: if the line
  handler takes the state of some groups to that with one more line, in the last or in a new group,
  the whole input leads to the state of all groups.
\<close>

locale group_job =
  fixes line :: "string \<Rightarrow> 's \<Rightarrow> 's cxx" and state :: "index_group list \<Rightarrow> 's" and fits :: "int \<Rightarrow> index_entry \<Rightarrow> bool"
  assumes same_group: "fits w e \<Longrightarrow> 0 \<le> w \<Longrightarrow> w < 2 ^ 31 \<Longrightarrow> es \<noteq> [] \<Longrightarrow>
      line (entry_line w e) (state (gs @ [(w, es)])) = Some (state (gs @ [(w, es @ [e])]))"
    and new_group: "fits w e \<Longrightarrow> 0 \<le> w \<Longrightarrow> w < 2 ^ 31 \<Longrightarrow> gs = [] \<or> fst (last gs) \<noteq> w \<and> 0 \<le> fst (last gs) \<Longrightarrow>
      line (entry_line w e) (state gs) = Some (state (gs @ [(w, [e])]))"
begin

lemma feed_group:
  assumes g: "group_ok fits g" and gs: "gs = [] \<or> fst (last gs) \<noteq> fst g \<and> 0 \<le> fst (last gs)"
  shows "feed_lines line (map (entry_line (fst g)) (snd g)) (state gs) = Some (state (gs @ [g]))"
proof -
  obtain w e es where w: "g = (w, e # es)" using g by (cases g; cases "snd g") (auto simp: group_ok_def)
  have rest: "feed_lines line (map (entry_line w) es) (state (gs @ [(w, ds)])) = Some (state (gs @ [(w, ds @ es)]))"
    if "\<forall>e \<in> set es. fits w e" "ds \<noteq> []" for es ds
    using that
  proof (induction es arbitrary: ds)
    case (Cons e es)
    then show ?case using same_group [of w e ds gs] Cons.IH [of "ds @ [e]"] g w by (simp add: group_ok_def)
  qed simp
  show ?thesis using new_group [of w e gs] rest [of es "[e]"] g gs w by (simp add: group_ok_def)
qed

lemma feed_groups:
  assumes "\<forall>g \<in> set gs. group_ok fits g" "distinct (map fst gs)"
  shows "feed_lines line (concat (map (\<lambda>g. map (entry_line (fst g)) (snd g)) gs)) (state []) = Some (state gs)"
  using assms
proof (induction gs rule: rev_induct)
  case (snoc g gs)
  have "\<forall>h \<in> set gs. fst h \<noteq> fst g" using snoc.prems(2) by (auto simp: image_iff)
  moreover have "\<forall>h \<in> set gs. 0 \<le> fst h" using snoc.prems(1) by (auto simp: group_ok_def)
  ultimately have "gs = [] \<or> fst (last gs) \<noteq> fst g \<and> 0 \<le> fst (last gs)" using last_in_set by blast
  then show ?case using snoc feed_group [of g gs] by (simp add: feed_lines_append)
qed simp

end

text \<open>
  The contract of a program that collects buckets: the line of an entry switches to its bucket and adds
  the item there. Lines that arrive group by group are then collected group by group.
\<close>

locale bucket_job =
  fixes L :: job_lib and line :: "string \<Rightarrow> reducer_state \<Rightarrow> reducer_state cxx" and item :: "index_entry \<Rightarrow> BOFIndexItem" and k :: int
    and fits :: "int \<Rightarrow> index_entry \<Rightarrow> bool"
  assumes line_entry: "fits w e \<Longrightarrow> 0 \<le> w \<Longrightarrow> w < 2 ^ 31 \<Longrightarrow> switch_bucket L w s = Some s1 \<Longrightarrow>
      rd_result s1 = Some \<lparr>rb_bucket_id = i, rb_bucket = Some \<lparr>bucket_id = i, bucket_items = its\<rparr>\<rparr> \<Longrightarrow>
      line (entry_line w e) s = Some (s1\<lparr>rd_word_num := rd_word_num s1 + k, rd_prev_bucket := w,
        rd_result := Some \<lparr>rb_bucket_id = i, rb_bucket = Some \<lparr>bucket_id = i, bucket_items = its @ [item e]\<rparr>\<rparr>\<rparr>)"
begin

lemma bucket_same_group:
  assumes "fits w e" "0 \<le> w" "w < 2 ^ 31"
  shows "line (entry_line w e) (after_groups (jl_boost L) item k n (gs @ [(w, es)])) = Some (after_groups (jl_boost L) item k n (gs @ [(w, es @ [e])]))"
proof -
  have "switch_bucket L w (after_groups (jl_boost L) item k n (gs @ [(w, es)])) = Some (after_groups (jl_boost L) item k n (gs @ [(w, es)]))"
    by (simp add: switch_bucket_def after_groups_def)
  from line_entry [OF assms this] show ?thesis by (simp add: after_groups_def group_bucket_def algebra_simps)
qed

lemma bucket_new_group:
  assumes "fits w e" "0 \<le> w" "w < 2 ^ 31" and gs: "gs = [] \<or> fst (last gs) \<noteq> w"
  shows "line (entry_line w e) (after_groups (jl_boost L) item k n gs) = Some (after_groups (jl_boost L) item k n (gs @ [(w, [e])]))"
  using line_entry [OF assms(1-3) switch_bucket_group [OF gs assms(2)]] by (simp add: after_groups_def group_bucket_def)

end

sublocale bucket_job \<subseteq> groups: group_job line "after_groups (jl_boost L) item k n" fits for n
  by unfold_locales (rule bucket_same_group, assumption+, rule bucket_new_group, auto)

lemma show_int_chars: "c \<in> set (show_int k) \<Longrightarrow> c = CHR ''-'' \<or> 48 \<le> (of_char c :: nat) \<and> (of_char c :: nat) < 58"
  using set_dec [of "nat k"] set_dec [of "nat (- k)"] by (auto simp: show_int_def split: if_splits)

lemma show_int_clean: "TAB \<notin> set (show_int k)" "NL \<notin> set (show_int k)" "CHR 0x00 \<notin> set (show_int k)"
  using show_int_chars [of TAB k] show_int_chars [of NL k] show_int_chars [of "CHR 0x00" k] by auto

lemma index_line_tabbed: "index_line a b qt he an = tabbed [show_int a, show_int b, qt, he, an @ [NL]]"
  by (simp add: index_line_def)

lemma fgets_entry: "entry_ok L w e \<Longrightarrow> fgets_all (entry_line w e @ rest) = entry_line w e # fgets_all rest"
proof -
  assume e: "entry_ok L w e"
  let ?l = "show_int w @ [TAB] @ show_int (ie_id e) @ [TAB] @ ie_weight e @ [TAB] @ ie_codes e @ [TAB] @ ie_angles e"
  have l: "entry_line w e = ?l @ [NL]" by (simp add: entry_line_def index_line_def)
  moreover have "NL \<notin> set ?l" "CHR 0x00 \<notin> set ?l" using e show_int_clean by (auto simp: entry_ok_def)
  moreover have "length ?l < 8190" using e l by (simp add: entry_ok_def)
  ultimately show ?thesis using fgets_all_line [of ?l rest] by simp
qed

lemma entry_fields:
  assumes "job_reads L" and "entry_ok L w e"
  shows "b_split (jl_boost L) TAB (entry_line w e) = [show_int w, show_int (ie_id e), ie_weight e, ie_codes e, ie_angles e @ [NL]]"
proof -
  let ?fs = "[show_int w, show_int (ie_id e), ie_weight e, ie_codes e, ie_angles e @ [NL]]"
  have "\<forall>x \<in> set ?fs. TAB \<notin> set x" using assms(2) show_int_clean(1) by (auto simp: entry_ok_def)
  then show ?thesis using assms(1) unfolding entry_line_def index_line_tabbed job_reads_def by blast
qed

lemma reducer_line_entry:
  assumes L: "job_reads L" and e: "entry_ok L w e" and w: "0 \<le> w" "w < 2 ^ 31" and sw: "switch_bucket L w s = Some s1"
    and rb: "rd_result s1 = Some \<lparr>rb_bucket_id = i, rb_bucket = Some \<lparr>bucket_id = i, bucket_items = its\<rparr>\<rparr>"
  shows "reducer_line L (entry_line w e) s = Some (s1\<lparr>rd_word_num := rd_word_num s1 + 1, rd_prev_bucket := w,
    rd_result := Some \<lparr>rb_bucket_id = i, rb_bucket = Some \<lparr>bucket_id = i, bucket_items = its @ [entry_item L e]\<rparr>\<rparr>\<rparr>)"
proof -
  have "b_split (jl_boost L) TAB (entry_line w e) = [show_int w, show_int (ie_id e), ie_weight e, ie_codes e, ie_angles e @ [NL]]"
    by (rule entry_fields [OF L e])
  moreover have "lex_int64 L (show_int w) = Some w" "lex_int64 L (show_int (ie_id e)) = Some (ie_id e)"
    using L e w by (simp_all add: job_reads_def lex_int64_def entry_ok_def)
  moreover obtain q where "jl_float L (ie_weight e) = Some q" using e by (auto simp: entry_ok_def)
  ultimately show ?thesis using w sw rb
    by (simp add: reducer_line_def lex_int_def add_fields_def AddLine_def AddItem_info_def AddItem_def BOFIndexItem_Set_def
        SetBofResult_def SetPicID_def BOFIndexItem_new_def entry_item_def Let_def)
qed

interpretation reducer_buckets: bucket_job L "reducer_line L" "entry_item L" 1 "\<lambda>w e. job_reads L \<and> entry_ok L w e" for L
  by unfold_locales (use reducer_line_entry in blast)

lemma fgets_groups:
  assumes "\<forall>g \<in> set gs. group_ok (entry_ok L) g"
  shows "fgets_all (concat (map group_text gs)) = concat (map (\<lambda>g. map (entry_line (fst g)) (snd g)) gs)"
proof -
  have "fgets_all (concat (map (entry_line w) es) @ rest) = map (entry_line w) es @ fgets_all rest" if "\<forall>e \<in> set es. entry_ok L w e" for w es rest
    using that fgets_entry [of L w] by (induction es) auto
  then show ?thesis using assms
    by (induction gs) (simp_all add: group_text_def group_ok_def fgets_all.simps [of "[]"])
qed

text \<open>The lines with the numbers of pictures come first.\<close>

definition count_line :: "int \<Rightarrow> string" where
  "count_line n = ''-2'' @ [TAB] @ show_int n @ [NL]"

lemma count_line_tabbed: "count_line n = tabbed [show_int (-2), show_int n @ [NL]]"
proof -
  have "show_int (-2) = ''-2''" by code_simp
  then show ?thesis by (simp add: count_line_def)
qed

lemma fgets_count_lines:
  assumes "\<forall>n \<in> set ns. 0 \<le> n \<and> n < 2 ^ 31"
  shows "fgets_all (concat (map count_line ns) @ rest) = map count_line ns @ fgets_all rest"
  using assms
proof (induction ns)
  case (Cons n ns)
  have "length (show_int n) \<le> 10" using length_dec [of 10 "nat n"] Cons.prems by (simp add: show_int_def nat_less_iff)
  then show ?case using Cons fgets_all_line [of "''-2'' @ [TAB] @ show_int n" "concat (map count_line ns) @ rest"] show_int_clean [of n]
    by (simp add: count_line_def [of n])
qed simp

lemma feed_count_lines:
  assumes L: "job_reads L" and "\<forall>n \<in> set ns. 0 \<le> n \<and> n < 2 ^ 31" "0 \<le> k" "k + sum_list ns < 2 ^ 31"
  shows "feed_lines (reducer_line L) (map count_line ns) (after_groups B item j k []) = Some (after_groups B item j (k + sum_list ns) [])"
  using assms(2-)
proof (induction ns arbitrary: k)
  case (Cons n ns)
  let ?fs = "[show_int (-2), show_int n @ [NL]]"
  have "\<forall>x \<in> set ?fs. TAB \<notin> set x" using show_int_clean(1) by auto
  then have "b_split (jl_boost L) TAB (count_line n) = ?fs" using L unfolding count_line_tabbed job_reads_def by blast
  moreover have "lex_int L (show_int (-2)) = Some (-2)" "lex_int L (b_trim (jl_boost L) (show_int n @ [NL])) = Some n"
    using L Cons.prems by (simp_all add: job_reads_def lex_int_def lex_int64_def)
  moreover have "0 \<le> sum_list ns" using Cons.prems(1) by (intro sum_list_nonneg) auto
  ultimately have "reducer_line L (count_line n) (after_groups B item j k []) = Some (after_groups B item j (k + n) [])"
    using Cons.prems by (simp add: reducer_line_def after_groups_def Let_def)
  then show ?case using Cons.IH [of "k + n"] Cons.prems by (simp add: add.assoc)
qed simp

definition idf_text :: "job_lib \<Rightarrow> int \<Rightarrow> index_group list \<Rightarrow> string" where
  "idf_text L n gs = concat (map (\<lambda>g. ''-1'' @ [TAB] @ show_int (fst g) @ [TAB] @ jl_show_log10 L (n sdiv int (length (snd g))) @ [NL]) gs)"

lemma idf_lines_text:
  "\<forall>g \<in> set gs. snd g \<noteq> [] \<Longrightarrow> idf_lines L n (map (\<lambda>g. (fst g, int (length (snd g)))) gs) = Some (idf_text L n gs)"
  by (induction gs) (auto simp: idf_text_def)

lemma reducer_main_text:
  assumes L: "job_reads L" and ns: "\<forall>n \<in> set ns. 0 \<le> n \<and> n < 2 ^ 31" "sum_list ns < 2 ^ 31" and gs: "\<forall>g \<in> set gs. group_ok (entry_ok L) g" "distinct (map fst gs)" "gs \<noteq> []"
  shows "reducer_main L (concat (map count_line ns) @ concat (map group_text gs)) =
    Some (reducer_output (jl_boost L) (map (group_bucket (entry_item L)) gs) @ NL # idf_text L (sum_list ns) gs)"
proof -
  let ?s = "after_groups (jl_boost L) (entry_item L) 1 (sum_list ns) gs"
  have gs': "\<forall>g \<in> set gs. group_ok (\<lambda>w e. job_reads L \<and> entry_ok L w e) g" using gs(1) L by (simp add: group_ok_def)
  have "after_groups (jl_boost L) (entry_item L) 1 0 [] = reducer_start" by (simp add: after_groups_def reducer_start_def)
  then have feed: "feed_lines (reducer_line L) (fgets_all (concat (map count_line ns) @ concat (map group_text gs))) reducer_start = Some ?s"
    using feed_count_lines [OF L ns(1), of 0 "jl_boost L" "entry_item L" 1] ns(2) reducer_buckets.groups.feed_groups [OF gs' gs(2), of "sum_list ns"] fgets_count_lines [OF ns(1)] fgets_groups [OF gs(1)]
    by (simp add: feed_lines_append)
  obtain hs g where g: "gs = hs @ [g]" using gs(3) by (cases gs rule: rev_cases) auto
  have "\<exists>s'. last_bucket L ?s = Some s' \<and> rd_out s' = reducer_output (jl_boost L) (map (group_bucket (entry_item L)) gs) @ [NL] \<and>
      rd_words_stat s' = map (\<lambda>g. (fst g, int (length (snd g)))) gs \<and> rd_file_num s' = sum_list ns"
    using g by (simp add: last_bucket_def after_groups_def close_bucket_def PrintResult_def Let_def reducer_output_def group_bucket_def)
  then obtain s' where s': "last_bucket L ?s = Some s'" "rd_out s' = reducer_output (jl_boost L) (map (group_bucket (entry_item L)) gs) @ [NL]"
    "rd_words_stat s' = map (\<lambda>g. (fst g, int (length (snd g)))) gs" "rd_file_num s' = sum_list ns" by blast
  have "idf_lines L (sum_list ns) (map (\<lambda>g. (fst g, int (length (snd g)))) gs) = Some (idf_text L (sum_list ns) gs)"
    using gs(1) by (intro idf_lines_text) (auto simp: group_ok_def)
  then show ?thesis using feed s' by (simp add: reducer_main_def)
qed

text \<open>Buckets of groups that were printed are readable in the index.\<close>

lemma ParseFile_groups:
  assumes gs: "\<forall>g \<in> set gs. 0 \<le> fst g \<and> fst g < 2 ^ 31" "distinct (map fst gs)"
    and r: "ReducerResultResolver_new N = Some r" and B: "boost_reads B (map (group_bucket item) gs)"
    and ids: "\<forall>g \<in> set gs. fst g < N" and ok: "\<forall>g \<in> set gs. bucket_ok (group_bucket item g)" and t: "t = [] \<or> hd t = NL"
  shows "\<exists>r'. ParseFile B jc junk (Some (reducer_output B (map (group_bucket item) gs) @ t)) r = Some (0, r') \<and>
    (\<forall>g \<in> set gs. \<exists>wd d. LoadWord j (opened r') (fst g) WordIndex_new = Some (0, wd, Some d, opened r') \<and>
       map Some (wi_items wd) = map (\<lambda>e. convert_item (item e)) (snd g))"
proof -
  let ?bs = "map (group_bucket item) gs"
  have id: "sint (bucket_id (group_bucket item g)) = fst g" if "g \<in> set gs" for g
    using gs(1) that int_of_int32 [of "fst g"] by (auto simp: group_bucket_def)
  have "inj_on (\<lambda>g. sint (bucket_id (group_bucket item g))) (set gs)"
    using gs(2) id by (auto simp: distinct_map inj_on_def)
  then have "distinct (map bucket_id ?bs)" using gs(2) by (auto simp: distinct_map inj_on_def comp_def)
  then obtain r' where r': "ParseFile B jc junk (Some (reducer_output B ?bs @ t)) r = Some (0, r')"
    "\<forall>b \<in> set ?bs. \<exists>w d. ConvertB2W b WordIndex_new = Some (0, w) \<and> LoadWord j (opened r') (sint (bucket_id b)) WordIndex_new = Some (0, w, Some d, opened r')"
    using ParseFile_words [OF r B, of t jc junk j] ids id gs(1) ok t by auto
  have "\<exists>wd d. LoadWord j (opened r') (fst g) WordIndex_new = Some (0, wd, Some d, opened r') \<and>
      map Some (wi_items wd) = map (\<lambda>e. convert_item (item e)) (snd g)" if g: "g \<in> set gs" for g
  proof -
    obtain w d where w: "ConvertB2W (group_bucket item g) WordIndex_new = Some (0, w)" "LoadWord j (opened r') (fst g) WordIndex_new = Some (0, w, Some d, opened r')"
      using r'(2) id [OF g] g by auto
    moreover have "map Some (wi_items w) = map convert_item (bucket_items (group_bucket item g))"
      using ConvertB2W_ok [of "group_bucket item g"] ok g w(1) by (auto simp: bucket_ok_def)
    ultimately show ?thesis by (auto simp: group_bucket_def comp_def)
  qed
  then show ?thesis using r'(1) by blast
qed

text \<open>
  C17. From lines to the index: when the lines of the words arrive word by word, the output of the
  reducer, read by \<open>ParseFile\<close> into a fresh index, makes every word readable, with one entry for each of
  its lines, in order.
\<close>

theorem index_build_from_lines:
  assumes L: "job_reads L" and ns: "\<forall>n \<in> set ns. 0 \<le> n \<and> n < 2 ^ 31" "sum_list ns < 2 ^ 31" and gs: "\<forall>g \<in> set gs. group_ok (entry_ok L) g" "distinct (map fst gs)" "gs \<noteq> []"
    and r: "ReducerResultResolver_new N = Some r" and B: "boost_reads (jl_boost L) (map (group_bucket (entry_item L)) gs)"
    and ids: "\<forall>g \<in> set gs. fst g < N" and ok: "\<forall>g \<in> set gs. bucket_ok (group_bucket (entry_item L) g)"
  shows "\<exists>out r'. reducer_main L (concat (map count_line ns) @ concat (map group_text gs)) = Some out \<and>
    ParseFile (jl_boost L) jc junk (Some out) r = Some (0, r') \<and>
    (\<forall>g \<in> set gs. \<exists>wd d. LoadWord j (opened r') (fst g) WordIndex_new = Some (0, wd, Some d, opened r') \<and>
       map Some (wi_items wd) = map (\<lambda>e. convert_item (entry_item L e)) (snd g))"
proof -
  have "\<forall>g \<in> set gs. 0 \<le> fst g \<and> fst g < 2 ^ 31" using gs(1) by (auto simp: group_ok_def)
  from ParseFile_groups [OF this gs(2) r B ids ok, of "NL # idf_text L (sum_list ns) gs" jc junk j] reducer_main_text [OF L ns gs]
  show ?thesis by auto
qed

text \<open>A library for a concrete run, with an archive of one bucket.\<close>

definition read_int :: "string \<Rightarrow> int option" where
  "read_int s = (if s \<noteq> [] \<and> hd s = CHR ''-'' then map_option uminus (read_dec (tl s)) else read_dec s)"

definition trim_nl :: "string \<Rightarrow> string" where
  "trim_nl s = (if s \<noteq> [] \<and> last s = NL then butlast s else s)"

definition demo_entry :: index_entry where
  "demo_entry = \<lparr>ie_id = 77, ie_weight = ''1'', ie_codes = ''0123456789ABCDEF'', ie_angles = ''045''\<rparr>"

definition demo_entry_item :: BOFIndexItem where
  "demo_entry_item = \<lparr>bi_pic_id = 77, bi_bof_info = \<lparr>q_weight = f32_one, word_info = [''0123456789ABCDEF'', ''045'' @ [NL]]\<rparr>\<rparr>"

definition demo_lib :: job_lib where
  "demo_lib = \<lparr>jl_boost = \<lparr>b_split = split_on, b_trim = trim_nl, b_lexical_cast = read_int, b_save = (\<lambda>b. ''x''),
       b_load = (\<lambda>s. Some \<lparr>bucket_id = 1, bucket_items = [demo_entry_item]\<rparr>)\<rparr>,
     jl_split_any = (\<lambda>cs. split_on TAB), jl_float = (\<lambda>s. Some f32_one), jl_show_float = (\<lambda>x. ''1''), jl_show_log10 = (\<lambda>k. ''0'')\<rparr>"

lemma read_int_show: "read_int (show_int k) = Some k"
proof -
  have "hd (dec n) \<noteq> CHR ''-''" for n using set_dec [of n] hd_in_set [OF dec_nonempty, of n] by auto
  then show ?thesis by (simp add: read_int_def show_int_def read_dec_dec dec_nonempty)
qed

lemma trim_nl_show: "trim_nl (show_int k @ [NL]) = show_int k" "trim_nl (show_int k) = show_int k"
proof -
  have "show_int k = [] \<or> last (show_int k) \<noteq> NL" using show_int_clean(2) [of k] by (metis last_in_set)
  then show "trim_nl (show_int k @ [NL]) = show_int k" "trim_nl (show_int k) = show_int k" by (auto simp: trim_nl_def)
qed

lemma split_on_tabbed: "xs \<noteq> [] \<Longrightarrow> \<forall>x \<in> set xs. TAB \<notin> set x \<Longrightarrow> split_on TAB (tabbed xs) = xs"
proof (induction xs rule: tabbed.induct)
  case (3 x y ys)
  have "split_on TAB (u @ TAB # t) = u # split_on TAB t" if "TAB \<notin> set u" for u t using that by (induction u) auto
  then show ?case using 3 by simp
qed (simp_all add: split_on_clean)

lemma demo_lib_reads: "job_reads demo_lib"
  by (simp add: job_reads_def demo_lib_def split_on_tabbed read_int_show trim_nl_show)

lemma demo_group_bucket: "group_bucket (entry_item demo_lib) (1, [demo_entry]) = \<lparr>bucket_id = 1, bucket_items = [demo_entry_item]\<rparr>"
  by (simp add: group_bucket_def entry_item_def demo_entry_def demo_lib_def demo_entry_item_def)

lemma demo_item_converts: "convert_item demo_entry_item = Some \<lparr>ii_pic_id = 77, ii_weight = f32_one, ii_length = 1,
    ii_he = [he_word ''0123456789ABCDEF'' 0], ii_angle = [45]\<rparr>"
  by (simp add: convert_item_def demo_entry_item_def angle_digits_def angle_char_def schar_def)

lemma demo_group_ok: "group_ok (entry_ok demo_lib) (1, [demo_entry])" "bucket_ok (group_bucket (entry_item demo_lib) (1, [demo_entry]))"
proof -
  have "length (entry_line 1 demo_entry) = 28" by code_simp
  then show "group_ok (entry_ok demo_lib) (1, [demo_entry])" by (auto simp: group_ok_def entry_ok_def demo_entry_def demo_lib_def)
  have "CalcWordIndexSize (bucket_word (group_bucket (entry_item demo_lib) (1, [demo_entry]))) = 34"
    by (simp add: demo_group_bucket bucket_word_def ConvertB2W_def demo_item_converts WordIndex_new_def CalcWordIndexSize_def GetSize_def)
  then show "bucket_ok (group_bucket (entry_item demo_lib) (1, [demo_entry]))"
    by (simp add: bucket_ok_def) (simp add: demo_group_bucket demo_entry_item_def texts_ok_def)
qed

theorem index_build_from_lines_witness:
  "\<exists>out r' wd d. reducer_main demo_lib (count_line 1 @ entry_line 1 demo_entry) = Some out \<and>
    ParseFile (jl_boost demo_lib) (\<lambda>_. CHR ''a'') (\<lambda>_. 0) (Some out) \<lparr>rr_data = [], rr_hinter = \<lparr>ih_max_bucket_num = 3, ih_items = replicate 3 HinterItem_new\<rparr>\<rparr> = Some (0, r') \<and>
    LoadWord (\<lambda>_. 0) (opened r') 1 WordIndex_new = Some (0, wd, Some d, opened r') \<and> map ii_angle (wi_items wd) = [[45]]"
proof -
  let ?r = "\<lparr>rr_data = [], rr_hinter = \<lparr>ih_max_bucket_num = 3, ih_items = replicate 3 HinterItem_new\<rparr>\<rparr>"
  have r: "ReducerResultResolver_new 3 = Some ?r" by (simp add: ReducerResultResolver_new_def IndexHinter_new_def)
  have "boost_reads (jl_boost demo_lib) (map (group_bucket (entry_item demo_lib)) [(1, [demo_entry])])"
    by (simp add: boost_reads_def demo_group_bucket) (simp add: demo_lib_def split_on_pair trim_nl_show read_int_show)
  from index_build_from_lines [OF demo_lib_reads _ _ _ _ _ r this, of "[1]" "\<lambda>_. CHR ''a''" "\<lambda>_. 0" "\<lambda>_. 0"]
  obtain out r' wd d where "reducer_main demo_lib (count_line 1 @ entry_line 1 demo_entry) = Some out"
    "ParseFile (jl_boost demo_lib) (\<lambda>_. CHR ''a'') (\<lambda>_. 0) (Some out) ?r = Some (0, r')"
    "LoadWord (\<lambda>_. 0) (opened r') 1 WordIndex_new = Some (0, wd, Some d, opened r')"
    "map Some (wi_items wd) = [convert_item (entry_item demo_lib demo_entry)]"
    using demo_group_ok by (auto simp: group_text_def)
  moreover have "entry_item demo_lib demo_entry = demo_entry_item" using demo_group_bucket by (simp add: group_bucket_def)
  ultimately show ?thesis using demo_item_converts by fastforce
qed

theorem reducer_main_defined_witness: "\<exists>out. reducer_main demo_lib (count_line 1) = Some out"
proof (rule reducer_main_defined)
  have "announced demo_lib (count_line 1) \<le> 1"
  proof -
    have "b_split (jl_boost demo_lib) TAB (count_line 1) = [show_int (-2), show_int 1 @ [NL]]"
      unfolding count_line_tabbed using split_on_tabbed [of "[show_int (-2), show_int 1 @ [NL]]"] show_int_clean(1) by (auto simp: demo_lib_def)
    then show ?thesis by (simp add: announced_def) (simp add: demo_lib_def trim_nl_show read_int_show lex_int_def lex_int64_def)
  qed
  then show "sum_list (map (announced demo_lib) (fgets_all (count_line 1))) < 2 ^ 31"
    using fgets_count_lines [of "[1]" "[]"] by (simp add: fgets_all.simps [of "[]"])
qed

end
