(* ===== verification/Normalize_Jobs.thy ===== *)
theory Normalize_Jobs
  imports Indexer_Jobs Text_Numbers
begin

text \<open>
  The second half of the index build under \<open>indexer/src\<close>: \<open>normalize_mapper.cc\<close> reads the buckets of
  the reducer and prints a line for each weighted item, \<open>normalize_reducer.cc\<close> normalises the weights of
  a picture whose lines arrive together, and \<open>after_normalize_reducer.cc\<close> collects the buckets of the
  index. \<open>image_quantized_serializer.cc\<close> prints the words of a picture as text.
\<close>

subsection \<open>Weighting the items\<close>

text \<open>The result code of \<open>Weighting\<close> is ignored; the bucket id is passed as an \<open>int\<close>.\<close>

primrec weigh_items :: "job_lib \<Rightarrow> f32_ops \<Rightarrow> idf_weighter \<Rightarrow> int \<Rightarrow> BOFIndexItem list \<Rightarrow> string cxx" where
  "weigh_items L ops iw k [] = Some []"
| "weigh_items L ops iw k (it # its) =
     (case Weighting ops iw (sint (word_of_int k :: u32)) (q_weight (bi_bof_info it)) (Some 1) of
        None \<Rightarrow> None
      | Some (_, w) \<Rightarrow>
          map_option (\<lambda>t. index_line (uint (bi_pic_id it)) k (jl_show_float L w) (word_info (bi_bof_info it) ! 0) (word_info (bi_bof_info it) ! 1) @ t)
            (weigh_items L ops iw k its))"

text \<open>The loop over the buckets; a negative length is left undefined, an exception goes on with the next line.\<close>

function normalize_loop :: "job_lib \<Rightarrow> f32_ops \<Rightarrow> idf_weighter \<Rightarrow> (nat \<Rightarrow> char) \<Rightarrow> tstream \<Rightarrow> string \<Rightarrow> string cxx" where
  "normalize_loop L ops iw jc st out =
     (if ts_eof st \<or> ts_fail st then Some out
      else let (line, st1) = getline128 st; fields = b_split (jl_boost L) TAB line in
        if ts_fail st1 \<or> line = [] then Some out
        else if length fields < 2 \<or> fields ! 0 = [] then normalize_loop L ops iw jc st1 out
        else case lex_int64 L (b_trim (jl_boost L) (fields ! 0)) of
          None \<Rightarrow> normalize_loop L ops iw jc st1 out
        | Some k \<Rightarrow>
            if k < 0 then normalize_loop L ops iw jc st1 out
            else (case lex_int64 L (b_trim (jl_boost L) (fields ! 1)) of
                None \<Rightarrow> normalize_loop L ops iw jc st1 out
              | Some n \<Rightarrow>
                  if n < 0 then None
                  else let (data, st2) = stream_read jc st1 (nat n) in
                    (case b_load (jl_boost L) data of
                       None \<Rightarrow> normalize_loop L ops iw jc st2 out
                     | Some bucket \<Rightarrow> (case weigh_items L ops iw k (bucket_items bucket) of
                         None \<Rightarrow> None
                       | Some t \<Rightarrow> normalize_loop L ops iw jc st2 (out @ t)))))"
  by pat_completeness auto
termination
proof (relation "measure (\<lambda>(_, _, _, _, st, _). stream_measure st)", goal_cases)
  case 6
  then show ?case using getline128_measure stream_read_measure by simp (metis le_less_trans)
next
  case 7
  then show ?case using getline128_measure stream_read_measure by simp (metis le_less_trans)
qed (use getline128_measure in \<open>auto simp: prod_eq_iff\<close>)

declare normalize_loop.simps [simp del]

definition normalize_mapper_main :: "job_lib \<Rightarrow> f32_ops \<Rightarrow> idf_weighter \<Rightarrow> (nat \<Rightarrow> char) \<Rightarrow> string \<Rightarrow> string cxx" where
  "normalize_mapper_main L ops iw jc input = normalize_loop L ops iw jc \<lparr>ts_rest = input, ts_eof = False, ts_fail = False\<rparr> []"

subsection \<open>Normalising a picture\<close>

record quantized_info =
  qi_word_id :: int
  qi_weight :: f32
  qi_codes :: string
  qi_angles :: string

definition AddImageQuantizedInfo :: "int \<Rightarrow> f32 \<Rightarrow> string \<Rightarrow> string \<Rightarrow> quantized_info list \<Rightarrow> quantized_info list" where
  "AddImageQuantizedInfo word_id weight codes angles infos =
     infos @ [\<lparr>qi_word_id = word_id, qi_weight = weight, qi_codes = codes, qi_angles = angles\<rparr>]"

definition info_sum :: "f32_ops \<Rightarrow> quantized_info list \<Rightarrow> f32" where
  "info_sum ops infos = foldl (\<lambda>s i. f_add ops s (qi_weight i)) f32_zero infos"

definition PrintImageNormalizedInfo :: "job_lib \<Rightarrow> f32_ops \<Rightarrow> int \<Rightarrow> quantized_info list \<Rightarrow> string" where
  "PrintImageNormalizedInfo L ops pic_id infos =
     (let sum = info_sum ops infos in
      concat (map (\<lambda>i. index_line (qi_word_id i) pic_id
          (jl_show_float L (if f32_less f32_zero sum then f_sqrt_div ops (qi_weight i) sum else f32_zero)) (qi_codes i) (qi_angles i)) infos))"

record normalize_state =
  nr_prev_picid :: int
  nr_infos :: "quantized_info list"
  nr_out :: string

definition normalize_start :: normalize_state where
  "normalize_start = \<lparr>nr_prev_picid = -1, nr_infos = [], nr_out = []\<rparr>"

text \<open>The first line of a new picture only prints the previous picture.\<close>

definition normalize_line :: "job_lib \<Rightarrow> f32_ops \<Rightarrow> string \<Rightarrow> normalize_state \<Rightarrow> normalize_state cxx" where
  "normalize_line L ops buf s =
     (let fields = b_split (jl_boost L) TAB buf in
      if length fields < 2 then Some s
      else case lex_int L (fields ! 0) of
        None \<Rightarrow> Some s
      | Some cur \<Rightarrow>
          if cur \<noteq> nr_prev_picid s \<and> nr_prev_picid s \<noteq> -1
          then Some (s\<lparr>nr_out := nr_out s @ PrintImageNormalizedInfo L ops (nr_prev_picid s) (nr_infos s), nr_infos := [], nr_prev_picid := cur\<rparr>)
          else (case lex_int L (fields ! 1) of
              None \<Rightarrow> Some s
            | Some word_id \<Rightarrow>
                if length fields < 3 then None
                else (case jl_float L (fields ! 2) of
                    None \<Rightarrow> Some s
                  | Some q \<Rightarrow>
                      if length fields < 5 then None
                      else Some (s\<lparr>nr_infos := AddImageQuantizedInfo word_id q (fields ! 3) (fields ! 4) (nr_infos s), nr_prev_picid := cur\<rparr>))))"

text \<open>The variable \<open>cur_picid\<close> printed at the end is the outer one, which still is -1.\<close>

definition normalize_reducer_main :: "job_lib \<Rightarrow> f32_ops \<Rightarrow> string \<Rightarrow> string cxx" where
  "normalize_reducer_main L ops input =
     (case feed_lines (normalize_line L ops) (fgets_all input) normalize_start of
        None \<Rightarrow> None
      | Some s \<Rightarrow> Some (nr_out s @ (if nr_infos s \<noteq> [] then PrintImageNormalizedInfo L ops (-1) (nr_infos s) else [])))"

subsection \<open>Collecting the index\<close>

definition after_line :: "job_lib \<Rightarrow> string \<Rightarrow> reducer_state \<Rightarrow> reducer_state cxx" where
  "after_line L buf s =
     (let fields = jl_split_any L ('' '' @ [TAB]) buf in
      if length fields < 5 then Some s
      else case lex_int L (fields ! 0) of
        None \<Rightarrow> Some s
      | Some cur \<Rightarrow>
          if cur < 0 then Some s
          else (case switch_bucket L cur s of
              None \<Rightarrow> None
            | Some s1 \<Rightarrow> add_fields L cur (fields ! 1) (fields ! 2) (fields ! 3) (b_trim (jl_boost L) (fields ! 4)) s1))"

definition after_normalize_main :: "job_lib \<Rightarrow> string \<Rightarrow> string cxx" where
  "after_normalize_main L input =
     (case feed_lines (after_line L) (fgets_all input) reducer_start of
        None \<Rightarrow> None
      | Some s \<Rightarrow> map_option rd_out (last_bucket L s))"

subsection \<open>The index files\<close>

text \<open>
  The loop of \<open>formatter.cc\<close> over the directory with the output of the reducers: per entry its name,
  whether \<open>stat\<close> failed, whether it is a directory and its contents (\<open>None\<close>: it cannot be opened).
\<close>

primrec formatter_loop ::
    "boost \<Rightarrow> (nat \<Rightarrow> char) \<Rightarrow> (nat \<Rightarrow> u8) \<Rightarrow> (string \<times> bool \<times> bool \<times> string option) list \<Rightarrow> ReducerResultResolver
       \<Rightarrow> (int \<times> ReducerResultResolver) cxx" where
  "formatter_loop B jc junk [] r = Some (0, r)"
| "formatter_loop B jc junk (f # fs) r =
     (let (name, stat_failed, is_dir, content) = f in
      if stat_failed \<or> is_dir \<or> take 1 name = ''.'' then formatter_loop B jc junk fs r
      else (case ParseFile B jc junk content r of
          None \<Rightarrow> None
        | Some (ret, r') \<Rightarrow> if ret \<noteq> 0 then Some (-4, r') else formatter_loop B jc junk fs r'))"

lemma formatter_loop_unreadable:
  "take 1 name \<noteq> ''.'' \<Longrightarrow> formatter_loop B jc junk ((name, False, False, None) # fs) r = Some (-4, r)"
  by (simp add: ParseFile_def)

subsection \<open>The words of a picture as text\<close>

text \<open>
  \<open>scale\<close> is \<open>(int)(q / feature_num * 10000)\<close> and \<open>unscale\<close> the division by 10000. The stream prints in
  hexadecimal, a negative number in two's complement.
\<close>

definition hex_text :: "int \<Rightarrow> string" where
  "hex_text k = hexadecimal (unat (word_of_int k :: u32))"

fun quantized_text :: "(f32 \<Rightarrow> int \<Rightarrow> int) \<Rightarrow> int \<Rightarrow> BOFQuantizeResultMap \<Rightarrow> string" where
  "quantized_text scale n [] = []"
| "quantized_text scale n [e] = hex_text (fst e) @ '':'' @ hex_text (scale (q_weight (snd e)) n)"
| "quantized_text scale n (e # e' # m) = hex_text (fst e) @ '':'' @ hex_text (scale (q_weight (snd e)) n) @ '';'' @ quantized_text scale n (e' # m)"

definition quantized_Serialize :: "(f32 \<Rightarrow> int \<Rightarrow> int) \<Rightarrow> BOFQuantizeResultMap \<Rightarrow> int \<Rightarrow> int \<times> string option" where
  "quantized_Serialize scale result feature_num =
     (if feature_num \<le> 0 then (-1, None) else (0, Some (quantized_text scale feature_num result)))"

fun read_pairs :: "job_lib \<Rightarrow> (int \<Rightarrow> f32) \<Rightarrow> string list \<Rightarrow> (int \<times> f32) list option" where
  "read_pairs L unscale (a # b # ws) =
     (case (lex_int L a, lex_int L b, read_pairs L unscale ws) of (Some w, Some k, Some ps) \<Rightarrow> Some ((w, unscale k) # ps) | _ \<Rightarrow> None)"
| "read_pairs L unscale _ = Some []"

text \<open>An exception is \<open>None\<close>.\<close>

definition quantized_Unserialize :: "job_lib \<Rightarrow> (int \<Rightarrow> f32) \<Rightarrow> string \<Rightarrow> (int \<times> (int \<times> f32) list) option" where
  "quantized_Unserialize L unscale src =
     (let words = jl_split_any L '';:'' src in
      if words = [] \<or> odd (length words) then Some (-1, []) else map_option (Pair 0) (read_pairs L unscale words))"

subsection \<open>The lines of the normalising mapper\<close>

lemma normalize_loop_bucket:
  assumes B: "boost_reads (jl_boost L) (b # bs)" and pos: "0 \<le> sint (bucket_id b)" and t: "weigh_items L ops iw (sint (bucket_id b)) (bucket_items b) = Some t"
  shows "normalize_loop L ops iw jc \<lparr>ts_rest = the (PrintResult (jl_boost L) \<lparr>rb_bucket_id = bucket_id b, rb_bucket = Some b\<rparr>) @ rest, ts_eof = False, ts_fail = False\<rparr> out =
    normalize_loop L ops iw jc \<lparr>ts_rest = rest, ts_eof = False, ts_fail = False\<rparr> (out @ t)"
proof -
  let ?B = "jl_boost L" and ?m = "nat (sint (bucket_id b))"
  let ?ss = "b_save ?B b"
  have m: "?m < 2 ^ 63" using sint_less [of "bucket_id b"] pos by simp
  from B have n: "length ?ss < 2 ^ 63" and load: "b_load ?B ?ss = Some b"
    and split: "b_split ?B TAB (dec ?m @ TAB # dec (length ?ss)) = [dec ?m, dec (length ?ss)]"
    and lex: "\<And>n. n < 2 ^ 63 \<Longrightarrow> b_lexical_cast ?B (b_trim ?B (dec n)) = Some (int n)"
    using header_line(4,5) [OF m, of "length ?ss"] by (auto simp: boost_reads_def show_int_def)
  note hl = header_line [OF m n]
  have printed: "the (PrintResult ?B \<lparr>rb_bucket_id = bucket_id b, rb_bucket = Some b\<rparr>) @ rest = (dec ?m @ TAB # dec (length ?ss)) @ NL # ?ss @ rest"
    using pos by (simp add: PrintResult_def show_int_def Let_def)
  show ?thesis
    unfolding printed using getline128_line [OF hl(1-3)] split lex [OF m] lex [OF n] load pos t
    by (subst normalize_loop.simps) (simp add: dec_nonempty stream_read_def lex_int64_def)
qed

lemma normalize_loop_output:
  assumes "boost_reads (jl_boost L) bs" and "\<forall>b \<in> set bs. 0 \<le> sint (bucket_id b) \<and> weigh_items L ops iw (sint (bucket_id b)) (bucket_items b) = Some (f b)"
    and "rest = [] \<or> hd rest = NL"
  shows "normalize_loop L ops iw jc \<lparr>ts_rest = reducer_output (jl_boost L) bs @ rest, ts_eof = False, ts_fail = False\<rparr> out = Some (out @ concat (map f bs))"
  using assms
proof (induction bs arbitrary: out)
  case Nil
  then show ?case by (subst normalize_loop.simps) (cases rest; simp add: reducer_output_def getline128_def)
next
  case (Cons b bs)
  have "boost_reads (jl_boost L) bs" using Cons.prems(1) by (simp add: boost_reads_def)
  then show ?case
    using normalize_loop_bucket [OF Cons.prems(1), of ops iw "f b" jc "reducer_output (jl_boost L) bs @ rest" out] Cons.IH [of "out @ f b"] Cons.prems(2,3)
    by (simp add: reducer_output_def)
qed

lemma weigh_items_lines:
  assumes "0 \<le> k" "k < 2 ^ 31" "k < iw_words_number iw" "iw_words_number iw \<le> int (length (iw_word_weight iw))"
  shows "weigh_items L ops iw k its = Some (concat (map (\<lambda>it. index_line (uint (bi_pic_id it)) k
    (jl_show_float L (f_mul ops (q_weight (bi_bof_info it)) (f_div ops (iw_word_weight iw ! nat k) (f_of_int ops 1))))
    (word_info (bi_bof_info it) ! 0) (word_info (bi_bof_info it) ! 1)) its))"
proof (induction its)
  case (Cons it its)
  have "sint (word_of_int k :: u32) = k" using assms(1,2) by (intro int_of_int32) auto
  then show ?case using Cons assms by (auto simp: Weighting_def Let_def)
qed simp

text \<open>
  Normalising mapper: from the output of a reducer it prints, bucket by bucket and item by item, a
  line with the picture, the word and the weighted frequency, and stops at the empty line in front of
  the weights.
\<close>

theorem normalize_mapper_lines:
  assumes "boost_reads (jl_boost L) bs" and "\<forall>b \<in> set bs. 0 \<le> sint (bucket_id b) \<and> sint (bucket_id b) < iw_words_number iw"
    and "iw_words_number iw \<le> int (length (iw_word_weight iw))"
  shows "normalize_mapper_main L ops iw jc (reducer_output (jl_boost L) bs @ NL # rest) =
    Some (concat (map (\<lambda>b. concat (map (\<lambda>it. index_line (uint (bi_pic_id it)) (sint (bucket_id b))
      (jl_show_float L (f_mul ops (q_weight (bi_bof_info it)) (f_div ops (iw_word_weight iw ! nat (sint (bucket_id b))) (f_of_int ops 1))))
      (word_info (bi_bof_info it) ! 0) (word_info (bi_bof_info it) ! 1)) (bucket_items b))) bs))"
proof -
  have "sint i < 2 ^ 31" for i :: u32 using sint_less [of i] by simp
  then have "\<forall>b \<in> set bs. 0 \<le> sint (bucket_id b) \<and> weigh_items L ops iw (sint (bucket_id b)) (bucket_items b) =
      Some (concat (map (\<lambda>it. index_line (uint (bi_pic_id it)) (sint (bucket_id b))
        (jl_show_float L (f_mul ops (q_weight (bi_bof_info it)) (f_div ops (iw_word_weight iw ! nat (sint (bucket_id b))) (f_of_int ops 1))))
        (word_info (bi_bof_info it) ! 0) (word_info (bi_bof_info it) ! 1)) (bucket_items b)))"
    using assms(2,3) weigh_items_lines by auto
  from normalize_loop_output [OF assms(1) this, of "NL # rest" jc "[]"] show ?thesis by (simp add: normalize_mapper_main_def)
qed

subsection \<open>Which lines the normalising reducer keeps\<close>

text \<open>The words that are kept of pictures whose lines arrive together: all of the first, without the first line of every other.\<close>

definition entry_info :: "job_lib \<Rightarrow> index_entry \<Rightarrow> quantized_info" where
  "entry_info L e = \<lparr>qi_word_id = ie_id e, qi_weight = the (jl_float L (ie_weight e)), qi_codes = ie_codes e, qi_angles = ie_angles e @ [NL]\<rparr>"

definition kept_infos :: "job_lib \<Rightarrow> index_group list \<Rightarrow> (int \<times> quantized_info list) list" where
  "kept_infos L gs = (case gs of [] \<Rightarrow> [] | g # hs \<Rightarrow>
     (fst g, map (entry_info L) (snd g)) # map (\<lambda>h. (fst h, map (entry_info L) (tl (snd h)))) hs)"

definition after_pictures :: "job_lib \<Rightarrow> f32_ops \<Rightarrow> index_group list \<Rightarrow> normalize_state" where
  "after_pictures L ops gs =
     (if gs = [] then normalize_start
      else \<lparr>nr_prev_picid = fst (last gs), nr_infos = snd (last (kept_infos L gs)),
        nr_out = concat (map (\<lambda>(p, is). PrintImageNormalizedInfo L ops p is) (butlast (kept_infos L gs)))\<rparr>)"

lemma kept_infos_snoc: "kept_infos L (gs @ [g]) = kept_infos L gs @ [(fst g, map (entry_info L) (if gs = [] then snd g else tl (snd g)))]"
  by (cases gs) (auto simp: kept_infos_def)

lemma kept_infos_Nil [simp]: "kept_infos L gs = [] \<longleftrightarrow> gs = []"
  by (cases gs) (auto simp: kept_infos_def)

lemma fst_last_kept: "gs \<noteq> [] \<Longrightarrow> fst (last (kept_infos L gs)) = fst (last gs)"
  by (cases gs rule: rev_cases) (auto simp: kept_infos_snoc)

lemma PrintImageNormalizedInfo_Nil [simp]: "PrintImageNormalizedInfo L ops p [] = []"
  by (simp add: PrintImageNormalizedInfo_def Let_def)

definition line_fits :: "job_lib \<Rightarrow> int \<Rightarrow> index_entry \<Rightarrow> bool" where
  "line_fits L p e \<longleftrightarrow> job_reads L \<and> entry_ok L p e \<and> - (2 ^ 31) \<le> ie_id e \<and> ie_id e < 2 ^ 31"

lemma normalize_line_entry:
  assumes "line_fits L p e" and "0 \<le> p" "p < 2 ^ 31"
  shows "normalize_line L ops (entry_line p e) s =
    Some (if p \<noteq> nr_prev_picid s \<and> nr_prev_picid s \<noteq> -1
      then s\<lparr>nr_out := nr_out s @ PrintImageNormalizedInfo L ops (nr_prev_picid s) (nr_infos s), nr_infos := [], nr_prev_picid := p\<rparr>
      else s\<lparr>nr_infos := nr_infos s @ [entry_info L e], nr_prev_picid := p\<rparr>)"
proof -
  have "lex_int L (show_int p) = Some p" "lex_int L (show_int (ie_id e)) = Some (ie_id e)"
    using assms by (simp_all add: line_fits_def job_reads_def lex_int_def lex_int64_def)
  moreover obtain q where "jl_float L (ie_weight e) = Some q" using assms(1) by (auto simp: line_fits_def entry_ok_def)
  moreover have "b_split (jl_boost L) TAB (entry_line p e) = [show_int p, show_int (ie_id e), ie_weight e, ie_codes e, ie_angles e @ [NL]]"
    using assms(1) entry_fields by (simp add: line_fits_def)
  ultimately show ?thesis by (simp add: normalize_line_def Let_def AddImageQuantizedInfo_def entry_info_def)
qed

lemma normalize_same_picture:
  assumes "line_fits L p e" "0 \<le> p" "p < 2 ^ 31" "es \<noteq> []"
  shows "normalize_line L ops (entry_line p e) (after_pictures L ops (gs @ [(p, es)])) = Some (after_pictures L ops (gs @ [(p, es @ [e])]))"
  unfolding normalize_line_entry [OF assms(1-3)] using assms(4) by (simp add: after_pictures_def kept_infos_snoc)

lemma normalize_new_picture:
  assumes "line_fits L p e" "0 \<le> p" "p < 2 ^ 31" and gs: "gs = [] \<or> fst (last gs) \<noteq> p \<and> 0 \<le> fst (last gs)"
  shows "normalize_line L ops (entry_line p e) (after_pictures L ops gs) = Some (after_pictures L ops (gs @ [(p, [e])]))"
proof (cases "gs = []")
  case True
  then show ?thesis unfolding normalize_line_entry [OF assms(1-3)] by (simp add: after_pictures_def normalize_start_def kept_infos_def)
next
  case False
  then obtain ks k where "kept_infos L gs = ks @ [k]" by (metis kept_infos_Nil rev_exhaust)
  moreover have "fst (last (kept_infos L gs)) = fst (last gs)" by (rule fst_last_kept [OF False])
  ultimately show ?thesis unfolding normalize_line_entry [OF assms(1-3)] using False gs
    by (cases k) (simp add: after_pictures_def kept_infos_snoc butlast_append)
qed

interpretation normalize_pictures: group_job "normalize_line L ops" "after_pictures L ops" "line_fits L" for L ops
  by unfold_locales (rule normalize_same_picture, assumption+, rule normalize_new_picture)

text \<open>What should be printed of a picture, in terms of the lines that came in.\<close>

definition entry_weight :: "job_lib \<Rightarrow> index_entry \<Rightarrow> f32" where
  "entry_weight L e = the (jl_float L (ie_weight e))"

definition normalised_text :: "job_lib \<Rightarrow> f32_ops \<Rightarrow> int \<Rightarrow> index_entry list \<Rightarrow> string" where
  "normalised_text L ops p es =
     (let s = foldl (f_add ops) f32_zero (map (entry_weight L) es) in
      concat (map (\<lambda>e. show_int (ie_id e) @ TAB # show_int p @ TAB #
        jl_show_float L (if f32_less f32_zero s then f_sqrt_div ops (entry_weight L e) s else f32_zero) @ TAB #
        ie_codes e @ TAB # ie_angles e @ [NL, NL]) es))"

lemma normalised_text_Nil [simp]: "normalised_text L ops p [] = []"
  by (simp add: normalised_text_def)

lemma PrintImageNormalizedInfo_text: "PrintImageNormalizedInfo L ops p (map (entry_info L) es) = normalised_text L ops p es"
  by (simp add: PrintImageNormalizedInfo_def normalised_text_def info_sum_def entry_info_def entry_weight_def index_line_def
      foldl_map Let_def comp_def cong: if_cong)

definition kept_entries :: "index_group list \<Rightarrow> index_group list" where
  "kept_entries gs = (case gs of [] \<Rightarrow> [] | g # hs \<Rightarrow> g # map (\<lambda>h. (fst h, tl (snd h))) hs)"

lemma kept_infos_entries: "kept_infos L gs = map (\<lambda>g. (fst g, map (entry_info L) (snd g))) (kept_entries gs)"
  by (simp add: kept_infos_def kept_entries_def split: list.split)

text \<open>
  C38. Normalising reducer: when the lines of each picture arrive together, the first picture is printed
  with all its words, every other one without its first line, and the last one under the number -1. A
  word is printed with its number, the picture, the root of its weight over the sum of the weights of the
  lines kept of the picture (0 if the sum is not positive), its codes and its angles, and an empty line.
\<close>

theorem normalize_reducer_output:
  assumes "\<forall>g \<in> set gs. group_ok (line_fits L) g" and "distinct (map fst gs)" and "gs \<noteq> []"
  shows "normalize_reducer_main L ops (concat (map group_text gs)) =
    Some (concat (map (\<lambda>(p, es). normalised_text L ops p es) (butlast (kept_entries gs))) @
      normalised_text L ops (-1) (snd (last (kept_entries gs))))"
proof -
  have "\<forall>g \<in> set gs. group_ok (entry_ok L) g" using assms(1) by (auto simp: group_ok_def line_fits_def)
  from fgets_groups [OF this] normalize_pictures.feed_groups [OF assms(1,2), of ops]
  have "feed_lines (normalize_line L ops) (fgets_all (concat (map group_text gs))) normalize_start = Some (after_pictures L ops gs)"
    by (simp add: after_pictures_def)
  moreover have "kept_entries gs \<noteq> []" using assms(3) by (simp add: kept_entries_def split: list.split)
  ultimately show ?thesis using assms(3)
    by (simp add: normalize_reducer_main_def after_pictures_def kept_infos_entries last_map map_butlast [symmetric] comp_def
        case_prod_unfold PrintImageNormalizedInfo_text)
qed

subsection \<open>The buckets of the index\<close>

definition after_inv :: "reducer_state \<Rightarrow> bool" where
  "after_inv s \<longleftrightarrow> (case rd_result s of None \<Rightarrow> rd_prev_bucket s < 0 | Some rb \<Rightarrow> rb_bucket rb \<noteq> None)"

lemma after_line_inv [keeps]: "after_inv s \<Longrightarrow> \<exists>s'. after_line L buf s = Some s' \<and> after_inv s'"
proof -
  assume inv: "after_inv s"
  have "\<exists>s'. switch_bucket L cur s = Some s' \<and> (\<exists>rb. rd_result s' = Some rb \<and> rb_bucket rb \<noteq> None)" if "\<not> cur < 0" for cur
    using inv that by (auto simp: after_inv_def switch_bucket_def close_bucket_def open_bucket_def PrintResult_def ReducerBucket_Init_def
        ReducerBucketResult_new_def Let_def split: option.splits)
  moreover have "\<exists>s'. add_fields L cur p qt he an s1 = Some s' \<and> after_inv s'" if "rd_result s1 = Some rb" "rb_bucket rb \<noteq> None" for s1 rb cur p qt he an
    using that by (auto simp: after_inv_def add_fields_def AddLine_def AddItem_info_def AddItem_def Let_def split: option.splits)
  ultimately have "\<exists>s'. (case switch_bucket L cur s of None \<Rightarrow> None | Some s1 \<Rightarrow> add_fields L cur p qt he an s1) = Some s' \<and> after_inv s'" if "\<not> cur < 0" for cur p qt he an
    using that by fastforce
  then show ?thesis using inv by (auto simp: after_line_def Let_def split: option.splits)
qed

interpretation after_job: line_job "after_line L" "\<lambda>_. 0" "\<lambda>_. after_inv" for L
  by unfold_locales (rule after_line_inv)

lemma after_normalize_main_defined: "\<exists>out. after_normalize_main L input = Some out"
proof -
  have "after_inv reducer_start" by (simp add: after_inv_def reducer_start_def)
  then obtain s where s: "feed_lines (after_line L) (fgets_all input) reducer_start = Some s" "after_inv s" using after_job.lines_ok by blast
  then show ?thesis
    by (auto simp: after_normalize_main_def last_bucket_def close_bucket_def PrintResult_def after_inv_def Let_def split: option.splits)
qed

text \<open>Here the fields are cut at spaces, too, and the line feed is trimmed.\<close>

definition after_reads :: "job_lib \<Rightarrow> bool" where
  "after_reads L \<longleftrightarrow> job_reads L \<and>
     (\<forall>xs. xs \<noteq> [] \<longrightarrow> (\<forall>x \<in> set xs. TAB \<notin> set x \<and> CHR '' '' \<notin> set x) \<longrightarrow> jl_split_any L ('' '' @ [TAB]) (tabbed xs) = xs) \<and>
     (\<forall>x. (\<forall>c \<in> set x. \<not> is_space c) \<longrightarrow> b_trim (jl_boost L) (x @ [NL]) = x)"

definition trimmed_item :: "job_lib \<Rightarrow> index_entry \<Rightarrow> BOFIndexItem" where
  "trimmed_item L e = \<lparr>bi_pic_id = ucast (word_of_int (ie_id e) :: u64),
     bi_bof_info = \<lparr>q_weight = the (jl_float L (ie_weight e)), word_info = [ie_codes e, ie_angles e]\<rparr>\<rparr>"

definition after_fits :: "job_lib \<Rightarrow> int \<Rightarrow> index_entry \<Rightarrow> bool" where
  "after_fits L w e \<longleftrightarrow> after_reads L \<and> entry_ok L w e \<and> (\<forall>c \<in> set (ie_weight e) \<union> set (ie_codes e) \<union> set (ie_angles e). \<not> is_space c)"

lemma after_line_entry:
  assumes e: "after_fits L w e" and w: "0 \<le> w" "w < 2 ^ 31" and sw: "switch_bucket L w s = Some s1"
    and rb: "rd_result s1 = Some \<lparr>rb_bucket_id = i, rb_bucket = Some \<lparr>bucket_id = i, bucket_items = its\<rparr>\<rparr>"
  shows "after_line L (entry_line w e) s = Some (s1\<lparr>rd_word_num := rd_word_num s1 + 0, rd_prev_bucket := w,
    rd_result := Some \<lparr>rb_bucket_id = i, rb_bucket = Some \<lparr>bucket_id = i, bucket_items = its @ [trimmed_item L e]\<rparr>\<rparr>\<rparr>)"
proof -
  let ?fs = "[show_int w, show_int (ie_id e), ie_weight e, ie_codes e, ie_angles e @ [NL]]"
  have sp: "is_space (CHR '' '')" by (simp add: is_space_def)
  have num: "CHR '' '' \<notin> set (show_int k)" for k using show_int_chars [of "CHR '' ''" k] by auto
  have L: "job_reads L" and ok: "entry_ok L w e" using e by (simp_all add: after_fits_def after_reads_def)
  have "\<forall>x \<in> set ?fs. TAB \<notin> set x \<and> CHR '' '' \<notin> set x"
    using e sp num show_int_clean(1) by (auto simp: after_fits_def entry_ok_def)
  then have "jl_split_any L ('' '' @ [TAB]) (entry_line w e) = ?fs"
    using e unfolding entry_line_def index_line_tabbed after_fits_def after_reads_def by blast
  moreover have "b_trim (jl_boost L) (ie_angles e @ [NL]) = ie_angles e" using e by (simp add: after_fits_def after_reads_def)
  moreover have "lex_int64 L (show_int w) = Some w" "lex_int64 L (show_int (ie_id e)) = Some (ie_id e)"
    using L ok w by (simp_all add: job_reads_def lex_int64_def entry_ok_def)
  moreover obtain q where "jl_float L (ie_weight e) = Some q" using ok by (auto simp: entry_ok_def)
  ultimately show ?thesis using w sw rb
    by (simp add: after_line_def lex_int_def add_fields_def AddLine_def AddItem_info_def AddItem_def BOFIndexItem_Set_def
        SetBofResult_def SetPicID_def BOFIndexItem_new_def trimmed_item_def Let_def)
qed

interpretation after_buckets: bucket_job L "after_line L" "trimmed_item L" 0 "after_fits L" for L
  by unfold_locales (rule after_line_entry)

text \<open>
  C39. Last stage: when the normalised lines arrive word by word, the output of
  \<open>after_normalize_reducer\<close>, read by \<open>ParseFile\<close>, makes every word readable with one entry for each of
  its lines.
\<close>

theorem index_build_after_normalize:
  assumes gs: "\<forall>g \<in> set gs. group_ok (after_fits L) g" "distinct (map fst gs)" "gs \<noteq> []"
    and r: "ReducerResultResolver_new N = Some r" and B: "boost_reads (jl_boost L) (map (group_bucket (trimmed_item L)) gs)"
    and ids: "\<forall>g \<in> set gs. fst g < N" and ok: "\<forall>g \<in> set gs. bucket_ok (group_bucket (trimmed_item L) g)"
  shows "\<exists>out r'. after_normalize_main L (concat (map group_text gs)) = Some out \<and> ParseFile (jl_boost L) jc junk (Some out) r = Some (0, r') \<and>
    (\<forall>g \<in> set gs. \<exists>wd d. LoadWord j (opened r') (fst g) WordIndex_new = Some (0, wd, Some d, opened r') \<and>
       map Some (wi_items wd) = map (\<lambda>e. convert_item (trimmed_item L e)) (snd g))"
proof -
  let ?st = "after_groups (jl_boost L) (trimmed_item L) 0 0"
  have "\<forall>g \<in> set gs. group_ok (entry_ok L) g" using gs(1) by (auto simp: group_ok_def after_fits_def)
  from fgets_groups [OF this] after_buckets.groups.feed_groups [OF gs(1,2), of 0]
  have feed: "feed_lines (after_line L) (fgets_all (concat (map group_text gs))) reducer_start = Some (?st gs)"
    by (simp add: after_groups_def reducer_start_def)
  obtain hs g where "gs = hs @ [g]" using gs(3) by (cases gs rule: rev_cases) auto
  then have "map_option rd_out (last_bucket L (?st gs)) = Some (reducer_output (jl_boost L) (map (group_bucket (trimmed_item L)) gs) @ [NL])"
    by (simp add: last_bucket_def after_groups_def close_bucket_def PrintResult_def Let_def reducer_output_def group_bucket_def)
  then have main: "after_normalize_main L (concat (map group_text gs)) = Some (reducer_output (jl_boost L) (map (group_bucket (trimmed_item L)) gs) @ [NL])"
    using feed by (simp add: after_normalize_main_def)
  have "\<forall>g \<in> set gs. 0 \<le> fst g \<and> fst g < 2 ^ 31" using gs(1) by (auto simp: group_ok_def)
  from ParseFile_groups [OF this gs(2) r B ids ok, of "[NL]" jc junk j] main show ?thesis by auto
qed

subsection \<open>Concrete runs\<close>

lemma demo_entry_ok: "0 \<le> w \<Longrightarrow> w < 10 \<Longrightarrow> entry_ok demo_lib w demo_entry"
proof -
  assume w: "0 \<le> w" "w < 10"
  have "length (dec 77) = 2" by code_simp
  moreover have "length (show_int w) \<le> 1" using length_dec [of 1 "nat w"] w by (simp add: show_int_def nat_less_iff)
  ultimately show ?thesis by (auto simp: entry_ok_def entry_line_def index_line_def demo_entry_def demo_lib_def show_int_def)
qed

theorem normalize_mapper_lines_witness:
  "normalize_mapper_main demo_lib demo_ops \<lparr>iw_words_number = 2, iw_word_weight = [f32_one, f32_one]\<rparr> (\<lambda>_. CHR ''a'')
     (reducer_output (jl_boost demo_lib) [group_bucket (entry_item demo_lib) (1, [demo_entry])] @ NL # []) =
   Some (index_line 77 1 ''1'' ''0123456789ABCDEF'' (''045'' @ [NL]))"
proof -
  have "boost_reads (jl_boost demo_lib) [group_bucket (entry_item demo_lib) (1, [demo_entry])]"
    by (simp add: boost_reads_def demo_group_bucket) (simp add: demo_lib_def split_on_pair trim_nl_show read_int_show)
  from normalize_mapper_lines [OF this, of "\<lparr>iw_words_number = 2, iw_word_weight = [f32_one, f32_one]\<rparr>" demo_ops "\<lambda>_. CHR ''a''" "[]"]
  show ?thesis by (simp add: demo_group_bucket demo_entry_item_def) (simp add: demo_lib_def)
qed

text \<open>Two pictures with two lines each: the first line of the second one is lost, its other line is printed under -1.\<close>

theorem normalize_reducer_output_witness:
  "normalize_reducer_main demo_lib demo_ops (concat (map group_text [(1, [demo_entry, demo_entry]), (2, [demo_entry, demo_entry])])) =
     Some (normalised_text demo_lib demo_ops 1 [demo_entry, demo_entry] @ normalised_text demo_lib demo_ops (-1) [demo_entry])"
proof -
  have "line_fits demo_lib w demo_entry" if "0 \<le> w" "w < 10" for w
    using demo_entry_ok [OF that] demo_lib_reads by (simp add: line_fits_def) (simp add: demo_entry_def)
  then have "\<forall>g \<in> set [(1, [demo_entry, demo_entry]), (2, [demo_entry, demo_entry])]. group_ok (line_fits demo_lib) g"
    by (simp add: group_ok_def)
  from normalize_reducer_output [OF this, of demo_ops] show ?thesis by (simp add: kept_entries_def)
qed

definition demo_after_lib :: job_lib where
  "demo_after_lib = demo_lib\<lparr>jl_boost := (jl_boost demo_lib)\<lparr>b_load := (\<lambda>s. Some (group_bucket (trimmed_item demo_lib) (1, [demo_entry])))\<rparr>\<rparr>"

lemma demo_after_facts:
  "trimmed_item demo_after_lib = trimmed_item demo_lib" "entry_ok demo_after_lib = entry_ok demo_lib" "job_reads demo_after_lib = job_reads demo_lib"
  by (auto simp: fun_eq_iff trimmed_item_def entry_ok_def job_reads_def demo_after_lib_def)

lemma demo_after_fits: "after_fits demo_after_lib 1 demo_entry"
proof -
  have "b_trim (jl_boost demo_after_lib) (x @ [NL]) = x" for x by (simp add: demo_after_lib_def demo_lib_def trim_nl_def)
  moreover have "jl_split_any demo_after_lib ('' '' @ [TAB]) (tabbed xs) = xs" if "xs \<noteq> []" "\<forall>x \<in> set xs. TAB \<notin> set x \<and> CHR '' '' \<notin> set x" for xs
    using split_on_tabbed [of xs] that by (simp add: demo_after_lib_def demo_lib_def)
  ultimately have "after_reads demo_after_lib" using demo_lib_reads by (auto simp: after_reads_def demo_after_facts)
  then show ?thesis using demo_entry_ok [of 1] by (auto simp: after_fits_def demo_after_facts) (auto simp: demo_entry_def is_space_def)
qed

lemma demo_trimmed_bucket: "bucket_ok (group_bucket (trimmed_item demo_lib) (1, [demo_entry]))"
proof -
  have "convert_item (trimmed_item demo_lib demo_entry) = Some \<lparr>ii_pic_id = 77, ii_weight = f32_one, ii_length = 1, ii_he = [he_word ''0123456789ABCDEF'' 0], ii_angle = [45]\<rparr>"
    by (simp add: convert_item_def trimmed_item_def demo_entry_def demo_lib_def angle_digits_def angle_char_def schar_def)
  then have "CalcWordIndexSize (bucket_word (group_bucket (trimmed_item demo_lib) (1, [demo_entry]))) = 34"
    by (simp add: group_bucket_def bucket_word_def ConvertB2W_def WordIndex_new_def CalcWordIndexSize_def GetSize_def)
  then show ?thesis by (simp add: bucket_ok_def) (simp add: group_bucket_def trimmed_item_def demo_entry_def texts_ok_def)
qed

theorem index_build_after_normalize_witness:
  "\<exists>out r' wd d. after_normalize_main demo_after_lib (entry_line 1 demo_entry) = Some out \<and>
    ParseFile (jl_boost demo_after_lib) (\<lambda>_. CHR ''a'') (\<lambda>_. 0) (Some out) \<lparr>rr_data = [], rr_hinter = \<lparr>ih_max_bucket_num = 3, ih_items = replicate 3 HinterItem_new\<rparr>\<rparr> = Some (0, r') \<and>
    LoadWord (\<lambda>_. 0) (opened r') 1 WordIndex_new = Some (0, wd, Some d, opened r') \<and> length (wi_items wd) = 1"
proof -
  let ?r = "\<lparr>rr_data = [], rr_hinter = \<lparr>ih_max_bucket_num = 3, ih_items = replicate 3 HinterItem_new\<rparr>\<rparr>" and ?gs = "[(1, [demo_entry])]"
  have r: "ReducerResultResolver_new 3 = Some ?r" by (simp add: ReducerResultResolver_new_def IndexHinter_new_def)
  have gs: "\<forall>g \<in> set ?gs. group_ok (after_fits demo_after_lib) g" using demo_after_fits by (simp add: group_ok_def)
  have B: "boost_reads (jl_boost demo_after_lib) (map (group_bucket (trimmed_item demo_after_lib)) ?gs)"
    by (simp add: boost_reads_def demo_after_facts) (simp add: demo_after_lib_def demo_lib_def split_on_pair trim_nl_show read_int_show)
  have ok: "\<forall>g \<in> set ?gs. bucket_ok (group_bucket (trimmed_item demo_after_lib) g)" using demo_trimmed_bucket by (simp add: demo_after_facts)
  from index_build_after_normalize [OF gs _ _ r B _ ok, of "\<lambda>_. CHR ''a''" "\<lambda>_. 0" "\<lambda>_. 0"]
  obtain out r' wd d where "after_normalize_main demo_after_lib (entry_line 1 demo_entry) = Some out"
    "ParseFile (jl_boost demo_after_lib) (\<lambda>_. CHR ''a'') (\<lambda>_. 0) (Some out) ?r = Some (0, r')"
    "LoadWord (\<lambda>_. 0) (opened r') 1 WordIndex_new = Some (0, wd, Some d, opened r')" "map Some (wi_items wd) = [convert_item (trimmed_item demo_after_lib demo_entry)]"
    by (auto simp: group_text_def)
  then show ?thesis by (metis length_map length_Cons list.size(3) One_nat_def)
qed

text \<open>The words of a picture are printed in hexadecimal and read in decimal: word 16 becomes word 10.\<close>

lemma quantized_word_changes:
  assumes L: "job_reads L" and "jl_split_any L '';:'' ''10:5'' = [''10'', ''5'']"
  shows "quantized_Serialize (\<lambda>_ _. 5) [(16, v)] n = (if n \<le> 0 then (-1, None) else (0, Some ''10:5''))"
    "quantized_Unserialize L unscale ''10:5'' = Some (0, [(10, unscale 5)])"
proof -
  have "hexadecimal 16 = ''10''" "hexadecimal 5 = ''5''" by code_simp+
  then show "quantized_Serialize (\<lambda>_ _. 5) [(16, v)] n = (if n \<le> 0 then (-1, None) else (0, Some ''10:5''))"
    by (simp add: quantized_Serialize_def hex_text_def)
  have "show_int 10 = ''10''" "show_int 5 = ''5''" by code_simp+
  moreover have "b_lexical_cast (jl_boost L) (show_int 10) = Some 10" "b_lexical_cast (jl_boost L) (show_int 5) = Some 5" using L by (simp_all add: job_reads_def)
  ultimately have "lex_int L ''10'' = Some 10" "lex_int L ''5'' = Some 5" by (simp_all add: lex_int_def lex_int64_def)
  then show "quantized_Unserialize L unscale ''10:5'' = Some (0, [(10, unscale 5)])"
    using assms(2) by (simp add: quantized_Unserialize_def Let_def)
qed

end
