(* ===== verification/Memcached.thy ===== *)
theory Memcached
  imports Msg_Decoder Text_Numbers
begin

text \<open>
  The Memcached protocol of \<open>libsrc/blitz2/include/blitz2/memcached\<close>: the cutting of a command line into
  tokens (\<open>memcached_common.h\<close>), the decoder of requests (\<open>memcached_req.h\<close>) and that of replies
  (\<open>memcached_resp.h\<close>), which share their state, their buffer and the search for the first line.

  A block of memory is a string of its full capacity. Lengths are \<open>nat\<close>; only the length of a request,
  which is computed from a number in the request, is kept at its 32 bits. \<open>lexc\<close> is
  \<open>lexical_cast<uint32_t>\<close>, whose exception nobody catches. Texts of errors are not modelled.
\<close>

type_synonym char_alloc = "nat \<Rightarrow> string option"

definition mem_of :: "char_alloc \<Rightarrow> nat \<Rightarrow> string" where
  "mem_of alloc n = (case alloc n of None \<Rightarrow> [] | Some b \<Rightarrow> b)"

subsection \<open>Tokens\<close>

text \<open>A token is an offset and a length. \<open>TokenizerCommand\<close> returns their number, \<open>2^32 - 1\<close> if there are more than \<open>mx\<close>.\<close>

type_synonym token = "nat \<times> nat"

function tokenize :: "string \<Rightarrow> nat \<Rightarrow> nat \<Rightarrow> nat \<Rightarrow> nat \<Rightarrow> token list \<Rightarrow> (nat \<times> token list) cxx" where
  "tokenize b len mx sword eword toks =
     (if eword < len then
        if mx \<le> length toks then Some (2 ^ 32 - 1, toks)
        else if b ! eword = CHR '' '' then
          tokenize b len mx (eword + 1) (eword + 1) (if b ! sword \<noteq> b ! eword then toks @ [(sword, eword - sword)] else toks)
        else if b ! eword = CR then
          if length b \<le> eword + 1 then None
          else if b ! (eword + 1) = LF then Some (length toks + 1, toks @ [(sword, eword - sword)])
          else tokenize b len mx sword (eword + 1) toks
        else tokenize b len mx sword (eword + 1) toks
      else Some (length toks, toks))"
  by pat_completeness auto
termination by (relation "measure (\<lambda>(b, len, mx, sword, eword, toks). len - eword)") auto

declare tokenize.simps [simp del]

definition TokenizerCommand :: "string \<Rightarrow> nat \<Rightarrow> nat \<Rightarrow> (nat \<times> token list) cxx" where
  "TokenizerCommand b len mx = tokenize b len mx 0 0 []"

text \<open>The position of the first end of line.\<close>

fun SearchEol :: "string \<Rightarrow> nat option" where
  "SearchEol (x # y # s) = (if y = LF \<and> x = CR then Some 0 else map_option Suc (SearchEol (y # s)))"
| "SearchEol _ = None"

definition token_text :: "string \<Rightarrow> token \<Rightarrow> string" where
  "token_text b t = take (snd t) (drop (fst t) b)"

text \<open>\<open>strncmp(token.str, lit, strlen(lit)) == 0\<close> compares with the memory from the start of the token on.\<close>

definition token_starts :: "string \<Rightarrow> token \<Rightarrow> string \<Rightarrow> bool" where
  "token_starts b t lit \<longleftrightarrow> take (length lit) (drop (fst t) b) = lit"

subsection \<open>The state of both decoders\<close>

record 'm mc_decoder =
  md_start_len :: nat
  md_max_len :: nat
  md_buffer :: "string option"
  md_data_len :: nat
  md_parsed_len :: nat
  md_recved_len :: nat
  md_total_len :: nat
  md_first_line_len :: nat
  md_msg :: "'m option"

definition mc_Reset :: "char_alloc \<Rightarrow> 'm mc_decoder \<Rightarrow> 'm mc_decoder" where
  "mc_Reset alloc d = d\<lparr>md_buffer := Some (case md_buffer d of None \<Rightarrow> mem_of alloc (md_start_len d) | Some b \<Rightarrow> b),
     md_data_len := 0, md_parsed_len := 0, md_recved_len := 0, md_total_len := 0, md_first_line_len := 0, md_msg := None\<rparr>"

definition mc_Init :: "char_alloc \<Rightarrow> nat \<Rightarrow> nat \<Rightarrow> 'm mc_decoder" where
  "mc_Init alloc start_len max_len = mc_Reset alloc
     \<lparr>md_start_len = start_len, md_max_len = max_len, md_buffer = Some (mem_of alloc start_len), md_data_len = 0, md_parsed_len = 0,
      md_recved_len = 0, md_total_len = 0, md_first_line_len = 0, md_msg = None\<rparr>"

definition mc_GetBuffer :: "'m mc_decoder \<Rightarrow> int \<times> (nat \<times> nat) option \<times> 'm mc_decoder" where
  "mc_GetBuffer d = (0, (case md_buffer d of None \<Rightarrow> None | Some b \<Rightarrow> Some (md_data_len d, length b - md_data_len d)), d)"

type_synonym ('m, 'r) mc_result = "(int \<times> 'm mc_decoder \<times> 'r list) cxx"

text \<open>
  \<open>Feed\<close>: a message that has begun goes on; otherwise the first line is searched from the position up to
  which the buffer was searched before. Behind the new bytes one more is read.
\<close>

definition mc_Feed ::
    "('m mc_decoder \<Rightarrow> ('m, 'r) mc_result) \<Rightarrow> ('m \<Rightarrow> 'm mc_decoder \<Rightarrow> ('m, 'r) mc_result) \<Rightarrow> 'm mc_decoder \<Rightarrow> nat \<Rightarrow> ('m, 'r) mc_result" where
  "mc_Feed first next d len =
     (if len = 0 then Some (0, d, [])
      else case md_buffer d of
        None \<Rightarrow> None
      | Some b \<Rightarrow>
          let d1 = d\<lparr>md_recved_len := md_recved_len d + len, md_data_len := md_data_len d + len\<rparr> in
          (case md_msg d of
             Some m \<Rightarrow> next m d1
           | None \<Rightarrow>
               let ptr = md_parsed_len d; e = ptr + len in
               (case SearchEol (take (md_data_len d1 - ptr) (drop ptr b)) of
                  Some p \<Rightarrow> first (d1\<lparr>md_first_line_len := ptr + p + 2\<rparr>)
                | None \<Rightarrow>
                    if length b \<le> e then None
                    else Some (if length b \<le> md_recved_len d1 then -1 else 0,
                      d1\<lparr>md_parsed_len := md_data_len d1 - (if b ! e = CR then 1 else 0)\<rparr>, []))))"

subsection \<open>Requests\<close>

record memcached_set =
  ms_key :: string
  ms_flags :: u32
  ms_exptime :: u32
  ms_bytes :: u32
  ms_total :: u32
  ms_noreply :: "bool option"
  ms_value :: string

text \<open>A get request with its key and its whole line; the value of a set request is the memory from the data on.\<close>

datatype memcached_req = MemcachedGetReq string string | MemcachedSetReq memcached_set

definition mr_ProcessSet :: "char_alloc \<Rightarrow> memcached_set \<Rightarrow> memcached_set mc_decoder \<Rightarrow> (memcached_set, memcached_req) mc_result" where
  "mr_ProcessSet alloc req d =
     (case md_buffer d of
        None \<Rightarrow> None
      | Some b \<Rightarrow>
          if md_recved_len d = md_total_len d
          then Some (0, mc_Reset alloc (d\<lparr>md_buffer := None\<rparr>), [MemcachedSetReq (req\<lparr>ms_value := drop (md_first_line_len d) b\<rparr>)])
          else if md_recved_len d < md_total_len d then
            if length b < md_total_len d then
              (case alloc (md_total_len d) of
                 None \<Rightarrow> None
               | Some nb \<Rightarrow> Some (0, d\<lparr>md_buffer := Some (overwrite nb 0 (take (md_data_len d) b))\<rparr>, []))
            else Some (0, d, [])
          else Some (-1, d, []))"

text \<open>The test for \<open>noreply\<close> is the wrong way round; \<open>None\<close>: the member is not initialised.\<close>

definition mr_ProcessSetFirstLine ::
    "(string \<Rightarrow> u32 option) \<Rightarrow> char_alloc \<Rightarrow> string \<Rightarrow> nat \<times> token list \<Rightarrow> memcached_set mc_decoder \<Rightarrow> (memcached_set, memcached_req) mc_result" where
  "mr_ProcessSetFirstLine lexc alloc b ct d =
     (let (count, t) = ct in
      if count \<noteq> 5 \<and> count \<noteq> 6 then Some (-1, d, [])
      else case lexc (token_text b (t ! 4)) of
        None \<Rightarrow> None
      | Some bytes \<Rightarrow>
          let total = bytes + 2 + word_of_nat (md_first_line_len d); d1 = d\<lparr>md_total_len := unat total\<rparr> in
          if md_max_len d < unat total then Some (-1, d1, [])
          else if count = 6 \<and> token_starts b (t ! 5) ''noreply'' then Some (-1, d1, [])
          else (case (lexc (token_text b (t ! 2)), lexc (token_text b (t ! 3))) of
              (Some flags, Some exptime) \<Rightarrow>
                let req = \<lparr>ms_key = token_text b (t ! 1), ms_flags = flags, ms_exptime = exptime, ms_bytes = bytes, ms_total = total,
                  ms_noreply = (if count = 6 then Some True else None), ms_value = []\<rparr>
                in mr_ProcessSet alloc req (d1\<lparr>md_msg := Some req\<rparr>)
            | _ \<Rightarrow> None))"

definition mr_ProcessGetFirstLine :: "char_alloc \<Rightarrow> string \<Rightarrow> nat \<times> token list \<Rightarrow> memcached_set mc_decoder \<Rightarrow> (memcached_set, memcached_req) mc_result" where
  "mr_ProcessGetFirstLine alloc b ct d =
     (if md_first_line_len d \<noteq> md_recved_len d then Some (-1, d, [])
      else if fst ct \<noteq> 2 \<and> fst ct \<noteq> 3 then Some (-1, d, [])
      else Some (0, mc_Reset alloc (d\<lparr>md_buffer := None\<rparr>), [MemcachedGetReq (token_text b (snd ct ! 1)) (take (md_first_line_len d) b)]))"

definition mr_ProcessFirstLine ::
    "(string \<Rightarrow> u32 option) \<Rightarrow> char_alloc \<Rightarrow> memcached_set mc_decoder \<Rightarrow> (memcached_set, memcached_req) mc_result" where
  "mr_ProcessFirstLine lexc alloc d =
     (case md_buffer d of
        None \<Rightarrow> None
      | Some b \<Rightarrow> (case TokenizerCommand b (md_first_line_len d) 8 of
          None \<Rightarrow> None
        | Some ct \<Rightarrow>
            if snd ct = [] then None
            else if token_starts b (hd (snd ct)) ''get'' then mr_ProcessGetFirstLine alloc b ct d
            else if token_starts b (hd (snd ct)) ''set'' then mr_ProcessSetFirstLine lexc alloc b ct d
            else Some (-1, d, [])))"

definition mr_Feed :: "(string \<Rightarrow> u32 option) \<Rightarrow> char_alloc \<Rightarrow> memcached_set mc_decoder \<Rightarrow> nat \<Rightarrow> (memcached_set, memcached_req) mc_result" where
  "mr_Feed lexc alloc = mc_Feed (mr_ProcessFirstLine lexc alloc) (mr_ProcessSet alloc)"

definition mc_recv :: "nat \<Rightarrow> string \<Rightarrow> 'm mc_decoder \<Rightarrow> 'm mc_decoder cxx" where
  "mc_recv off c d = map_option (\<lambda>b. d\<lparr>md_buffer := Some b\<rparr>) (recv_into (md_buffer d) off c)"

definition MemcachedReq_read :: "(string \<Rightarrow> u32 option) \<Rightarrow> char_alloc \<Rightarrow> string \<Rightarrow> memcached_set mc_decoder
    \<Rightarrow> (memcached_req list \<times> (int + memcached_set mc_decoder)) cxx" where
  "MemcachedReq_read lexc alloc = Channel_read mc_GetBuffer mc_recv (mr_Feed lexc alloc)"

subsection \<open>Replies\<close>

datatype memcached_type = TYPE_UNKNOWN | TYPE_BUSY | TYPE_BADCLASS | TYPE_CLIENT_ERROR | TYPE_DELETED | TYPE_END | TYPE_ERROR
  | TYPE_EXISTS | TYPE_NOSPARE | TYPE_NOTFULL | TYPE_NOT_FOUND | TYPE_NOT_STORED | TYPE_OK | TYPE_SAME | TYPE_STORED | TYPE_STAT
  | TYPE_SERVER_ERROR | TYPE_TOUCHED | TYPE_UNSAFE | TYPE_VALUE | TYPE_VERSION

record memcached_resp =
  mp_type :: memcached_type
  mp_blocks :: "string list"

definition mp_ProcessGet :: "char_alloc \<Rightarrow> memcached_resp \<Rightarrow> memcached_resp mc_decoder \<Rightarrow> (memcached_resp, memcached_resp) mc_result" where
  "mp_ProcessGet alloc resp d =
     (case md_buffer d of
        None \<Rightarrow> None
      | Some b \<Rightarrow>
          let resp' = resp\<lparr>mp_blocks := mp_blocks resp @ [take (md_data_len d) b]\<rparr> in
          if md_recved_len d = md_total_len d
          then Some (0, mc_Reset alloc (d\<lparr>md_buffer := None\<rparr>), [resp'])
          else if md_recved_len d < md_total_len d then
            if length b < md_total_len d
            then Some (0, d\<lparr>md_msg := Some resp', md_buffer := Some (mem_of alloc (md_total_len d - md_recved_len d)), md_data_len := 0\<rparr>, [])
            else Some (0, d, [])
          else Some (-1, d, []))"

definition mp_ProcessGetFirstLine ::
    "(string \<Rightarrow> u32 option) \<Rightarrow> char_alloc \<Rightarrow> string \<Rightarrow> nat \<times> token list \<Rightarrow> memcached_resp mc_decoder \<Rightarrow> (memcached_resp, memcached_resp) mc_result" where
  "mp_ProcessGetFirstLine lexc alloc b ct d =
     (if fst ct \<noteq> 4 then Some (-1, d, [])
      else case lexc (token_text b (snd ct ! 3)) of
        None \<Rightarrow> None
      | Some bytes \<Rightarrow>
          let total = word_of_nat (md_first_line_len d) + bytes + 2 + 5; d1 = d\<lparr>md_total_len := unat total\<rparr> in
          if md_max_len d < unat total then Some (-1, d1, [])
          else let resp = \<lparr>mp_type = TYPE_VALUE, mp_blocks = []\<rparr> in mp_ProcessGet alloc resp (d1\<lparr>md_msg := Some resp\<rparr>))"

definition mp_ProcessSingleFirstLine :: "char_alloc \<Rightarrow> memcached_type \<Rightarrow> string \<Rightarrow> memcached_resp mc_decoder \<Rightarrow> (memcached_resp, memcached_resp) mc_result" where
  "mp_ProcessSingleFirstLine alloc ty b d =
     (if md_first_line_len d \<noteq> md_recved_len d then Some (-1, d, [])
      else Some (0, mc_Reset alloc (d\<lparr>md_buffer := None\<rparr>), [\<lparr>mp_type = ty, mp_blocks = [take (md_first_line_len d) b]\<rparr>]))"

text \<open>The tests on the first token, in the order of the source; the first that holds decides.\<close>

definition reply_tests :: "(string \<times> memcached_type) list" where
  "reply_tests = [(''ERROR'', TYPE_ERROR), (''VALUE'', TYPE_VALUE), (''STORED'', TYPE_STORED), (''END'', TYPE_END), (''SERVER_ERROR'', TYPE_SERVER_ERROR),
     (''CLIENT_ERROR'', TYPE_CLIENT_ERROR), (''SAME'', TYPE_SAME), (''NOT_STORED'', TYPE_NOT_STORED), (''NOSPARE'', TYPE_NOSPARE),
     (''NOTFULL'', TYPE_NOTFULL), (''EXISTS'', TYPE_EXISTS), (''NOT_FOUND'', TYPE_NOT_FOUND), (''DELETED'', TYPE_DELETED),
     (''TOUCHED'', TYPE_TOUCHED), (''BADCLASS'', TYPE_BADCLASS), (''BUSY'', TYPE_BUSY), (''OK'', TYPE_OK), (''UNSAFE'', TYPE_UNSAFE),
     (''VERSION'', TYPE_VERSION)]"

definition mp_ProcessFirstLine ::
    "(string \<Rightarrow> u32 option) \<Rightarrow> char_alloc \<Rightarrow> memcached_resp mc_decoder \<Rightarrow> (memcached_resp, memcached_resp) mc_result" where
  "mp_ProcessFirstLine lexc alloc d =
     (case md_buffer d of
        None \<Rightarrow> None
      | Some b \<Rightarrow> (case TokenizerCommand b (md_first_line_len d) 7 of
          None \<Rightarrow> None
        | Some ct \<Rightarrow>
            if snd ct = [] then None
            else (case find (\<lambda>(lit, ty). token_starts b (hd (snd ct)) lit) reply_tests of
                None \<Rightarrow> Some (-1, d, [])
              | Some (_, ty) \<Rightarrow>
                  if ty = TYPE_VALUE then mp_ProcessGetFirstLine lexc alloc b ct d else mp_ProcessSingleFirstLine alloc ty b d)))"

text \<open>A begun message is always of the type \<open>TYPE_VALUE\<close>.\<close>

definition mp_Feed :: "(string \<Rightarrow> u32 option) \<Rightarrow> char_alloc \<Rightarrow> memcached_resp mc_decoder \<Rightarrow> nat \<Rightarrow> (memcached_resp, memcached_resp) mc_result" where
  "mp_Feed lexc alloc = mc_Feed (mp_ProcessFirstLine lexc alloc)
     (\<lambda>resp d. if mp_type resp = TYPE_VALUE then mp_ProcessGet alloc resp d else Some (-1, d, []))"

definition MemcachedResp_read :: "(string \<Rightarrow> u32 option) \<Rightarrow> char_alloc \<Rightarrow> string \<Rightarrow> memcached_resp mc_decoder
    \<Rightarrow> (memcached_resp list \<times> (int + memcached_resp mc_decoder)) cxx" where
  "MemcachedResp_read lexc alloc = Channel_read mc_GetBuffer mc_recv (mp_Feed lexc alloc)"

subsection \<open>Cutting a line\<close>

fun spaced :: "string list \<Rightarrow> string" where
  "spaced [] = []"
| "spaced [w] = w"
| "spaced (w # v # ws) = w @ CHR '' '' # spaced (v # ws)"

definition plain_word :: "string \<Rightarrow> bool" where
  "plain_word w \<longleftrightarrow> w \<noteq> [] \<and> CHR '' '' \<notin> set w \<and> CR \<notin> set w"

lemma tokenize_word:
  assumes "CHR '' '' \<notin> set w" "CR \<notin> set w" "length u + length w \<le> len" "length toks < mx" "length u = e"
  shows "tokenize (u @ w @ t) len mx s e toks = tokenize (u @ w @ t) len mx s (e + length w) toks"
  using assms
proof (induction w arbitrary: u e)
  case (Cons c w)
  have "tokenize (u @ (c # w) @ t) len mx s e toks = tokenize ((u @ [c]) @ w @ t) len mx s (e + 1) toks"
    using Cons.prems by (subst tokenize.simps) (auto simp: nth_append)
  then show ?case using Cons.IH [of "u @ [c]" "e + 1"] Cons.prems by simp
qed simp

lemma tokenize_words:
  assumes "ws \<noteq> []" "\<forall>w \<in> set ws. plain_word w" "length toks + length ws \<le> mx" "b = u @ spaced ws @ CR # LF # t" "length u + length (spaced ws) < len"
  shows "\<exists>ts. tokenize b len mx (length u) (length u) toks = Some (length toks + length ws, toks @ ts) \<and> map (token_text b) ts = ws \<and> fst (hd ts) = length u"
  using assms
proof (induction ws arbitrary: u toks rule: spaced.induct)
  case (2 w)
  then have "tokenize b len mx (length u) (length u) toks = tokenize b len mx (length u) (length u + length w) toks"
    using tokenize_word [of w u len toks mx "length u" "CR # LF # t"] by (simp add: plain_word_def)
  also have "\<dots> = Some (length toks + 1, toks @ [(length u, length w)])"
    using 2 by (subst tokenize.simps) (auto simp: nth_append CR_def)
  finally show ?case using 2 by (intro exI [of _ "[(length u, length w)]"]) (simp add: token_text_def)
next
  case (3 w v ws)
  let ?u = "u @ w @ '' ''" and ?tok = "(length u, length w)"
  have w: "plain_word w" using "3.prems"(2) by simp
  have b: "b = u @ w @ CHR '' '' # spaced (v # ws) @ CR # LF # t" using "3.prems"(4) by simp
  have "tokenize b len mx (length u) (length u) toks = tokenize b len mx (length u) (length u + length w) toks"
    using tokenize_word [of w u len toks mx "length u" "CHR '' '' # spaced (v # ws) @ CR # LF # t"] w "3.prems" b by (simp add: plain_word_def)
  also have "\<dots> = tokenize b len mx (length ?u) (length ?u) (toks @ [?tok])"
  proof -
    have "b ! (length u + length w) = CHR '' ''" using b by (simp add: nth_append)
    moreover have "b ! length u = hd w" "hd w \<noteq> CHR '' ''" using b w by (cases w; auto simp: plain_word_def nth_append)+
    ultimately show ?thesis using "3.prems"(3,5) by (subst tokenize.simps) simp
  qed
  finally have step: "tokenize b len mx (length u) (length u) toks = tokenize b len mx (length ?u) (length ?u) (toks @ [?tok])" .
  obtain ts where ts: "tokenize b len mx (length ?u) (length ?u) (toks @ [?tok]) = Some (length (toks @ [?tok]) + length (v # ws), (toks @ [?tok]) @ ts)"
    "map (token_text b) ts = v # ws"
    using "3.IH" [of "toks @ [?tok]" ?u] "3.prems" b by auto
  have "token_text b ?tok = w" using b by (simp add: token_text_def)
  then show ?case using step ts by (intro exI [of _ "?tok # ts"]) simp
qed simp

lemma TokenizerCommand_words:
  assumes "ws \<noteq> []" "\<forall>w \<in> set ws. plain_word w" "length ws \<le> mx" "b = spaced ws @ CR # LF # t" "length (spaced ws) < len"
  shows "\<exists>ts. TokenizerCommand b len mx = Some (length ws, ts) \<and> map (token_text b) ts = ws \<and> ts \<noteq> [] \<and> fst (hd ts) = 0"
proof -
  obtain ts where ts: "tokenize b len mx 0 0 [] = Some (length ws, ts)" "map (token_text b) ts = ws" "fst (hd ts) = 0"
    using tokenize_words [OF assms(1,2), of "[]" mx b "[]" t len] assms(3-5) by auto
  then show ?thesis using assms(1) by (auto simp: TokenizerCommand_def)
qed

lemma SearchEol_none: "CR \<notin> set s \<Longrightarrow> SearchEol s = None"
  by (induction s rule: SearchEol.induct) auto

lemma SearchEol_found: "CR \<notin> set s \<Longrightarrow> SearchEol (s @ CR # LF # t) = Some (length s)"
proof (induction s)
  case (Cons c s)
  then show ?case by (cases s) auto
qed simp

subsection \<open>Bytes that arrive\<close>

text \<open>The buffer begins with \<open>p\<close>; of the message so far \<open>n\<close> bytes were received.\<close>

definition mc_holds :: "string \<Rightarrow> nat \<Rightarrow> 'm mc_decoder \<Rightarrow> bool" where
  "mc_holds p cap d \<longleftrightarrow> (\<exists>b. md_buffer d = Some b \<and> length b = cap \<and> length p \<le> cap \<and> take (length p) b = p) \<and> md_data_len d = length p"

lemma mc_read_holds:
  assumes "mc_holds p cap d" "c \<noteq> []" "length p + length c \<le> cap"
  shows "\<exists>b. length b = cap \<and> take (length p + length c) b = p @ c \<and> Channel_read mc_GetBuffer mc_recv feed c d =
    map_option (\<lambda>(ret, d3, msgs). (msgs, if ret < 0 then Inl (-1) else Inr d3)) (feed (d\<lparr>md_buffer := Some b\<rparr>) (length c))"
proof -
  obtain b where b: "md_buffer d = Some b" "length b = cap" "take (length p) b = p" "md_data_len d = length p" using assms(1) by (auto simp: mc_holds_def)
  have get: "mc_GetBuffer d = (0, Some (length p, cap - length p), d)" using b by (simp add: mc_GetBuffer_def)
  have recv: "mc_recv (length p) c d = Some (d\<lparr>md_buffer := Some (overwrite b (length p) c)\<rparr>)"
    using b assms(3) by (simp add: mc_recv_def recv_into_def)
  have "take (length p + length c) (overwrite b (length p) c) = p @ c" using b(2,3) assms(3) by (simp add: overwrite_def)
  then show ?thesis using Channel_read_fits [where get = mc_GetBuffer and recv = mc_recv and feed = feed and d = d, OF get assms(2) _ recv] b(2) assms(3)
    by (intro exI [of _ "overwrite b (length p) c"]) simp
qed

text \<open>Part of a first line; the search goes on at its end or one byte before.\<close>

definition mc_pending :: "string \<Rightarrow> 'm mc_decoder \<Rightarrow> bool" where
  "mc_pending p d \<longleftrightarrow> mc_holds p (md_start_len d) d \<and> md_recved_len d = length p \<and> md_msg d = None \<and> md_parsed_len d \<le> length p \<and> CR \<notin> set p"

lemma mc_Feed_piece:
  assumes d: "mc_pending p d" and b: "length b = md_start_len d" "take (length p + length c) b = p @ c"
    and c: "c \<noteq> []" "CR \<notin> set c" "length p + length c < md_start_len d"
  shows "\<exists>d'. mc_Feed first go_on (d\<lparr>md_buffer := Some b\<rparr>) (length c) = Some (0, d', []) \<and> mc_pending (p @ c) d' \<and> md_start_len d' = md_start_len d \<and> md_max_len d' = md_max_len d"
proof -
  have ptr: "md_parsed_len d \<le> length p" using d by (simp add: mc_pending_def)
  have "take (length p + length c - md_parsed_len d) (drop (md_parsed_len d) b) = drop (md_parsed_len d) (p @ c)"
    using b(2) by (metis drop_take)
  moreover have "CR \<notin> set (drop (md_parsed_len d) (p @ c))" using d c(2) by (auto simp: mc_pending_def dest: in_set_dropD)
  ultimately have "SearchEol (take (length p + length c - md_parsed_len d) (drop (md_parsed_len d) b)) = None" by (simp add: SearchEol_none)
  then show ?thesis using d b c ptr by (auto simp: mc_Feed_def mc_pending_def mc_holds_def Let_def)
qed

lemma mc_Feed_first_line:
  assumes d: "mc_pending p d" and b: "length b = md_start_len d" "take (length p + length c) b = p @ c"
    and c: "p @ c = head @ CR # LF # x" "CR \<notin> set head" "length p \<le> length head"
  shows "mc_Feed first go_on (d\<lparr>md_buffer := Some b\<rparr>) (length c) =
    first (d\<lparr>md_buffer := Some b, md_recved_len := length (p @ c), md_data_len := length (p @ c), md_first_line_len := length head + 2\<rparr>)"
proof -
  have len: "length p + length c = length head + 2 + length x" using arg_cong [OF c(1), of length] by simp
  then have "c \<noteq> []" using c(3) by auto
  have ptr: "md_parsed_len d \<le> length head" using d c(3) by (auto simp: mc_pending_def)
  have "take (length p + length c - md_parsed_len d) (drop (md_parsed_len d) b) = drop (md_parsed_len d) head @ CR # LF # x"
    using b(2) c(1) ptr by (metis drop_take drop_append diff_is_0_eq drop0)
  moreover have "CR \<notin> set (drop (md_parsed_len d) head)" using c(2) by (auto dest: in_set_dropD)
  ultimately have "SearchEol (take (length p + length c - md_parsed_len d) (drop (md_parsed_len d) b)) = Some (length head - md_parsed_len d)"
    by (simp add: SearchEol_found)
  then show ?thesis using d \<open>c \<noteq> []\<close> ptr by (simp add: mc_Feed_def mc_pending_def mc_holds_def Let_def)
qed

lemma run_pieces:
  assumes "mc_pending p d" "\<forall>c \<in> set ps. c \<noteq> [] \<and> CR \<notin> set c" "length p + length (concat ps) < md_start_len d"
  shows "\<exists>d'. channel_run (Channel_read mc_GetBuffer mc_recv (mc_Feed first go_on)) (ps @ cs) d = channel_run (Channel_read mc_GetBuffer mc_recv (mc_Feed first go_on)) cs d' \<and>
    mc_pending (p @ concat ps) d' \<and> md_start_len d' = md_start_len d \<and> md_max_len d' = md_max_len d"
  using assms
proof (induction ps arbitrary: p d)
  case (Cons c ps)
  let ?read = "Channel_read mc_GetBuffer mc_recv (mc_Feed first go_on)"
  have c: "c \<noteq> []" "CR \<notin> set c" "length p + length c < md_start_len d" using Cons.prems(2,3) by auto
  have "mc_holds p (md_start_len d) d" using Cons.prems(1) by (simp add: mc_pending_def)
  from mc_read_holds [OF this c(1), of "mc_Feed first go_on"] c(3) obtain b where b: "length b = md_start_len d" "take (length p + length c) b = p @ c"
    "?read c d = map_option (\<lambda>(ret, d3, msgs). (msgs, if ret < 0 then Inl (-1) else Inr d3)) (mc_Feed first go_on (d\<lparr>md_buffer := Some b\<rparr>) (length c))" by auto
  obtain d1 where d1: "mc_Feed first go_on (d\<lparr>md_buffer := Some b\<rparr>) (length c) = Some (0, d1, [])" "mc_pending (p @ c) d1"
    "md_start_len d1 = md_start_len d" "md_max_len d1 = md_max_len d"
    using mc_Feed_piece [OF Cons.prems(1) b(1,2) c, of first go_on] by auto
  obtain d' where "channel_run ?read (ps @ cs) d1 = channel_run ?read cs d'" "mc_pending ((p @ c) @ concat ps) d'" "md_start_len d' = md_start_len d1" "md_max_len d' = md_max_len d1"
    using Cons.IH [OF d1(2)] Cons.prems(2,3) d1(3) by auto
  moreover have "channel_run ?read ((c # ps) @ cs) d = channel_run ?read (ps @ cs) d1"
    using b(3) d1 by (simp add: option.map_ident case_prod_unfold)
  ultimately show ?case using d1(3,4) by (intro exI [of _ d']) simp
qed auto

text \<open>The piece that completes the first line.\<close>

lemma run_first_line:
  assumes d: "mc_pending p d" and c: "p @ c = head @ CR # LF # x" "CR \<notin> set head" "length p \<le> length head" "length (p @ c) \<le> md_start_len d"
  shows "\<exists>d1. Channel_read mc_GetBuffer mc_recv (mc_Feed first go_on) c d =
      map_option (\<lambda>(ret, d3, msgs). (msgs, if ret < 0 then Inl (-1) else Inr d3)) (first d1) \<and>
    mc_holds (head @ CR # LF # x) (md_start_len d) d1 \<and> md_recved_len d1 = length (head @ CR # LF # x) \<and> md_first_line_len d1 = length head + 2 \<and>
    md_msg d1 = None \<and> md_start_len d1 = md_start_len d \<and> md_max_len d1 = md_max_len d"
proof -
  have "c \<noteq> []" using c(1,3) by (metis append_Nil2 length_append length_Cons not_less_eq_eq le_add1 add_Suc_right)
  moreover have "mc_holds p (md_start_len d) d" using d by (simp add: mc_pending_def)
  ultimately obtain b where b: "length b = md_start_len d" "take (length p + length c) b = p @ c"
    "Channel_read mc_GetBuffer mc_recv (mc_Feed first go_on) c d =
      map_option (\<lambda>(ret, d3, msgs). (msgs, if ret < 0 then Inl (-1) else Inr d3)) (mc_Feed first go_on (d\<lparr>md_buffer := Some b\<rparr>) (length c))"
    using mc_read_holds [of p "md_start_len d" d c "mc_Feed first go_on"] c(4) by auto
  let ?d1 = "d\<lparr>md_buffer := Some b, md_recved_len := length (p @ c), md_data_len := length (p @ c), md_first_line_len := length head + 2\<rparr>"
  have "mc_holds (p @ c) (md_start_len d) ?d1" using b c(4) by (auto simp: mc_holds_def)
  then show ?thesis using mc_Feed_first_line [OF d b(1,2) c(1-3), of first go_on] b(3) d c(1)
    by (intro exI [of _ ?d1]) (simp add: mc_pending_def)
qed

lemma split_at_line:
  assumes "p @ q = head @ CR # LF # t" "length head + 2 \<le> length p"
  shows "\<exists>x. p = head @ CR # LF # x \<and> x @ q = t"
proof -
  have "take (length head + 2) (p @ q) = take (length head + 2) (head @ CR # LF # t)" by (simp only: assms(1))
  then have "take (length head + 2) p = head @ [CR, LF]" using assms(2) by simp
  then have p: "p = head @ CR # LF # drop (length head + 2) p" by (metis append_Cons append_Nil append_assoc append_take_drop_id)
  then have "drop (length head + 2) p @ q = t" using assms(1) by (metis append_assoc append_Cons same_append_eq list.inject)
  with p show ?thesis by blast
qed

text \<open>All of it: some pieces of the line, then one that completes it.\<close>

lemma run_to_first_line:
  assumes d: "mc_pending [] d" and CR: "CR \<notin> set head"
    and pieces: "concat ps @ c @ concat cs = head @ CR # LF # rest" "\<forall>p \<in> set ps. p \<noteq> []"
    and first: "length (concat ps) \<le> length head" "length head + 2 \<le> length (concat ps @ c)" "length (concat ps @ c) \<le> md_start_len d"
    and read_def: "read = Channel_read mc_GetBuffer mc_recv (mc_Feed line go_on)"
  shows "\<exists>d1 d2 x. channel_run read (ps @ c # cs) d = channel_run read (c # cs) d1 \<and>
    read c d1 = map_option (\<lambda>(ret, d3, msgs). (msgs, if ret < 0 then Inl (-1) else Inr d3)) (line d2) \<and>
    x @ concat cs = rest \<and> mc_holds (head @ CR # LF # x) (md_start_len d) d2 \<and> md_recved_len d2 = length (head @ CR # LF # x) \<and>
    md_first_line_len d2 = length head + 2 \<and> md_max_len d2 = md_max_len d"
proof -
  have "concat ps = take (length (concat ps)) head" using arg_cong [OF pieces(1), of "take (length (concat ps))"] first(1) by simp
  then have "CR \<notin> set (concat ps)" using CR by (metis in_set_takeD)
  then have "\<forall>p \<in> set ps. p \<noteq> [] \<and> CR \<notin> set p" using pieces(2) by auto
  moreover have "length (concat ps) < md_start_len d" using first by simp
  ultimately obtain d1 where d1: "channel_run read (ps @ c # cs) d = channel_run read (c # cs) d1" "mc_pending (concat ps) d1" "md_start_len d1 = md_start_len d" "md_max_len d1 = md_max_len d"
    using run_pieces [OF d, of ps line go_on "c # cs"] by (auto simp: read_def)
  obtain x where x: "concat ps @ c = head @ CR # LF # x" "x @ concat cs = rest"
    using split_at_line [OF _ first(2), of "concat cs" rest] pieces(1) by auto
  then show ?thesis using run_first_line [OF d1(2) x(1) CR first(1), of line go_on] first(3) d1 unfolding read_def by metis
qed

text \<open>The line in the buffer, where \<open>TokenizerCommand\<close> reads it.\<close>

lemma mc_holds_line:
  assumes "mc_holds (head @ CR # LF # x) cap d"
  obtains b where "md_buffer d = Some b" "take (length head + 2) b = head @ [CR, LF]"
proof -
  obtain b where b: "md_buffer d = Some b" "take (length (head @ CR # LF # x)) b = head @ CR # LF # x" using assms by (auto simp: mc_holds_def)
  have "take (length head + 2) b = take (length head + 2) (take (length (head @ CR # LF # x)) b)" by (simp add: min_def)
  then have "take (length head + 2) b = head @ [CR, LF]" unfolding b(2) by simp
  with b(1) show thesis by (rule that)
qed

lemma concat_Nil_if_no_Nil: "\<forall>c \<in> set cs. c \<noteq> [] \<Longrightarrow> length (concat cs) = 0 \<Longrightarrow> cs = []"
  by (cases cs) auto

subsection \<open>A set request in pieces\<close>

definition lex_reads :: "(string \<Rightarrow> u32 option) \<Rightarrow> bool" where
  "lex_reads lexc \<longleftrightarrow> (\<forall>n < 2 ^ 32. lexc (decimal n) = Some (word_of_nat n))"

definition set_head :: "string \<Rightarrow> nat \<Rightarrow> nat \<Rightarrow> nat \<Rightarrow> string" where
  "set_head key flags exptime n = spaced [''set'', key, decimal flags, decimal exptime, decimal n]"

definition mc_in_set :: "string \<Rightarrow> memcached_set \<Rightarrow> nat \<Rightarrow> nat \<Rightarrow> memcached_set mc_decoder \<Rightarrow> bool" where
  "mc_in_set p req f tot d \<longleftrightarrow> (\<exists>cap. mc_holds p cap d \<and> tot \<le> cap) \<and> md_recved_len d = length p \<and> md_total_len d = tot \<and>
     md_first_line_len d = f \<and> md_msg d = Some req \<and> length p < tot"

lemma mc_Reset_pending:
  assumes "alloc_ok alloc"
  shows "mc_pending [] (mc_Reset alloc (d\<lparr>md_buffer := None\<rparr>))"
proof -
  obtain b where "alloc (md_start_len d) = Some b" "length b = md_start_len d" using assms by (meson alloc_ok_def)
  then show ?thesis by (auto simp: mc_pending_def mc_holds_def mc_Reset_def mem_of_def)
qed

lemma mr_ProcessSet_holds:
  assumes al: "alloc_ok alloc" and d: "mc_holds p cap d" "md_recved_len d = length p" "md_total_len d = tot" "md_first_line_len d = f" "md_msg d = Some req"
    "length p \<le> tot" "f \<le> length p"
  shows "if length p = tot
    then \<exists>d' v. mr_ProcessSet alloc req d = Some (0, d', [MemcachedSetReq (req\<lparr>ms_value := v\<rparr>)]) \<and> mc_pending [] d' \<and> take (tot - f) v = drop f p \<and> md_start_len d' = md_start_len d \<and> md_max_len d' = md_max_len d
    else \<exists>d'. mr_ProcessSet alloc req d = Some (0, d', []) \<and> mc_in_set p req f tot d' \<and> md_start_len d' = md_start_len d \<and> md_max_len d' = md_max_len d"
proof -
  obtain b where b: "md_buffer d = Some b" "length b = cap" "length p \<le> cap" "take (length p) b = p" "md_data_len d = length p" using d(1) by (auto simp: mc_holds_def)
  show ?thesis
  proof (cases "length p = tot")
    case True
    have "take (tot - f) (drop f b) = drop f p" using b(4) True by (metis drop_take)
    then show ?thesis using True b d mc_Reset_pending [OF al, of d] by (auto simp: mr_ProcessSet_def mc_Reset_def)
  next
    case False
    obtain nb where nb: "alloc tot = Some nb" "length nb = tot" using al by (meson alloc_ok_def)
    then have "take (length p) (overwrite nb 0 p) = p" by (simp add: overwrite_def)
    then show ?thesis using False b d nb
      by (auto simp: mr_ProcessSet_def mc_in_set_def mc_holds_def intro!: exI [of _ tot])
  qed
qed

lemma run_set_rest:
  assumes al: "alloc_ok alloc" and "mc_in_set p req f tot d" "\<forall>c \<in> set cs. c \<noteq> []" "length p + length (concat cs) = tot" "f \<le> length p"
  shows "\<exists>d' v. channel_run (MemcachedReq_read lexc alloc) cs d = Some ([MemcachedSetReq (req\<lparr>ms_value := v\<rparr>)], Inr d') \<and> mc_pending [] d' \<and>
    take (tot - f) v = drop f (p @ concat cs)"
  using assms(2-)
proof (induction cs arbitrary: p d)
  case (Cons c cs)
  obtain cap where cap: "mc_holds p cap d" "tot \<le> cap" using Cons.prems(1) by (auto simp: mc_in_set_def)
  have c: "c \<noteq> []" "length p + length c \<le> tot" using Cons.prems(2,3) by auto
  obtain b where b: "length b = cap" "take (length p + length c) b = p @ c"
    "MemcachedReq_read lexc alloc c d = map_option (\<lambda>(ret, d3, msgs). (msgs, if ret < 0 then Inl (-1) else Inr d3)) (mr_Feed lexc alloc (d\<lparr>md_buffer := Some b\<rparr>) (length c))"
    using mc_read_holds [OF cap(1) c(1), of "mr_Feed lexc alloc"] c(2) cap(2) unfolding MemcachedReq_read_def by auto
  let ?d1 = "d\<lparr>md_buffer := Some b, md_recved_len := length (p @ c), md_data_len := length (p @ c)\<rparr>"
  have feed: "mr_Feed lexc alloc (d\<lparr>md_buffer := Some b\<rparr>) (length c) = mr_ProcessSet alloc req ?d1"
    using Cons.prems(1) c(1) cap(1) by (simp add: mr_Feed_def mc_Feed_def mc_in_set_def mc_holds_def Let_def)
  have "mc_holds (p @ c) cap ?d1" using b c(2) cap(2) by (auto simp: mc_holds_def)
  note step = mr_ProcessSet_holds [OF al this, of tot f req]
  show ?case
  proof (cases "length (p @ c) = tot")
    case True
    then have "length (concat cs) = 0" using Cons.prems(3) unfolding concat.simps length_append by linarith
    then have "cs = []" using Cons.prems(2) by (cases cs) auto
    then show ?thesis using step True Cons.prems(1,4) b(3) feed by (auto simp: mc_in_set_def)
  next
    case False
    then obtain d' where d': "mr_ProcessSet alloc req ?d1 = Some (0, d', [])" "mc_in_set (p @ c) req f tot d'"
      using step Cons.prems(1,4) c(2) by (auto simp: mc_in_set_def)
    with Cons.IH [OF d'(2)] Cons.prems(2-4) b(3) feed show ?thesis by auto
  qed
qed (simp add: mc_in_set_def)

lemma plain_decimal: "plain_word (decimal n)"
  using decimal_digits [of n] by (auto simp: plain_word_def is_digit_def CR_def)

lemma set_head_no_CR: "plain_word key \<Longrightarrow> CR \<notin> set (set_head key flags exptime n)"
  using plain_decimal [of flags] plain_decimal [of exptime] plain_decimal [of n] by (auto simp: set_head_def plain_word_def CR_def)

definition set_request :: "string \<Rightarrow> nat \<Rightarrow> nat \<Rightarrow> nat \<Rightarrow> string \<Rightarrow> memcached_set" where
  "set_request key flags exptime n v = \<lparr>ms_key = key, ms_flags = word_of_nat flags, ms_exptime = word_of_nat exptime, ms_bytes = word_of_nat n,
     ms_total = word_of_nat (length (set_head key flags exptime n) + n + 4), ms_noreply = None, ms_value = v\<rparr>"

text \<open>The first line of a set request is understood.\<close>

lemma mr_ProcessFirstLine_set:
  assumes lexc: "lex_reads lexc" "flags < 2 ^ 32" "exptime < 2 ^ 32" "n < 2 ^ 32" and key: "plain_word key"
    and d: "md_buffer d = Some b" "take (length head + 2) b = head @ [CR, LF]" "md_first_line_len d = length head + 2"
    and head: "head = set_head key flags exptime n" and max: "unat (word_of_nat (length head + n + 4) :: u32) \<le> md_max_len d"
  shows "mr_ProcessFirstLine lexc alloc d =
    mr_ProcessSet alloc (set_request key flags exptime n []) (d\<lparr>md_total_len := unat (word_of_nat (length head + n + 4) :: u32), md_msg := Some (set_request key flags exptime n [])\<rparr>)"
proof -
  let ?ws = "[''set'', key, decimal flags, decimal exptime, decimal n]"
  obtain t where t: "b = spaced ?ws @ CR # LF # t"
    using d(2) head by (metis append_take_drop_id append.assoc append_Cons append_Nil set_head_def)
  have "\<forall>w \<in> set ?ws. plain_word w" using key plain_decimal by (simp add: plain_word_def CR_def)
  moreover have "length (spaced ?ws) < length head + 2" using head by (simp add: set_head_def)
  ultimately obtain ts where ts: "TokenizerCommand b (length head + 2) 8 = Some (5, ts)" "map (token_text b) ts = ?ws" "ts \<noteq> []" "fst (hd ts) = 0"
    using TokenizerCommand_words [of ?ws 8 b t "length head + 2"] t by auto
  have "length ts = 5" using arg_cong [OF ts(2), of length] by simp
  then have tx: "token_text b (ts ! 1) = key" "token_text b (ts ! 2) = decimal flags" "token_text b (ts ! 3) = decimal exptime" "token_text b (ts ! 4) = decimal n"
    using arg_cong [OF ts(2), of "\<lambda>xs. xs ! 1"] arg_cong [OF ts(2), of "\<lambda>xs. xs ! 2"] arg_cong [OF ts(2), of "\<lambda>xs. xs ! 3"] arg_cong [OF ts(2), of "\<lambda>xs. xs ! 4"]
    by (simp_all add: nth_Cons')
  have st: "\<not> token_starts b (hd ts) ''get''" "token_starts b (hd ts) ''set''" using t ts(4) by (simp_all add: token_starts_def)
  have "(word_of_nat n + 2 + word_of_nat (length head + 2) :: u32) = word_of_nat (length head + n + 4)" by simp
  then show ?thesis using lexc d ts(1,3) tx st max head
    by (simp add: mr_ProcessFirstLine_def mr_ProcessSetFirstLine_def lex_reads_def Let_def set_request_def ac_simps)
qed

text \<open>
  C18. Memcached: a set request that arrives in any pieces, of which none ends between the two characters
  that end its first line, is reported once, with its key, flags, time and data; the decoder is ready
  for the next request then.
\<close>

theorem MemcachedReq_set_pieces:
  assumes al: "alloc_ok alloc" and lexc: "lex_reads lexc" "flags < 2 ^ 32" "exptime < 2 ^ 32" and key: "plain_word key"
    and d: "mc_pending [] d" and head: "head = set_head key flags exptime (length data)"
    and max: "length head + length data + 4 \<le> md_max_len d" "md_max_len d < 2 ^ 32"
    and pieces: "concat ps @ c @ concat cs = head @ [CR, LF] @ data @ [CR, LF]" "\<forall>p \<in> set ps. p \<noteq> []" "\<forall>c \<in> set cs. c \<noteq> []"
    and first: "length (concat ps) \<le> length head" "length head + 2 \<le> length (concat ps @ c)" "length (concat ps @ c) \<le> md_start_len d"
  shows "\<exists>d' v. channel_run (MemcachedReq_read lexc alloc) (ps @ c # cs) d =
      Some ([MemcachedSetReq (set_request key flags exptime (length data) v)], Inr d') \<and> mc_pending [] d' \<and> take (length data) v = data"
proof -
  let ?tot = "length head + length data + 4" and ?read = "MemcachedReq_read lexc alloc" and ?req = "set_request key flags exptime (length data) []"
  have CR: "CR \<notin> set head" using set_head_no_CR [OF key] head by simp
  have small: "?tot < 2 ^ 32" using max by linarith
  obtain d1 d2 x where d1: "channel_run ?read (ps @ c # cs) d = channel_run ?read (c # cs) d1"
    and d2: "?read c d1 = map_option (\<lambda>(ret, d3, msgs). (msgs, if ret < 0 then Inl (-1) else Inr d3)) (mr_ProcessFirstLine lexc alloc d2)"
    "mc_holds (head @ CR # LF # x) (md_start_len d) d2" "md_recved_len d2 = length (head @ CR # LF # x)" "md_first_line_len d2 = length head + 2" "md_max_len d2 = md_max_len d"
    and x: "x @ concat cs = data @ [CR, LF]"
    using run_to_first_line [OF d CR, of ps c cs "data @ [CR, LF]" ?read "mr_ProcessFirstLine lexc alloc" "mr_ProcessSet alloc"] pieces first
    by (auto simp: MemcachedReq_read_def mr_Feed_def)
  obtain b where b: "md_buffer d2 = Some b" "take (length head + 2) b = head @ [CR, LF]" using mc_holds_line [OF d2(2)] .
  have unat: "unat (word_of_nat ?tot :: u32) = ?tot" using small unat_of_nat_small [of ?tot, where 'a = 32] by simp
  have first_line: "mr_ProcessFirstLine lexc alloc d2 = mr_ProcessSet alloc ?req (d2\<lparr>md_total_len := ?tot, md_msg := Some ?req\<rparr>)"
    using mr_ProcessFirstLine_set [OF lexc(1-3) _ key b d2(4) head] unat small max(1) d2(5) by (simp add: head)
  let ?d3 = "d2\<lparr>md_total_len := ?tot, md_msg := Some ?req\<rparr>"
  have len: "length (head @ CR # LF # x) + length (concat cs) = ?tot" using arg_cong [OF x, of length] by simp
  have "mc_holds (head @ CR # LF # x) (md_start_len d) ?d3" using d2(2) by (simp add: mc_holds_def)
  note step = mr_ProcessSet_holds [OF al this, of ?tot "length head + 2" ?req]
  have body: "drop (length head + 2) ((head @ CR # LF # x) @ concat cs) = data @ [CR, LF]" using x by simp
  have take_data: "take (length data) v = data" if "take (length data + 2) v = data @ [CR, LF]" for v
  proof -
    have "take (length data) v = take (length data) (take (length data + 2) v)" by (simp add: min_def)
    also have "\<dots> = take (length data) (data @ [CR, LF])" by (simp only: that)
    finally show ?thesis by simp
  qed
  have done_with: ?thesis if "channel_run ?read (c # cs) d1 = Some ([MemcachedSetReq (?req\<lparr>ms_value := v\<rparr>)], Inr d')" "mc_pending [] d'"
    "take (length data + 2) v = data @ [CR, LF]" for d' v
    using that(1,2) take_data [OF that(3)] d1 by (intro exI [of _ d'] exI [of _ v]) (simp add: set_request_def)
  show ?thesis
  proof (cases "length (head @ CR # LF # x) = ?tot")
    case True
    then have "length (concat cs) = 0" using len by linarith
    then have cs: "cs = []" using concat_Nil_if_no_Nil [OF pieces(3)] by blast
    obtain d' v where v: "mr_ProcessSet alloc ?req ?d3 = Some (0, d', [MemcachedSetReq (?req\<lparr>ms_value := v\<rparr>)])" "mc_pending [] d'"
      "take (?tot - (length head + 2)) v = drop (length head + 2) (head @ CR # LF # x)"
      using step True d2(3,4) by (simp only: if_True) auto
    have "channel_run ?read (c # cs) d1 = Some ([MemcachedSetReq (?req\<lparr>ms_value := v\<rparr>)], Inr d')"
      using d2(1) first_line v(1) cs by simp
    moreover have "take (length data + 2) v = data @ [CR, LF]" using v(3) body cs by simp
    ultimately show ?thesis using v(2) by (intro done_with)
  next
    case False
    then obtain d4 where d4: "mr_ProcessSet alloc ?req ?d3 = Some (0, d4, [])" "mc_in_set (head @ CR # LF # x) ?req (length head + 2) ?tot d4"
      using step d2(3,4) len by auto
    from run_set_rest [OF al d4(2) pieces(3) len, of lexc] obtain d' v where v:
      "channel_run ?read cs d4 = Some ([MemcachedSetReq (?req\<lparr>ms_value := v\<rparr>)], Inr d')" "mc_pending [] d'" "take (length data + 2) v = data @ [CR, LF]"
      using body by auto
    have "channel_run ?read (c # cs) d1 = Some ([MemcachedSetReq (?req\<lparr>ms_value := v\<rparr>)], Inr d')"
      using d2(1) first_line d4(1) v(1) by simp
    then show ?thesis using v(2,3) by (rule done_with)
  qed
qed

text \<open>A reading of decimals as \<open>lexical_cast\<close> does it, and memory that is always there.\<close>

definition read_u32 :: "string \<Rightarrow> u32 option" where
  "read_u32 s = (if list_all is_digit s \<and> s \<noteq> [] \<and> dec_value 0 s < 2 ^ 32 then Some (word_of_nat (dec_value 0 s)) else None)"

definition fresh_chars :: "nat \<Rightarrow> string option" where
  "fresh_chars n = Some (replicate n (CHR ''x''))"

lemma read_u32_reads: "lex_reads read_u32"
  using decimal_digits by (auto simp: lex_reads_def read_u32_def dec_value_decimal list_all_iff)

lemma fresh_chars_ok: "alloc_ok fresh_chars"
  by (simp add: alloc_ok_def fresh_chars_def)

lemma mc_Init_pending:
  assumes "alloc_ok alloc"
  shows "mc_pending [] (mc_Init alloc n mx)"
proof -
  obtain b where "alloc n = Some b" "length b = n" using assms by (meson alloc_ok_def)
  then show ?thesis by (auto simp: mc_pending_def mc_holds_def mc_Init_def mc_Reset_def mem_of_def)
qed

lemma mc_Init_lengths [simp]: "md_start_len (mc_Init alloc n mx) = n" "md_max_len (mc_Init alloc n mx) = mx"
  by (simp_all add: mc_Init_def mc_Reset_def)

theorem MemcachedReq_set_pieces_witness:
  "\<exists>d' v. channel_run (MemcachedReq_read read_u32 fresh_chars) [''se'', ''t ab 7 0 3'' @ [CR, LF, CHR ''x''], ''yz'' @ [CR], [LF]] (mc_Init fresh_chars 20 100) =
      Some ([MemcachedSetReq (set_request ''ab'' 7 0 3 v)], Inr d') \<and> mc_pending [] d' \<and> take 3 v = ''xyz''"
proof -
  have "set_head ''ab'' 7 0 3 = ''set ab 7 0 3''" by code_simp
  moreover have len: "length ''xyz'' = 3" by simp
  ultimately show ?thesis
    using MemcachedReq_set_pieces [OF fresh_chars_ok read_u32_reads _ _ _ mc_Init_pending [OF fresh_chars_ok, of 20 100], where head = "''set ab 7 0 3''" and
      flags = 7 and exptime = 0 and key = "''ab''" and data = "''xyz''" and ps = "[''se'']" and c = "''t ab 7 0 3'' @ [CR, LF, CHR ''x'']" and cs = "[''yz'' @ [CR], [LF]]", unfolded len]
    by (simp add: plain_word_def CR_def del: channel_run.simps)
qed

text \<open>
  C40. Memcached: the length of a request is computed in 32 bits. A set request that announces
  4294967294 bytes is reported with its first line alone, without a byte of data, however small
  \<open>buf_max_len\<close> is.
\<close>

theorem MemcachedReq_length_wraps:
  assumes al: "alloc_ok alloc" and lexc: "lex_reads lexc" "flags < 2 ^ 32" "exptime < 2 ^ 32" and key: "plain_word key"
    and d: "mc_pending [] d" and head: "head = set_head key flags exptime (2 ^ 32 - 2)"
    and max: "length head + 2 \<le> md_max_len d" "length head + 2 \<le> md_start_len d" "length head + 2 < 2 ^ 32"
  shows "\<exists>d' v. channel_run (MemcachedReq_read lexc alloc) [head @ [CR, LF]] d =
      Some ([MemcachedSetReq ((set_request key flags exptime (2 ^ 32 - 2) v)\<lparr>ms_bytes := - 2\<rparr>)], Inr d') \<and> mc_pending [] d'"
proof -
  let ?n = "2 ^ 32 - 2 :: nat" and ?read = "MemcachedReq_read lexc alloc"
  let ?req = "set_request key flags exptime ?n []"
  have CR: "CR \<notin> set head" using set_head_no_CR [OF key] head by simp
  obtain d1 d2 where d1: "channel_run ?read [head @ [CR, LF]] d = channel_run ?read [head @ [CR, LF]] d1"
    and d2: "?read (head @ [CR, LF]) d1 = map_option (\<lambda>(ret, d3, msgs). (msgs, if ret < 0 then Inl (-1) else Inr d3)) (mr_ProcessFirstLine lexc alloc d2)"
    "mc_holds (head @ [CR, LF]) (md_start_len d) d2" "md_recved_len d2 = length head + 2" "md_first_line_len d2 = length head + 2" "md_max_len d2 = md_max_len d"
    using run_to_first_line [OF d CR, of "[]" "head @ [CR, LF]" "[]" "[]" ?read "mr_ProcessFirstLine lexc alloc" "mr_ProcessSet alloc"] max
    by (auto simp: MemcachedReq_read_def mr_Feed_def)
  obtain b where b: "md_buffer d2 = Some b" "take (length head + 2) b = head @ [CR, LF]" using mc_holds_line [OF d2(2)] .
  have "word_of_nat (length head + ?n + 4) = (word_of_nat (length head + 2 + 2 ^ 32) :: u32)" by simp
  also have "\<dots> = word_of_nat (length head + 2)" by simp
  finally have wraps: "word_of_nat (length head + ?n + 4) = (word_of_nat (length head + 2) :: u32)" .
  have total_len: "unat (word_of_nat (length head + ?n + 4) :: u32) = length head + 2" unfolding wraps using max(3) unat_of_nat_small [of "length head + 2", where 'a = 32] by simp
  let ?d3 = "d2\<lparr>md_total_len := length head + 2, md_msg := Some ?req\<rparr>"
  have "mr_ProcessFirstLine lexc alloc d2 = mr_ProcessSet alloc ?req ?d3"
    using mr_ProcessFirstLine_set [OF lexc(1-3) _ key b d2(4) head] total_len max(1) d2(5) by (simp add: head)
  moreover have "mc_holds (head @ [CR, LF]) (md_start_len d) ?d3" using d2(2) by (simp add: mc_holds_def)
  then obtain d' v where "mr_ProcessSet alloc ?req ?d3 = Some (0, d', [MemcachedSetReq (?req\<lparr>ms_value := v\<rparr>)])" "mc_pending [] d'"
    using mr_ProcessSet_holds [OF al, of "head @ [CR, LF]" "md_start_len d" ?d3 "length head + 2" "length head + 2" ?req] d2(3,4) by auto
  ultimately show ?thesis using d1 d2(1) by (intro exI [of _ d'] exI [of _ v]) (simp add: set_request_def)
qed

lemma length_decimal_wrapping: "length (decimal (2 ^ 32 - 2)) = 10"
  by (simp add: decimal.simps [of 4294967294] decimal.simps [of 429496729] decimal.simps [of 42949672] decimal.simps [of 4294967] decimal.simps [of 429496]
    decimal.simps [of 42949] decimal.simps [of 4294] decimal.simps [of 429] decimal.simps [of 42] decimal.simps [of 4])

theorem MemcachedReq_length_wraps_witness:
  "\<exists>d' v. channel_run (MemcachedReq_read read_u32 fresh_chars) [set_head ''ab'' 7 0 (2 ^ 32 - 2) @ [CR, LF]] (mc_Init fresh_chars 40 40) =
      Some ([MemcachedSetReq ((set_request ''ab'' 7 0 (2 ^ 32 - 2) v)\<lparr>ms_bytes := - 2\<rparr>)], Inr d') \<and> mc_pending [] d'"
proof (rule MemcachedReq_length_wraps [OF fresh_chars_ok read_u32_reads _ _ _ mc_Init_pending [OF fresh_chars_ok] refl])
  have "decimal 7 = ''7''" "decimal 0 = ''0''" by code_simp+
  then have "length (set_head ''ab'' 7 0 (2 ^ 32 - 2)) = 21" using length_decimal_wrapping by (simp add: set_head_def del: power_numeral)
  then show "length (set_head ''ab'' 7 0 (2 ^ 32 - 2)) + 2 \<le> md_max_len (mc_Init fresh_chars 40 40)"
    "length (set_head ''ab'' 7 0 (2 ^ 32 - 2)) + 2 \<le> md_start_len (mc_Init fresh_chars 40 40)" "length (set_head ''ab'' 7 0 (2 ^ 32 - 2)) + 2 < 2 ^ 32"
    by simp_all
qed (simp_all add: plain_word_def CR_def)

text \<open>A first line whose two last characters arrive apart is never found.\<close>

lemma MemcachedReq_split_end_lost:
  "map_option fst (channel_run (MemcachedReq_read read_u32 fresh_chars) [''get ab'' @ [CR], [LF]] (mc_Init fresh_chars 40 40)) = Some []"
  "map_option fst (channel_run (MemcachedReq_read read_u32 fresh_chars) [''get ab'' @ [CR, LF]] (mc_Init fresh_chars 40 40)) =
     Some [MemcachedGetReq ''ab'' (''get ab'' @ [CR, LF])]"
  by code_simp+

text \<open>\<open>noreply\<close> is refused and any other sixth word is taken for it.\<close>

lemma MemcachedReq_noreply_refused:
  "map_option (\<lambda>(ms, res). case res of Inl e \<Rightarrow> Some e | Inr _ \<Rightarrow> None) (MemcachedReq_read (map_of [(''7'', 7), (''0'', 0), (''1'', 1)]) fresh_chars (''set ab 7 0 1 noreply'' @ [CR, LF]) (mc_Init fresh_chars 40 40)) = Some (Some (-1))"
  "map_option fst (MemcachedReq_read (map_of [(''7'', 7), (''0'', 0), (''1'', 1)]) fresh_chars (''set ab 7 0 1 reply'' @ [CR, LF] @ ''z'' @ [CR, LF]) (mc_Init fresh_chars 40 40)) =
   Some [MemcachedSetReq \<lparr>ms_key = ''ab'', ms_flags = 7, ms_exptime = 0, ms_bytes = 1, ms_total = 23, ms_noreply = Some True, ms_value = ''z'' @ [CR, LF] @ replicate 17 (CHR ''x'')\<rparr>]"
  by code_simp+

subsection \<open>A get reply in pieces\<close>

text \<open>
  Of the reply \<open>p\<close> has been received: a part of it in the blocks of the message, the rest in the buffer,
  which has room for what is missing.
\<close>

definition mp_in_value :: "string \<Rightarrow> nat \<Rightarrow> memcached_resp mc_decoder \<Rightarrow> bool" where
  "mp_in_value p tot d \<longleftrightarrow> (\<exists>q cap resp. mc_holds q cap d \<and> md_msg d = Some resp \<and> concat (mp_blocks resp) @ q = p \<and> mp_type resp = TYPE_VALUE \<and>
     length q + tot \<le> cap + length p) \<and> md_recved_len d = length p \<and> md_total_len d = tot \<and> length p < tot"

lemma mp_ProcessGet_holds:
  assumes al: "alloc_ok alloc" and d: "mc_holds q cap d" "md_msg d = Some resp" "md_recved_len d = length p" "md_total_len d = tot"
    and resp: "concat (mp_blocks resp) @ q = p" "mp_type resp = TYPE_VALUE" and len: "length p \<le> tot"
  shows "if length p = tot
    then \<exists>d' resp'. mp_ProcessGet alloc resp d = Some (0, d', [resp']) \<and> mc_pending [] d' \<and> concat (mp_blocks resp') = p \<and> mp_type resp' = TYPE_VALUE
    else \<exists>d'. mp_ProcessGet alloc resp d = Some (0, d', []) \<and> mp_in_value p tot d'"
proof -
  obtain b where b: "md_buffer d = Some b" "length b = cap" "length q \<le> cap" "take (length q) b = q" "md_data_len d = length q" using d(1) by (auto simp: mc_holds_def)
  let ?resp = "resp\<lparr>mp_blocks := mp_blocks resp @ [q]\<rparr>"
  have q: "length q \<le> length p" using resp(1) by auto
  consider (all) "length p = tot" | (block) "length p < tot" "cap < tot" | (more) "length p < tot" "tot \<le> cap" using len by linarith
  then show ?thesis
  proof cases
    case all
    then show ?thesis using b d resp mc_Reset_pending [OF al, of d] by (simp add: mp_ProcessGet_def Let_def)
  next
    case block
    let ?d' = "d\<lparr>md_msg := Some ?resp, md_buffer := Some (mem_of alloc (tot - length p)), md_data_len := 0\<rparr>"
    obtain nb where "alloc (tot - length p) = Some nb" "length nb = tot - length p" using al by (meson alloc_ok_def)
    then have "mc_holds [] (tot - length p) ?d'" by (simp add: mc_holds_def mem_of_def)
    then have "mp_in_value p tot ?d'" using block d resp unfolding mp_in_value_def by (intro conjI exI [of _ "[]"] exI [of _ "tot - length p"] exI [of _ ?resp]) auto
    then show ?thesis using block b d by (simp add: mp_ProcessGet_def Let_def)
  next
    case more
    then have "mp_in_value p tot d" using d resp q unfolding mp_in_value_def by (intro conjI exI [of _ q] exI [of _ cap] exI [of _ resp]) auto
    then show ?thesis using more b d by (simp add: mp_ProcessGet_def Let_def)
  qed
qed

lemma run_value_rest:
  assumes al: "alloc_ok alloc" and "mp_in_value p tot d" "\<forall>c \<in> set cs. c \<noteq> []" "length p + length (concat cs) = tot"
  shows "\<exists>d' resp. channel_run (MemcachedResp_read lexc alloc) cs d = Some ([resp], Inr d') \<and> mc_pending [] d' \<and>
    concat (mp_blocks resp) = p @ concat cs \<and> mp_type resp = TYPE_VALUE"
  using assms(2-)
proof (induction cs arbitrary: p d)
  case (Cons c cs)
  obtain q cap resp where d: "mc_holds q cap d" "md_msg d = Some resp" "concat (mp_blocks resp) @ q = p" "mp_type resp = TYPE_VALUE" "length q + tot \<le> cap + length p"
    "md_recved_len d = length p" "md_total_len d = tot" using Cons.prems(1) by (auto simp: mp_in_value_def)
  have c: "c \<noteq> []" "length p + length c \<le> tot" using Cons.prems(2,3) by auto
  then have room: "length q + length c \<le> cap" using d(5) by linarith
  obtain b where b: "length b = cap" "take (length q + length c) b = q @ c"
    "MemcachedResp_read lexc alloc c d = map_option (\<lambda>(ret, d3, msgs). (msgs, if ret < 0 then Inl (-1) else Inr d3)) (mp_Feed lexc alloc (d\<lparr>md_buffer := Some b\<rparr>) (length c))"
    using mc_read_holds [OF d(1) c(1) room, of "mp_Feed lexc alloc"] unfolding MemcachedResp_read_def by auto
  let ?d1 = "d\<lparr>md_buffer := Some b, md_recved_len := length (p @ c), md_data_len := length (q @ c)\<rparr>"
  have feed: "mp_Feed lexc alloc (d\<lparr>md_buffer := Some b\<rparr>) (length c) = mp_ProcessGet alloc resp ?d1"
    using d c(1) by (simp add: mp_Feed_def mc_Feed_def mc_holds_def Let_def)
  have "mc_holds (q @ c) cap ?d1" using b room by (auto simp: mc_holds_def)
  note step = mp_ProcessGet_holds [OF al this, of resp "p @ c" tot]
  show ?case
  proof (cases "length (p @ c) = tot")
    case True
    then have "length (concat cs) = 0" using Cons.prems(3) unfolding concat.simps length_append by linarith
    then have "cs = []" using concat_Nil_if_no_Nil [of cs] Cons.prems(2) by simp
    then show ?thesis using step True d b(3) feed by auto
  next
    case False
    then obtain d' where d': "mp_ProcessGet alloc resp ?d1 = Some (0, d', [])" "mp_in_value (p @ c) tot d'"
      using step d c(2) by auto
    with Cons.IH [OF d'(2)] Cons.prems(2,3) b(3) feed show ?thesis by auto
  qed
qed (simp add: mp_in_value_def)

definition value_head :: "string \<Rightarrow> nat \<Rightarrow> nat \<Rightarrow> string" where
  "value_head key flags n = spaced [''VALUE'', key, decimal flags, decimal n]"

lemma value_head_no_CR: "plain_word key \<Longrightarrow> CR \<notin> set (value_head key flags n)"
  using plain_decimal [of flags] plain_decimal [of n] by (auto simp: value_head_def plain_word_def CR_def)

lemma mp_ProcessFirstLine_value:
  assumes lexc: "lex_reads lexc" "n < 2 ^ 32" and key: "plain_word key"
    and d: "md_buffer d = Some b" "take (length head + 2) b = head @ [CR, LF]" "md_first_line_len d = length head + 2"
    and head: "head = value_head key flags n" and max: "length head + n + 9 \<le> md_max_len d" "md_max_len d < 2 ^ 32"
  shows "mp_ProcessFirstLine lexc alloc d = mp_ProcessGet alloc \<lparr>mp_type = TYPE_VALUE, mp_blocks = []\<rparr>
    (d\<lparr>md_total_len := length head + n + 9, md_msg := Some \<lparr>mp_type = TYPE_VALUE, mp_blocks = []\<rparr>\<rparr>)"
proof -
  let ?ws = "[''VALUE'', key, decimal flags, decimal n]"
  obtain t where t: "b = spaced ?ws @ CR # LF # t"
    using d(2) head by (metis append_take_drop_id append.assoc append_Cons append_Nil value_head_def)
  have "\<forall>w \<in> set ?ws. plain_word w" using key plain_decimal by (simp add: plain_word_def CR_def)
  moreover have "length (spaced ?ws) < length head + 2" using head by (simp add: value_head_def)
  ultimately obtain ts where ts: "TokenizerCommand b (length head + 2) 7 = Some (4, ts)" "map (token_text b) ts = ?ws" "ts \<noteq> []" "fst (hd ts) = 0"
    using TokenizerCommand_words [of ?ws 7 b t "length head + 2"] t by auto
  have "length ts = 4" using arg_cong [OF ts(2), of length] by simp
  then have tx: "token_text b (ts ! 3) = decimal n" using arg_cong [OF ts(2), of "\<lambda>xs. xs ! 3"] by (simp add: nth_Cons')
  have st: "\<not> token_starts b (hd ts) ''ERROR''" "token_starts b (hd ts) ''VALUE''" using t ts(4) by (simp_all add: token_starts_def)
  have small: "length head + n + 9 < 2 ^ 32" using max by linarith
  have sum: "word_of_nat (length head + 2) + word_of_nat n + 2 + 5 = (word_of_nat (length head + n + 9) :: u32)" by simp
  have un: "unat (word_of_nat (length head + 2) + word_of_nat n + 2 + 5 :: u32) = length head + n + 9"
    unfolding sum using small by (intro unat_of_nat_small) simp
  have lx: "lexc (decimal n) = Some (word_of_nat n)" using lexc by (simp add: lex_reads_def)
  have "mp_ProcessFirstLine lexc alloc d = mp_ProcessGetFirstLine lexc alloc b (4, ts) d"
    using d(1,3) ts(1,3) st by (simp add: mp_ProcessFirstLine_def reply_tests_def)
  then show ?thesis unfolding mp_ProcessGetFirstLine_def fst_conv snd_conv tx lx option.case d(3) Let_def un using max by simp
qed

text \<open>
  C19. Memcached: a reply with a value that arrives in any pieces, of which none ends between the two
  characters that end its first line, is reported once; the blocks of the message together are the
  bytes received, and the decoder is ready for the next reply.
\<close>

theorem MemcachedResp_value_pieces:
  assumes al: "alloc_ok alloc" and lexc: "lex_reads lexc" and key: "plain_word key"
    and d: "mc_pending [] d" and head: "head = value_head key flags (length data)"
    and max: "length head + length data + 9 \<le> md_max_len d" "md_max_len d < 2 ^ 32"
    and pieces: "concat ps @ c @ concat cs = head @ [CR, LF] @ data @ [CR, LF] @ ''END'' @ [CR, LF]" "\<forall>p \<in> set ps. p \<noteq> []" "\<forall>c \<in> set cs. c \<noteq> []"
    and first: "length (concat ps) \<le> length head" "length head + 2 \<le> length (concat ps @ c)" "length (concat ps @ c) \<le> md_start_len d"
  shows "\<exists>d' resp. channel_run (MemcachedResp_read lexc alloc) (ps @ c # cs) d = Some ([resp], Inr d') \<and> mc_pending [] d' \<and>
    mp_type resp = TYPE_VALUE \<and> concat (mp_blocks resp) = concat (ps @ c # cs)"
proof -
  let ?tot = "length head + length data + 9" and ?read = "MemcachedResp_read lexc alloc" and ?resp = "\<lparr>mp_type = TYPE_VALUE, mp_blocks = []\<rparr>"
  let ?rest = "data @ [CR, LF] @ ''END'' @ [CR, LF]"
  have CR: "CR \<notin> set head" using value_head_no_CR [OF key] head by simp
  have all: "concat (ps @ c # cs) = head @ CR # LF # ?rest" using pieces(1) by simp
  obtain d1 d2 x where d1: "channel_run ?read (ps @ c # cs) d = channel_run ?read (c # cs) d1"
    and d2: "?read c d1 = map_option (\<lambda>(ret, d3, msgs). (msgs, if ret < 0 then Inl (-1) else Inr d3)) (mp_ProcessFirstLine lexc alloc d2)"
    "mc_holds (head @ CR # LF # x) (md_start_len d) d2" "md_recved_len d2 = length (head @ CR # LF # x)" "md_first_line_len d2 = length head + 2" "md_max_len d2 = md_max_len d"
    and x: "x @ concat cs = ?rest"
    using run_to_first_line [OF d CR, of ps c cs ?rest ?read "mp_ProcessFirstLine lexc alloc"
      "\<lambda>resp d. if mp_type resp = TYPE_VALUE then mp_ProcessGet alloc resp d else Some (-1, d, [])"] pieces first
    by (auto simp: MemcachedResp_read_def mp_Feed_def)
  obtain b where b: "md_buffer d2 = Some b" "take (length head + 2) b = head @ [CR, LF]" using mc_holds_line [OF d2(2)] .
  let ?d3 = "d2\<lparr>md_total_len := ?tot, md_msg := Some ?resp\<rparr>"
  have first_line: "mp_ProcessFirstLine lexc alloc d2 = mp_ProcessGet alloc ?resp ?d3"
    using max d2(5) by (intro mp_ProcessFirstLine_value [OF lexc _ key b d2(4) head]) simp_all
  have len: "length (head @ CR # LF # x) + length (concat cs) = ?tot" using arg_cong [OF x, of length] by simp
  have "mc_holds (head @ CR # LF # x) (md_start_len d) ?d3" using d2(2) by (simp add: mc_holds_def)
  note step = mp_ProcessGet_holds [OF al this, of ?resp "head @ CR # LF # x" ?tot]
  show ?thesis
  proof (cases "length (head @ CR # LF # x) = ?tot")
    case True
    then have "length (concat cs) = 0" using len by linarith
    then have cs: "cs = []" using concat_Nil_if_no_Nil [OF pieces(3)] by blast
    obtain d' resp where "mp_ProcessGet alloc ?resp ?d3 = Some (0, d', [resp])" "mc_pending [] d'" "concat (mp_blocks resp) = head @ CR # LF # x" "mp_type resp = TYPE_VALUE"
      using step True d2(3) by (simp only: if_True) auto
    then show ?thesis using d1 d2(1) first_line cs x all by (intro exI [of _ d'] exI [of _ resp]) simp
  next
    case False
    then obtain d4 where d4: "mp_ProcessGet alloc ?resp ?d3 = Some (0, d4, [])" "mp_in_value (head @ CR # LF # x) ?tot d4"
      using step d2(3) len by auto
    from run_value_rest [OF al d4(2) pieces(3) len, of lexc] obtain d' resp where
      "channel_run ?read cs d4 = Some ([resp], Inr d')" "mc_pending [] d'" "concat (mp_blocks resp) = (head @ CR # LF # x) @ concat cs" "mp_type resp = TYPE_VALUE" by auto
    then show ?thesis using d1 d2(1) first_line d4(1) x all by (intro exI [of _ d'] exI [of _ resp]) simp
  qed
qed

theorem MemcachedResp_value_pieces_witness:
  "\<exists>d' resp. channel_run (MemcachedResp_read read_u32 fresh_chars) [''VAL'', ''UE ab 7 3'' @ [CR, LF, CHR ''x''], ''yz'' @ [CR], [LF] @ ''END'' @ [CR, LF]] (mc_Init fresh_chars 16 100) =
      Some ([resp], Inr d') \<and> mc_pending [] d' \<and> mp_type resp = TYPE_VALUE \<and>
    concat (mp_blocks resp) = concat ([''VAL''] @ (''UE ab 7 3'' @ [CR, LF, CHR ''x'']) # [''yz'' @ [CR], [LF] @ ''END'' @ [CR, LF]])"
proof -
  have "value_head ''ab'' 7 3 = ''VALUE ab 7 3''" by code_simp
  moreover have len: "length ''xyz'' = 3" by simp
  ultimately show ?thesis
    using MemcachedResp_value_pieces [OF fresh_chars_ok read_u32_reads _ mc_Init_pending [OF fresh_chars_ok, of 16 100], where head = "''VALUE ab 7 3''" and
      flags = 7 and key = "''ab''" and data = "''xyz''" and ps = "[''VAL'']" and c = "''UE ab 7 3'' @ [CR, LF, CHR ''x'']" and cs = "[''yz'' @ [CR], [LF] @ ''END'' @ [CR, LF]]", unfolded len]
    by (simp add: plain_word_def CR_def del: channel_run.simps)
qed

end
