(* ===== verification/Com_Pool.thy ===== *)
theory Com_Pool
  imports Prelude
begin

text \<open>
  The pool of components of \<open>libsrc/utils/include/utils/com_pool.h\<close>: nodes that are idle or busy behind a
  mutex, and a semaphore that counts the idle ones. A node is its pointer. Threads that borrow and give
  back interleave between the wait on the semaphore and the search under the mutex.
\<close>

subsection \<open>The pool\<close>

text \<open>A node with the flag that it is busy. The constructor does not initialise the semaphore.\<close>

record 'c com_pool =
  cp_nodes :: "('c \<times> bool) list"
  cp_sem :: nat
  cp_max :: int

definition ComPool :: "int \<Rightarrow> nat \<Rightarrow> 'c com_pool" where
  "ComPool max_nodes junk = \<lparr>cp_nodes = [], cp_sem = junk, cp_max = max_nodes\<rparr>"

definition Pool_Init :: "'c com_pool \<Rightarrow> int \<times> 'c com_pool" where
  "Pool_Init p = (0, p\<lparr>cp_sem := 0\<rparr>)"

definition Pool_Add :: "'c \<Rightarrow> 'c com_pool \<Rightarrow> int \<times> 'c com_pool" where
  "Pool_Add c p =
     (if cp_max p \<le> int (length (cp_nodes p)) then (-1, p)
      else (0, p\<lparr>cp_nodes := cp_nodes p @ [(c, False)], cp_sem := cp_sem p + 1\<rparr>))"

definition GetIndex :: "nat \<Rightarrow> 'c com_pool \<Rightarrow> 'c cxx" where
  "GetIndex i p = (if i < length (cp_nodes p) then Some (fst (cp_nodes p ! i)) else None)"

text \<open>The search of \<open>Borrow\<close> under the mutex, after the wait.\<close>

primrec take_idle :: "('c \<times> bool) list \<Rightarrow> 'c option \<times> ('c \<times> bool) list" where
  "take_idle [] = (None, [])"
| "take_idle (n # ns) =
     (if \<not> snd n then (Some (fst n), (fst n, True) # ns) else let (r, ns') = take_idle ns in (r, n # ns'))"

definition Borrow_scan :: "'c com_pool \<Rightarrow> 'c option \<times> 'c com_pool" where
  "Borrow_scan p = (let (r, ns) = take_idle (cp_nodes p) in (r, p\<lparr>cp_nodes := ns\<rparr>))"

primrec give_back :: "'c \<Rightarrow> ('c \<times> bool) list \<Rightarrow> (('c \<times> bool) list) option" where
  "give_back c [] = None"
| "give_back c (n # ns) = (if fst n = c then Some ((c, False) # ns) else map_option ((#) n) (give_back c ns))"

definition Pool_Release :: "'c \<Rightarrow> 'c com_pool \<Rightarrow> 'c com_pool" where
  "Pool_Release c p =
     (case give_back c (cp_nodes p) of None \<Rightarrow> p | Some ns \<Rightarrow> p\<lparr>cp_nodes := ns, cp_sem := cp_sem p + 1\<rparr>)"

subsection \<open>Threads\<close>

text \<open>
  A thread that has passed the semaphore searches a node later. With \<open>timed\<close> the wait has a limit;
  when it fails \<open>Borrow\<close> goes on as after a successful wait.
\<close>

datatype 'c borrower = Outside | Waited | Holds 'c

type_synonym ('c, 't) pool_world = "'c com_pool \<times> ('t \<Rightarrow> 'c borrower)"

inductive pool_step :: "bool \<Rightarrow> ('c, 't) pool_world \<Rightarrow> ('c, 't) pool_world \<Rightarrow> bool" for timed where
  pool_wait: "th t = Outside \<Longrightarrow> cp_sem p = Suc n \<Longrightarrow> pool_step timed (p, th) (p\<lparr>cp_sem := n\<rparr>, th(t := Waited))"
| pool_expire: "timed \<Longrightarrow> th t = Outside \<Longrightarrow> cp_sem p = 0 \<Longrightarrow> pool_step timed (p, th) (p, th(t := Waited))"
| pool_take: "th t = Waited \<Longrightarrow> Borrow_scan p = (Some c, p') \<Longrightarrow> pool_step timed (p, th) (p', th(t := Holds c))"
| pool_null: "th t = Waited \<Longrightarrow> Borrow_scan p = (None, p') \<Longrightarrow> pool_step timed (p, th) (p', th(t := Outside))"
| pool_release: "th t = Holds c \<Longrightarrow> pool_step timed (p, th) (Pool_Release c p, th(t := Outside))"
| pool_add: "c \<notin> fst ` set (cp_nodes p) \<Longrightarrow> Pool_Add c p = (r, p') \<Longrightarrow> pool_step timed (p, th) (p', th)"

definition pool_reach :: "bool \<Rightarrow> int \<Rightarrow> ('c, 't) pool_world \<Rightarrow> bool" where
  "pool_reach timed mx = (pool_step timed)\<^sup>*\<^sup>* (snd (Pool_Init (ComPool mx 0)), \<lambda>_. Outside)"

inductive_cases pool_stepE: "pool_step timed (p, th) w"

subsection \<open>Facts about the search\<close>

definition idle_count :: "('c \<times> bool) list \<Rightarrow> nat" where
  "idle_count ns = length (filter (\<lambda>n. \<not> snd n) ns)"

lemma take_idle_None: "take_idle ns = (None, ns') \<Longrightarrow> ns' = ns \<and> idle_count ns = 0"
  by (induction ns arbitrary: ns') (auto simp: idle_count_def split: if_splits prod.splits)

lemma take_idle_split:
  "take_idle ns = (Some c, ns') \<Longrightarrow> \<exists>us vs. ns = us @ (c, False) # vs \<and> ns' = us @ (c, True) # vs"
proof (induction ns arbitrary: ns')
  case (Cons n ns)
  show ?case
  proof (cases "snd n")
    case True
    then obtain ns1 where ns1: "take_idle ns = (Some c, ns1)" "ns' = n # ns1" using Cons.prems by (auto split: prod.splits)
    from Cons.IH [OF ns1(1)] obtain us vs where "ns = us @ (c, False) # vs" "ns1 = us @ (c, True) # vs" by blast
    then show ?thesis using ns1(2) by (intro exI [of _ "n # us"] exI [of _ vs]) simp
  next
    case False
    then show ?thesis using Cons.prems by (intro exI [of _ "[]"] exI [of _ ns]) (cases n; auto)
  qed
qed simp

lemma Borrow_scan_Some:
  assumes "Borrow_scan p = (Some c, p')"
  shows "\<exists>us vs. cp_nodes p = us @ (c, False) # vs \<and> cp_nodes p' = us @ (c, True) # vs \<and> cp_sem p' = cp_sem p"
proof -
  obtain ns where "take_idle (cp_nodes p) = (Some c, ns)" "p' = p\<lparr>cp_nodes := ns\<rparr>"
    using assms by (cases "take_idle (cp_nodes p)") (simp add: Borrow_scan_def)
  then show ?thesis using take_idle_split [of "cp_nodes p" c ns] by simp
qed

lemma Borrow_scan_None:
  assumes "Borrow_scan p = (None, p')"
  shows "p' = p \<and> idle_count (cp_nodes p) = 0"
proof -
  obtain ns where "take_idle (cp_nodes p) = (None, ns)" "p' = p\<lparr>cp_nodes := ns\<rparr>"
    using assms by (cases "take_idle (cp_nodes p)") (simp add: Borrow_scan_def)
  then show ?thesis using take_idle_None [of "cp_nodes p" ns] by simp
qed

lemma give_back_split:
  assumes "c \<notin> fst ` set us"
  shows "give_back c (us @ (c, b) # vs) = Some (us @ (c, False) # vs)"
  using assms by (induction us) auto

lemma idle_count_append [simp]: "idle_count (us @ vs) = idle_count us + idle_count vs"
  by (simp add: idle_count_def)

lemma idle_count_Nil [simp]: "idle_count [] = 0"
  by (simp add: idle_count_def)

lemma idle_count_Cons [simp]: "idle_count (n # ns) = (if snd n then 0 else 1) + idle_count ns"
  by (simp add: idle_count_def)

lemma idle_count_pos: "0 < idle_count ns \<Longrightarrow> \<exists>c ns'. take_idle ns = (Some c, ns')"
  using take_idle_None [of ns] by (cases "take_idle ns" rule: prod.exhaust) (metis less_irrefl option.exhaust)

subsection \<open>Every node has one holder at most\<close>

text \<open>The busy nodes are those that are held, each by one thread.\<close>

definition pool_inv :: "('c, 't) pool_world \<Rightarrow> bool" where
  "pool_inv w \<longleftrightarrow> distinct (map fst (cp_nodes (fst w))) \<and> (\<forall>c. (c, True) \<in> set (cp_nodes (fst w)) \<longleftrightarrow> (\<exists>t. snd w t = Holds c)) \<and>
     (\<forall>t u c. snd w t = Holds c \<longrightarrow> snd w u = Holds c \<longrightarrow> t = u)"

text \<open>Without failing waits the semaphore counts the idle nodes not yet promised to a waiting thread.\<close>

definition pool_counts :: "('c, 't) pool_world \<Rightarrow> bool" where
  "pool_counts w \<longleftrightarrow> finite {t. snd w t = Waited} \<and> cp_sem (fst w) + card {t. snd w t = Waited} = idle_count (cp_nodes (fst w))"

lemma idle_not_held:
  assumes inv: "pool_inv (p, th)" and nodes: "cp_nodes p = us @ (c, False) # vs"
  shows "th u \<noteq> Holds c"
proof -
  have "distinct (map fst (us @ (c, False) # vs))" using inv nodes by (simp add: pool_inv_def)
  then have "(c, True) \<notin> set (cp_nodes p)" unfolding nodes by (force simp: image_iff)
  then show ?thesis using inv unfolding pool_inv_def by simp
qed

lemma pool_inv_marks:
  assumes inv: "pool_inv (p, th)" and nodes: "cp_nodes p = us @ (c, b) # vs" "cp_nodes p' = us @ (c, b') # vs"
    and marks: "\<And>u x. x \<noteq> c \<Longrightarrow> th' u = Holds x \<longleftrightarrow> th u = Holds x" "b' \<longleftrightarrow> (\<exists>u. th' u = Holds c)"
      "\<And>u v. th' u = Holds c \<Longrightarrow> th' v = Holds c \<Longrightarrow> u = v"
  shows "pool_inv (p', th')"
proof -
  have d: "distinct (map fst (cp_nodes p))" and busy: "\<And>x. (x, True) \<in> set (cp_nodes p) \<longleftrightarrow> (\<exists>t. th t = Holds x)"
    and one: "\<And>t u x. th t = Holds x \<Longrightarrow> th u = Holds x \<Longrightarrow> t = u" using inv by (simp_all add: pool_inv_def)
  have "(c, True) \<in> set (cp_nodes p') \<longleftrightarrow> b'" using d nodes by (force simp: image_iff)
  moreover have "(x, True) \<in> set (cp_nodes p') \<longleftrightarrow> (x, True) \<in> set (cp_nodes p)" if "x \<noteq> c" for x using that nodes by auto
  ultimately have "(x, True) \<in> set (cp_nodes p') \<longleftrightarrow> (\<exists>t. th' t = Holds x)" for x using busy marks(1,2) by (cases "x = c") simp_all
  moreover have "th' t = Holds x \<Longrightarrow> th' u = Holds x \<Longrightarrow> t = u" for t u x using one marks(1,3) by (cases "x = c") simp_all
  moreover have "distinct (map fst (cp_nodes p'))" using d nodes by simp
  ultimately show ?thesis unfolding pool_inv_def fst_conv snd_conv by blast
qed

lemma pool_inv_other: "pool_inv (p, th) \<Longrightarrow> cp_nodes p' = cp_nodes p \<Longrightarrow> (\<And>u x. th' u = Holds x \<longleftrightarrow> th u = Holds x) \<Longrightarrow> pool_inv (p', th')"
  by (simp add: pool_inv_def)

lemma pool_step_inv [keeps]:
  assumes "pool_step timed w w'" "pool_inv w"
  shows "pool_inv w'"
  using assms
proof (induction rule: pool_step.induct)
  case (pool_take th t p c p')
  obtain us vs where nodes: "cp_nodes p = us @ (c, False) # vs" "cp_nodes p' = us @ (c, True) # vs" using Borrow_scan_Some [OF pool_take(2)] by blast
  then have "th u \<noteq> Holds c" for u using idle_not_held [OF pool_take(3)] by blast
  then show ?case using pool_take(1) by (intro pool_inv_marks [OF pool_take(3) nodes]) (auto split: if_splits)
next
  case (pool_null th t p p')
  have "p' = p" using Borrow_scan_None [OF pool_null(2)] by blast
  then show ?case using pool_null(1) by (intro pool_inv_other [OF pool_null(3)]) auto
next
  case (pool_release th t c p)
  then have one: "th u = Holds c \<Longrightarrow> u = t" for u by (auto simp: pool_inv_def)
  have "(c, True) \<in> set (cp_nodes p)" using pool_release by (auto simp: pool_inv_def)
  then obtain us vs where nodes: "cp_nodes p = us @ (c, True) # vs" by (meson split_list)
  then have "c \<notin> fst ` set us" using pool_release(2) by (auto simp: pool_inv_def)
  then have nodes': "cp_nodes (Pool_Release c p) = us @ (c, False) # vs" using nodes by (simp add: Pool_Release_def give_back_split)
  have none: "(th(t := Outside)) u \<noteq> Holds c" for u using one [of u] by (cases "u = t") auto
  have same: "x \<noteq> c \<Longrightarrow> (th(t := Outside)) u = Holds x \<longleftrightarrow> th u = Holds x" for u x using pool_release(1) by auto
  show ?case by (rule pool_inv_marks [OF pool_release(2) nodes nodes']) (use none same in blast)+
next
  case (pool_wait th t p n)
  show ?case using pool_wait(1) by (intro pool_inv_other [OF pool_wait(3)]) auto
next
  case (pool_expire th t p)
  show ?case using pool_expire(2) by (intro pool_inv_other [OF pool_expire(4)]) auto
next
  case (pool_add c p r p' th)
  then show ?case by (auto simp: pool_inv_def Pool_Add_def image_iff split: if_splits)
qed

lemma pool_start_inv: "pool_inv (snd (Pool_Init (ComPool mx 0)), \<lambda>_. Outside)" "pool_counts (snd (Pool_Init (ComPool mx 0)), \<lambda>_. Outside)"
  by (simp_all add: pool_inv_def pool_counts_def Pool_Init_def ComPool_def idle_count_def)

lemma pool_step_counts [keeps]:
  assumes "pool_step False w w'" "pool_inv w" "pool_counts w"
  shows "pool_counts w'"
  using assms
proof (induction rule: pool_step.induct)
  case (pool_wait th t p n)
  have "{u. (th(t := Waited)) u = Waited} = insert t {u. th u = Waited}" by auto
  then show ?case using pool_wait by (simp add: pool_counts_def)
next
  case (pool_take th t p c p')
  obtain us vs where nodes: "cp_nodes p = us @ (c, False) # vs" "cp_nodes p' = us @ (c, True) # vs" "cp_sem p' = cp_sem p"
    using Borrow_scan_Some [OF pool_take(2)] by blast
  define W where "W = {u. (th(t := Holds c)) u = Waited}"
  have "{u. th u = Waited} = insert t W" "t \<notin> W" using pool_take(1) by (auto simp: W_def)
  moreover from this have "finite W" using pool_take(4) by (simp add: pool_counts_def)
  ultimately have "card {u. th u = Waited} = Suc (card W)" by simp
  then show ?case using \<open>finite W\<close> pool_take(4) nodes unfolding pool_counts_def fst_conv snd_conv W_def [symmetric] by simp
next
  case (pool_null th t p p')
  have nodes: "p' = p" "idle_count (cp_nodes p) = 0" using Borrow_scan_None [OF pool_null(2)] by blast+
  have "0 < card {u. th u = Waited}" using pool_null(1,4) by (auto simp: pool_counts_def card_gt_0_iff)
  then show ?case using nodes pool_null(4) by (simp add: pool_counts_def)
next
  case (pool_release th t c p)
  have "(c, True) \<in> set (cp_nodes p)" using pool_release by (auto simp: pool_inv_def)
  then obtain us vs where nodes: "cp_nodes p = us @ (c, True) # vs" by (meson split_list)
  then have "c \<notin> fst ` set us" using pool_release(2) by (auto simp: pool_inv_def)
  moreover have "{u. (th(t := Outside)) u = Waited} = {u. th u = Waited}" using pool_release(1) by auto
  ultimately show ?case using nodes pool_release(3) by (simp add: pool_counts_def Pool_Release_def give_back_split)
next
  case (pool_add c p r p' th)
  then show ?case by (auto simp: pool_counts_def Pool_Add_def split: if_splits)
qed simp

lemma pool_reach_inv:
  assumes "pool_reach timed mx w"
  shows "pool_inv w \<and> (\<not> timed \<longrightarrow> pool_counts w)"
  using assms unfolding pool_reach_def
proof (induction rule: rtranclp_induct)
  case (step w w')
  have "pool_inv w'" using step pool_step_inv by blast
  moreover have "pool_counts w'" if "\<not> timed" using step that pool_step_counts [of w w'] by simp
  ultimately show ?case by blast
qed (simp add: pool_start_inv)

text \<open>
  Pool: in every interleaving of threads that borrow and give back, also when waits run out, no
  component is held by two threads, and exactly the components that are held are marked as busy.
\<close>

theorem pool_exclusive:
  assumes "pool_reach timed mx (p, th)"
  shows "((c, True) \<in> set (cp_nodes p) \<longleftrightarrow> (\<exists>t. th t = Holds c)) \<and> (th t = Holds c \<and> th u = Holds c \<longrightarrow> t = u)"
  using pool_reach_inv [OF assms] unfolding pool_inv_def fst_conv snd_conv by blast

text \<open>
  Pool: as long as no wait runs out, a thread that has passed the semaphore finds an idle component
  when it searches; the semaphore counts the idle components that no such thread will take.
\<close>

theorem pool_borrow_succeeds:
  assumes "pool_reach False mx (p, th)" "th t = Waited"
  shows "\<exists>c p'. Borrow_scan p = (Some c, p') \<and> (\<forall>u. th u \<noteq> Holds c) \<and> cp_sem p < idle_count (cp_nodes p)"
proof -
  have inv: "pool_inv (p, th)" and cnt: "pool_counts (p, th)" using pool_reach_inv [OF assms(1)] by auto
  have "0 < card {u. th u = Waited}" using cnt assms(2) by (auto simp: pool_counts_def card_gt_0_iff)
  then have less: "cp_sem p < idle_count (cp_nodes p)" using cnt by (simp add: pool_counts_def)
  then obtain c ns where c: "take_idle (cp_nodes p) = (Some c, ns)" using idle_count_pos [of "cp_nodes p"] by auto
  obtain us vs where "cp_nodes p = us @ (c, False) # vs" using take_idle_split [OF c] by blast
  then have "\<forall>u. th u \<noteq> Holds c" using idle_not_held [OF inv] by blast
  then show ?thesis using c less by (simp add: Borrow_scan_def)
qed

lemma demo_pool_reach:
  fixes th :: "nat \<Rightarrow> nat borrower"
  assumes "th = (\<lambda>_. Outside)(1 := Waited)"
  shows "pool_reach False 1 (\<lparr>cp_nodes = [(7, False)], cp_sem = 0, cp_max = 1\<rparr>, th)"
    "pool_reach False 1 (\<lparr>cp_nodes = [(7, True)], cp_sem = 0, cp_max = 1\<rparr>, th(1 := Holds 7))"
proof -
  let ?p0 = "\<lparr>cp_nodes = [], cp_sem = 0, cp_max = 1\<rparr> :: nat com_pool" and ?p1 = "\<lparr>cp_nodes = [(7, False)], cp_sem = 1, cp_max = 1\<rparr> :: nat com_pool"
  let ?t0 = "\<lambda>_ :: nat. Outside :: nat borrower"
  have p0: "snd (Pool_Init (ComPool 1 0)) = ?p0" by (simp add: Pool_Init_def ComPool_def)
  have 1: "pool_step False (?p0, ?t0) (?p1, ?t0)" by (rule pool_add [where c = 7 and r = 0]) (auto simp: Pool_Add_def)
  have 2: "pool_step False (?p1, ?t0) (?p1\<lparr>cp_sem := 0\<rparr>, ?t0(1 := Waited))" by (rule pool_wait) auto
  show w: "pool_reach False 1 (\<lparr>cp_nodes = [(7, False)], cp_sem = 0, cp_max = 1\<rparr>, th)"
    unfolding pool_reach_def p0 assms using 1 2 by (simp add: converse_rtranclp_into_rtranclp r_into_rtranclp)
  have "pool_step False (\<lparr>cp_nodes = [(7, False)], cp_sem = 0, cp_max = 1\<rparr>, th) (\<lparr>cp_nodes = [(7, True)], cp_sem = 0, cp_max = 1\<rparr>, th(1 := Holds 7))"
    by (rule pool_take) (auto simp: assms Borrow_scan_def)
  with w show "pool_reach False 1 (\<lparr>cp_nodes = [(7, True)], cp_sem = 0, cp_max = 1\<rparr>, th(1 := Holds 7))" by (simp add: pool_reach_def)
qed

theorem pool_exclusive_witness:
  "((7 :: nat, True) \<in> set [(7, True)] \<longleftrightarrow> (\<exists>t :: nat. ((\<lambda>_. Outside)(1 := Waited, 1 := Holds 7)) t = Holds 7))"
  using pool_exclusive [OF demo_pool_reach(2) [OF refl], of 7 1 1] by simp

theorem pool_borrow_succeeds_witness:
  "\<exists>c p'. Borrow_scan \<lparr>cp_nodes = [(7 :: nat, False)], cp_sem = 0, cp_max = 1\<rparr> = (Some c, p')"
  using pool_borrow_succeeds [OF demo_pool_reach(1) [OF refl], of 1] by auto

text \<open>
  After a wait that ran out, the thread still takes an idle component if there is one by then; the
  semaphore then promises more components than there are, and a thread that has waited gets none.
\<close>

lemma pool_null_after_timeout:
  "\<exists>p th. pool_reach True 1 (p :: nat com_pool, th) \<and> th (2 :: nat) = Waited \<and> th 1 = Holds 7 \<and> fst (Borrow_scan p) = None \<and> cp_sem p = 0"
proof -
  let ?p0 = "\<lparr>cp_nodes = [], cp_sem = 0, cp_max = 1\<rparr> :: nat com_pool" and ?p1 = "\<lparr>cp_nodes = [(7, False)], cp_sem = 1, cp_max = 1\<rparr> :: nat com_pool"
  let ?p2 = "\<lparr>cp_nodes = [(7, True)], cp_sem = 1, cp_max = 1\<rparr> :: nat com_pool" and ?p3 = "\<lparr>cp_nodes = [(7, True)], cp_sem = 0, cp_max = 1\<rparr> :: nat com_pool"
  let ?t0 = "\<lambda>_ :: nat. Outside :: nat borrower"
  have 1: "pool_step True (?p0, ?t0) (?p0, ?t0(1 := Waited))" by (rule pool_expire) auto
  have 2: "pool_step True (?p0, ?t0(1 := Waited)) (?p1, ?t0(1 := Waited))" by (rule pool_add [where c = 7 and r = 0]) (auto simp: Pool_Add_def)
  have 3: "pool_step True (?p1, ?t0(1 := Waited)) (?p2, (?t0(1 := Waited))(1 := Holds 7))" by (rule pool_take) (auto simp: Borrow_scan_def)
  have 4: "pool_step True (?p2, (?t0(1 := Waited))(1 := Holds 7)) (?p2\<lparr>cp_sem := 0\<rparr>, ((?t0(1 := Waited))(1 := Holds 7))(2 := Waited))" by (rule pool_wait) auto
  have "pool_reach True 1 (?p3, ((?t0(1 := Waited))(1 := Holds 7))(2 := Waited))"
  proof -
    have "(pool_step True)\<^sup>*\<^sup>* (?p0, ?t0) (?p2\<lparr>cp_sem := 0\<rparr>, ((?t0(1 := Waited))(1 := Holds 7))(2 := Waited))"
      using 1 2 3 4 by (meson converse_rtranclp_into_rtranclp rtranclp.rtrancl_refl)
    moreover have "snd (Pool_Init (ComPool 1 0)) = ?p0" "?p2\<lparr>cp_sem := 0\<rparr> = ?p3" by (simp_all add: Pool_Init_def ComPool_def)
    ultimately show ?thesis unfolding pool_reach_def by metis
  qed
  then show ?thesis by (intro exI [of _ ?p3] exI) (auto simp: Borrow_scan_def)
qed

end
