(* ===== verification/Beansdb.thy ===== *)
theory Beansdb
  imports Com_Pool
begin

unbundle bit_operations_syntax

text \<open>
  The client of the picture store, \<open>common/src/beansdb_client.cc\<close> and \<open>memcached_client.cc\<close>: keys are hashed
  to one of 16 buckets, each bucket is kept by several Memcached servers. A client of one server is that
  server. \<open>libmemcached\<close> and \<open>zlib\<close> are the record \<open>memcached_lib\<close>; \<open>'w\<close> is the state of the servers.
  Timeouts and logging have no counterpart.
\<close>

subsection \<open>The Memcached client\<close>

datatype beansdb_client_ret_t = BCR_SUCCESS | BCR_MEMCACHED_CREATE_FAILED | BCR_MEMCACHED_APPENDSERVERLIST_FAILED
  | BCR_MEMCACHED_PUSHSERVER_FAILED | BCR_MEMCACHED_NOTFOUND | BCR_MEMCACHED_GET_FAILED | BCR_MEMCACHED_SET_FAILED
  | BCR_MEMCACHED_DELETE_FAILED | BCR_OUTOFMEMORY | BCR_BEANSDB_SAVELESSTHAN2 | BCR_BEANSDB_OUTOFBUCKET
  | BCR_BEANSDB_GETBUCKET_FAILED | BCR_BEANSDB_OUTOFCLIENTS | BCR_MEMCACHED_SET_BEHAVIOR_FAILED
  | BCR_POOL_UNAVAILABLE_SOURCE | BCR_MEMCACHE_UNCOMPRESS_FAILED | BCR_CLUSTER_CONF_FAILED | BCR_PARSE_PICKEY_FAILED
  | BCR_NOCLUSTER_FOUND

datatype memcached_return_t = MEMCACHED_SUCCESS | MEMCACHED_NOTFOUND | MEMCACHED_OTHER

datatype zlib_status = Z_OK string | Z_BUF_ERROR | Z_DATA_ERROR

type_synonym server = "string \<times> u32"

text \<open>
  Values are answered with their flags; \<open>lm_append\<close>, \<open>lm_push\<close> and \<open>lm_behavior\<close> are the results of setting up
  a client, the behaviours numbered in the order they are set; \<open>lm_uncompress\<close> is given the capacity.
\<close>

record 'w memcached_lib =
  lm_append :: "server \<Rightarrow> memcached_return_t"
  lm_push :: "server \<Rightarrow> memcached_return_t"
  lm_behavior :: "server \<Rightarrow> nat \<Rightarrow> memcached_return_t"
  lm_get :: "server \<Rightarrow> string \<Rightarrow> 'w \<Rightarrow> (memcached_return_t \<times> string \<times> nat) \<times> 'w"
  lm_set :: "server \<Rightarrow> string \<Rightarrow> string \<Rightarrow> 'w \<Rightarrow> memcached_return_t \<times> 'w"
  lm_delete :: "server \<Rightarrow> string \<Rightarrow> 'w \<Rightarrow> memcached_return_t \<times> 'w"
  lm_uncompress :: "string \<Rightarrow> nat \<Rightarrow> zlib_status"

definition mc_AddServer :: "'w memcached_lib \<Rightarrow> server \<Rightarrow> beansdb_client_ret_t" where
  "mc_AddServer lib s =
     (if lm_append lib s \<noteq> MEMCACHED_SUCCESS then BCR_MEMCACHED_APPENDSERVERLIST_FAILED
      else if lm_push lib s \<noteq> MEMCACHED_SUCCESS then BCR_MEMCACHED_PUSHSERVER_FAILED
      else if lm_behavior lib s 0 \<noteq> MEMCACHED_SUCCESS then BCR_MEMCACHED_SET_BEHAVIOR_FAILED
      else if lm_behavior lib s 1 \<noteq> MEMCACHED_SUCCESS then BCR_MEMCACHED_SET_BEHAVIOR_FAILED
      else BCR_SUCCESS)"

definition SetAutoReset :: "'w memcached_lib \<Rightarrow> server \<Rightarrow> beansdb_client_ret_t" where
  "SetAutoReset lib s =
     (if lm_behavior lib s 2 \<noteq> MEMCACHED_SUCCESS then BCR_MEMCACHED_SET_BEHAVIOR_FAILED
      else if lm_behavior lib s 3 \<noteq> MEMCACHED_SUCCESS then BCR_MEMCACHED_SET_BEHAVIOR_FAILED
      else BCR_SUCCESS)"

text \<open>The capacity for a compressed value is doubled until the value fits, 15 times at most.\<close>

function uncompress_loop :: "'w memcached_lib \<Rightarrow> string \<Rightarrow> nat \<Rightarrow> zlib_status" where
  "uncompress_loop lib v factor =
     (case lm_uncompress lib v (length v * 2 ^ factor) of
        Z_BUF_ERROR \<Rightarrow> if factor + 1 < 16 then uncompress_loop lib v (factor + 1) else Z_BUF_ERROR
      | st \<Rightarrow> st)"
  by pat_completeness auto
termination by (relation "measure (\<lambda>(lib, v, factor). 16 - factor)") auto

declare uncompress_loop.simps [simp del]

definition mc_Get :: "'w memcached_lib \<Rightarrow> server \<Rightarrow> string \<Rightarrow> 'w \<Rightarrow> (beansdb_client_ret_t \<times> string option) \<times> 'w" where
  "mc_Get lib s key w =
     (let ((ret, v, flag), w') = lm_get lib s key w in
      (case ret of
         MEMCACHED_SUCCESS \<Rightarrow>
           if flag = 2 then (case uncompress_loop lib v 1 of Z_OK u \<Rightarrow> (BCR_SUCCESS, Some u) | _ \<Rightarrow> (BCR_MEMCACHE_UNCOMPRESS_FAILED, None))
           else (BCR_SUCCESS, Some v)
       | MEMCACHED_NOTFOUND \<Rightarrow> (BCR_MEMCACHED_NOTFOUND, None)
       | MEMCACHED_OTHER \<Rightarrow> (BCR_MEMCACHED_GET_FAILED, None), w'))"

definition mc_Set :: "'w memcached_lib \<Rightarrow> server \<Rightarrow> string \<Rightarrow> string \<Rightarrow> 'w \<Rightarrow> beansdb_client_ret_t \<times> 'w" where
  "mc_Set lib s key v w =
     (let (ret, w') = lm_set lib s key v w in (if ret \<noteq> MEMCACHED_SUCCESS then BCR_MEMCACHED_SET_FAILED else BCR_SUCCESS, w'))"

definition mc_Delete :: "'w memcached_lib \<Rightarrow> server \<Rightarrow> string \<Rightarrow> 'w \<Rightarrow> beansdb_client_ret_t \<times> 'w" where
  "mc_Delete lib s key w =
     (let (ret, w') = lm_delete lib s key w in (if ret \<noteq> MEMCACHED_SUCCESS then BCR_MEMCACHED_DELETE_FAILED else BCR_SUCCESS, w'))"

subsection \<open>Buckets\<close>

text \<open>The array of clients of a bucket, of which the first \<open>bk_count\<close> are set up.\<close>

record beansdb_bucket =
  bk_clients :: "server option list"
  bk_count :: nat
  bk_last :: "server option"

record bucket_clients =
  bc_clients :: "beansdb_bucket list"
  bc_buckets_count :: nat
  bc_per_server :: nat

definition BucketClients_new :: bucket_clients where
  "BucketClients_new = \<lparr>bc_clients = [], bc_buckets_count = 0, bc_per_server = 0\<rparr>"

definition bc_Init :: "nat \<Rightarrow> nat \<Rightarrow> bucket_clients \<Rightarrow> beansdb_client_ret_t \<times> bucket_clients" where
  "bc_Init n per b = (BCR_SUCCESS, b\<lparr>bc_buckets_count := n, bc_per_server := per,
     bc_clients := bc_clients b @ replicate n \<lparr>bk_clients = replicate per None, bk_count = 0, bk_last = None\<rparr>\<rparr>)"

text \<open>The server becomes the next client of each of the buckets listed.\<close>

primrec bc_AddServer :: "'w memcached_lib \<Rightarrow> server \<Rightarrow> int list \<Rightarrow> bucket_clients \<Rightarrow> (beansdb_client_ret_t \<times> bucket_clients) cxx" where
  "bc_AddServer lib s [] b = Some (BCR_SUCCESS, b)"
| "bc_AddServer lib s (i # is) b =
     (if i < 0 \<or> int (length (bc_clients b)) \<le> i then None
      else let bk = bc_clients b ! nat i in
        if length (bk_clients bk) \<le> bk_count bk then None
        else if mc_AddServer lib s \<noteq> BCR_SUCCESS then Some (mc_AddServer lib s, b)
        else if SetAutoReset lib s \<noteq> BCR_SUCCESS then Some (SetAutoReset lib s, b)
        else let bk' = bk\<lparr>bk_clients := (bk_clients bk)[bk_count bk := Some s], bk_count := bk_count bk + 1, bk_last := Some s\<rparr>
          in bc_AddServer lib s is (b\<lparr>bc_clients := (bc_clients b)[nat i := bk']\<rparr>))"

text \<open>The guard never holds for an index inside the array.\<close>

definition bc_GetBucket :: "nat \<Rightarrow> bucket_clients \<Rightarrow> (beansdb_bucket option) cxx" where
  "bc_GetBucket i b =
     (if length (bc_clients b) \<le> i then None
      else if bc_buckets_count b \<le> i \<and> bk_count (bc_clients b ! i) = 0 then Some None
      else Some (Some (bc_clients b ! i)))"

subsection \<open>The client of the store\<close>

text \<open>The characters are signed: \<open>h ^= key[i]\<close> extends the sign to 64 bits.\<close>

definition CalcHash :: "string \<Rightarrow> u64" where
  "CalcHash key = foldl (\<lambda>h c. ((h XOR word_of_int (schar c)) * 0x01000193) AND 0xffffffff) 0x811c9dc5 (takeWhile (\<lambda>c. of_char c \<noteq> (0 :: nat)) key)"

definition bucket_index :: "string \<Rightarrow> nat" where
  "bucket_index key = unat (drop_bit 28 (CalcHash key) AND 0x0F)"

definition bd_GetBucket :: "string \<Rightarrow> bucket_clients \<Rightarrow> (beansdb_client_ret_t \<times> (beansdb_bucket \<times> nat) option) cxx" where
  "bd_GetBucket key b =
     (let i = bucket_index key in
      if bc_buckets_count b \<le> i then Some (BCR_BEANSDB_OUTOFBUCKET, None)
      else case bc_GetBucket i b of
        None \<Rightarrow> None
      | Some None \<Rightarrow> Some (BCR_BEANSDB_GETBUCKET_FAILED, None)
      | Some (Some bk) \<Rightarrow>
          if bk_count bk = 0 then None
          else let index = unat (CalcHash key) mod bk_count bk in
            if bk_count bk \<le> index then Some (BCR_BEANSDB_OUTOFCLIENTS, None) else Some (BCR_SUCCESS, Some (bk, index)))"

definition client_at :: "beansdb_bucket \<Rightarrow> nat \<Rightarrow> server cxx" where
  "client_at bk i = (if i < length (bk_clients bk) then bk_clients bk ! i else None)"

text \<open>Loops over the clients of a bucket.\<close>

primrec set_loop :: "'w memcached_lib \<Rightarrow> string \<Rightarrow> string \<Rightarrow> beansdb_bucket \<Rightarrow> nat list \<Rightarrow> nat \<Rightarrow> 'w \<Rightarrow> (nat \<times> 'w) cxx" where
  "set_loop lib key v bk [] succ w = Some (succ, w)"
| "set_loop lib key v bk (i # is) succ w =
     (case client_at bk i of
        None \<Rightarrow> None
      | Some s \<Rightarrow> let (ret, w') = mc_Set lib s key v w in set_loop lib key v bk is (if ret \<noteq> BCR_SUCCESS then succ else succ + 1) w')"

definition bd_Set :: "'w memcached_lib \<Rightarrow> string \<Rightarrow> string \<Rightarrow> bucket_clients \<Rightarrow> 'w \<Rightarrow> (beansdb_client_ret_t \<times> 'w) cxx" where
  "bd_Set lib key v b w =
     (case bd_GetBucket key b of
        None \<Rightarrow> None
      | Some (ret, None) \<Rightarrow> Some (ret, w)
      | Some (ret, Some (bk, index)) \<Rightarrow>
          map_option (\<lambda>(succ, w'). (if succ < 1 then BCR_BEANSDB_SAVELESSTHAN2 else BCR_SUCCESS, w')) (set_loop lib key v bk [0..<bk_count bk] 0 w))"

primrec get_loop :: "'w memcached_lib \<Rightarrow> string \<Rightarrow> beansdb_bucket \<Rightarrow> nat \<Rightarrow> nat list \<Rightarrow> beansdb_client_ret_t \<times> string option \<Rightarrow> 'w
    \<Rightarrow> ((beansdb_client_ret_t \<times> string option) \<times> 'w) cxx" where
  "get_loop lib key bk index [] res w = Some (res, w)"
| "get_loop lib key bk index (i # is) res w =
     (if i = index then get_loop lib key bk index is res w
      else case client_at bk i of
        None \<Rightarrow> None
      | Some s \<Rightarrow>
          let (res', w') = mc_Get lib s key w in
          if fst res' = BCR_SUCCESS then Some (res', w') else get_loop lib key bk index is res' w')"

definition bd_Get :: "'w memcached_lib \<Rightarrow> string \<Rightarrow> bucket_clients \<Rightarrow> 'w \<Rightarrow> ((beansdb_client_ret_t \<times> string option) \<times> 'w) cxx" where
  "bd_Get lib key b w =
     (case bd_GetBucket key b of
        None \<Rightarrow> None
      | Some (ret, None) \<Rightarrow> Some ((ret, None), w)
      | Some (ret, Some (bk, index)) \<Rightarrow>
          (case client_at bk index of
             None \<Rightarrow> None
           | Some s \<Rightarrow>
               let (res, w') = mc_Get lib s key w in
               if fst res \<noteq> BCR_SUCCESS then get_loop lib key bk index [0..<bk_count bk] res w' else Some (res, w')))"

primrec delete_loop :: "'w memcached_lib \<Rightarrow> string \<Rightarrow> beansdb_bucket \<Rightarrow> nat list \<Rightarrow> beansdb_client_ret_t \<Rightarrow> 'w \<Rightarrow> (beansdb_client_ret_t \<times> 'w) cxx" where
  "delete_loop lib key bk [] ret w = Some (ret, w)"
| "delete_loop lib key bk (i # is) ret w =
     (case client_at bk i of None \<Rightarrow> None | Some s \<Rightarrow> let (ret', w') = mc_Delete lib s key w in delete_loop lib key bk is ret' w')"

definition bd_Delete :: "'w memcached_lib \<Rightarrow> string \<Rightarrow> bucket_clients \<Rightarrow> 'w \<Rightarrow> (beansdb_client_ret_t \<times> 'w) cxx" where
  "bd_Delete lib key b w =
     (case bd_GetBucket key b of
        None \<Rightarrow> None
      | Some (ret, None) \<Rightarrow> Some (ret, w)
      | Some (ret, Some (bk, index)) \<Rightarrow> delete_loop lib key bk [0..<bk_count bk] ret w)"

text \<open>\<open>Exist\<close> returns the error code of \<open>GetBucket\<close> as a truth value.\<close>

primrec exist_loop :: "'w memcached_lib \<Rightarrow> string \<Rightarrow> beansdb_bucket \<Rightarrow> nat list \<Rightarrow> 'w \<Rightarrow> (bool \<times> 'w) cxx" where
  "exist_loop lib key bk [] w = Some (False, w)"
| "exist_loop lib key bk (i # is) w =
     (case client_at bk i of
        None \<Rightarrow> None
      | Some s \<Rightarrow> let (res, w') = mc_Get lib s (CHR ''?'' # key) w in if fst res = BCR_SUCCESS then Some (True, w') else exist_loop lib key bk is w')"

definition bd_Exist :: "'w memcached_lib \<Rightarrow> string \<Rightarrow> bucket_clients \<Rightarrow> 'w \<Rightarrow> (bool \<times> 'w) cxx" where
  "bd_Exist lib key b w =
     (case bd_GetBucket key b of
        None \<Rightarrow> None
      | Some (ret, None) \<Rightarrow> Some (ret \<noteq> BCR_SUCCESS, w)
      | Some (ret, Some (bk, index)) \<Rightarrow> exist_loop lib key bk [0..<bk_count bk] w)"

subsection \<open>The hash\<close>

text \<open>The hash function FNV-1a on 32 bits.\<close>

definition fnv1a :: "string \<Rightarrow> u32" where
  "fnv1a = foldl (\<lambda>h c. (h XOR word_of_nat (of_char c)) * 0x01000193) 0x811c9dc5"

lemma hash_step:
  assumes "of_char c < (128 :: nat)" "unat h = unat (g :: u32)"
  shows "unat (((h XOR word_of_int (schar c)) * 0x01000193) AND 0xffffffff :: u64) = unat ((g XOR word_of_nat (of_char c)) * 0x01000193)"
proof -
  have c: "word_of_int (schar c) = (word_of_nat (of_char c) :: u64)" using assms(1) by (simp add: schar_def)
  have n: "unat (word_of_nat (of_char c) :: u64) = of_char c" "unat (word_of_nat (of_char c) :: u32) = of_char c"
    using assms(1) by (simp_all add: unat_of_nat)
  let ?x = "unat g XOR of_char c"
  have "unat (h XOR word_of_nat (of_char c)) = ?x" "unat (g XOR word_of_nat (of_char c)) = ?x" by (simp_all add: unsigned_xor_eq n assms(2))
  then have "unat ((h XOR word_of_nat (of_char c)) * 0x01000193) = ?x * 0x01000193 mod 2 ^ 64" "unat ((g XOR word_of_nat (of_char c)) * 0x01000193) = ?x * 0x01000193 mod 2 ^ 32"
    by (simp_all add: unat_word_ariths)
  moreover have "unat (z AND 0xffffffff) = unat z mod 2 ^ 32" for z :: u64
  proof -
    have "z AND 0xffffffff = take_bit 32 z" by (simp add: take_bit_eq_mask mask_eq_exp_minus_1)
    then have "unat (z AND 0xffffffff) = take_bit 32 (unat z)" by (simp only: unsigned_take_bit_eq)
    then show ?thesis by (simp add: take_bit_eq_mod)
  qed
  ultimately show ?thesis unfolding c by (simp add: mod_mod_cancel)
qed

text \<open>
  Store: for keys of plain characters the hash that selects bucket and server is FNV-1a.
\<close>

theorem CalcHash_fnv1a:
  assumes "\<forall>c \<in> set key. 0 < (of_char c :: nat) \<and> of_char c < (128 :: nat)"
  shows "CalcHash key = ucast (fnv1a key)"
proof -
  have "unat (foldl (\<lambda>h c. ((h XOR word_of_int (schar c)) * 0x01000193) AND 0xffffffff) h key :: u64) = unat (foldl (\<lambda>h c. (h XOR word_of_nat (of_char c)) * 0x01000193) g key :: u32)"
    if "unat h = unat g" for h g using assms that
  proof (induction key arbitrary: h g)
    case (Cons c key)
    then have "unat (((h XOR word_of_int (schar c)) * 0x01000193) AND 0xffffffff) = unat ((g XOR word_of_nat (of_char c)) * 0x01000193)" using hash_step [of c h g] by simp
    then show ?case using Cons by simp
  qed simp
  moreover have "takeWhile (\<lambda>c. of_char c \<noteq> (0 :: nat)) key = key" using assms by (simp add: takeWhile_eq_all_conv)
  moreover have "unat (0x811c9dc5 :: u64) = unat (0x811c9dc5 :: u32)" by simp
  ultimately have "unat (CalcHash key) = unat (fnv1a key)" unfolding CalcHash_def fnv1a_def by (simp only:)
  moreover have "unat (ucast (fnv1a key) :: u64) = unat (fnv1a key)" by (simp add: unsigned_ucast_eq take_bit_nat_eq_self unsigned_less less_trans [OF unsigned_less])
  ultimately show ?thesis by (simp add: word_unat_eq_iff)
qed

text \<open>Other characters are extended to 64 bits with their sign and give another value.\<close>

lemma CalcHash_signed: "CalcHash [CHR 0x80] \<noteq> ucast (fnv1a [CHR 0x80])"
  by code_simp

lemma bucket_index_less: "bucket_index key < 16"
proof -
  have "drop_bit 28 (CalcHash key) AND 0x0F = take_bit 4 (drop_bit 28 (CalcHash key))" by (simp add: take_bit_eq_mask mask_eq_exp_minus_1)
  then have "bucket_index key = take_bit 4 (unat (drop_bit 28 (CalcHash key)))" by (simp only: bucket_index_def unsigned_take_bit_eq)
  then show ?thesis by (simp add: take_bit_eq_mod)
qed

subsection \<open>Reading what was written\<close>

text \<open>
  What is relied on of the servers: \<open>view w s\<close> is what server \<open>s\<close> stores. A server that can be reached
  stores and returns values, one that cannot answers with an error; reading changes nothing.
\<close>

definition lib_laws :: "'w memcached_lib \<Rightarrow> ('w \<Rightarrow> server \<Rightarrow> string \<rightharpoonup> string) \<Rightarrow> server set \<Rightarrow> bool" where
  "lib_laws lib view up \<longleftrightarrow>
     (\<forall>s k v w. let (r, w') = lm_set lib s k v w in
        if s \<in> up then r = MEMCACHED_SUCCESS \<and> view w' = (view w)(s := (view w s)(k \<mapsto> v)) else r \<noteq> MEMCACHED_SUCCESS \<and> view w' = view w) \<and>
     (\<forall>s k w. let ((r, x, f), w') = lm_get lib s k w in view w' = view w \<and>
        (if s \<in> up then (case view w s k of None \<Rightarrow> r = MEMCACHED_NOTFOUND | Some v \<Rightarrow> r = MEMCACHED_SUCCESS \<and> x = v \<and> f \<noteq> 2) else r = MEMCACHED_OTHER))"

lemma lib_set:
  assumes "lib_laws lib view up"
  shows "\<exists>w'. mc_Set lib s k v w = (if s \<in> up then BCR_SUCCESS else BCR_MEMCACHED_SET_FAILED, w') \<and>
    view w' = (if s \<in> up then (view w)(s := (view w s)(k \<mapsto> v)) else view w)"
proof -
  obtain r w' where r: "lm_set lib s k v w = (r, w')" by fastforce
  have "let (r, w') = lm_set lib s k v w in
      if s \<in> up then r = MEMCACHED_SUCCESS \<and> view w' = (view w)(s := (view w s)(k \<mapsto> v)) else r \<noteq> MEMCACHED_SUCCESS \<and> view w' = view w"
    using assms unfolding lib_laws_def by blast
  then show ?thesis using r by (auto simp: mc_Set_def split: if_splits)
qed

lemma lib_get:
  assumes "lib_laws lib view up"
  shows "\<exists>res w'. mc_Get lib s k w = (res, w') \<and> view w' = view w \<and> (s \<in> up \<and> view w s k = Some v \<longrightarrow> res = (BCR_SUCCESS, Some v)) \<and>
    (s \<notin> up \<or> view w s k = None \<longrightarrow> fst res \<noteq> BCR_SUCCESS)"
proof -
  obtain r x f w' where r: "lm_get lib s k w = ((r, x, f), w')" by (metis prod.exhaust)
  have "let ((r, x, f), w') = lm_get lib s k w in view w' = view w \<and>
      (if s \<in> up then (case view w s k of None \<Rightarrow> r = MEMCACHED_NOTFOUND | Some v \<Rightarrow> r = MEMCACHED_SUCCESS \<and> x = v \<and> f \<noteq> 2) else r = MEMCACHED_OTHER)"
    using assms unfolding lib_laws_def by blast
  then show ?thesis using r by (auto simp: mc_Get_def split: if_splits option.splits)
qed

text \<open>The key belongs to a bucket with the clients \<open>reps\<close>.\<close>

definition serves :: "string \<Rightarrow> bucket_clients \<Rightarrow> server list \<Rightarrow> bool" where
  "serves key b reps \<longleftrightarrow> bucket_index key < bc_buckets_count b \<and> length (bc_clients b) = bc_buckets_count b \<and> reps \<noteq> [] \<and>
     (let bk = bc_clients b ! bucket_index key in bk_count bk = length reps \<and> take (length reps) (bk_clients bk) = map Some reps)"

lemma serves_GetBucket:
  assumes "serves key b reps"
  obtains bk where "bd_GetBucket key b = Some (BCR_SUCCESS, Some (bk, unat (CalcHash key) mod length reps))" "bk_count bk = length reps"
    "\<And>i. i < length reps \<Longrightarrow> client_at bk i = Some (reps ! i)"
proof -
  let ?bk = "bc_clients b ! bucket_index key"
  have bk: "bucket_index key < length (bc_clients b)" "bk_count ?bk = length reps" "take (length reps) (bk_clients ?bk) = map Some reps" "reps \<noteq> []"
    using assms by (auto simp: serves_def Let_def)
  have "client_at ?bk i = Some (reps ! i)" if "i < length reps" for i
  proof -
    have "i < length (bk_clients ?bk)" using arg_cong [OF bk(3), of length] that by simp
    then show ?thesis using arg_cong [OF bk(3), of "\<lambda>xs. xs ! i"] that by (simp add: client_at_def)
  qed
  then show thesis using that [of ?bk] bk assms by (simp add: bd_GetBucket_def bc_GetBucket_def serves_def Let_def not_le)
qed

lemma set_loop_stores:
  assumes lib: "lib_laws lib view up" and "\<forall>i \<in> set is. client_at bk i = Some (f i)"
  shows "\<exists>w'. set_loop lib k v bk is n w = Some (n + length (filter (\<lambda>i. f i \<in> up) is), w') \<and>
    view w' = (\<lambda>s. if s \<in> up \<and> s \<in> f ` set is then (view w s)(k \<mapsto> v) else view w s)"
  using assms(2)
proof (induction "is" arbitrary: n w)
  case (Cons i "is")
  obtain w1 where w1: "mc_Set lib (f i) k v w = (if f i \<in> up then BCR_SUCCESS else BCR_MEMCACHED_SET_FAILED, w1)"
    "view w1 = (if f i \<in> up then (view w)(f i := (view w (f i))(k \<mapsto> v)) else view w)" using lib_set [OF lib] by blast
  let ?n = "if f i \<in> up then n + 1 else n"
  obtain w' where "set_loop lib k v bk is ?n w1 = Some (?n + length (filter (\<lambda>i. f i \<in> up) is), w')"
    "view w' = (\<lambda>s. if s \<in> up \<and> s \<in> f ` set is then (view w1 s)(k \<mapsto> v) else view w1 s)" using Cons by fastforce
  moreover from this have "view w' s = (if s \<in> up \<and> s \<in> f ` set (i # is) then (view w s)(k \<mapsto> v) else view w s)" for s
    using w1(2) by (cases "s = f i"; cases "f i \<in> up") auto
  ultimately show ?case using w1(1) Cons.prems by (intro exI [of _ w']) auto
qed simp

lemma get_loop_finds:
  assumes lib: "lib_laws lib view up" and clients: "\<forall>i \<in> set is. client_at bk i = Some (f i)"
    and stored: "\<forall>i \<in> set is. f i \<in> up \<longrightarrow> view w (f i) k = Some v" and some: "\<exists>i \<in> set is. i \<noteq> index \<and> f i \<in> up"
  shows "\<exists>w'. get_loop lib k bk index is res w = Some ((BCR_SUCCESS, Some v), w') \<and> view w' = view w"
  using clients stored some
proof (induction "is" arbitrary: res w)
  case (Cons i "is")
  show ?case
  proof (cases "i = index")
    case True
    then show ?thesis using Cons.IH [of w res] Cons.prems by auto
  next
    case False
    obtain r w1 where w1: "mc_Get lib (f i) k w = (r, w1)" "view w1 = view w" "f i \<in> up \<and> view w (f i) k = Some v \<longrightarrow> r = (BCR_SUCCESS, Some v)"
      "f i \<notin> up \<or> view w (f i) k = None \<longrightarrow> fst r \<noteq> BCR_SUCCESS" using lib_get [OF lib] by blast
    show ?thesis
    proof (cases "f i \<in> up")
      case True
      then show ?thesis using False Cons.prems w1 by auto
    next
      case False
      then have "\<exists>i \<in> set is. i \<noteq> index \<and> f i \<in> up" using Cons.prems(3) by auto
      then obtain w' where "get_loop lib k bk index is r w1 = Some ((BCR_SUCCESS, Some v), w')" "view w' = view w1"
        using Cons.IH [of w1 r] Cons.prems w1(2) by auto
      then show ?thesis using False \<open>i \<noteq> index\<close> Cons.prems(1) w1 by auto
    qed
  qed
qed simp

lemma bd_Set_stores:
  assumes lib: "lib_laws lib view up" and b: "serves key b reps" and reach: "set reps \<inter> up \<noteq> {}"
  shows "\<exists>w'. bd_Set lib key v b w = Some (BCR_SUCCESS, w') \<and> view w' = (\<lambda>s. if s \<in> up \<and> s \<in> set reps then (view w s)(key \<mapsto> v) else view w s)"
proof -
  obtain bk where bk: "bd_GetBucket key b = Some (BCR_SUCCESS, Some (bk, unat (CalcHash key) mod length reps))" "bk_count bk = length reps"
    "\<And>i. i < length reps \<Longrightarrow> client_at bk i = Some (reps ! i)" using serves_GetBucket [OF b] by metis
  let ?is = "[0..<length reps]"
  have clients: "\<forall>i \<in> set ?is. client_at bk i = Some (reps ! i)" using bk(3) by simp
  have reps: "(!) reps ` set ?is = set reps" by (metis map_nth set_map)
  obtain w' where w': "set_loop lib key v bk ?is 0 w = Some (length (filter (\<lambda>i. reps ! i \<in> up) ?is), w')"
    "view w' = (\<lambda>s. if s \<in> up \<and> s \<in> set reps then (view w s)(key \<mapsto> v) else view w s)"
    using set_loop_stores [OF lib clients, of key v 0 w] unfolding reps by auto
  obtain j where "j < length reps" "reps ! j \<in> up" using reach by (metis disjoint_iff in_set_conv_nth)
  then have "j \<in> set (filter (\<lambda>i. reps ! i \<in> up) ?is)" by simp
  then have "bd_Set lib key v b w = Some (BCR_SUCCESS, w')" using bk(1,2) w'(1) by (cases "filter (\<lambda>i. reps ! i \<in> up) ?is") (auto simp: bd_Set_def)
  then show ?thesis using w'(2) by blast
qed

lemma bd_Get_finds:
  assumes lib: "lib_laws lib view up" and b: "serves key b reps" and reach: "set reps \<inter> up \<noteq> {}" and stored: "\<forall>s \<in> set reps \<inter> up. view w s key = Some v"
  shows "\<exists>w'. bd_Get lib key b w = Some ((BCR_SUCCESS, Some v), w') \<and> view w' = view w"
proof -
  obtain bk where bk: "bd_GetBucket key b = Some (BCR_SUCCESS, Some (bk, unat (CalcHash key) mod length reps))" "bk_count bk = length reps"
    "\<And>i. i < length reps \<Longrightarrow> client_at bk i = Some (reps ! i)" using serves_GetBucket [OF b] by metis
  let ?is = "[0..<length reps]" and ?index = "unat (CalcHash key) mod length reps"
  have clients: "\<forall>i \<in> set ?is. client_at bk i = Some (reps ! i)" using bk(3) by simp
  have index: "?index < length reps" using b by (simp add: serves_def)
  have here: "view w (reps ! i) key = Some v" if "i < length reps" "reps ! i \<in> up" for i using that stored by simp
  obtain r w1 where w1: "mc_Get lib (reps ! ?index) key w = (r, w1)" "view w1 = view w" "reps ! ?index \<in> up \<and> view w (reps ! ?index) key = Some v \<longrightarrow> r = (BCR_SUCCESS, Some v)"
    "reps ! ?index \<notin> up \<or> view w (reps ! ?index) key = None \<longrightarrow> fst r \<noteq> BCR_SUCCESS" using lib_get [OF lib] by blast
  show ?thesis
  proof (cases "reps ! ?index \<in> up")
    case True
    then show ?thesis using w1 here [OF index] bk(1) bk(3) [OF index] by (simp add: bd_Get_def)
  next
    case False
    obtain j where "j < length reps" "reps ! j \<in> up" using reach by (metis disjoint_iff in_set_conv_nth)
    then have "\<exists>i \<in> set ?is. i \<noteq> ?index \<and> reps ! i \<in> up" using False by (intro bexI [of _ j]) auto
    then obtain w2 where "get_loop lib key bk ?index ?is r w1 = Some ((BCR_SUCCESS, Some v), w2)" "view w2 = view w1"
      using get_loop_finds [OF lib clients, of w1 key v ?index r] here w1(2) by auto
    then show ?thesis using False w1 bk(1,2) bk(3) [OF index] by (simp add: bd_Get_def)
  qed
qed

text \<open>
  Store: a value is stored on every server of its bucket that can be reached, and read back as long
  as some server of the bucket can be reached and none that was out of reach when the value was stored;
  other keys keep their values.
\<close>

theorem bd_Set_Get:
  assumes lib: "lib_laws lib view up" "lib_laws lib' view up'" and b: "serves key b reps"
    and reach: "set reps \<inter> up' \<noteq> {}" "set reps \<inter> up' \<subseteq> up"
  shows "\<exists>w1 w2. bd_Set lib key v b w = Some (BCR_SUCCESS, w1) \<and> bd_Get lib' key b w1 = Some ((BCR_SUCCESS, Some v), w2) \<and>
    view w2 = view w1 \<and> (\<forall>s k. k \<noteq> key \<longrightarrow> view w1 s k = view w s k)"
proof -
  have "set reps \<inter> up \<noteq> {}" using reach by blast
  from bd_Set_stores [OF lib(1) b this, of v w] obtain w1 where w1: "bd_Set lib key v b w = Some (BCR_SUCCESS, w1)"
    "view w1 = (\<lambda>s. if s \<in> up \<and> s \<in> set reps then (view w s)(key \<mapsto> v) else view w s)" by blast
  have "\<forall>s \<in> set reps \<inter> up'. view w1 s key = Some v"
  proof
    fix s assume "s \<in> set reps \<inter> up'"
    then have "s \<in> up" "s \<in> set reps" using reach(2) by blast+
    then show "view w1 s key = Some v" using w1(2) by simp
  qed
  from bd_Get_finds [OF lib(2) b reach(1) this] show ?thesis using w1 by auto
qed

text \<open>
  Store: a server that was out of reach when a value was stored keeps the value it had. If it is
  the one the hash selects and it can be reached again, \<open>Get\<close> returns the old value although the other
  servers have the new one.
\<close>

theorem bd_Get_stale:
  assumes lib: "lib_laws lib view up" "lib_laws lib' view up'" and b: "serves key b reps"
    and s: "s = reps ! (unat (CalcHash key) mod length reps)" "s \<notin> up" "s \<in> up'" "view w s key = Some old" and reach: "set reps \<inter> up \<noteq> {}"
  shows "\<exists>w1 w2. bd_Set lib key v b w = Some (BCR_SUCCESS, w1) \<and> bd_Get lib' key b w1 = Some ((BCR_SUCCESS, Some old), w2)"
proof -
  from bd_Set_stores [OF lib(1) b reach, of v w] obtain w1 where w1: "bd_Set lib key v b w = Some (BCR_SUCCESS, w1)"
    "view w1 = (\<lambda>s. if s \<in> up \<and> s \<in> set reps then (view w s)(key \<mapsto> v) else view w s)" by blast
  obtain bk where bk: "bd_GetBucket key b = Some (BCR_SUCCESS, Some (bk, unat (CalcHash key) mod length reps))"
    "\<And>i. i < length reps \<Longrightarrow> client_at bk i = Some (reps ! i)" using serves_GetBucket [OF b] by metis
  have "unat (CalcHash key) mod length reps < length reps" using b by (simp add: serves_def)
  then have at: "client_at bk (unat (CalcHash key) mod length reps) = Some s" using bk(2) s(1) by simp
  have old: "view w1 s key = Some old" using w1(2) s(2,4) by simp
  obtain r w2 where "mc_Get lib' s key w1 = (r, w2)" "s \<in> up' \<and> view w1 s key = Some old \<longrightarrow> r = (BCR_SUCCESS, Some old)" using lib_get [OF lib(2)] by blast
  then show ?thesis using w1(1) bk(1) at s(3) old by (simp add: bd_Get_def)
qed

text \<open>Servers for a concrete run: what each of them stores; those in \<open>up\<close> can be reached.\<close>

definition demo_servers :: "server set \<Rightarrow> (server \<Rightarrow> string \<rightharpoonup> string) memcached_lib" where
  "demo_servers up = \<lparr>lm_append = (\<lambda>_. MEMCACHED_SUCCESS), lm_push = (\<lambda>_. MEMCACHED_SUCCESS), lm_behavior = (\<lambda>_ _. MEMCACHED_SUCCESS),
     lm_get = (\<lambda>s k w. (if s \<in> up then (case w s k of None \<Rightarrow> (MEMCACHED_NOTFOUND, [], 0) | Some v \<Rightarrow> (MEMCACHED_SUCCESS, v, 0)) else (MEMCACHED_OTHER, [], 0), w)),
     lm_set = (\<lambda>s k v w. if s \<in> up then (MEMCACHED_SUCCESS, w(s := (w s)(k \<mapsto> v))) else (MEMCACHED_OTHER, w)),
     lm_delete = (\<lambda>s k w. if s \<in> up then (MEMCACHED_SUCCESS, w(s := (w s)(k := None))) else (MEMCACHED_OTHER, w)),
     lm_uncompress = (\<lambda>v n. Z_DATA_ERROR)\<rparr>"

lemma demo_servers_laws: "lib_laws (demo_servers up) (\<lambda>w. w) up"
  by (auto simp: lib_laws_def demo_servers_def split: option.splits)

definition demo_buckets :: "server list \<Rightarrow> bucket_clients" where
  "demo_buckets reps = \<lparr>bc_clients = replicate 16 \<lparr>bk_clients = map Some reps, bk_count = length reps, bk_last = None\<rparr>, bc_buckets_count = 16, bc_per_server = length reps\<rparr>"

lemma demo_buckets_serve: "reps \<noteq> [] \<Longrightarrow> serves key (demo_buckets reps) reps"
  using bucket_index_less [of key] by (simp add: serves_def demo_buckets_def)

theorem CalcHash_fnv1a_witness: "CalcHash ''foobar'' = ucast (fnv1a ''foobar'') \<and> fnv1a ''foobar'' = 0xbf9cf968"
proof -
  have "fnv1a ''foobar'' = 0xbf9cf968" by code_simp
  then show ?thesis using CalcHash_fnv1a [of "''foobar''"] by simp
qed

theorem bd_Set_Get_witness:
  "\<exists>w1 w2. bd_Set (demo_servers {(''a'', 1), (''b'', 2)}) ''k'' ''v'' (demo_buckets [(''a'', 1), (''b'', 2)]) (\<lambda>_ _. None) = Some (BCR_SUCCESS, w1) \<and>
    bd_Get (demo_servers {(''b'', 2)}) ''k'' (demo_buckets [(''a'', 1), (''b'', 2)]) w1 = Some ((BCR_SUCCESS, Some ''v''), w2)"
  using bd_Set_Get [OF demo_servers_laws demo_servers_laws demo_buckets_serve, of "[(''a'', 1), (''b'', 2)]" "{(''b'', 2)}" "{(''a'', 1), (''b'', 2)}" "''k''" "''v''" "\<lambda>_ _. None"] by auto

theorem bd_Get_stale_witness:
  "\<exists>s w1 w2. bd_Set (demo_servers (- {s})) ''k'' ''new'' (demo_buckets [(''a'', 1), (''b'', 2)]) (\<lambda>_. [''k'' \<mapsto> ''old'']) = Some (BCR_SUCCESS, w1) \<and>
    bd_Get (demo_servers UNIV) ''k'' (demo_buckets [(''a'', 1), (''b'', 2)]) w1 = Some ((BCR_SUCCESS, Some ''old''), w2)"
proof -
  let ?reps = "[(''a'', 1 :: u32), (''b'', 2)]"
  let ?s = "?reps ! (unat (CalcHash ''k'') mod length ?reps)"
  have "set ?reps \<inter> - {?s} \<noteq> {}" by auto
  then show ?thesis
    using bd_Get_stale [OF demo_servers_laws demo_servers_laws demo_buckets_serve refl, of ?reps "''k''" "- {?s}" UNIV "\<lambda>_. [''k'' \<mapsto> ''old'']" "''old''" "''new''"] by fastforce
qed

text \<open>A bucket without server makes the selection of a server divide by zero.\<close>

lemma bd_GetBucket_empty:
  assumes "bucket_index key < length (bc_clients b)" "length (bc_clients b) = bc_buckets_count b" "bk_count (bc_clients b ! bucket_index key) = 0"
  shows "bd_GetBucket key b = None"
  using assms by (simp add: bd_GetBucket_def bc_GetBucket_def Let_def)

text \<open>With fewer than 16 buckets \<open>Exist\<close> reports every key of the missing ones as present.\<close>

lemma bd_Exist_out_of_bucket: "bc_buckets_count b \<le> bucket_index key \<Longrightarrow> bd_Exist lib key b w = Some (True, w)"
  by (simp add: bd_Exist_def bd_GetBucket_def Let_def)

subsection \<open>Setting up the buckets\<close>

text \<open>The clients of bucket \<open>i\<close>.\<close>

definition bucket_holds :: "bucket_clients \<Rightarrow> nat \<Rightarrow> server list \<Rightarrow> bool" where
  "bucket_holds b i reps \<longleftrightarrow> i < length (bc_clients b) \<and> (let bk = bc_clients b ! i in
     bk_count bk = length reps \<and> take (length reps) (bk_clients bk) = map Some reps \<and> length (bk_clients bk) = bc_per_server b)"

lemma bucket_holds_cong:
  "bucket_holds b i reps \<Longrightarrow> length (bc_clients b') = length (bc_clients b) \<Longrightarrow> bc_clients b' ! i = bc_clients b ! i \<Longrightarrow> bc_per_server b' = bc_per_server b \<Longrightarrow> bucket_holds b' i reps"
  by (simp add: bucket_holds_def)

lemma bc_Init_holds:
  assumes "bc_Init n per BucketClients_new = (r, b)"
  shows "r = BCR_SUCCESS" "length (bc_clients b) = n" "bc_buckets_count b = n" "bc_per_server b = per" "i < n \<Longrightarrow> bucket_holds b i []"
  using assms by (auto simp: bc_Init_def BucketClients_new_def bucket_holds_def)

lemma bc_AddServer_holds:
  assumes lib: "mc_AddServer lib s = BCR_SUCCESS" "SetAutoReset lib s = BCR_SUCCESS"
    and "\<forall>i \<in> set is. 0 \<le> i \<and> bucket_holds b (nat i) reps" "distinct is" "length reps < bc_per_server b"
  shows "\<exists>b'. bc_AddServer lib s is b = Some (BCR_SUCCESS, b') \<and> length (bc_clients b') = length (bc_clients b) \<and> bc_buckets_count b' = bc_buckets_count b \<and>
    bc_per_server b' = bc_per_server b \<and> (\<forall>i \<in> set is. bucket_holds b' (nat i) (reps @ [s])) \<and> (\<forall>i. int i \<notin> set is \<longrightarrow> bc_clients b' ! i = bc_clients b ! i)"
  using assms(3-)
proof (induction "is" arbitrary: b)
  case (Cons i "is")
  let ?bk = "bc_clients b ! nat i"
  have bk: "0 \<le> i" "nat i < length (bc_clients b)" "bk_count ?bk = length reps" "take (length reps) (bk_clients ?bk) = map Some reps" "length (bk_clients ?bk) = bc_per_server b"
    using Cons.prems(1) by (auto simp: bucket_holds_def Let_def)
  let ?bk' = "?bk\<lparr>bk_clients := (bk_clients ?bk)[length reps := Some s], bk_count := length reps + 1, bk_last := Some s\<rparr>"
  let ?b = "b\<lparr>bc_clients := (bc_clients b)[nat i := ?bk']\<rparr>"
  have i: "i \<notin> set is" using Cons.prems(2) by simp
  have step: "bc_AddServer lib s (i # is) b = bc_AddServer lib s is ?b"
  proof -
    have "\<not> (i < 0 \<or> int (length (bc_clients b)) \<le> i)" "\<not> length (bk_clients ?bk) \<le> bk_count ?bk" using bk Cons.prems(3) by linarith+
    then show ?thesis unfolding bc_AddServer.simps Let_def using lib bk(3) by simp
  qed
  have hold: "bucket_holds ?b (nat i) (reps @ [s])"
    using bk Cons.prems(3) by (simp add: bucket_holds_def take_Suc_conv_app_nth take_update_swap list_update_append)
  have "\<forall>j \<in> set is. 0 \<le> j \<and> bucket_holds ?b (nat j) reps"
  proof
    fix j assume j: "j \<in> set is"
    then have "nat j \<noteq> nat i" using i bk(1) Cons.prems(1) by (metis list.set_intros(2) nat_eq_iff2)
    then show "0 \<le> j \<and> bucket_holds ?b (nat j) reps" using Cons.prems(1) j by (auto simp: bucket_holds_def Let_def)
  qed
  then obtain b' where b': "bc_AddServer lib s is ?b = Some (BCR_SUCCESS, b')" "length (bc_clients b') = length (bc_clients b)" "bc_buckets_count b' = bc_buckets_count b"
    "bc_per_server b' = bc_per_server b" "\<forall>i \<in> set is. bucket_holds b' (nat i) (reps @ [s])" "\<forall>i. int i \<notin> set is \<longrightarrow> bc_clients b' ! i = bc_clients ?b ! i"
    using Cons.IH [of ?b] Cons.prems(2,3) by auto
  have "bc_clients b' ! nat i = bc_clients ?b ! nat i" using b'(6) i bk(1) by simp
  then have "bucket_holds b' (nat i) (reps @ [s])" using hold b'(2,4) by (intro bucket_holds_cong [OF hold]) simp_all
  then show ?case using step b' bk(1) by auto
qed simp

text \<open>All servers of a cluster are added to the same buckets.\<close>

primrec add_servers :: "'w memcached_lib \<Rightarrow> server list \<Rightarrow> int list \<Rightarrow> bucket_clients \<Rightarrow> (beansdb_client_ret_t \<times> bucket_clients) cxx" where
  "add_servers lib [] is b = Some (BCR_SUCCESS, b)"
| "add_servers lib (s # ss) is b =
     (case bc_AddServer lib s is b of
        None \<Rightarrow> None
      | Some (ret, b') \<Rightarrow> if ret \<noteq> BCR_SUCCESS then Some (ret, b') else add_servers lib ss is b')"

lemma add_servers_holds:
  assumes lib: "\<forall>s \<in> set ss. mc_AddServer lib s = BCR_SUCCESS \<and> SetAutoReset lib s = BCR_SUCCESS"
    and "\<forall>i \<in> set is. 0 \<le> i \<and> bucket_holds b (nat i) reps" "distinct is" "length reps + length ss \<le> bc_per_server b"
  shows "\<exists>b'. add_servers lib ss is b = Some (BCR_SUCCESS, b') \<and> length (bc_clients b') = length (bc_clients b) \<and> bc_buckets_count b' = bc_buckets_count b \<and>
    (\<forall>i \<in> set is. bucket_holds b' (nat i) (reps @ ss))"
  using assms
proof (induction ss arbitrary: b reps)
  case (Cons s ss)
  obtain b1 where b1: "bc_AddServer lib s is b = Some (BCR_SUCCESS, b1)" "length (bc_clients b1) = length (bc_clients b)" "bc_buckets_count b1 = bc_buckets_count b"
    "bc_per_server b1 = bc_per_server b" "\<forall>i \<in> set is. bucket_holds b1 (nat i) (reps @ [s])"
    using bc_AddServer_holds [of lib s "is" b reps] Cons.prems by auto
  then show ?case using Cons.IH [of b1 "reps @ [s]"] Cons.prems by auto
qed auto

lemma buckets_serve:
  assumes "\<forall>s \<in> set ss. mc_AddServer lib s = BCR_SUCCESS \<and> SetAutoReset lib s = BCR_SUCCESS" "distinct is" "\<forall>i \<in> set is. 0 \<le> i \<and> i < int n" "ss \<noteq> []"
  shows "\<exists>b. add_servers lib ss is (snd (bc_Init n (length ss) BucketClients_new)) = Some (BCR_SUCCESS, b) \<and>
    (\<forall>key. int (bucket_index key) \<in> set is \<longrightarrow> serves key b ss)"
proof -
  obtain r b0 where b0: "bc_Init n (length ss) BucketClients_new = (r, b0)" by fastforce
  note init = bc_Init_holds [OF b0]
  have "\<forall>i \<in> set is. 0 \<le> i \<and> bucket_holds b0 (nat i) []" using assms(3) init(5) by auto
  then obtain b where b: "add_servers lib ss is b0 = Some (BCR_SUCCESS, b)" "length (bc_clients b) = n" "bc_buckets_count b = n" "\<forall>i \<in> set is. bucket_holds b (nat i) ss"
    using add_servers_holds [OF assms(1), of "is" b0 "[]"] assms(2) init by auto
  have "serves key b ss" if "int (bucket_index key) \<in> set is" for key
    using b(2-4) that assms(3,4) by (fastforce simp: serves_def bucket_holds_def Let_def)
  then show ?thesis using b(1) b0 by simp
qed

end
