(* ===== verification/Beansdb_Clusters.thy ===== *)
theory Beansdb_Clusters
  imports Beansdb Text_Numbers
begin

text \<open>
  The clusters of the picture store, \<open>common/src/beansdb_clusters.cc\<close>: for each type of picture several
  clusters, each a pool of clients. The key of a picture names its type and its cluster. The functions of
  Boost on the configuration are the record \<open>conf_lib\<close>, the checksum \<open>boost::crc_32_type\<close> is the argument
  \<open>crc\<close>. A pool holds the addresses of its clients; a deleted client is missing in the heap.
\<close>

subsection \<open>Configuration\<close>

record conf_lib =
  cl_split :: "char \<Rightarrow> string \<Rightarrow> string list"
  cl_trim :: "string \<Rightarrow> string"
  cl_int :: "string \<Rightarrow> int option"
  cl_size :: "string \<Rightarrow> nat option"

record cluster_info =
  ci_pic_type :: string
  ci_cluster_flag :: string
  ci_pool_size :: int
  ci_cluster_scale :: nat
  ci_servers :: "server list"
  ci_bucket_count :: int
  ci_buckets :: "int list"

definition ClusterInfo :: cluster_info where
  "ClusterInfo = \<lparr>ci_pic_type = ''default'', ci_cluster_flag = ''default'', ci_pool_size = 0, ci_cluster_scale = 1, ci_servers = [],
     ci_bucket_count = 0, ci_buckets = []\<rparr>"

text \<open>The inner \<open>None\<close> is an exception, which \<open>ParseConf\<close> catches; a server without colon is read out of range.\<close>

primrec parse_servers :: "conf_lib \<Rightarrow> string list \<Rightarrow> server list \<Rightarrow> (server list option) cxx" where
  "parse_servers C [] acc = Some (Some acc)"
| "parse_servers C (x # xs) acc =
     (let si = cl_split C (CHR '':'') x in
      if length si < 2 then None
      else case (if si ! 1 = [] then Some 7900 else cl_int C (si ! 1)) of
        None \<Rightarrow> Some None
      | Some port \<Rightarrow> parse_servers C xs (acc @ [(si ! 0, word_of_int port)]))"

primrec parse_buckets :: "conf_lib \<Rightarrow> string list \<Rightarrow> int list \<Rightarrow> int list option" where
  "parse_buckets C [] acc = Some acc"
| "parse_buckets C (x # xs) acc = (case cl_int C (cl_trim C x) of None \<Rightarrow> None | Some i \<Rightarrow> parse_buckets C xs (acc @ [i]))"

definition parse_segment :: "conf_lib \<Rightarrow> string \<Rightarrow> cluster_info \<Rightarrow> (cluster_info option) cxx" where
  "parse_segment C seg info =
     (let kv = cl_split C (CHR ''='') seg in
      if length kv \<noteq> 2 then Some None
      else let key = cl_trim C (kv ! 0); value = cl_trim C (kv ! 1) in
        if key = ''type'' then Some (Some (info\<lparr>ci_pic_type := value\<rparr>))
        else if key = ''cluster_flag'' then Some (Some (info\<lparr>ci_cluster_flag := value\<rparr>))
        else if key = ''cluster_scale'' then Some (map_option (\<lambda>n. info\<lparr>ci_cluster_scale := n\<rparr>) (cl_size C value))
        else if key = ''pool_size'' then Some (map_option (\<lambda>n. info\<lparr>ci_pool_size := n\<rparr>) (cl_int C value))
        else if key = ''servers'' then map_option (map_option (\<lambda>ss. info\<lparr>ci_servers := ss\<rparr>)) (parse_servers C (cl_split C (CHR '','') value) (ci_servers info))
        else if key = ''buckets_num'' then Some (map_option (\<lambda>n. info\<lparr>ci_bucket_count := n\<rparr>) (cl_int C value))
        else if key = ''buckets'' then Some (map_option (\<lambda>is. info\<lparr>ci_buckets := is\<rparr>) (parse_buckets C (cl_split C (CHR '','') value) (ci_buckets info)))
        else Some None)"

primrec parse_segments :: "conf_lib \<Rightarrow> string list \<Rightarrow> cluster_info \<Rightarrow> (cluster_info option) cxx" where
  "parse_segments C [] info = Some (Some info)"
| "parse_segments C (x # xs) info =
     (case parse_segment C x info of None \<Rightarrow> None | Some None \<Rightarrow> Some None | Some (Some info') \<Rightarrow> parse_segments C xs info')"

definition ParseConf :: "conf_lib \<Rightarrow> string \<Rightarrow> (beansdb_client_ret_t \<times> cluster_info option) cxx" where
  "ParseConf C conf =
     map_option (\<lambda>r. (if r = None then BCR_CLUSTER_CONF_FAILED else BCR_SUCCESS, r)) (parse_segments C (cl_split C (CHR '';'') conf) ClusterInfo)"

subsection \<open>Pools of clients\<close>

record client_pool =
  bp_pool :: "nat com_pool"
  bp_heap :: "nat \<rightharpoonup> bucket_clients"

text \<open>
  \<open>Borrow\<close> without other threads: a wait without limit on a semaphore at zero does not return, which is
  \<open>None\<close> too.
\<close>

definition Borrow :: "int \<Rightarrow> 'c com_pool \<Rightarrow> ('c option \<times> 'c com_pool) cxx" where
  "Borrow waitms p =
     (case cp_sem p of
        0 \<Rightarrow> if waitms = 0 then None else Some (Borrow_scan p)
      | Suc n \<Rightarrow> Some (Borrow_scan (p\<lparr>cp_sem := n\<rparr>)))"

definition with_client ::
    "int \<Rightarrow> 'r \<Rightarrow> (bucket_clients \<Rightarrow> 'w \<Rightarrow> ('r \<times> 'w) cxx) \<Rightarrow> client_pool \<Rightarrow> 'w \<Rightarrow> ('r \<times> client_pool \<times> 'w) cxx" where
  "with_client wait unavailable call p w =
     (case Borrow wait (bp_pool p) of
        None \<Rightarrow> None
      | Some (None, cp) \<Rightarrow> Some (unavailable, p\<lparr>bp_pool := cp\<rparr>, w)
      | Some (Some a, cp) \<Rightarrow>
          (case bp_heap p a of
             None \<Rightarrow> None
           | Some b \<Rightarrow> map_option (\<lambda>(r, w'). (r, p\<lparr>bp_pool := Pool_Release a cp\<rparr>, w')) (call b w)))"



definition pool_Delete :: "'w memcached_lib \<Rightarrow> string \<Rightarrow> int \<Rightarrow> client_pool \<Rightarrow> 'w \<Rightarrow> (beansdb_client_ret_t \<times> client_pool \<times> 'w) cxx" where
  "pool_Delete lib key wait = with_client wait BCR_POOL_UNAVAILABLE_SOURCE (bd_Delete lib key)"

definition pool_Exist :: "'w memcached_lib \<Rightarrow> string \<Rightarrow> int \<Rightarrow> client_pool \<Rightarrow> 'w \<Rightarrow> (beansdb_client_ret_t \<times> client_pool \<times> 'w) cxx" where
  "pool_Exist lib key wait = with_client wait BCR_POOL_UNAVAILABLE_SOURCE
     (\<lambda>b w. map_option (\<lambda>(e, w'). (if e then BCR_SUCCESS else BCR_MEMCACHED_NOTFOUND, w')) (bd_Exist lib key b w))"

subsection \<open>The clusters\<close>

record cluster_scale =
  cs_kind :: string
  cs_flag :: string
  cs_scale :: nat

record beansdb_clusters =
  bz_clusters :: "string \<rightharpoonup> string \<rightharpoonup> client_pool"
  bz_location :: "cluster_scale list"


definition locate :: "cluster_info \<Rightarrow> cluster_scale list \<Rightarrow> cluster_scale list" where
  "locate info ls =
     (if \<exists>l \<in> set ls. cs_kind l = ci_pic_type info \<and> cs_flag l = ci_cluster_flag info then ls
      else ls @ [\<lparr>cs_kind = ci_pic_type info, cs_flag = ci_cluster_flag info, cs_scale = ci_cluster_scale info\<rparr>])"

text \<open>The clients of a new pool, at the addresses \<open>ks\<close>, and more servers for those of an old one.\<close>

primrec fill_new :: "'w memcached_lib \<Rightarrow> cluster_info \<Rightarrow> nat list \<Rightarrow> client_pool \<Rightarrow> (beansdb_client_ret_t \<times> client_pool) cxx" where
  "fill_new lib info [] p = Some (BCR_SUCCESS, p)"
| "fill_new lib info (k # ks) p =
     (case add_servers lib (ci_servers info) (ci_buckets info)
        (snd (bc_Init (unat (word_of_int (ci_bucket_count info) :: u32)) (length (ci_servers info)) BucketClients_new)) of
        None \<Rightarrow> None
      | Some (ret, b) \<Rightarrow>
          if ret \<noteq> BCR_SUCCESS then Some (ret, p)
          else fill_new lib info ks (p\<lparr>bp_pool := snd (Pool_Add k (bp_pool p)), bp_heap := (bp_heap p)(k \<mapsto> b)\<rparr>))"

primrec fill_old :: "'w memcached_lib \<Rightarrow> cluster_info \<Rightarrow> nat list \<Rightarrow> client_pool \<Rightarrow> (beansdb_client_ret_t \<times> client_pool) cxx" where
  "fill_old lib info [] p = Some (BCR_SUCCESS, p)"
| "fill_old lib info (k # ks) p =
     (case GetIndex k (bp_pool p) of
        None \<Rightarrow> None
      | Some a \<Rightarrow> (case bp_heap p a of
          None \<Rightarrow> None
        | Some b \<Rightarrow> (case add_servers lib (ci_servers info) (ci_buckets info) b of
            None \<Rightarrow> None
          | Some (ret, b') \<Rightarrow>
              if ret \<noteq> BCR_SUCCESS then Some (ret, p\<lparr>bp_heap := (bp_heap p)(a := None)\<rparr>)
              else fill_old lib info ks (p\<lparr>bp_heap := (bp_heap p)(a \<mapsto> b')\<rparr>))))"

text \<open>\<open>junk\<close> is the value of the semaphore of a new pool, which is never initialised.\<close>

definition AddCluster :: "conf_lib \<Rightarrow> 'w memcached_lib \<Rightarrow> nat \<Rightarrow> string \<Rightarrow> beansdb_clusters \<Rightarrow> (beansdb_client_ret_t \<times> beansdb_clusters) cxx" where
  "AddCluster C lib junk conf z =
     (case ParseConf C conf of
        None \<Rightarrow> None
      | Some (ret, None) \<Rightarrow> Some (ret, z)
      | Some (ret, Some info) \<Rightarrow>
          let z1 = z\<lparr>bz_location := locate info (bz_location z)\<rparr>; ty = ci_pic_type info; fl = ci_cluster_flag info;
            ks = [0..<nat (ci_pool_size info)];
            old = (case bz_clusters z ty of None \<Rightarrow> None | Some cs \<Rightarrow> cs fl);
            put = (\<lambda>p. z1\<lparr>bz_clusters := (bz_clusters z)(ty \<mapsto> (case bz_clusters z ty of None \<Rightarrow> Map.empty | Some cs \<Rightarrow> cs)(fl \<mapsto> p))\<rparr>) in
          (case old of
             Some p \<Rightarrow> map_option (\<lambda>(ret, p'). (ret, put p')) (fill_old lib info ks p)
           | None \<Rightarrow>
               map_option (\<lambda>(ret, p'). if ret \<noteq> BCR_SUCCESS then (ret, z1) else (BCR_SUCCESS, put p'))
                 (fill_new lib info ks \<lparr>bp_pool = ComPool (ci_pool_size info) junk, bp_heap = Map.empty\<rparr>)))"

primrec AddClusters :: "conf_lib \<Rightarrow> 'w memcached_lib \<Rightarrow> nat \<Rightarrow> string list \<Rightarrow> beansdb_clusters \<Rightarrow> (beansdb_client_ret_t \<times> beansdb_clusters) cxx" where
  "AddClusters C lib junk [] z = Some (BCR_SUCCESS, z)"
| "AddClusters C lib junk (c # cs) z = (case AddCluster C lib junk c z of None \<Rightarrow> None | Some (_, z') \<Rightarrow> AddClusters C lib junk cs z')"

subsection \<open>Keys\<close>








text \<open>The names of the clusters, as often as their share says, in an array of 100.\<close>

primrec fill_allocation :: "string \<Rightarrow> cluster_scale list \<Rightarrow> string list \<Rightarrow> (string list) cxx" where
  "fill_allocation kind [] acc = Some acc"
| "fill_allocation kind (l # ls) acc =
     (if cs_kind l = kind then
        if 100 < length acc + cs_scale l then None else fill_allocation kind ls (acc @ replicate (cs_scale l) (cs_flag l))
      else fill_allocation kind ls acc)"

definition GenClusterLocate :: "(string \<Rightarrow> u32) \<Rightarrow> string \<Rightarrow> string \<Rightarrow> beansdb_clusters \<Rightarrow> (beansdb_client_ret_t \<times> string option) cxx" where
  "GenClusterLocate crc md5 kind z =
     (case fill_allocation (if kind \<noteq> ''picdetail'' then ''default'' else kind) (bz_location z) [] of
        None \<Rightarrow> None
      | Some al \<Rightarrow> if al = [] then Some (BCR_NOCLUSTER_FOUND, None) else Some (BCR_SUCCESS, Some (al ! (unat (crc md5) mod length al))))"


subsection \<open>The key of a picture names its cluster\<close>







subsection \<open>Shares of the clusters\<close>

definition of_kind :: "string \<Rightarrow> cluster_scale list \<Rightarrow> cluster_scale list" where
  "of_kind kind ls = filter (\<lambda>l. cs_kind l = (if kind \<noteq> ''picdetail'' then ''default'' else kind)) ls"

definition share_sum :: "string \<Rightarrow> beansdb_clusters \<Rightarrow> nat" where
  "share_sum kind z = sum_list (map cs_scale (of_kind kind (bz_location z)))"

lemma fill_allocation_eq:
  "length acc \<le> 100 \<Longrightarrow> fill_allocation k ls acc =
     (if length acc + sum_list (map cs_scale (filter (\<lambda>l. cs_kind l = k) ls)) \<le> 100
      then Some (acc @ concat (map (\<lambda>l. replicate (cs_scale l) (cs_flag l)) (filter (\<lambda>l. cs_kind l = k) ls))) else None)"
  by (induction ls arbitrary: acc) auto

lemma filter_allocation:
  "length (filter (\<lambda>x. x = f) (concat (map (\<lambda>l. replicate (cs_scale l) (cs_flag l)) ls))) = sum_list (map cs_scale (filter (\<lambda>l. cs_flag l = f) ls))"
  by (induction ls) auto

text \<open>
  Clusters: if the shares of the clusters of a type add up to at most 100, pictures are spread over
  an array in which every cluster has as many places as its share, at the place their checksum gives;
  if they add up to more, the array is written behind its end.
\<close>

theorem GenClusterLocate_shares:
  "if 100 < share_sum kind z then \<forall>md5. GenClusterLocate crc md5 kind z = None
    else if share_sum kind z = 0 then \<forall>md5. GenClusterLocate crc md5 kind z = Some (BCR_NOCLUSTER_FOUND, None)
    else \<exists>al. length al = share_sum kind z \<and> (\<forall>f. length (filter (\<lambda>x. x = f) al) = sum_list (map cs_scale (filter (\<lambda>l. cs_flag l = f) (of_kind kind (bz_location z))))) \<and>
      (\<forall>md5. GenClusterLocate crc md5 kind z = Some (BCR_SUCCESS, Some (al ! (unat (crc md5) mod share_sum kind z))))"
proof -
  let ?ls = "of_kind kind (bz_location z)"
  let ?al = "concat (map (\<lambda>l. replicate (cs_scale l) (cs_flag l)) ?ls)"
  have len: "length ?al = share_sum kind z" by (simp add: share_sum_def length_concat comp_def)
  have fill: "fill_allocation (if kind \<noteq> ''picdetail'' then ''default'' else kind) (bz_location z) [] = (if share_sum kind z \<le> 100 then Some ?al else None)"
    using fill_allocation_eq [of "[]" "if kind \<noteq> ''picdetail'' then ''default'' else kind" "bz_location z"] by (simp add: share_sum_def of_kind_def)
  consider (over) "100 < share_sum kind z" | (none) "share_sum kind z = 0" | (some) "share_sum kind z \<le> 100" "share_sum kind z \<noteq> 0" by linarith
  then show ?thesis
  proof cases
    case some
    then have "?al \<noteq> []" using len by (metis list.size(3))
    then have "\<forall>md5. GenClusterLocate crc md5 kind z = Some (BCR_SUCCESS, Some (?al ! (unat (crc md5) mod share_sum kind z)))"
      using fill some(1) unfolding len [symmetric] GenClusterLocate_def by simp
    then show ?thesis using some len filter_allocation by (simp only: not_less [symmetric] if_False) blast
  next
    case none
    then have "?al = []" using len by (metis length_0_conv)
    then show ?thesis using fill none by (simp add: GenClusterLocate_def)
  qed (use fill in \<open>simp add: GenClusterLocate_def\<close>)
qed

subsection \<open>Storing and reading pictures\<close>


















end
