(* ===== verification/Spec2Isabelle.thy ===== *)
theory Spec2Isabelle
  imports Index_Merger Ransac Merge_Service Array_List Token_Mgr State_Machine Crc32 Service_Selector Fix_Head_Msg Buffer Half_Duplex
    Http_Response Normalize_Jobs Memcached Beansdb_Clusters
begin

text \<open>
  \<^bold>\<open>Verification of the image search system mlsimgsearch.\<close>

  The system finds similar pictures. A picture is a bag of visual words: each word carries a
  weight, a text of Hamming signatures and a text of angles. The \<^emph>\<open>indexer\<close> turns pictures into
  an inverted index (one list of items per word, stored as bytes behind a directory). A
  \<^emph>\<open>search daemon\<close> cuts the words of a query into ranges and sends each to the \<^emph>\<open>merge servers\<close>
  that hold it; a merge server walks the lists of its words and adds up products and norms
  picture by picture. The daemon adds up the answers, ranks by cosine and lets \<^emph>\<open>rank servers\<close>
  re-rank the head of the list by a RANSAC estimate. The servers run on the network library
  \<open>blitz\<close> and its successor \<open>blitz2\<close>, of which the array list, the token manager, the state
  machine, the service selectors with their hash functions, the decoders that cut a stream of bytes
  into messages, the buffers and the sending side of a channel are modelled. Pictures are kept in a
  \<^emph>\<open>picture store\<close>, clusters of Memcached servers reached through pools of clients.

  \<^bold>\<open>Theories and sources\<close> (paths under \<open>src/\<close>; \<open>B\<close> is \<open>image_search/bof_core/src\<close>,
  \<open>L\<close> is \<open>libsrc/blitz/include/blitz\<close>):

  \<^item> \<open>Prelude\<close>: machine types, the type \<open>cxx\<close>, digits, bytes, paths through linked cells.
  \<^item> \<open>Float32\<close>: \<open>float\<close> as a bit pattern; comparisons are computed, the arithmetic of the sources
    is the record \<open>f32_ops\<close> that the definitions take; locale \<open>std_sort\<close> with its interpretation.
  \<^item> \<open>Bit_Count\<close>, \<open>Hamming\<close>: \<open>B/hamming_embedding_descriptor.cc\<close> - coding of descriptors as
    hexadecimal signatures, decoding, and counting of similar pairs.
  \<^item> \<open>Weak_Geometry\<close>: \<open>B/weak_geometry_consistency.cc\<close> - histogram of angle differences.
  \<^item> \<open>Hinter\<close>: \<open>B/index_hinter.cc\<close> - directory of the index; its contract is the locale
    \<open>directory\<close>, interpreted as \<open>hints\<close>.
  \<^item> \<open>Serializer\<close>: \<open>B/indexer_serializer.cc\<close> - byte images; the contract of an item codec is the
    locale \<open>record_codec\<close>, interpreted as \<open>item_codec\<close>.
  \<^item> \<open>Index\<close>: \<open>B/indexer.cc\<close> - buckets, their conversion to words, class \<open>BOFIndex\<close>.
  \<^item> \<open>Index_Writer\<close>: \<open>image_search/indexer/src/reducer_result.cc\<close>;
    \<open>Index_Merger\<close>: \<open>image_search/indexer/src/merger.cc\<close>.
  \<^item> \<open>Quantizer\<close>: \<open>B/knn_quantizer.cc\<close>, \<open>gmm_quantizer.cc\<close>, \<open>idf_weighter.cc\<close> - descriptors to words,
    weights of words - and the registry of prototypes \<open>object_selector.h\<close>.
  \<^item> \<open>Indexer_Jobs\<close>, \<open>Normalize_Jobs\<close>: the streaming programs of \<open>image_search/indexer/src\<close> (\<open>mapper\<close>,
    \<open>reducer\<close>, \<open>normalize_mapper\<close>, \<open>normalize_reducer\<close>, \<open>after_normalize_reducer\<close>, \<open>formatter\<close>,
    \<open>image_quantized_serializer\<close>), from the text on standard input to the text on standard output.
    The contracts of a handler of lines, of groups of lines and of buckets are the locales
    \<open>line_job\<close>, \<open>group_job\<close> and \<open>bucket_job\<close>, interpreted for the reducers.
  \<^item> \<open>Searcher\<close>: \<open>B/searcher.cc\<close> - accumulation and ranking of candidates.
  \<^item> \<open>Ransac\<close>: \<open>B/ransac_ranker.cc\<close>, \<open>parallel_compute/src/ranker_processor.cc\<close>.
  \<^item> \<open>Common_Search\<close>: \<open>image_search/searchd/src/common_search.cc\<close> - dispatch, merge of answers,
    result text, and the interleaving of the merge threads as a step relation.
  \<^item> \<open>Merge_Service\<close>: \<open>parallel_compute/src/merge_processor.cc\<close>, \<open>searchd/src/exec_threads.cc\<close>.
  \<^item> \<open>Array_List\<close>: \<open>L/array_list.h\<close>; contract \<open>slot_list\<close>, interpreted as \<open>al_list\<close>.
  \<^item> \<open>Token_Mgr\<close>: \<open>L/token_mgr.h\<close>; contract \<open>token_store\<close>, interpreted as \<open>tokens\<close>.
  \<^item> \<open>State_Machine\<close>: \<open>L/state_machine.h\<close> - tables, contexts, callbacks; runs of one thread and
    interleavings of several as inductive relations.
  \<^item> \<open>Crc32\<close>, \<open>Md5\<close>: \<open>libsrc/utils/src/crc32.cpp\<close> and \<open>md5_new.cpp\<close>.
  \<^item> \<open>Service_Selector\<close>: \<open>L/service_selector.h\<close>, \<open>libsrc/blitz/src/service_selector.cc\<close> -
    binary search and the consistent-hash ring.
  \<^item> \<open>Msg_Decoder\<close>: \<open>line_msg\<close> of \<open>blitz\<close> and \<open>blitz2\<close>, with the round of the connection that reads
    into the buffer of a decoder and feeds it. The contract of a decoder is the locale
    \<open>stream_decoder\<close>, interpreted as \<open>lines1\<close>, \<open>lines2\<close> and, in \<open>Fix_Head_Msg\<close>, \<open>frames1\<close>, \<open>frames2\<close>.
  \<^item> \<open>Fix_Head_Msg\<close>: \<open>fix_head_msg\<close> of both versions, and the memory transports of Thrift
    (\<open>L/thrift_msg.h\<close>). Reading back what was written is the locale \<open>byte_source\<close> of the prelude,
    interpreted as \<open>mem_source\<close> and, in \<open>Buffer\<close>, as \<open>reader\<close>.
  \<^item> \<open>Buffer\<close>: \<open>L/buffer.h\<close>, \<open>libsrc/blitz/src/buffer.cc\<close> - typed writing and reading over blocks.
  \<^item> \<open>Stream_Channel\<close>: \<open>libsrc/blitz2/include/blitz2/stream_socket_channel.h\<close> - connecting, queueing
    and sending of messages with partial writes, closing.
  \<^item> \<open>Reactor\<close>: \<open>libsrc/blitz2/src/reactor.cc\<close> - timers and tasks; the contract of the timers is the
    locale \<open>timer_store\<close>, interpreted as \<open>reactor\<close>.
  \<^item> \<open>Half_Duplex\<close>: \<open>libsrc/blitz2/include/blitz2/half_duplex_service.h\<close> - queries over a limited set
    of connections, on \<open>Stream_Channel\<close> and \<open>Reactor\<close>; runs of events as an inductive relation.
  \<^item> \<open>Http_Request\<close>, \<open>Http_Response\<close>: \<open>libsrc/blitz2/src/http/http_common.cc\<close> and \<open>http_server.cc\<close> -
    URIs, decoders of requests and responses over their buffers, printing of responses.
    \<open>Memcached\<close>: \<open>libsrc/blitz2/include/blitz2/memcached\<close> - requests and replies over their buffers.
    \<open>Text_Numbers\<close> holds the numbers in texts, as the C library reads and prints them.
  \<^item> \<open>Com_Pool\<close>: \<open>libsrc/utils/include/utils/com_pool.h\<close> - the pool of components, with threads that borrow and
    give back as a step relation. \<open>Beansdb\<close>: \<open>common/src/memcached_client.cc\<close> and \<open>beansdb_client.cc\<close> - hashing
    of keys, buckets, storing and reading on several servers. \<open>Beansdb_Clusters\<close>: \<open>common/src/beansdb_clusters.cc\<close> -
    configuration, clusters, shares and the keys of pictures.

  \<^bold>\<open>Conventions.\<close> A class is a record, an operation a function that returns the changed record
  and the return code. The result type \<open>cxx\<close> is \<open>option\<close>: \<open>None\<close> is undefined behaviour, an
  exception or a failed assertion, so that a theorem \<open>f x = Some y\<close> states that the call is defined
  and returns. Integers whose width matters are words; \<open>std::map\<close> with integer keys is its
  sequence of entries; pointers into arrays are indexes, checked against the array. Values the
  constructors leave uninitialised are arguments (\<open>junk\<close>). Boost archives, OpenCV results, Thrift
  answers and random numbers are arguments of the definitions that use them; what is assumed of
  them (an archive that reads back what it wrote) is a hypothesis of the theorem, with a witness.

  \<^bold>\<open>What is shown.\<close>
  \<^item> Signatures: coder and decoder are inverse to each other up to the comparison with the medians;
    the parallel bit count is exact; the comparison counts exactly the similar pairs.
  \<^item> Index: images of words can be read back in any context; the index written from the output of
    the reducers, and the one written by the merger, return every word through the directory; the
    merge of two words is the override of one finite map by the other. A quantised picture has the
    accepted words with their rows in order, its texts convert to one signature and angle per row, and
    sorted lines run through the reducers give an index that returns every word.
  \<^item> Search: the lists stay sorted by picture, products and norms are those of the sequential sum
    over the query words; dispatch loses no word; every interleaving keeps the lists sorted, but
    the shared norm can lose an addition; ranking keeps and orders exactly the good candidates; the
    spatial ranking returns the candidates with enough inliers, counted over the samples drawn.
  \<^item> Library: the array list refines a sequence, the token manager a store with salted names; each
    context of the state machine is called back exactly once in one thread, and under the stated
    conditions at most once in several; the ring of the selector is sorted and consistent after any
    additions and removals, selects the clockwise successor and moves keys only to a new server;
    CRC-32 by table is CRC-32 by bits; MD5 does not depend on how a message is cut.
  \<^item> Messages: under the stated conditions on the chunks the decoders report exactly the messages of
    the stream, whatever its pieces; frames and buffered values are read back as written; a channel
    sends the submitted messages in order, whatever parts of them the kernel accepts.
  \<^item> HTTP: parameters, requests in one piece and printed responses with content are read back; a header
    cut in two is refused; responses in chunks are put together. Memcached: set requests and replies with values are reported whole,
    whatever their pieces, if none ends inside the end of the first line.
  \<^item> Queries: in every run each query waits in exactly one place or has been called back exactly once,
    idle and busy connections and running timers agree, and every event is handled to the end, except
    that a message on an idle connection is a null pointer access and that the timer ids can be used up.
    A query that a stale close ended too early leaves such an idle connection with an answer to come.
  \<^item> Store: no component of a pool has two holders; what is stored under the name generated for a
    picture is read back from the cluster that the name gives, while servers that missed it are away.
  \<^item> Defects of the code are theorems too: wrap-around of \<open>short\<close> lengths, an uninitialised
    histogram cell, reads past the end of an answer, loops that do not end, lost updates, bytes of
    a line that are lost or repeated, heads that must arrive whole, stale bytes on a new connection,
    an array that is too short for the first line of a response, lines of pictures that the
    normalising reducer drops or prints under a wrong number, a request length that wraps at 32 bits.

  \<^bold>\<open>Loops and bounds.\<close> Loops that end are recursive functions with a termination proof. The random
  sampling of RANSAC may not end: it is a partial function over a stream of random values; that it ends
  when the values do not get stuck, with which samples, and that it never ends with one or two matches,
  is proved. Entering a
  state of the machine can run for ever through its entry actions; it is a partial function, and
  its return is proved for entry actions that descend. The digit scanner of the buffer reader has
  fuel; that no fuel suffices on digits up to the end of a block is proved. The loop over queued
  queries has one round more than there are queries, which is proved enough when callbacks only issue
  queries with a positive timeout.

  \<^bold>\<open>Not modelled.\<close> Feature detection, nearest neighbours and clustering (OpenCV and floating-point
  numerics), MySQL, Redis and Thrift end points, the HTTP parts of \<open>blitz\<close> and the epoll loops (system calls
  and client libraries decide their behaviour), logging, configuration, XML and JSON wrappers,
  generated Thrift code, grammars for bison and flex, and the parts of the binlog reader copied
  from MySQL.
\<close>

end
